(* ===== verification/Prelude.thy ===== *)
theory Prelude
  imports Main "HOL-Library.Word"
begin

text \<open>
  Shared vocabulary of the development: the machine types of the Rust sources, results with the
  \<open>?\<close> operator, checked \<open>usize\<close> arithmetic, slices and slice writes, little-endian codecs, UTF-8
  validation as \<open>std::str::from_utf8\<close> performs it, and the cursor predicate on which every
  decoder proof rests.
\<close>

unbundle bit_operations_syntax

type_synonym byte = "8 word"
type_synonym u8 = "8 word"
type_synonym u16 = "16 word"
type_synonym u32 = "32 word"
type_synonym u64 = "64 word"
type_synonym u128 = "128 word"
type_synonym usize = nat
type_synonym ('e, 'a) res = "'e + 'a"

named_theorems cursor_simps \<open>steps of a cursor over an encoded payload\<close>
named_theorems eval_simps \<open>unfolding of the model on concrete input\<close>

section \<open>Results\<close>

text \<open>\<open>bindR\<close> is Rust's \<open>?\<close>: an error returns at once, a success is passed on.\<close>

definition bindR :: "('e, 'a) res \<Rightarrow> ('a \<Rightarrow> ('e, 'b) res) \<Rightarrow> ('e, 'b) res" where
  "bindR m f = (case m of Inl e \<Rightarrow> Inl e | Inr x \<Rightarrow> f x)"

definition ok_or :: "'e \<Rightarrow> 'a option \<Rightarrow> ('e, 'a) res" where
  "ok_or e m = (case m of None \<Rightarrow> Inl e | Some x \<Rightarrow> Inr x)"

definition map_err :: "('e \<Rightarrow> 'f) \<Rightarrow> ('e, 'a) res \<Rightarrow> ('f, 'a) res" where
  "map_err f m = (case m of Inl e \<Rightarrow> Inl (f e) | Inr x \<Rightarrow> Inr x)"

definition ensure :: "bool \<Rightarrow> 'e \<Rightarrow> ('e, unit) res" where
  "ensure c e = (if c then Inr () else Inl e)"

definition is_ok :: "('e, 'a) res \<Rightarrow> bool" where
  "is_ok m = (case m of Inl _ \<Rightarrow> False | Inr _ \<Rightarrow> True)"

text \<open>A \<open>for\<close> loop whose body can return early with an error.\<close>

fun for_each :: "('a \<Rightarrow> ('e, unit) res) \<Rightarrow> 'a list \<Rightarrow> ('e, unit) res" where
  "for_each f [] = Inr ()"
| "for_each f (x # xs) = bindR (f x) (\<lambda>_. for_each f xs)"

text \<open>\<open>iter().map(f).collect::<Result<Vec<_>, _>>()\<close>.\<close>

fun collect :: "('a \<Rightarrow> ('e, 'b) res) \<Rightarrow> 'a list \<Rightarrow> ('e, 'b list) res" where
  "collect f [] = Inr []"
| "collect f (x # xs) = bindR (f x) (\<lambda>y. bindR (collect f xs) (\<lambda>ys. Inr (y # ys)))"

lemma bindR_simps [simp]:
  "bindR (Inl e) f = Inl e"
  "bindR (Inr x) f = f x"
  by (simp_all add: bindR_def)

lemma bindR_cong [fundef_cong]:
  "m = m' \<Longrightarrow> (\<And>x. m' = Inr x \<Longrightarrow> f x = g x) \<Longrightarrow> bindR m f = bindR m' g"
  by (simp add: bindR_def split: sum.splits)

lemma bindR_Inr_iff [simp]:
  "bindR m f = Inr y \<longleftrightarrow> (\<exists>x. m = Inr x \<and> f x = Inr y)"
  by (simp add: bindR_def split: sum.splits)

lemma bindR_Inl_iff:
  "bindR m f = Inl e \<longleftrightarrow> m = Inl e \<or> (\<exists>x. m = Inr x \<and> f x = Inl e)"
  by (auto simp add: bindR_def split: sum.splits)

lemma ensure_simps [simp]:
  "ensure True e = Inr ()"
  "ensure False e = Inl e"
  "ensure c e = Inr u \<longleftrightarrow> c"
  "ensure c e = Inl e' \<longleftrightarrow> \<not> c \<and> e' = e"
  by (auto simp: ensure_def)

lemma bindR_ensure:
  "bindR (ensure c e) f = (if c then f () else Inl e)"
  by (simp add: ensure_def)

lemma ok_or_simps [simp]:
  "ok_or e None = Inl e"
  "ok_or e (Some x) = Inr x"
  "ok_or e m = Inr y \<longleftrightarrow> m = Some y"
  "ok_or e m = Inl e' \<longleftrightarrow> m = None \<and> e' = e"
  by (auto simp: ok_or_def split: option.splits)

lemma map_err_simps [simp]:
  "map_err f (Inl e) = Inl (f e)"
  "map_err f (Inr x) = Inr x"
  "map_err f m = Inr y \<longleftrightarrow> m = Inr y"
  by (auto simp: map_err_def split: sum.splits)

lemma is_ok_simps [simp]:
  "is_ok (Inl e) = False"
  "is_ok (Inr x) = True"
  by (simp_all add: is_ok_def)

lemma for_each_Inr_iff:
  "for_each f xs = Inr u \<longleftrightarrow> (\<forall>x \<in> set xs. f x = Inr ())"
  by (induction xs) auto

lemma collect_Inr_length:
  "collect f xs = Inr ys \<Longrightarrow> length ys = length xs"
  by (induction xs arbitrary: ys) auto

lemma collect_Inr_nth:
  "collect f xs = Inr ys \<Longrightarrow> i < length xs \<Longrightarrow> f (xs ! i) = Inr (ys ! i)"
  by (induction xs arbitrary: ys i) (auto simp: nth_Cons split: nat.splits)

lemma collect_all_Inr:
  "(\<And>x. x \<in> set xs \<Longrightarrow> f x = Inr (g x)) \<Longrightarrow> collect f xs = Inr (map g xs)"
  by (induction xs) auto

section \<open>Sizes and checked arithmetic\<close>

definition USIZE_MAX :: usize where "USIZE_MAX = 2 ^ 64 - 1"

text \<open>A Rust allocation never exceeds \<open>isize::MAX\<close> bytes; every real slice satisfies this bound.\<close>

definition ISIZE_MAX :: usize where "ISIZE_MAX = 2 ^ 63 - 1"

definition U32_MAX :: nat where "U32_MAX = 4294967295"
definition U16_MAX :: nat where "U16_MAX = 65535"

definition checked_add :: "usize \<Rightarrow> usize \<Rightarrow> usize option" where
  "checked_add a b = (if a + b \<le> USIZE_MAX then Some (a + b) else None)"

definition checked_mul :: "usize \<Rightarrow> usize \<Rightarrow> usize option" where
  "checked_mul a b = (if a * b \<le> USIZE_MAX then Some (a * b) else None)"

definition checked_sub :: "usize \<Rightarrow> usize \<Rightarrow> usize option" where
  "checked_sub a b = (if b \<le> a then Some (a - b) else None)"

definition checked_add_u64 :: "u64 \<Rightarrow> u64 \<Rightarrow> u64 option" where
  "checked_add_u64 a b = (if unat a + unat b < 2 ^ 64 then Some (a + b) else None)"

definition u32_try_from :: "usize \<Rightarrow> u32 option" where
  "u32_try_from n = (if n \<le> U32_MAX then Some (of_nat n) else None)"

definition u16_try_from :: "usize \<Rightarrow> u16 option" where
  "u16_try_from n = (if n \<le> U16_MAX then Some (of_nat n) else None)"

definition fits :: "usize \<Rightarrow> bool" where
  "fits n \<longleftrightarrow> n \<le> ISIZE_MAX"

lemma checked_add_Some_iff: "checked_add a b = Some c \<longleftrightarrow> a + b \<le> USIZE_MAX \<and> c = a + b"
  by (auto simp: checked_add_def)

lemma checked_add_None_iff: "checked_add a b = None \<longleftrightarrow> USIZE_MAX < a + b"
  by (auto simp: checked_add_def)

lemma u32_try_from_Some_iff: "u32_try_from n = Some w \<longleftrightarrow> n \<le> U32_MAX \<and> w = of_nat n"
  by (auto simp: u32_try_from_def)

lemma u16_try_from_Some_iff: "u16_try_from n = Some w \<longleftrightarrow> n \<le> U16_MAX \<and> w = of_nat n"
  by (auto simp: u16_try_from_def)

lemma unat_of_nat_u32 [simp]: "n \<le> U32_MAX \<Longrightarrow> unat (of_nat n :: u32) = n"
  by (simp add: U32_MAX_def unat_of_nat take_bit_nat_eq_self)

lemma unat_of_nat_u16 [simp]: "n \<le> U16_MAX \<Longrightarrow> unat (of_nat n :: u16) = n"
  by (simp add: U16_MAX_def unat_of_nat take_bit_nat_eq_self)

lemma unat_of_nat_u64: "n < 2 ^ 64 \<Longrightarrow> unat (of_nat n :: u64) = n"
  by (simp add: unat_of_nat take_bit_nat_eq_self)

lemma checked_add_fits: "fits a \<Longrightarrow> b \<le> 2 ^ 63 \<Longrightarrow> checked_add a b = Some (a + b)"
  by (simp add: checked_add_def fits_def ISIZE_MAX_def USIZE_MAX_def)

lemma unat_u32_le: "unat (w :: u32) \<le> U32_MAX"
proof -
  have "unat w < 2 ^ LENGTH(32)" by (rule unsigned_less)
  then show ?thesis by (simp add: U32_MAX_def)
qed

lemma unat_u16_le: "unat (w :: u16) \<le> U16_MAX"
proof -
  have "unat w < 2 ^ LENGTH(16)" by (rule unsigned_less)
  then show ?thesis by (simp add: U16_MAX_def)
qed

section \<open>Slices\<close>

definition slice :: "'a list \<Rightarrow> usize \<Rightarrow> usize \<Rightarrow> 'a list" where
  "slice xs a b = take (b - a) (drop a xs)"

text \<open>\<open>xs.get(a..b)\<close>\<close>

definition get_range :: "'a list \<Rightarrow> usize \<Rightarrow> usize \<Rightarrow> 'a list option" where
  "get_range xs a b = (if a \<le> b \<and> b \<le> length xs then Some (slice xs a b) else None)"

text \<open>\<open>xs.get(i)\<close>\<close>

definition get_at :: "'a list \<Rightarrow> usize \<Rightarrow> 'a option" where
  "get_at xs i = (if i < length xs then Some (xs ! i) else None)"

text \<open>\<open>xs[a..a + src.len()].copy_from_slice(src)\<close>; the sources only write inside the buffer.\<close>

definition copy_at :: "'a list \<Rightarrow> usize \<Rightarrow> 'a list \<Rightarrow> 'a list" where
  "copy_at xs a src = take a xs @ src @ drop (a + length src) xs"

lemma length_slice [simp]: "a \<le> b \<Longrightarrow> b \<le> length xs \<Longrightarrow> length (slice xs a b) = b - a"
  by (simp add: slice_def)

lemma length_copy_at [simp]: "a + length src \<le> length xs \<Longrightarrow> length (copy_at xs a src) = length xs"
  by (simp add: copy_at_def)

lemma nth_slice: "a + i < b \<Longrightarrow> b \<le> length xs \<Longrightarrow> slice xs a b ! i = xs ! (a + i)"
  by (simp add: slice_def)

lemma nth_copy_at:
  assumes "a + length src \<le> length xs" "i < length xs"
  shows "copy_at xs a src ! i = (if a \<le> i \<and> i < a + length src then src ! (i - a) else xs ! i)"
  using assms by (auto simp: copy_at_def nth_append min_def)

lemma slice_copy_at_same [simp]:
  assumes "a + length src \<le> length xs" "b = a + length src"
  shows "slice (copy_at xs a src) a b = src"
  using assms by (simp add: slice_def copy_at_def)

lemma slice_eqI:
  assumes "b \<le> length xs" "b \<le> length ys"
    and "\<And>i. a \<le> i \<Longrightarrow> i < b \<Longrightarrow> xs ! i = ys ! i"
  shows "slice xs a b = slice ys a b"
proof (cases "a \<le> b")
  case True
  then show ?thesis
    using assms by (intro nth_equalityI) (simp_all add: nth_slice)
next
  case False
  then show ?thesis by (simp add: slice_def)
qed

lemma slice_copy_at_other:
  assumes "a + length src \<le> length xs" "d \<le> length xs"
    and "d \<le> a \<or> a + length src \<le> c"
  shows "slice (copy_at xs a src) c d = slice xs c d"
  by (rule slice_eqI) (use assms in \<open>auto simp: nth_copy_at\<close>)

lemma copy_at_0: "length a = length src \<Longrightarrow> copy_at (a @ rest) 0 src = src @ rest"
  by (simp add: copy_at_def)

lemma copy_at_skip: "length a \<le> i \<Longrightarrow> copy_at (a @ rest) i src = a @ copy_at rest (i - length a) src"
  by (simp add: copy_at_def)

lemma copy_at_Cons: "0 < i \<Longrightarrow> copy_at (a # rest) i src = a # copy_at rest (i - 1) src"
  by (cases i) (simp_all add: copy_at_def)

lemma slice_append_here: "length a = i \<Longrightarrow> i + length b = j \<Longrightarrow> slice (a @ b @ c) i j = b"
  by (auto simp: slice_def)

lemma copy_at_all: "length a = length src \<Longrightarrow> copy_at a 0 src = src"
  by (simp add: copy_at_def)

lemma slice_pair: "i + 2 \<le> length p \<Longrightarrow> [p ! i, p ! Suc i] = slice p i (i + 2)"
  by (auto simp: list_eq_iff_nth_eq nth_slice less_Suc_eq numeral_2_eq_2)

lemma slice_whole [simp]: "slice xs 0 (length xs) = xs"
  by (simp add: slice_def)

lemma get_range_Some_iff:
  "get_range xs a b = Some ys \<longleftrightarrow> a \<le> b \<and> b \<le> length xs \<and> ys = slice xs a b"
  by (auto simp: get_range_def)

lemma get_at_Some_iff: "get_at xs i = Some x \<longleftrightarrow> i < length xs \<and> x = xs ! i"
  by (auto simp: get_at_def)

section \<open>Little-endian integers\<close>

primrec le_bytes :: "nat \<Rightarrow> 'a::len word \<Rightarrow> byte list" where
  "le_bytes 0 w = []"
| "le_bytes (Suc n) w = ucast w # le_bytes n (drop_bit 8 w)"

definition to_le_bytes :: "'a::len word \<Rightarrow> byte list" where
  "to_le_bytes (w :: 'a word) = le_bytes (LENGTH('a) div 8) w"

primrec from_le_bytes :: "byte list \<Rightarrow> 'a::len word" where
  "from_le_bytes [] = 0"
| "from_le_bytes (b # bs) = ucast b OR push_bit 8 (from_le_bytes bs)"

lemma length_le_bytes [simp]: "length (le_bytes n w) = n"
  by (induction n arbitrary: w) auto

lemma length_to_le_bytes [simp]: "length (to_le_bytes (w :: 'a::len word)) = LENGTH('a) div 8"
  by (simp add: to_le_bytes_def)

lemma le_bytes_numeral [simp]:
  "le_bytes (numeral k) w = ucast w # le_bytes (pred_numeral k) (drop_bit 8 w)"
  by (simp add: numeral_eq_Suc)

lemma nth_le_bytes: "i < n \<Longrightarrow> le_bytes n w ! i = ucast (drop_bit (8 * i) w)"
  by (induction n arbitrary: w i) (auto simp: nth_Cons drop_bit_drop_bit ac_simps split: nat.splits)

lemma bit_from_le_bytes:
  "bit (from_le_bytes bs :: 'a::len word) i \<longleftrightarrow>
     i < LENGTH('a) \<and> i div 8 < length bs \<and> bit (bs ! (i div 8)) (i mod 8)"
proof (induction bs arbitrary: i)
  case Nil
  then show ?case by simp
next
  case (Cons b bs)
  show ?case
  proof (cases "i < 8")
    case True
    then show ?thesis by (auto simp: bit_simps)
  next
    case False
    then obtain j where j: "i = j + 8" using le_Suc_ex[of 8 i] by (auto simp: ac_simps)
    have "\<not> bit (ucast b :: 'a word) i"
      using False by (auto simp: bit_simps dest: bit_imp_le_length)
    moreover have "(j + 8) div 8 = Suc (j div 8)" by simp
    ultimately show ?thesis
      using j Cons.IH[of j] by (auto simp: bit_simps)
  qed
qed

lemma from_le_bytes_le_bytes:
  assumes "LENGTH('a) \<le> 8 * n"
  shows "from_le_bytes (le_bytes n w) = (w :: 'a::len word)"
proof (rule bit_word_eqI)
  fix i assume i: "i < LENGTH('a)"
  have "i div 8 < n" using i assms by arith
  then show "bit (from_le_bytes (le_bytes n w) :: 'a word) i \<longleftrightarrow> bit w i"
    using i by (simp add: bit_from_le_bytes nth_le_bytes bit_simps)
qed

lemma from_le_bytes_to_le_bytes [simp]:
  "8 dvd LENGTH('a) \<Longrightarrow> from_le_bytes (to_le_bytes w) = (w :: 'a::len word)"
  by (simp add: to_le_bytes_def from_le_bytes_le_bytes)

lemma to_le_bytes_from_le_bytes:
  assumes "length bs = LENGTH('a) div 8"
  shows "to_le_bytes (from_le_bytes bs :: 'a::len word) = bs"
proof (rule nth_equalityI)
  show "length (to_le_bytes (from_le_bytes bs :: 'a word)) = length bs"
    by (simp add: assms)
next
  fix i assume "i < length (to_le_bytes (from_le_bytes bs :: 'a word))"
  then have i: "i < LENGTH('a) div 8" by simp
  show "to_le_bytes (from_le_bytes bs :: 'a word) ! i = bs ! i"
  proof (rule bit_word_eqI)
    fix j assume j: "j < LENGTH(8)"
    have "j + 8 * i < LENGTH('a)" using i j by simp
    then show "bit (to_le_bytes (from_le_bytes bs :: 'a word) ! i) j \<longleftrightarrow> bit (bs ! i) j"
      using i j assms
      by (simp add: to_le_bytes_def nth_le_bytes bit_simps bit_from_le_bytes ac_simps)
  qed
qed

lemma to_le_bytes_inject [simp]:
  "8 dvd LENGTH('a) \<Longrightarrow> to_le_bytes (v :: 'a::len word) = to_le_bytes w \<longleftrightarrow> v = w"
  by (metis from_le_bytes_to_le_bytes)

lemma le_prefix_inject:
  assumes "to_le_bytes (v :: 'a::len word) @ r = to_le_bytes w @ s" "8 dvd LENGTH('a)"
  shows "v = w \<and> r = s"
proof -
  have "to_le_bytes v = to_le_bytes w \<and> r = s"
    using assms(1) by (subst (asm) append_eq_append_conv) simp_all
  then show ?thesis using assms(2) by simp
qed

lemma of_nat_u32_inject:
  assumes "(of_nat a :: u32) = of_nat b" "a \<le> U32_MAX" "b \<le> U32_MAX"
  shows "a = b"
proof -
  have "unat (of_nat a :: u32) = unat (of_nat b :: u32)" by (simp only: assms(1))
  then show ?thesis by (simp only: unat_of_nat_u32[OF assms(2)] unat_of_nat_u32[OF assms(3)])
qed

section \<open>Cursors\<close>

text \<open>
  Decoders walk a payload with an offset. \<open>at_cursor p off rest\<close> says that the offset is inside the
  payload and that \<open>rest\<close> is what is left to read; \<open>take_bytes\<close> is the reading step shared by the
  row codec's \<open>take_array\<close> and the index \<open>Decoder::array\<close>, with the two errors it can raise.
\<close>

definition at_cursor :: "byte list \<Rightarrow> usize \<Rightarrow> byte list \<Rightarrow> bool" where
  "at_cursor p off rest \<longleftrightarrow> off \<le> length p \<and> drop off p = rest \<and> fits (length p)"

definition take_bytes :: "'e \<Rightarrow> 'e \<Rightarrow> byte list \<Rightarrow> usize \<Rightarrow> usize \<Rightarrow> ('e, byte list \<times> usize) res" where
  "take_bytes overflow truncated p off n =
     bindR (ok_or overflow (checked_add off n)) (\<lambda>end.
     bindR (ok_or truncated (get_range p off end)) (\<lambda>bs.
     Inr (bs, end)))"

definition read_le :: "'e \<Rightarrow> 'e \<Rightarrow> byte list \<Rightarrow> usize \<Rightarrow> ('e, 'a::len word \<times> usize) res" where
  "read_le overflow truncated p off =
     bindR (take_bytes overflow truncated p off (LENGTH('a) div 8)) (\<lambda>(bs, off').
     Inr (from_le_bytes bs, off'))"

text \<open>A counted loop that decodes one element after another.\<close>

fun repeat_decode :: "(usize \<Rightarrow> ('e, 'v \<times> usize) res) \<Rightarrow> nat \<Rightarrow> usize \<Rightarrow> ('e, 'v list \<times> usize) res" where
  "repeat_decode dec 0 off = Inr ([], off)"
| "repeat_decode dec (Suc n) off =
     bindR (dec off) (\<lambda>(v, off').
     bindR (repeat_decode dec n off') (\<lambda>(vs, off'').
     Inr (v # vs, off'')))"

lemma at_cursor_start: "fits (length p) \<Longrightarrow> at_cursor p 0 p"
  by (simp add: at_cursor_def)

lemma at_cursor_end: "at_cursor p off [] \<Longrightarrow> off = length p"
  by (simp add: at_cursor_def)

lemma at_cursor_append: "at_cursor p off (bs @ rest) \<Longrightarrow> at_cursor p (off + length bs) rest"
proof -
  assume cur: "at_cursor p off (bs @ rest)"
  then have "drop (length bs) (drop off p) = rest" by (simp add: at_cursor_def)
  moreover have "length p - off = length bs + length rest"
    using cur by (metis at_cursor_def length_append length_drop)
  moreover have "off \<le> length p" using cur by (simp add: at_cursor_def)
  ultimately show ?thesis using cur by (auto simp: at_cursor_def add.commute)
qed

lemma at_cursor_Cons: "at_cursor p off (b # rest) \<Longrightarrow> at_cursor p (Suc off) rest"
  using at_cursor_append[of p off "[b]" rest] by simp

lemma at_cursor_get: "at_cursor p off (b # rest) \<Longrightarrow> get_at p off = Some b"
  unfolding at_cursor_def get_at_def
  by (metis drop_eq_Nil linorder_not_less list.distinct(1) nth_via_drop)

lemma at_cursor_bound: "at_cursor p off (bs @ rest) \<Longrightarrow> off + length bs \<le> length p"
  using at_cursor_append[of p off bs rest] by (simp add: at_cursor_def)

lemma at_cursor_range:
  "at_cursor p off (bs @ rest) \<Longrightarrow> get_range p off (off + length bs) = Some bs"
  using at_cursor_bound[of p off bs rest]
  by (auto simp: get_range_def at_cursor_def slice_def)

lemma at_cursor_checked:
  "at_cursor p off (bs @ rest) \<Longrightarrow> checked_add off (length bs) = Some (off + length bs)"
  using at_cursor_bound[of p off bs rest]
  by (simp add: at_cursor_def checked_add_def fits_def ISIZE_MAX_def USIZE_MAX_def)

lemma take_bytes_at [cursor_simps]:
  "at_cursor p off (bs @ rest) \<Longrightarrow> n = length bs \<Longrightarrow> take_bytes e1 e2 p off n = Inr (bs, off + n)"
  using at_cursor_checked[of p off bs rest] at_cursor_range[of p off bs rest]
  by (simp add: take_bytes_def)

lemma read_le_at [cursor_simps]:
  fixes w :: "'a::len word"
  assumes "at_cursor p off (to_le_bytes w @ rest)" "8 dvd LENGTH('a)"
  shows "read_le e1 e2 p off = Inr (w, off + LENGTH('a) div 8)"
  using take_bytes_at[OF assms(1), of "LENGTH('a) div 8" e1 e2] assms(2)
  by (simp add: read_le_def)

lemma at_cursor_le:
  fixes w :: "'a::len word"
  shows "at_cursor p off (to_le_bytes w @ rest) \<Longrightarrow> at_cursor p (off + LENGTH('a) div 8) rest"
  using at_cursor_append[of p off "to_le_bytes w" rest] by simp

lemma take_bytes_Inr:
  "take_bytes e1 e2 p off n = Inr (bs, off') \<Longrightarrow>
     off' = off + n \<and> off' \<le> length p \<and> bs = slice p off off' \<and> length bs = n"
  by (auto simp: take_bytes_def checked_add_Some_iff get_range_Some_iff)

lemma repeat_decode_length:
  "repeat_decode dec n off = Inr (vs, off') \<Longrightarrow> length vs = n"
  by (induction n arbitrary: off vs) auto

text \<open>
  The contract of a self-delimiting element codec, and what a counted loop of its decoder does on
  the concatenation of encoded elements.
\<close>

locale cursor_codec =
  fixes enc :: "'v \<Rightarrow> byte list"
    and dec :: "byte list \<Rightarrow> usize \<Rightarrow> ('e, 'v \<times> usize) res"
    and valid :: "'v \<Rightarrow> bool"
  assumes dec_enc: "valid v \<Longrightarrow> at_cursor p off (enc v @ rest) \<Longrightarrow>
    dec p off = Inr (v, off + length (enc v))"
begin

lemma repeat_roundtrip:
  "list_all valid vs \<Longrightarrow> at_cursor p off (concat (map enc vs) @ rest) \<Longrightarrow>
     repeat_decode (dec p) (length vs) off = Inr (vs, off + length (concat (map enc vs)))"
proof (induction vs arbitrary: off)
  case Nil
  then show ?case by simp
next
  case (Cons v vs)
  have cur: "at_cursor p off (enc v @ concat (map enc vs) @ rest)"
    using Cons.prems by simp
  then show ?case
    using Cons.prems Cons.IH[OF _ at_cursor_append[OF cur]] dec_enc[OF _ cur] by simp
qed

lemma enc_prefix_inject:
  assumes "valid v" "valid w" "enc v @ r = enc w @ s" "fits (length (enc v @ r))"
  shows "v = w \<and> r = s"
proof -
  have "dec (enc v @ r) 0 = Inr (v, length (enc v))"
    using dec_enc[OF assms(1) at_cursor_start[OF assms(4)]] by simp
  moreover have "dec (enc v @ r) 0 = Inr (w, length (enc w))"
    using dec_enc[OF assms(2), of "enc v @ r" 0 s] at_cursor_start[OF assms(4)] assms(3) by simp
  ultimately show ?thesis using assms(3) by simp
qed

end

lemma u64_bound: "unat (w :: u64) < 2 ^ 64"
  using unsigned_less[of w] by simp

section \<open>UTF-8\<close>

text \<open>\<open>std::str::from_utf8\<close>: the well-formed byte sequences of the Unicode standard, table 3-7.\<close>

definition utf8_cont :: "byte \<Rightarrow> bool" where
  "utf8_cont b \<longleftrightarrow> 0x80 \<le> b \<and> b \<le> 0xBF"

definition utf8_second :: "byte \<Rightarrow> byte \<Rightarrow> bool" where
  "utf8_second a b =
     (if a = 0xE0 then 0xA0 \<le> b \<and> b \<le> 0xBF
      else if a = 0xED then 0x80 \<le> b \<and> b \<le> 0x9F
      else if a = 0xF0 then 0x90 \<le> b \<and> b \<le> 0xBF
      else if a = 0xF4 then 0x80 \<le> b \<and> b \<le> 0x8F
      else utf8_cont b)"

definition utf8_width :: "byte \<Rightarrow> nat" where
  "utf8_width a =
     (if a \<le> 0x7F then 1
      else if 0xC2 \<le> a \<and> a \<le> 0xDF then 2
      else if 0xE0 \<le> a \<and> a \<le> 0xEF then 3
      else if 0xF0 \<le> a \<and> a \<le> 0xF4 then 4
      else 0)"

fun utf8_valid :: "byte list \<Rightarrow> bool" where
  "utf8_valid [] = True"
| "utf8_valid (a # bs) =
     (if utf8_width a = 1 then utf8_valid bs
      else if utf8_width a = 2 then
        (case bs of b # bs' \<Rightarrow> utf8_cont b \<and> utf8_valid bs' | _ \<Rightarrow> False)
      else if utf8_width a = 3 then
        (case bs of b # c # bs' \<Rightarrow> utf8_second a b \<and> utf8_cont c \<and> utf8_valid bs' | _ \<Rightarrow> False)
      else if utf8_width a = 4 then
        (case bs of b # c # d # bs' \<Rightarrow>
           utf8_second a b \<and> utf8_cont c \<and> utf8_cont d \<and> utf8_valid bs' | _ \<Rightarrow> False)
      else False)"

definition from_utf8 :: "byte list \<Rightarrow> byte list option" where
  "from_utf8 bs = (if utf8_valid bs then Some bs else None)"

lemma from_utf8_Some_iff: "from_utf8 bs = Some t \<longleftrightarrow> utf8_valid bs \<and> t = bs"
  by (auto simp: from_utf8_def)

lemma utf8_ascii: "list_all (\<lambda>b. b \<le> 0x7F) bs \<Longrightarrow> utf8_valid bs"
  by (induction bs) (auto simp: utf8_width_def)

declare USIZE_MAX_def [eval_simps] and ISIZE_MAX_def [eval_simps] and U32_MAX_def [eval_simps]
  and U16_MAX_def [eval_simps] and checked_add_def [eval_simps] and checked_mul_def [eval_simps]
  and checked_sub_def [eval_simps] and checked_add_u64_def [eval_simps]
  and u32_try_from_def [eval_simps] and u16_try_from_def [eval_simps] and fits_def [eval_simps]
  and slice_def [eval_simps] and get_range_def [eval_simps] and get_at_def [eval_simps]
  and copy_at_def [eval_simps] and to_le_bytes_def [eval_simps] and take_bytes_def [eval_simps]
  and read_le_def [eval_simps] and from_utf8_def [eval_simps] and utf8_width_def [eval_simps]
  and utf8_cont_def [eval_simps] and utf8_second_def [eval_simps] and Let_def [eval_simps]

end
