(* ===== verification/Ordering_Search.thy ===== *)
theory Ordering_Search
  imports Prelude
begin

text \<open>
  \<open>std::cmp::Ordering\<close> with \<open>then_with\<close> and lexicographic slice comparison, the contract of a total
  comparator, and the binary searches of \<open>std\<close> that the index crate runs on it. \<open>binary_search_by\<close>
  follows the standard library's halving loop; the locale \<open>total_cmp\<close> shows what it returns on a
  strictly increasing vector and what \<open>Vec::insert\<close> and \<open>Vec::remove\<close> at that position do.
\<close>

datatype ordering = Less | Equal | Greater

instantiation ordering :: linorder
begin

fun ordering_rank :: "ordering \<Rightarrow> nat" where
  "ordering_rank Less = 0"
| "ordering_rank Equal = 1"
| "ordering_rank Greater = 2"

definition less_eq_ordering :: "ordering \<Rightarrow> ordering \<Rightarrow> bool" where
  "less_eq_ordering a b \<longleftrightarrow> ordering_rank a \<le> ordering_rank b"

definition less_ordering :: "ordering \<Rightarrow> ordering \<Rightarrow> bool" where
  "less_ordering a b \<longleftrightarrow> ordering_rank a < ordering_rank b"

instance
proof
  fix x y :: ordering
  show "x \<le> y \<Longrightarrow> y \<le> x \<Longrightarrow> x = y"
    by (cases x; cases y) (simp_all add: less_eq_ordering_def)
qed (auto simp: less_eq_ordering_def less_ordering_def)

end

fun swap :: "ordering \<Rightarrow> ordering" where
  "swap Less = Greater"
| "swap Equal = Equal"
| "swap Greater = Less"

text \<open>\<open>Ordering::then_with\<close>\<close>

fun then_with :: "ordering \<Rightarrow> ordering \<Rightarrow> ordering" where
  "then_with Equal o2 = o2"
| "then_with o1 o2 = o1"

text \<open>\<open>Ord::cmp\<close> of the primitive integers and booleans, and of slices of them.\<close>

definition cmp_ord :: "'a::linorder \<Rightarrow> 'a \<Rightarrow> ordering" where
  "cmp_ord a b = (if a < b then Less else if a = b then Equal else Greater)"

fun cmp_slice :: "'a::linorder list \<Rightarrow> 'a list \<Rightarrow> ordering" where
  "cmp_slice [] [] = Equal"
| "cmp_slice [] (y # ys) = Less"
| "cmp_slice (x # xs) [] = Greater"
| "cmp_slice (x # xs) (y # ys) = then_with (cmp_ord x y) (cmp_slice xs ys)"

text \<open>\<open>slice::binary_search_by\<close> (\<open>Inr\<close> is \<open>Ok\<close>, \<open>Inl\<close> is \<open>Err\<close> with the insertion position).\<close>

function bs_loop :: "('a \<Rightarrow> ordering) \<Rightarrow> 'a list \<Rightarrow> usize \<Rightarrow> usize \<Rightarrow> usize" where
  "bs_loop f xs base sz =
     (if 1 < sz
      then let half = sz div 2; mid = base + half
           in bs_loop f xs (if f (xs ! mid) = Greater then base else mid) (sz - half)
      else base)"
  by pat_completeness auto
termination
  by (relation "measure (\<lambda>(f, xs, base, sz). sz)") auto

declare bs_loop.simps [simp del]

definition binary_search_by :: "('a \<Rightarrow> ordering) \<Rightarrow> 'a list \<Rightarrow> (usize, usize) res" where
  "binary_search_by f xs =
     (if xs = [] then Inl 0
      else let base = bs_loop f xs 0 (length xs); c = f (xs ! base)
           in if c = Equal then Inr base
              else Inl (base + (if c = Less then 1 else 0)))"

text \<open>\<open>slice::partition_point\<close>\<close>

definition partition_point :: "('a \<Rightarrow> bool) \<Rightarrow> 'a list \<Rightarrow> usize" where
  "partition_point p xs =
     (case binary_search_by (\<lambda>x. if p x then Less else Greater) xs of Inr i \<Rightarrow> i | Inl i \<Rightarrow> i)"

text \<open>\<open>Vec::insert\<close> and \<open>Vec::remove\<close>\<close>

definition vec_insert :: "'a list \<Rightarrow> usize \<Rightarrow> 'a \<Rightarrow> 'a list" where
  "vec_insert xs i x = take i xs @ x # drop i xs"

definition vec_remove :: "'a list \<Rightarrow> usize \<Rightarrow> 'a list" where
  "vec_remove xs i = take i xs @ drop (Suc i) xs"

section \<open>The searches on a partitioned vector\<close>

lemma swap_swap [simp]: "swap (swap r) = r"
  by (cases r) auto

lemma swap_eq_iff [simp]:
  "swap r = Less \<longleftrightarrow> r = Greater" "swap r = Equal \<longleftrightarrow> r = Equal" "swap r = Greater \<longleftrightarrow> r = Less"
  by (cases r; simp)+

lemma then_with_eq_iff:
  "then_with a b = Equal \<longleftrightarrow> a = Equal \<and> b = Equal"
  "then_with a b = Less \<longleftrightarrow> a = Less \<or> a = Equal \<and> b = Less"
  "then_with a b = Greater \<longleftrightarrow> a = Greater \<or> a = Equal \<and> b = Greater"
  by (cases a; simp)+

lemma cmp_ord_eq_iff [simp]:
  "cmp_ord a b = Equal \<longleftrightarrow> a = b" "cmp_ord a b = Less \<longleftrightarrow> a < b" "cmp_ord a b = Greater \<longleftrightarrow> b < a"
  by (auto simp: cmp_ord_def)

definition partitioned :: "('a \<Rightarrow> ordering) \<Rightarrow> 'a list \<Rightarrow> bool" where
  "partitioned f xs \<longleftrightarrow> (\<forall>i j. i \<le> j \<and> j < length xs \<longrightarrow> f (xs ! i) \<le> f (xs ! j))"

lemma partitioned_Less:
  "partitioned f xs \<Longrightarrow> j < length xs \<Longrightarrow> f (xs ! j) = Less \<Longrightarrow> i \<le> j \<Longrightarrow> f (xs ! i) = Less"
  unfolding partitioned_def by (cases "f (xs ! i)") (fastforce simp: less_eq_ordering_def)+

lemma partitioned_Greater:
  "partitioned f xs \<Longrightarrow> j < length xs \<Longrightarrow> f (xs ! i) = Greater \<Longrightarrow> i \<le> j \<Longrightarrow> f (xs ! j) = Greater"
  unfolding partitioned_def by (cases "f (xs ! j)") (fastforce simp: less_eq_ordering_def)+

lemma bs_loop_spec:
  assumes "partitioned f xs" "1 \<le> sz" "base + sz \<le> length xs"
    and "\<And>j. base + sz \<le> j \<Longrightarrow> j < length xs \<Longrightarrow> f (xs ! j) = Greater"
    and "base = 0 \<or> f (xs ! base) \<noteq> Greater"
  shows "let r = bs_loop f xs base sz in r < length xs \<and>
     (\<forall>j. r < j \<and> j < length xs \<longrightarrow> f (xs ! j) = Greater) \<and> (r = 0 \<or> f (xs ! r) \<noteq> Greater)"
  using assms
proof (induction f xs base sz rule: bs_loop.induct)
  case (1 f xs base sz)
  show ?case
  proof (cases "1 < sz")
    case False
    then have "bs_loop f xs base sz = base" by (simp add: bs_loop.simps)
    then show ?thesis using 1 False by (auto simp: Let_def)
  next
    case True
    define half where "half = sz div 2"
    define base' where "base' = (if f (xs ! (base + half)) = Greater then base else base + half)"
    have half: "0 < half" "half < sz" using True by (auto simp: half_def)
    have step: "bs_loop f xs base sz = bs_loop f xs base' (sz - half)"
      using True by (subst bs_loop.simps) (simp add: Let_def half_def base'_def)
    have upper: "f (xs ! j) = Greater" if "base' + (sz - half) \<le> j" "j < length xs" for j
    proof (cases "f (xs ! (base + half)) = Greater")
      case True
      have "sz - half \<ge> half" by (simp add: half_def)
      then have "base + half \<le> j" using that(1) True by (simp add: base'_def)
      then show ?thesis using partitioned_Greater[OF 1(2) that(2) True] by simp
    next
      case False
      then show ?thesis using that 1(5) half by (simp add: base'_def)
    qed
    have lower: "base' = 0 \<or> f (xs ! base') \<noteq> Greater"
      using 1(6) by (simp add: base'_def)
    have "base' + (sz - half) \<le> length xs"
      using 1(4) half by (auto simp: base'_def)
    then have "let r = bs_loop f xs base' (sz - half) in r < length xs \<and>
       (\<forall>j. r < j \<and> j < length xs \<longrightarrow> f (xs ! j) = Greater) \<and> (r = 0 \<or> f (xs ! r) \<noteq> Greater)"
      using half lower 1(2) upper by (intro 1(1)[OF True half_def refl, folded base'_def]) simp_all
    then show ?thesis by (simp add: step)
  qed
qed

lemma binary_search_by_Inr:
  assumes "partitioned f xs" "binary_search_by f xs = Inr i"
  shows "i < length xs \<and> f (xs ! i) = Equal"
proof -
  have ne: "xs \<noteq> []" and eq: "f (xs ! bs_loop f xs 0 (length xs)) = Equal"
      "i = bs_loop f xs 0 (length xs)"
    using assms(2) by (auto simp: binary_search_by_def Let_def split: if_splits)
  show ?thesis
    using bs_loop_spec[OF assms(1), of "length xs" 0] ne eq by (auto simp: Let_def Suc_le_eq)
qed

lemma binary_search_by_Inl:
  assumes "partitioned f xs" "binary_search_by f xs = Inl i"
  shows "i \<le> length xs \<and> (\<forall>j < i. f (xs ! j) = Less) \<and>
    (\<forall>j. i \<le> j \<and> j < length xs \<longrightarrow> f (xs ! j) = Greater)"
proof (cases "xs = []")
  case True
  then show ?thesis using assms(2) by (simp add: binary_search_by_def)
next
  case False
  let ?r = "bs_loop f xs 0 (length xs)"
  have r: "?r < length xs" "\<forall>j. ?r < j \<and> j < length xs \<longrightarrow> f (xs ! j) = Greater"
      "?r = 0 \<or> f (xs ! ?r) \<noteq> Greater"
    using bs_loop_spec[OF assms(1), of "length xs" 0] False by (auto simp: Let_def Suc_le_eq)
  show ?thesis
  proof (cases "f (xs ! ?r)")
    case Less
    then have "i = Suc ?r" using assms(2) False by (simp add: binary_search_by_def Let_def)
    then show ?thesis
      using r partitioned_Less[OF assms(1) r(1) Less] by (auto simp: less_Suc_eq_le)
  next
    case Equal
    then show ?thesis using assms(2) False by (simp add: binary_search_by_def Let_def)
  next
    case Greater
    then have "i = ?r" "?r = 0" using assms(2) False r(3)
      by (simp_all add: binary_search_by_def Let_def)
    then show ?thesis using r Greater by (auto simp: le_less)
  qed
qed

lemma partition_point_spec:
  assumes "\<And>i j. i \<le> j \<Longrightarrow> j < length xs \<Longrightarrow> p (xs ! j) \<Longrightarrow> p (xs ! i)"
  shows "partition_point p xs \<le> length xs \<and> (\<forall>j < partition_point p xs. p (xs ! j)) \<and>
    (\<forall>j. partition_point p xs \<le> j \<and> j < length xs \<longrightarrow> \<not> p (xs ! j))"
proof -
  let ?f = "\<lambda>x. if p x then Less else Greater"
  have part: "partitioned ?f xs"
    unfolding partitioned_def using assms by (auto simp: less_eq_ordering_def)
  show ?thesis
  proof (cases "binary_search_by ?f xs")
    case (Inl i)
    then show ?thesis
      using binary_search_by_Inl[OF part Inl] by (auto simp: partition_point_def split: if_splits)
  next
    case (Inr i)
    then show ?thesis
      using binary_search_by_Inr[OF part Inr] by (auto split: if_splits)
  qed
qed

section \<open>Total comparators\<close>

locale total_cmp =
  fixes cmp :: "'a \<Rightarrow> 'a \<Rightarrow> ordering"
  assumes cmp_Equal [simp]: "cmp a b = Equal \<longleftrightarrow> a = b"
    and cmp_swap: "cmp b a = swap (cmp a b)"
    and cmp_trans: "cmp a b = Less \<Longrightarrow> cmp b c = Less \<Longrightarrow> cmp a c = Less"
begin

lemma cmp_refl [simp]: "cmp a a = Equal"
  by simp

lemma cmp_Greater: "cmp a b = Greater \<longleftrightarrow> cmp b a = Less"
  using cmp_swap[of b a] by simp

lemma cmp_asym: "cmp a b = Less \<Longrightarrow> cmp b a \<noteq> Less"
  using cmp_swap[of b a] by auto

lemma cmp_not_Less: "cmp a b \<noteq> Less \<longleftrightarrow> cmp b a = Less \<or> a = b"
  by (metis cmp_asym cmp_Greater cmp_Equal ordering.exhaust)

lemma cmp_total: "cmp a b = Less \<or> a = b \<or> cmp b a = Less"
  using cmp_not_Less by blast

lemma cmp_le_trans: "cmp a b \<noteq> Greater \<Longrightarrow> cmp b c \<noteq> Greater \<Longrightarrow> cmp a c \<noteq> Greater"
  using cmp_trans[of b c a] cmp_total[of b c] by (auto simp: cmp_Greater)

lemma sorted_partitioned:
  assumes "sorted_wrt (\<lambda>a b. cmp a b = Less) xs"
  shows "partitioned (\<lambda>x. cmp x k) xs"
  unfolding partitioned_def
proof (intro allI impI)
  fix i j assume ij: "i \<le> j \<and> j < length xs"
  show "cmp (xs ! i) k \<le> cmp (xs ! j) k"
  proof (cases "i = j")
    case False
    then have lt: "cmp (xs ! i) (xs ! j) = Less"
      using ij assms by (simp add: sorted_wrt_iff_nth_less)
    show ?thesis
    proof (cases "cmp (xs ! j) k")
      case Less
      then show ?thesis using cmp_trans[OF lt] by simp
    next
      case Equal
      then show ?thesis using lt by (simp add: less_eq_ordering_def)
    next
      case Greater
      then show ?thesis by (cases "cmp (xs ! i) k") (auto simp: less_eq_ordering_def)
    qed
  qed simp
qed

lemma search_found_iff:
  assumes "sorted_wrt (\<lambda>a b. cmp a b = Less) xs"
  shows "is_ok (binary_search_by (\<lambda>x. cmp x k) xs) \<longleftrightarrow> k \<in> set xs"
proof (cases "binary_search_by (\<lambda>x. cmp x k) xs")
  case (Inl i)
  have "x \<noteq> k" if "x \<in> set xs" for x
  proof -
    obtain j where "j < length xs" "xs ! j = x" using \<open>x \<in> set xs\<close> by (auto simp: in_set_conv_nth)
    moreover have "cmp (xs ! j) k \<noteq> Equal"
      using binary_search_by_Inl[OF sorted_partitioned[OF assms] Inl] \<open>j < length xs\<close>
      by (cases "j < i") auto
    ultimately show ?thesis by simp
  qed
  then show ?thesis using Inl by auto
next
  case (Inr i)
  then show ?thesis
    using binary_search_by_Inr[OF sorted_partitioned[OF assms] Inr] by auto
qed

lemma search_found_nth:
  assumes "sorted_wrt (\<lambda>a b. cmp a b = Less) xs" "binary_search_by (\<lambda>x. cmp x k) xs = Inr i"
  shows "i < length xs \<and> xs ! i = k"
  using binary_search_by_Inr[OF sorted_partitioned[OF assms(1)] assms(2)] by simp

lemma search_insert_sorted:
  assumes "sorted_wrt (\<lambda>a b. cmp a b = Less) xs" "binary_search_by (\<lambda>x. cmp x k) xs = Inl i"
  shows "sorted_wrt (\<lambda>a b. cmp a b = Less) (vec_insert xs i k)"
proof -
  note pos = binary_search_by_Inl[OF sorted_partitioned[OF assms(1)] assms(2)]
  have lower: "cmp x k = Less" if "x \<in> set (take i xs)" for x
  proof -
    obtain j where "j < i" "xs ! j = x" using \<open>x \<in> set (take i xs)\<close> by (auto simp: in_set_conv_nth)
    then show ?thesis using pos by blast
  qed
  have upper: "cmp k x = Less" if "x \<in> set (drop i xs)" for x
  proof -
    obtain j where "j < length xs - i" "xs ! (i + j) = x"
      using \<open>x \<in> set (drop i xs)\<close> by (auto simp: in_set_conv_nth)
    then have "cmp x k = Greater" using pos by (metis le_add1 less_diff_conv add.commute)
    then show ?thesis by (simp only: cmp_Greater)
  qed
  have "sorted_wrt (\<lambda>a b. cmp a b = Less) (take i xs @ drop i xs)" using assms(1) by simp
  then show ?thesis
    using lower upper by (simp only: vec_insert_def sorted_wrt_append) auto
qed

lemma sorted_unique:
  assumes "sorted_wrt (\<lambda>a b. cmp a b = Less) xs" "sorted_wrt (\<lambda>a b. cmp a b = Less) ys"
    and "set xs = set ys"
  shows "xs = ys"
  using assms
proof (induction xs arbitrary: ys)
  case Nil
  then show ?case by simp
next
  case (Cons x xs)
  then obtain y ys' where ys: "ys = y # ys'" by (cases ys) auto
  have irr: "x \<notin> set xs" "y \<notin> set ys'" using Cons.prems(1,2) ys by auto
  have "x = y"
  proof (rule ccontr)
    assume "x \<noteq> y"
    then have "cmp y x = Less" "cmp x y = Less" using Cons.prems ys by auto
    then show False using cmp_asym by blast
  qed
  moreover have "set xs = set ys'" using Cons.prems(3) ys irr \<open>x = y\<close> by auto
  ultimately show ?case using Cons ys by simp
qed

end

lemma set_vec_insert [simp]: "set (vec_insert xs i x) = insert x (set xs)"
proof -
  have "set (take i xs) \<union> set (drop i xs) = set xs" by (metis append_take_drop_id set_append)
  then show ?thesis by (auto simp: vec_insert_def)
qed

lemma vec_split:
  assumes "i < length xs"
  obtains l r where "xs = l @ xs ! i # r" "vec_remove xs i = l @ r"
  using id_take_nth_drop[OF assms] that by (simp add: vec_remove_def)

lemma set_vec_remove:
  assumes "distinct xs" "i < length xs"
  shows "set (vec_remove xs i) = set xs - {xs ! i}"
proof -
  obtain l r where eq: "xs = l @ xs ! i # r" and rem: "vec_remove xs i = l @ r"
    using vec_split[OF assms(2)] .
  define x where "x = xs ! i"
  have xs: "xs = l @ x # r" using eq by (simp only: x_def)
  then have "distinct (l @ x # r)" using assms(1) by simp
  then have "set (l @ r) = set (l @ x # r) - {x}" by auto
  then show ?thesis by (simp only: rem x_def[symmetric] xs[symmetric])
qed

lemma sorted_vec_remove:
  assumes "sorted_wrt P xs" "i < length xs"
  shows "sorted_wrt P (vec_remove xs i)"
proof -
  obtain l r where eq: "xs = l @ xs ! i # r" and rem: "vec_remove xs i = l @ r"
    using vec_split[OF assms(2)] .
  define x where "x = xs ! i"
  have xs: "xs = l @ x # r" using eq by (simp only: x_def)
  then have "sorted_wrt P (l @ x # r)" using assms(1) by simp
  then show ?thesis unfolding rem by (simp add: sorted_wrt_append)
qed

section \<open>Comparators of primitive values\<close>

interpretation cmp_ord: total_cmp "cmp_ord :: 'a::linorder \<Rightarrow> 'a \<Rightarrow> ordering"
  by unfold_locales (auto simp: cmp_ord_def split: if_splits)

lemma cmp_slice_Equal [simp]: "cmp_slice xs ys = Equal \<longleftrightarrow> xs = ys"
  by (induction xs ys rule: cmp_slice.induct) (auto simp: then_with_eq_iff)

lemma swap_then_with: "swap (then_with a b) = then_with (swap a) (swap b)"
  by (cases a) simp_all

lemma cmp_slice_swap: "cmp_slice ys xs = swap (cmp_slice xs ys)"
proof (induction xs ys rule: cmp_slice.induct)
  case (4 x xs y ys)
  then show ?case by (simp add: swap_then_with cmp_ord.cmp_swap[of y x])
qed simp_all

lemma cmp_slice_trans:
  "cmp_slice xs ys = Less \<Longrightarrow> cmp_slice ys zs = Less \<Longrightarrow> cmp_slice xs zs = Less"
proof (induction xs ys arbitrary: zs rule: cmp_slice.induct)
  case (2 y ys)
  then show ?case by (cases zs) auto
next
  case (4 x xs y ys)
  then show ?case by (cases zs) (auto simp: then_with_eq_iff)
qed auto

interpretation cmp_slice: total_cmp "cmp_slice :: 'a::linorder list \<Rightarrow> 'a list \<Rightarrow> ordering"
proof unfold_locales
  fix a b c :: "'a list"
  show "cmp_slice a b = Equal \<longleftrightarrow> a = b" by simp
  show "cmp_slice b a = swap (cmp_slice a b)" by (rule cmp_slice_swap)
  show "cmp_slice a b = Less \<Longrightarrow> cmp_slice b c = Less \<Longrightarrow> cmp_slice a c = Less"
    by (rule cmp_slice_trans)
qed

end
