(* ===== verification/Scalar_Types.thy ===== *)
theory Scalar_Types
  imports Ordering_Search
begin

text \<open>
  The identifiers and scalar types of \<open>crates/netbadb-types\<close>: physical and semantic types, canonical
  floats, owned and borrowed scalars and the database's scalar order. Identifier newtypes are their
  integers; a \<open>String\<close> or \<open>&str\<close> is its UTF-8 byte list, a signed integer its two's complement word.
\<close>

type_synonym DatabaseTxnId = u64
type_synonym TableId = u64
type_synonym ColumnId = u32
type_synonym IndexId = u64
type_synonym PageId = u64
type_synonym PageGeneration = u64
type_synonym StorageId = u64
type_synonym TxnId = u64
type_synonym Lsn = u64
type_synonym CommitSeq = u64
type_synonym CommandId = u32
type_synonym SlotId = u16
type_synonym str = "byte list"

record page_ref =
  ref_page_id :: PageId
  ref_generation :: PageGeneration

record row_id =
  row_page :: PageId
  row_slot :: u16
  row_generation :: u32

section \<open>Names\<close>

definition MAX_INDEX_NAME_BYTES :: usize where "MAX_INDEX_NAME_BYTES = 255"

datatype index_name_error = NameEmpty | NameTooLong usize usize

type_synonym IndexName = str

definition index_name_new :: "str \<Rightarrow> (index_name_error, IndexName) res" where
  "index_name_new name =
     (if name = [] then Inl NameEmpty
      else if length name > MAX_INDEX_NAME_BYTES
      then Inl (NameTooLong (length name) MAX_INDEX_NAME_BYTES)
      else Inr name)"

section \<open>Types\<close>

datatype physical_type =
    PBool | PInt8 | PInt16 | PInt32 | PInt64 | PInt128
  | PUInt8 | PUInt16 | PUInt32 | PUInt64 | PUInt128
  | PFloat32 | PFloat64 | PText | PBytes

fun is_signed_integer :: "physical_type \<Rightarrow> bool" where
  "is_signed_integer p \<longleftrightarrow> p \<in> {PInt8, PInt16, PInt32, PInt64, PInt128}"

fun is_unsigned_integer :: "physical_type \<Rightarrow> bool" where
  "is_unsigned_integer p \<longleftrightarrow> p \<in> {PUInt8, PUInt16, PUInt32, PUInt64, PUInt128}"

fun is_integer :: "physical_type \<Rightarrow> bool" where
  "is_integer p \<longleftrightarrow> is_signed_integer p \<or> is_unsigned_integer p"

fun is_float :: "physical_type \<Rightarrow> bool" where
  "is_float p \<longleftrightarrow> p \<in> {PFloat32, PFloat64}"

fun is_numeric :: "physical_type \<Rightarrow> bool" where
  "is_numeric p \<longleftrightarrow> is_integer p \<or> is_float p"

fun supports_explicit_cast_to :: "physical_type \<Rightarrow> physical_type \<Rightarrow> bool" where
  "supports_explicit_cast_to self target \<longleftrightarrow>
     self = target
     \<or> (is_integer self \<and> is_integer target)
     \<or> (self = PText \<and> is_integer target)
     \<or> (is_integer self \<and> target = PText)
     \<or> (self, target) \<in> {(PBool, PText), (PText, PBool)}"

fun fixed_width :: "physical_type \<Rightarrow> usize option" where
  "fixed_width PBool = Some 1"
| "fixed_width PInt8 = Some 1"
| "fixed_width PUInt8 = Some 1"
| "fixed_width PInt16 = Some 2"
| "fixed_width PUInt16 = Some 2"
| "fixed_width PInt32 = Some 4"
| "fixed_width PUInt32 = Some 4"
| "fixed_width PFloat32 = Some 4"
| "fixed_width PInt64 = Some 8"
| "fixed_width PUInt64 = Some 8"
| "fixed_width PFloat64 = Some 8"
| "fixed_width PInt128 = Some 16"
| "fixed_width PUInt128 = Some 16"
| "fixed_width PText = None"
| "fixed_width PBytes = None"

record semantic_type =
  sem_physical :: physical_type
  sem_name :: "str option"

definition semantic_physical :: "physical_type \<Rightarrow> semantic_type" where
  "semantic_physical p = \<lparr>sem_physical = p, sem_name = None\<rparr>"

definition semantic_named :: "str \<Rightarrow> physical_type \<Rightarrow> semantic_type" where
  "semantic_named name p = \<lparr>sem_physical = p, sem_name = Some name\<rparr>"

definition is_compatible_with :: "semantic_type \<Rightarrow> semantic_type \<Rightarrow> bool" where
  "is_compatible_with self other \<longleftrightarrow>
     sem_physical self = sem_physical other \<and>
     (case (sem_name self, sem_name other) of
        (Some left, Some right) \<Rightarrow> left = right
      | (None, None) \<Rightarrow> True
      | _ \<Rightarrow> False)"

section \<open>Canonical floats\<close>

text \<open>A \<open>Float32Value\<close> or \<open>Float64Value\<close> is its bit pattern; \<open>from_bits\<close> is the only constructor.\<close>

definition CANONICAL_NAN_BITS_32 :: u32 where "CANONICAL_NAN_BITS_32 = 0x7fc00000"
definition CANONICAL_NAN_BITS_64 :: u64 where "CANONICAL_NAN_BITS_64 = 0x7ff8000000000000"

definition float32_from_bits :: "u32 \<Rightarrow> u32" where
  "float32_from_bits bits =
     (let magnitude = bits AND 0x7fffffff
      in if magnitude = 0 then 0
         else if magnitude > 0x7f800000 then CANONICAL_NAN_BITS_32
         else bits)"

definition float64_from_bits :: "u64 \<Rightarrow> u64" where
  "float64_from_bits bits =
     (let magnitude = bits AND 0x7fffffffffffffff
      in if magnitude = 0 then 0
         else if magnitude > 0x7ff0000000000000 then CANONICAL_NAN_BITS_64
         else bits)"

text \<open>\<open>f32::total_cmp\<close> and \<open>f64::total_cmp\<close>: flip the magnitude bits of negatives, compare signed.\<close>

definition total_key :: "'a::len word \<Rightarrow> 'a word" where
  "total_key (b :: 'a word) = b XOR drop_bit 1 (signed_drop_bit (LENGTH('a) - 1) b)"

definition total_cmp_float :: "'a::len word \<Rightarrow> 'a word \<Rightarrow> ordering" where
  "total_cmp_float a b = cmp_ord (sint (total_key a)) (sint (total_key b))"

section \<open>Scalars\<close>

datatype scalar_value =
    Bool bool
  | Int8 "8 word" | Int16 "16 word" | Int32 "32 word" | Int64 "64 word" | Int128 "128 word"
  | UInt8 u8 | UInt16 u16 | UInt32 u32 | UInt64 u64 | UInt128 u128
  | Float32 u32 | Float64 u64
  | Text str
  | Bytes "byte list"
  | Null

datatype scalar_ref =
    RBool bool
  | RInt8 "8 word" | RInt16 "16 word" | RInt32 "32 word" | RInt64 "64 word" | RInt128 "128 word"
  | RUInt8 u8 | RUInt16 u16 | RUInt32 u32 | RUInt64 u64 | RUInt128 u128
  | RFloat32 u32 | RFloat64 u64
  | RText str
  | RBytes "byte list"
  | RNull

fun ref_physical_type :: "scalar_ref \<Rightarrow> physical_type option" where
  "ref_physical_type (RBool _) = Some PBool"
| "ref_physical_type (RInt8 _) = Some PInt8"
| "ref_physical_type (RInt16 _) = Some PInt16"
| "ref_physical_type (RInt32 _) = Some PInt32"
| "ref_physical_type (RInt64 _) = Some PInt64"
| "ref_physical_type (RInt128 _) = Some PInt128"
| "ref_physical_type (RUInt8 _) = Some PUInt8"
| "ref_physical_type (RUInt16 _) = Some PUInt16"
| "ref_physical_type (RUInt32 _) = Some PUInt32"
| "ref_physical_type (RUInt64 _) = Some PUInt64"
| "ref_physical_type (RUInt128 _) = Some PUInt128"
| "ref_physical_type (RFloat32 _) = Some PFloat32"
| "ref_physical_type (RFloat64 _) = Some PFloat64"
| "ref_physical_type (RText _) = Some PText"
| "ref_physical_type (RBytes _) = Some PBytes"
| "ref_physical_type RNull = None"

definition ref_matches_type :: "scalar_ref \<Rightarrow> semantic_type \<Rightarrow> bool" where
  "ref_matches_type self expected =
     (case ref_physical_type self of Some actual \<Rightarrow> actual = sem_physical expected | None \<Rightarrow> True)"

definition is_null :: "scalar_ref \<Rightarrow> bool" where
  "is_null self \<longleftrightarrow> self = RNull"

definition ref_database_cmp :: "scalar_ref \<Rightarrow> scalar_ref \<Rightarrow> ordering option" where
  "ref_database_cmp self other =
     (case self of
        RNull \<Rightarrow> (case other of RNull \<Rightarrow> Some Equal | _ \<Rightarrow> Some Less)
      | RBool l \<Rightarrow> (case other of RNull \<Rightarrow> Some Greater | RBool r \<Rightarrow> Some (cmp_ord l r) | _ \<Rightarrow> None)
      | RInt8 l \<Rightarrow> (case other of RNull \<Rightarrow> Some Greater | RInt8 r \<Rightarrow> Some (cmp_ord (sint l) (sint r)) | _ \<Rightarrow> None)
      | RInt16 l \<Rightarrow> (case other of RNull \<Rightarrow> Some Greater | RInt16 r \<Rightarrow> Some (cmp_ord (sint l) (sint r)) | _ \<Rightarrow> None)
      | RInt32 l \<Rightarrow> (case other of RNull \<Rightarrow> Some Greater | RInt32 r \<Rightarrow> Some (cmp_ord (sint l) (sint r)) | _ \<Rightarrow> None)
      | RInt64 l \<Rightarrow> (case other of RNull \<Rightarrow> Some Greater | RInt64 r \<Rightarrow> Some (cmp_ord (sint l) (sint r)) | _ \<Rightarrow> None)
      | RInt128 l \<Rightarrow> (case other of RNull \<Rightarrow> Some Greater | RInt128 r \<Rightarrow> Some (cmp_ord (sint l) (sint r)) | _ \<Rightarrow> None)
      | RUInt8 l \<Rightarrow> (case other of RNull \<Rightarrow> Some Greater | RUInt8 r \<Rightarrow> Some (cmp_ord l r) | _ \<Rightarrow> None)
      | RUInt16 l \<Rightarrow> (case other of RNull \<Rightarrow> Some Greater | RUInt16 r \<Rightarrow> Some (cmp_ord l r) | _ \<Rightarrow> None)
      | RUInt32 l \<Rightarrow> (case other of RNull \<Rightarrow> Some Greater | RUInt32 r \<Rightarrow> Some (cmp_ord l r) | _ \<Rightarrow> None)
      | RUInt64 l \<Rightarrow> (case other of RNull \<Rightarrow> Some Greater | RUInt64 r \<Rightarrow> Some (cmp_ord l r) | _ \<Rightarrow> None)
      | RUInt128 l \<Rightarrow> (case other of RNull \<Rightarrow> Some Greater | RUInt128 r \<Rightarrow> Some (cmp_ord l r) | _ \<Rightarrow> None)
      | RFloat32 l \<Rightarrow> (case other of RNull \<Rightarrow> Some Greater | RFloat32 r \<Rightarrow> Some (total_cmp_float l r) | _ \<Rightarrow> None)
      | RFloat64 l \<Rightarrow> (case other of RNull \<Rightarrow> Some Greater | RFloat64 r \<Rightarrow> Some (total_cmp_float l r) | _ \<Rightarrow> None)
      | RText l \<Rightarrow> (case other of RNull \<Rightarrow> Some Greater | RText r \<Rightarrow> Some (cmp_slice l r) | _ \<Rightarrow> None)
      | RBytes l \<Rightarrow> (case other of RNull \<Rightarrow> Some Greater | RBytes r \<Rightarrow> Some (cmp_slice l r) | _ \<Rightarrow> None))"

fun to_owned :: "scalar_ref \<Rightarrow> scalar_value" where
  "to_owned (RBool v) = Bool v"
| "to_owned (RInt8 v) = Int8 v"
| "to_owned (RInt16 v) = Int16 v"
| "to_owned (RInt32 v) = Int32 v"
| "to_owned (RInt64 v) = Int64 v"
| "to_owned (RInt128 v) = Int128 v"
| "to_owned (RUInt8 v) = UInt8 v"
| "to_owned (RUInt16 v) = UInt16 v"
| "to_owned (RUInt32 v) = UInt32 v"
| "to_owned (RUInt64 v) = UInt64 v"
| "to_owned (RUInt128 v) = UInt128 v"
| "to_owned (RFloat32 v) = Float32 v"
| "to_owned (RFloat64 v) = Float64 v"
| "to_owned (RText v) = Text v"
| "to_owned (RBytes v) = Bytes v"
| "to_owned RNull = Null"

text \<open>\<open>impl From<&ScalarValue> for ScalarRef\<close>\<close>

fun scalar_ref_from :: "scalar_value \<Rightarrow> scalar_ref" where
  "scalar_ref_from (Bool v) = RBool v"
| "scalar_ref_from (Int8 v) = RInt8 v"
| "scalar_ref_from (Int16 v) = RInt16 v"
| "scalar_ref_from (Int32 v) = RInt32 v"
| "scalar_ref_from (Int64 v) = RInt64 v"
| "scalar_ref_from (Int128 v) = RInt128 v"
| "scalar_ref_from (UInt8 v) = RUInt8 v"
| "scalar_ref_from (UInt16 v) = RUInt16 v"
| "scalar_ref_from (UInt32 v) = RUInt32 v"
| "scalar_ref_from (UInt64 v) = RUInt64 v"
| "scalar_ref_from (UInt128 v) = RUInt128 v"
| "scalar_ref_from (Float32 v) = RFloat32 v"
| "scalar_ref_from (Float64 v) = RFloat64 v"
| "scalar_ref_from (Text v) = RText v"
| "scalar_ref_from (Bytes v) = RBytes v"
| "scalar_ref_from Null = RNull"

fun scalar_physical_type :: "scalar_value \<Rightarrow> physical_type option" where
  "scalar_physical_type (Bool _) = Some PBool"
| "scalar_physical_type (Int8 _) = Some PInt8"
| "scalar_physical_type (Int16 _) = Some PInt16"
| "scalar_physical_type (Int32 _) = Some PInt32"
| "scalar_physical_type (Int64 _) = Some PInt64"
| "scalar_physical_type (Int128 _) = Some PInt128"
| "scalar_physical_type (UInt8 _) = Some PUInt8"
| "scalar_physical_type (UInt16 _) = Some PUInt16"
| "scalar_physical_type (UInt32 _) = Some PUInt32"
| "scalar_physical_type (UInt64 _) = Some PUInt64"
| "scalar_physical_type (UInt128 _) = Some PUInt128"
| "scalar_physical_type (Float32 _) = Some PFloat32"
| "scalar_physical_type (Float64 _) = Some PFloat64"
| "scalar_physical_type (Text _) = Some PText"
| "scalar_physical_type (Bytes _) = Some PBytes"
| "scalar_physical_type Null = None"

definition matches_type :: "scalar_value \<Rightarrow> semantic_type \<Rightarrow> bool" where
  "matches_type self expected =
     (case scalar_physical_type self of Some actual \<Rightarrow> actual = sem_physical expected | None \<Rightarrow> True)"

definition database_cmp :: "scalar_value \<Rightarrow> scalar_value \<Rightarrow> ordering option" where
  "database_cmp self other = ref_database_cmp (scalar_ref_from self) (scalar_ref_from other)"

text \<open>
  What the Rust types guarantee of a value: \<open>String\<close> holds UTF-8, and the float newtypes are built
  through \<open>from_bits\<close> only.
\<close>

fun wf_scalar :: "scalar_value \<Rightarrow> bool" where
  "wf_scalar (Text t) \<longleftrightarrow> utf8_valid t"
| "wf_scalar (Float32 b) \<longleftrightarrow> float32_from_bits b = b"
| "wf_scalar (Float64 b) \<longleftrightarrow> float64_from_bits b = b"
| "wf_scalar _ \<longleftrightarrow> True"

section \<open>Facts about scalars\<close>

lemma bit_total_key:
  "i < LENGTH('a) \<Longrightarrow> bit (total_key (b :: 'a::len word)) i \<longleftrightarrow>
     (if i = LENGTH('a) - 1 then bit b i else bit b i \<noteq> bit b (LENGTH('a) - 1))"
  by (auto simp: total_key_def bit_simps dest: bit_imp_le_length)

lemma total_key_total_key: "total_key (total_key b) = (b :: 'a::len word)"
proof (rule bit_word_eqI)
  fix i assume i: "i < LENGTH('a)"
  have "LENGTH('a) - 1 < LENGTH('a)" by simp
  then show "bit (total_key (total_key b)) i \<longleftrightarrow> bit b i"
    using i by (auto simp: bit_total_key)
qed

lemma total_key_inject [simp]: "total_key a = total_key b \<longleftrightarrow> a = b"
  by (metis total_key_total_key)

interpretation total_cmp_float: total_cmp "total_cmp_float :: 'a::len word \<Rightarrow> 'a word \<Rightarrow> ordering"
proof unfold_locales
  fix a b c :: "'a word"
  show "total_cmp_float a b = Equal \<longleftrightarrow> a = b"
    by (auto simp: total_cmp_float_def dest: signed_word_eqI)
  show "total_cmp_float b a = swap (total_cmp_float a b)"
    unfolding total_cmp_float_def by (rule cmp_ord.cmp_swap)
  show "total_cmp_float a b = Less \<Longrightarrow> total_cmp_float b c = Less \<Longrightarrow> total_cmp_float a c = Less"
    by (simp add: total_cmp_float_def)
qed

lemma to_owned_from [simp]: "to_owned (scalar_ref_from v) = v"
  by (cases v) simp_all

lemma from_to_owned [simp]: "scalar_ref_from (to_owned r) = r"
  by (cases r) simp_all

lemma physical_type_to_owned [simp]: "scalar_physical_type (to_owned r) = ref_physical_type r"
  by (cases r) simp_all

lemma float32_from_bits_idem: "float32_from_bits (float32_from_bits b) = float32_from_bits b"
  by (simp add: float32_from_bits_def CANONICAL_NAN_BITS_32_def Let_def)

lemma float64_from_bits_idem: "float64_from_bits (float64_from_bits b) = float64_from_bits b"
  by (simp add: float64_from_bits_def CANONICAL_NAN_BITS_64_def Let_def)

lemma scalar_none_iff [simp]: "scalar_physical_type v = None \<longleftrightarrow> v = Null"
  by (cases v) simp_all

lemma ref_none_iff [simp]: "ref_physical_type v = None \<longleftrightarrow> v = RNull"
  by (cases v) simp_all

lemma to_owned_Null_iff [simp]: "to_owned r = Null \<longleftrightarrow> r = RNull"
  by (cases r) simp_all

lemma ref_from_Null_iff [simp]: "scalar_ref_from v = RNull \<longleftrightarrow> v = Null"
  by (cases v) simp_all

lemma matches_type_to_owned: "matches_type (to_owned r) t = ref_matches_type r t"
  by (simp add: matches_type_def ref_matches_type_def)

lemma database_cmp_None_iff:
  "database_cmp a b = None \<longleftrightarrow>
     a \<noteq> Null \<and> b \<noteq> Null \<and> scalar_physical_type a \<noteq> scalar_physical_type b"
  unfolding database_cmp_def
  by (cases a; cases b) (simp_all add: ref_database_cmp_def)

declare semantic_physical_def [eval_simps] and semantic_named_def [eval_simps]
  and is_compatible_with_def [eval_simps] and ref_matches_type_def [eval_simps] and is_null_def [eval_simps]
  and matches_type_def [eval_simps] and float32_from_bits_def [eval_simps]
  and float64_from_bits_def [eval_simps] and CANONICAL_NAN_BITS_32_def [eval_simps]
  and CANONICAL_NAN_BITS_64_def [eval_simps]

end
