(* ===== verification/Schema.thy ===== *)
theory Schema
  imports Scalar_Types
begin

text \<open>
  The canonical schema IR of \<open>crates/netbadb-schema\<close>: table definitions, their validation, the
  canonical byte encoding that identifies a table, and the schema as an ordered list of tables.
  SHA-256 is third-party code and enters \<open>fingerprint\<close> as a parameter.
\<close>

datatype type_spec = Physical physical_type | Semantic str physical_type

fun type_spec_semantic_type :: "type_spec \<Rightarrow> semantic_type" where
  "type_spec_semantic_type (Physical p) = semantic_physical p"
| "type_spec_semantic_type (Semantic name p) = semantic_named name p"

record column_def =
  col_id :: ColumnId
  col_name :: str
  col_type_spec :: type_spec
  col_nullable :: bool
  col_primary_key :: bool

definition column_new :: "ColumnId \<Rightarrow> str \<Rightarrow> type_spec \<Rightarrow> column_def" where
  "column_new cid name spec =
     \<lparr>col_id = cid, col_name = name, col_type_spec = spec, col_nullable = False, col_primary_key = False\<rparr>"

definition column_semantic_type :: "column_def \<Rightarrow> semantic_type" where
  "column_semantic_type c = type_spec_semantic_type (col_type_spec c)"

record table_def =
  table_id :: TableId
  table_name :: str
  table_columns :: "column_def list"

datatype schema_error =
    DuplicateTableId TableId
  | DuplicateTableName str
  | DuplicateColumnId str ColumnId
  | DuplicateColumnName str str
  | EmptyTableName
  | EmptyColumnName str
  | InvalidSemanticType str str str
  | TooManyColumns str usize
  | CanonicalStringTooLong string usize

definition table_column :: "table_def \<Rightarrow> str \<Rightarrow> column_def option" where
  "table_column t name = find (\<lambda>c. col_name c = name) (table_columns t)"

definition column_by_id :: "table_def \<Rightarrow> ColumnId \<Rightarrow> column_def option" where
  "column_by_id t cid = find (\<lambda>c. col_id c = cid) (table_columns t)"

definition canonical_string_length :: "str \<Rightarrow> string \<Rightarrow> (schema_error, u32) res" where
  "canonical_string_length value field =
     ok_or (CanonicalStringTooLong field (length value)) (u32_try_from (length value))"

definition push_string :: "byte list \<Rightarrow> str \<Rightarrow> string \<Rightarrow> (schema_error, byte list) res" where
  "push_string output value field =
     bindR (canonical_string_length value field) (\<lambda>len.
     Inr (output @ to_le_bytes len @ value))"

fun physical_type_tag :: "physical_type \<Rightarrow> u8" where
  "physical_type_tag PBool = 1"
| "physical_type_tag PInt64 = 2"
| "physical_type_tag PUInt64 = 3"
| "physical_type_tag PText = 4"
| "physical_type_tag PInt8 = 5"
| "physical_type_tag PInt16 = 6"
| "physical_type_tag PInt32 = 7"
| "physical_type_tag PInt128 = 8"
| "physical_type_tag PUInt8 = 9"
| "physical_type_tag PUInt16 = 10"
| "physical_type_tag PUInt32 = 11"
| "physical_type_tag PUInt128 = 12"
| "physical_type_tag PFloat32 = 13"
| "physical_type_tag PFloat64 = 14"
| "physical_type_tag PBytes = 15"

section \<open>Validation\<close>

text \<open>The checks of one column against the table name and the columns before it.\<close>

definition validate_column :: "str \<Rightarrow> column_def list \<Rightarrow> column_def \<Rightarrow> (schema_error, unit) res" where
  "validate_column table previous column =
     bindR (ensure (col_name column \<noteq> []) (EmptyColumnName table)) (\<lambda>_.
     bindR (canonical_string_length (col_name column) ''column name'') (\<lambda>_.
     bindR (case col_type_spec column of
              Semantic name _ \<Rightarrow>
                bindR (ensure (name \<noteq> []) (InvalidSemanticType table (col_name column) name)) (\<lambda>_.
                bindR (canonical_string_length name ''semantic type name'') (\<lambda>_. Inr ()))
            | Physical _ \<Rightarrow> Inr ()) (\<lambda>_.
     for_each (\<lambda>other.
        bindR (ensure (col_id column \<noteq> col_id other) (DuplicateColumnId table (col_id column))) (\<lambda>_.
        ensure (col_name column \<noteq> col_name other) (DuplicateColumnName table (col_name column))))
      previous)))"

fun validate_columns :: "str \<Rightarrow> column_def list \<Rightarrow> column_def list \<Rightarrow> (schema_error, unit) res" where
  "validate_columns table previous [] = Inr ()"
| "validate_columns table previous (c # cs) =
     bindR (validate_column table previous c) (\<lambda>_. validate_columns table (previous @ [c]) cs)"

definition table_validate :: "table_def \<Rightarrow> (schema_error, unit) res" where
  "table_validate t =
     bindR (ensure (table_name t \<noteq> []) EmptyTableName) (\<lambda>_.
     bindR (canonical_string_length (table_name t) ''table name'') (\<lambda>_.
     bindR (ensure (length (table_columns t) \<le> U32_MAX)
              (TooManyColumns (table_name t) (length (table_columns t)))) (\<lambda>_.
     validate_columns (table_name t) [] (table_columns t))))"

section \<open>Canonical bytes\<close>

definition CANONICAL_TABLE_SCHEMA_MAGIC :: "byte list" where
  "CANONICAL_TABLE_SCHEMA_MAGIC = [0x4E, 0x42, 0x54, 0x53]"

definition CANONICAL_TABLE_SCHEMA_VERSION :: u16 where "CANONICAL_TABLE_SCHEMA_VERSION = 1"

definition bool_byte :: "bool \<Rightarrow> u8" where
  "bool_byte b = (if b then 1 else 0)"

definition push_column :: "byte list \<Rightarrow> column_def \<Rightarrow> (schema_error, byte list) res" where
  "push_column bytes column =
     bindR (push_string (bytes @ to_le_bytes (col_id column)) (col_name column) ''column name'') (\<lambda>bytes.
     let (physical, semantic_name) = (case col_type_spec column of
            Physical p \<Rightarrow> (p, None) | Semantic name p \<Rightarrow> (p, Some name));
         bytes = bytes @ [physical_type_tag physical]
     in bindR (case semantic_name of
                 None \<Rightarrow> Inr (bytes @ [0])
               | Some name \<Rightarrow> push_string (bytes @ [1]) name ''semantic type name'') (\<lambda>bytes.
        Inr (bytes @ [bool_byte (col_nullable column), bool_byte (col_primary_key column)])))"

fun push_columns :: "byte list \<Rightarrow> column_def list \<Rightarrow> (schema_error, byte list) res" where
  "push_columns bytes [] = Inr bytes"
| "push_columns bytes (c # cs) = bindR (push_column bytes c) (\<lambda>bytes. push_columns bytes cs)"

definition canonical_bytes :: "table_def \<Rightarrow> (schema_error, byte list) res" where
  "canonical_bytes t =
     bindR (table_validate t) (\<lambda>_.
     bindR (push_string
              (CANONICAL_TABLE_SCHEMA_MAGIC @ to_le_bytes CANONICAL_TABLE_SCHEMA_VERSION
               @ to_le_bytes (0 :: u16) @ to_le_bytes (table_id t))
              (table_name t) ''table name'') (\<lambda>bytes.
     push_columns (bytes @ to_le_bytes (of_nat (length (table_columns t)) :: u32)) (table_columns t)))"

definition fingerprint :: "(byte list \<Rightarrow> byte list) \<Rightarrow> table_def \<Rightarrow> (schema_error, byte list) res" where
  "fingerprint sha256 t = bindR (canonical_bytes t) (\<lambda>bytes. Inr (sha256 bytes))"

section \<open>Schemas\<close>

type_synonym schema = "table_def list"

fun validate_tables :: "table_def list \<Rightarrow> table_def list \<Rightarrow> (schema_error, unit) res" where
  "validate_tables previous [] = Inr ()"
| "validate_tables previous (t # ts) =
     bindR (table_validate t) (\<lambda>_.
     bindR (for_each (\<lambda>other.
        bindR (ensure (table_id t \<noteq> table_id other) (DuplicateTableId (table_id t))) (\<lambda>_.
        ensure (table_name t \<noteq> table_name other) (DuplicateTableName (table_name t)))) previous) (\<lambda>_.
     validate_tables (previous @ [t]) ts))"

definition schema_validate :: "schema \<Rightarrow> (schema_error, unit) res" where
  "schema_validate s = validate_tables [] s"

definition schema_new :: "table_def list \<Rightarrow> (schema_error, schema) res" where
  "schema_new tables = bindR (schema_validate tables) (\<lambda>_. Inr tables)"

definition add_table :: "schema \<Rightarrow> table_def \<Rightarrow> (schema_error, schema) res" where
  "add_table s t =
     bindR (schema_validate s) (\<lambda>_.
     bindR (table_validate t) (\<lambda>_.
     bindR (ensure (\<not> list_ex (\<lambda>e. table_id e = table_id t) s) (DuplicateTableId (table_id t))) (\<lambda>_.
     bindR (ensure (\<not> list_ex (\<lambda>e. table_name e = table_name t) s) (DuplicateTableName (table_name t))) (\<lambda>_.
     Inr (s @ [t])))))"

definition schema_table :: "schema \<Rightarrow> str \<Rightarrow> table_def option" where
  "schema_table s name = find (\<lambda>t. table_name t = name) s"

section \<open>Well-formed tables and schemas\<close>

text \<open>What validation is meant to enforce, stated without the order of its checks.\<close>

definition ok_name :: "str \<Rightarrow> bool" where
  "ok_name s \<longleftrightarrow> s \<noteq> [] \<and> length s \<le> U32_MAX"

fun ok_type_spec :: "type_spec \<Rightarrow> bool" where
  "ok_type_spec (Physical _) \<longleftrightarrow> True"
| "ok_type_spec (Semantic name _) \<longleftrightarrow> ok_name name"

definition wf_table :: "table_def \<Rightarrow> bool" where
  "wf_table t \<longleftrightarrow> ok_name (table_name t) \<and> length (table_columns t) \<le> U32_MAX \<and>
     (\<forall>c \<in> set (table_columns t). ok_name (col_name c) \<and> ok_type_spec (col_type_spec c)) \<and>
     distinct (map col_id (table_columns t)) \<and> distinct (map col_name (table_columns t))"

definition wf_schema :: "schema \<Rightarrow> bool" where
  "wf_schema s \<longleftrightarrow> (\<forall>t \<in> set s. wf_table t) \<and>
     distinct (map table_id s) \<and> distinct (map table_name s)"

lemma canonical_string_length_Inr [simp]:
  "canonical_string_length s f = Inr n \<longleftrightarrow> length s \<le> U32_MAX \<and> n = of_nat (length s)"
  by (simp add: canonical_string_length_def u32_try_from_Some_iff)

lemma validate_column_Inr:
  "validate_column tn prev c = Inr u \<longleftrightarrow>
     ok_name (col_name c) \<and> ok_type_spec (col_type_spec c) \<and>
     col_id c \<notin> col_id ` set prev \<and> col_name c \<notin> col_name ` set prev"
  by (cases "col_type_spec c")
     (auto simp: validate_column_def ok_name_def for_each_Inr_iff)

lemma validate_columns_Inr:
  "validate_columns tn prev cs = Inr u \<longleftrightarrow>
     (\<forall>c \<in> set cs. ok_name (col_name c) \<and> ok_type_spec (col_type_spec c)) \<and>
     distinct (map col_id cs) \<and> distinct (map col_name cs) \<and>
     col_id ` set prev \<inter> col_id ` set cs = {} \<and> col_name ` set prev \<inter> col_name ` set cs = {}"
  by (induction cs arbitrary: prev) (auto simp: validate_column_Inr)

lemma table_validate_iff: "table_validate t = Inr u \<longleftrightarrow> wf_table t"
  by (auto simp: table_validate_def wf_table_def ok_name_def validate_columns_Inr)

lemma validate_tables_Inr:
  "validate_tables prev ts = Inr u \<longleftrightarrow>
     (\<forall>t \<in> set ts. wf_table t) \<and> distinct (map table_id ts) \<and> distinct (map table_name ts) \<and>
     table_id ` set prev \<inter> table_id ` set ts = {} \<and> table_name ` set prev \<inter> table_name ` set ts = {}"
  by (induction ts arbitrary: prev) (auto simp: table_validate_iff for_each_Inr_iff)

lemma schema_validate_iff: "schema_validate s = Inr u \<longleftrightarrow> wf_schema s"
  by (simp add: schema_validate_def validate_tables_Inr wf_schema_def)

lemma add_table_wf:
  "add_table s t = Inr s' \<longleftrightarrow> s' = s @ [t] \<and> wf_schema (s @ [t])"
  by (auto simp: add_table_def schema_validate_iff table_validate_iff wf_schema_def list_ex_iff
      image_iff)

section \<open>The encoding without error plumbing\<close>

definition string_bytes :: "str \<Rightarrow> byte list" where
  "string_bytes s = to_le_bytes (of_nat (length s) :: u32) @ s"

fun type_spec_bytes :: "type_spec \<Rightarrow> byte list" where
  "type_spec_bytes (Physical p) = [physical_type_tag p, 0]"
| "type_spec_bytes (Semantic name p) = physical_type_tag p # 1 # string_bytes name"

definition column_bytes :: "column_def \<Rightarrow> byte list" where
  "column_bytes c = to_le_bytes (col_id c) @ string_bytes (col_name c)
     @ type_spec_bytes (col_type_spec c)
     @ [bool_byte (col_nullable c), bool_byte (col_primary_key c)]"

definition ok_column :: "column_def \<Rightarrow> bool" where
  "ok_column c \<longleftrightarrow> length (col_name c) \<le> U32_MAX \<and> ok_type_spec (col_type_spec c)"

lemma push_string_Inr:
  "push_string out s f = Inr bs \<longleftrightarrow> length s \<le> U32_MAX \<and> bs = out @ string_bytes s"
  by (auto simp: push_string_def string_bytes_def)

lemma push_column_ok: "ok_column c \<Longrightarrow> push_column out c = Inr (out @ column_bytes c)"
  by (cases "col_type_spec c")
     (auto simp: push_column_def push_string_Inr column_bytes_def ok_column_def ok_name_def)

lemma push_columns_ok:
  "list_all ok_column cs \<Longrightarrow> push_columns out cs = Inr (out @ concat (map column_bytes cs))"
  by (induction cs arbitrary: out) (auto simp: push_column_ok)

definition table_bytes :: "table_def \<Rightarrow> byte list" where
  "table_bytes t = CANONICAL_TABLE_SCHEMA_MAGIC @ to_le_bytes CANONICAL_TABLE_SCHEMA_VERSION
     @ to_le_bytes (0 :: u16) @ to_le_bytes (table_id t) @ string_bytes (table_name t)
     @ to_le_bytes (of_nat (length (table_columns t)) :: u32)
     @ concat (map column_bytes (table_columns t))"

lemma canonical_bytes_Inr: "canonical_bytes t = Inr bs \<longleftrightarrow> wf_table t \<and> bs = table_bytes t"
proof -
  have "list_all ok_column (table_columns t)" if "wf_table t"
    using that by (auto simp: wf_table_def ok_column_def ok_name_def list_all_iff)
  then show ?thesis
    by (auto simp: canonical_bytes_def table_validate_iff push_string_Inr push_columns_ok
        table_bytes_def wf_table_def ok_name_def)
qed

section \<open>Prefix injectivity\<close>

lemma string_bytes_prefix_inject:
  assumes "string_bytes a @ r = string_bytes b @ s" "length a \<le> U32_MAX" "length b \<le> U32_MAX"
  shows "a = b \<and> r = s"
proof -
  have eq: "(of_nat (length a) :: u32) = of_nat (length b) \<and> a @ r = b @ s"
    using assms(1) by (intro le_prefix_inject) (simp_all only: string_bytes_def append_assoc, simp)
  then have "length a = length b" using of_nat_u32_inject assms(2,3) by blast
  then show ?thesis using eq append_eq_append_conv by blast
qed

lemma physical_type_tag_inject [simp]: "physical_type_tag p = physical_type_tag q \<longleftrightarrow> p = q"
  by (cases p; cases q) simp_all

lemma bool_byte_inject [simp]: "bool_byte a = bool_byte b \<longleftrightarrow> a = b"
  by (simp add: bool_byte_def)

lemma type_spec_bytes_prefix_inject:
  assumes "type_spec_bytes a @ r = type_spec_bytes b @ s" "ok_type_spec a" "ok_type_spec b"
  shows "a = b \<and> r = s"
  using assms
  by (cases a; cases b) (auto simp: ok_name_def dest: string_bytes_prefix_inject)

lemma column_bytes_prefix_inject:
  assumes "column_bytes a @ r = column_bytes b @ s" "ok_column a" "ok_column b"
  shows "a = b \<and> r = s"
proof -
  have 1: "col_id a = col_id b"
     "string_bytes (col_name a) @ type_spec_bytes (col_type_spec a)
       @ [bool_byte (col_nullable a), bool_byte (col_primary_key a)] @ r
     = string_bytes (col_name b) @ type_spec_bytes (col_type_spec b)
       @ [bool_byte (col_nullable b), bool_byte (col_primary_key b)] @ s"
    using assms(1) unfolding column_bytes_def append_assoc
    by (auto dest: le_prefix_inject)
  have 2: "col_name a = col_name b"
     "type_spec_bytes (col_type_spec a) @ [bool_byte (col_nullable a), bool_byte (col_primary_key a)] @ r
     = type_spec_bytes (col_type_spec b) @ [bool_byte (col_nullable b), bool_byte (col_primary_key b)] @ s"
    using string_bytes_prefix_inject[OF 1(2)] assms(2,3) by (simp_all add: ok_column_def)
  show ?thesis
    using type_spec_bytes_prefix_inject[OF 2(2)] assms(2,3) 1(1) 2(1)
    by (auto simp: ok_column_def intro: column_def.equality)
qed

lemma columns_bytes_inject:
  "concat (map column_bytes cs) = concat (map column_bytes ds) \<Longrightarrow> length cs = length ds \<Longrightarrow>
     list_all ok_column cs \<Longrightarrow> list_all ok_column ds \<Longrightarrow> cs = ds"
proof (induction cs ds rule: list_induct2')
  case (4 c cs d ds)
  then show ?case using column_bytes_prefix_inject[of c _ d] by auto
qed auto

lemma table_bytes_inject:
  assumes "wf_table t" "wf_table u" "table_bytes t = table_bytes u"
  shows "t = u"
proof -
  let ?count = "\<lambda>t. of_nat (length (table_columns t)) :: u32"
  let ?cols = "\<lambda>t. concat (map column_bytes (table_columns t))"
  have ok: "list_all ok_column (table_columns t)" "list_all ok_column (table_columns u)"
    using assms(1,2) by (auto simp: wf_table_def ok_column_def ok_name_def list_all_iff)
  have 1: "table_id t = table_id u \<and> string_bytes (table_name t) @ to_le_bytes (?count t) @ ?cols t
      = string_bytes (table_name u) @ to_le_bytes (?count u) @ ?cols u"
  proof (rule le_prefix_inject)
    show "to_le_bytes (table_id t) @ string_bytes (table_name t) @ to_le_bytes (?count t) @ ?cols t
       = to_le_bytes (table_id u) @ string_bytes (table_name u) @ to_le_bytes (?count u) @ ?cols u"
      using assms(3) by (simp only: table_bytes_def same_append_eq append_assoc)
  qed simp
  have 2: "table_name t = table_name u \<and> to_le_bytes (?count t) @ ?cols t = to_le_bytes (?count u) @ ?cols u"
    using assms(1,2) by (intro string_bytes_prefix_inject[OF conjunct2[OF 1]]) (simp_all add: wf_table_def ok_name_def)
  have 3: "?count t = ?count u \<and> ?cols t = ?cols u"
    by (rule le_prefix_inject[OF conjunct2[OF 2]]) simp
  then have "length (table_columns t) = length (table_columns u)"
    using assms(1,2) of_nat_u32_inject unfolding wf_table_def by blast
  then have "table_columns t = table_columns u" using columns_bytes_inject[OF conjunct2[OF 3] _ ok] by blast
  then show ?thesis using 1 2 by (simp add: table_def.equality)
qed

section \<open>Properties\<close>

definition sample_table :: table_def where
  "sample_table = \<lparr>table_id = 7, table_name = [0x74], table_columns =
     [(column_new 1 [0x61] (Physical PInt16)) \<lparr>col_primary_key := True\<rparr>,
      (column_new 2 [0x62] (Semantic [0x6E] PText)) \<lparr>col_nullable := True\<rparr>]\<rparr>"

declare column_new_def [eval_simps] and column_semantic_type_def [eval_simps]
  and canonical_string_length_def [eval_simps] and push_string_def [eval_simps]
  and validate_column_def [eval_simps] and table_validate_def [eval_simps]
  and CANONICAL_TABLE_SCHEMA_MAGIC_def [eval_simps] and CANONICAL_TABLE_SCHEMA_VERSION_def [eval_simps]
  and bool_byte_def [eval_simps] and push_column_def [eval_simps] and canonical_bytes_def [eval_simps]
  and schema_validate_def [eval_simps] and add_table_def [eval_simps] and sample_table_def [eval_simps] and schema_table_def [eval_simps]

text \<open>
  C36. Validation accepts a schema exactly when every table has a non-empty name and non-empty
  column and semantic names within the canonical length, column identifiers and names are distinct
  inside each table, and table identifiers and names are distinct across the schema.
\<close>

theorem schema_validation_exact: "is_ok (schema_validate s) \<longleftrightarrow> wf_schema s"
  using schema_validate_iff[of s "()"] by (cases "schema_validate s") auto

text \<open>
  The canonical encoding identifies a table: two table definitions that both encode, and
  encode to the same bytes, are the same definition.
\<close>

theorem canonical_bytes_injective:
  assumes "canonical_bytes t = Inr bs" "canonical_bytes u = Inr bs"
  shows "t = u"
  using assms table_bytes_inject by (auto simp: canonical_bytes_Inr)

theorem canonical_bytes_injective_witness:
  "\<exists>bs. canonical_bytes sample_table = Inr bs \<and> canonical_bytes (sample_table \<lparr>table_name := [0x74]\<rparr>) = Inr bs \<and>
     sample_table = sample_table \<lparr>table_name := [0x74]\<rparr>"
proof -
  let ?bs = "[0x4E, 0x42, 0x54, 0x53, 1, 0, 0, 0, 7, 0, 0, 0, 0, 0, 0, 0, 1, 0, 0, 0, 0x74, 2, 0, 0, 0,
    1, 0, 0, 0, 1, 0, 0, 0, 0x61, 6, 0, 0, 1,
    2, 0, 0, 0, 1, 0, 0, 0, 0x62, 4, 1, 1, 0, 0, 0, 0x6E, 1, 0]"
  have "canonical_bytes sample_table = Inr ?bs" by (simp add: eval_simps)
  moreover have "canonical_bytes (sample_table \<lparr>table_name := [0x74]\<rparr>) = Inr ?bs" by (simp add: eval_simps)
  ultimately show ?thesis using canonical_bytes_injective by blast
qed

text \<open>
  Adding a table to a schema succeeds exactly when the extended schema is well formed; it then
  appends the table, finds the new table under its name, and answers every other name as before.
\<close>

theorem add_table_correct:
  "add_table s t = Inr s' \<longleftrightarrow> s' = s @ [t] \<and> wf_schema s' \<and>
     schema_table s' (table_name t) = Some t \<and>
     (\<forall>n. n \<noteq> table_name t \<longrightarrow> schema_table s' n = schema_table s n)"
proof -
  have find_snoc: "find P (s @ [t]) = (case find P s of Some x \<Rightarrow> Some x | None \<Rightarrow> if P t then Some t else None)"
    for P by (induction s) auto
  have "schema_table (s @ [t]) (table_name t) = Some t" if "wf_schema (s @ [t])"
  proof -
    have "find (\<lambda>x. table_name x = table_name t) s = None"
      using that by (auto simp: wf_schema_def find_None_iff image_iff)
    then show ?thesis by (simp add: schema_table_def find_snoc)
  qed
  moreover have "schema_table (s @ [t]) n = schema_table s n" if "n \<noteq> table_name t" for n
    using that by (simp add: schema_table_def find_snoc split: option.splits)
  ultimately show ?thesis by (auto simp: add_table_wf)
qed

theorem add_table_correct_witness:
  "schema_table ([] @ [sample_table]) [0x74] = Some sample_table"
proof -
  have "add_table [] sample_table = Inr ([] @ [sample_table])" by (simp add: eval_simps)
  then have "schema_table ([] @ [sample_table]) (table_name sample_table) = Some sample_table"
    by (rule add_table_correct[THEN iffD1, THEN conjunct2, THEN conjunct2, THEN conjunct1])
  then show ?thesis by (simp add: sample_table_def)
qed

end
