(* ===== verification/Row_Codec.thy ===== *)
theory Row_Codec
  imports Schema
begin

text \<open>
  The positional row codec of \<open>crates/netbadb-row-codec\<close>: the tagged scalar format shared by the
  heap, the LSM engine and the change stream, with validation against a table and projection.
\<close>

datatype codec_error =
    MissingScalarTag
  | UnknownScalarTag u8
  | InvalidBoolean u8
  | ScalarTruncated
  | LengthOverflow
  | TextNotUtf8
  | ExtraValues

datatype row_error =
    Codec codec_error
  | InvalidRowLength usize usize
  | TypeMismatch str physical_type "physical_type option"
  | NullNotAllowed str
  | UnknownColumn ColumnId
  | InvalidFormat string
  | ResourceLimit string u64

section \<open>Encoding\<close>

definition encode_length :: "usize \<Rightarrow> (row_error, byte list) res" where
  "encode_length n =
     bindR (ok_or (ResourceLimit ''encoded row bytes'' 4294967295) (u32_try_from n)) (\<lambda>len.
     Inr (to_le_bytes len))"

fun encode_value :: "scalar_value \<Rightarrow> (row_error, byte list) res" where
  "encode_value (Bool v) = Inr [0, bool_byte v]"
| "encode_value (Int64 v) = Inr (1 # to_le_bytes v)"
| "encode_value (UInt64 v) = Inr (2 # to_le_bytes v)"
| "encode_value (Text v) = bindR (encode_length (length v)) (\<lambda>len. Inr (3 # len @ v))"
| "encode_value Null = Inr [4]"
| "encode_value (Int8 v) = Inr (5 # to_le_bytes v)"
| "encode_value (Int16 v) = Inr (6 # to_le_bytes v)"
| "encode_value (Int32 v) = Inr (7 # to_le_bytes v)"
| "encode_value (Int128 v) = Inr (8 # to_le_bytes v)"
| "encode_value (UInt8 v) = Inr (9 # to_le_bytes v)"
| "encode_value (UInt16 v) = Inr (10 # to_le_bytes v)"
| "encode_value (UInt32 v) = Inr (11 # to_le_bytes v)"
| "encode_value (UInt128 v) = Inr (12 # to_le_bytes v)"
| "encode_value (Float32 v) = Inr (13 # to_le_bytes v)"
| "encode_value (Float64 v) = Inr (14 # to_le_bytes v)"
| "encode_value (Bytes v) = bindR (encode_length (length v)) (\<lambda>len. Inr (15 # len @ v))"

text \<open>The loop over the values; each iteration appends to \<open>encoded\<close>.\<close>

fun encode_values :: "byte list \<Rightarrow> scalar_value list \<Rightarrow> (row_error, byte list) res" where
  "encode_values encoded [] = Inr encoded"
| "encode_values encoded (v # vs) =
     bindR (encode_value v) (\<lambda>bytes. encode_values (encoded @ bytes) vs)"

definition encode_row :: "scalar_value list \<Rightarrow> (row_error, byte list) res" where
  "encode_row values = encode_values [] values"

section \<open>Validation against a table\<close>

definition validate_value :: "scalar_value \<times> column_def \<Rightarrow> (row_error, unit) res" where
  "validate_value = (\<lambda>(value, column).
     if value = Null then ensure (col_nullable column) (NullNotAllowed (col_name column))
     else ensure (matches_type value (column_semantic_type column))
            (TypeMismatch (col_name column) (sem_physical (column_semantic_type column))
               (scalar_physical_type value)))"

definition validate_row :: "table_def \<Rightarrow> scalar_value list \<Rightarrow> (row_error, unit) res" where
  "validate_row table values =
     bindR (ensure (length values = length (table_columns table))
              (InvalidRowLength (length (table_columns table)) (length values))) (\<lambda>_.
     for_each validate_value (zip values (table_columns table)))"

text \<open>\<open>iter().position(p)\<close>\<close>

fun position :: "('a \<Rightarrow> bool) \<Rightarrow> 'a list \<Rightarrow> usize option" where
  "position p [] = None"
| "position p (x # xs) = (if p x then Some 0 else map_option Suc (position p xs))"

definition resolve_columns :: "table_def \<Rightarrow> ColumnId list \<Rightarrow> (row_error, usize list) res" where
  "resolve_columns table columns =
     collect (\<lambda>cid. ok_or (UnknownColumn cid)
                      (position (\<lambda>column. col_id column = cid) (table_columns table))) columns"

section \<open>Decoding\<close>

definition take_array :: "byte list \<Rightarrow> usize \<Rightarrow> usize \<Rightarrow> (row_error, byte list \<times> usize) res" where
  "take_array payload offset n = take_bytes (Codec LengthOverflow) (Codec ScalarTruncated) payload offset n"

definition take_le :: "byte list \<Rightarrow> usize \<Rightarrow> (row_error, 'a::len word \<times> usize) res" where
  "take_le payload offset =
     bindR (take_array payload offset (LENGTH('a) div 8)) (\<lambda>(bs, off). Inr (from_le_bytes bs, off))"

text \<open>The \<open>u32\<close> length prefix and the bytes after it, as tags 3 and 15 read them.\<close>

definition take_prefixed :: "byte list \<Rightarrow> usize \<Rightarrow> (row_error, byte list \<times> usize) res" where
  "take_prefixed payload offset =
     bindR (take_le payload offset) (\<lambda>(len :: u32, offset).
     bindR (ok_or (Codec LengthOverflow) (checked_add offset (unat len))) (\<lambda>end.
     bindR (ok_or (Codec ScalarTruncated) (get_range payload offset end)) (\<lambda>bytes.
     Inr (bytes, end))))"

definition read_scalar :: "('a::len word \<Rightarrow> scalar_ref) \<Rightarrow> byte list \<Rightarrow> usize \<Rightarrow> (row_error, scalar_ref \<times> usize) res" where
  "read_scalar f payload offset = bindR (take_le payload offset) (\<lambda>(w, offset). Inr (f w, offset))"

definition decode_value :: "byte list \<Rightarrow> usize \<Rightarrow> (row_error, scalar_ref \<times> usize) res" where
  "decode_value payload offset =
     bindR (ok_or (Codec MissingScalarTag) (get_at payload offset)) (\<lambda>tag.
     bindR (ok_or (Codec LengthOverflow) (checked_add offset 1)) (\<lambda>offset.
     if tag = 0 then
       bindR (ok_or (Codec ScalarTruncated) (get_at payload offset)) (\<lambda>value.
       bindR (ok_or (Codec LengthOverflow) (checked_add offset 1)) (\<lambda>offset.
       if value = 0 then Inr (RBool False, offset)
       else if value = 1 then Inr (RBool True, offset)
       else Inl (Codec (InvalidBoolean value))))
     else if tag = 1 then read_scalar RInt64 payload offset
     else if tag = 2 then read_scalar RUInt64 payload offset
     else if tag = 3 then
       bindR (take_prefixed payload offset) (\<lambda>(bytes, offset).
       bindR (ok_or (Codec TextNotUtf8) (from_utf8 bytes)) (\<lambda>text.
       Inr (RText text, offset)))
     else if tag = 4 then Inr (RNull, offset)
     else if tag = 5 then read_scalar RInt8 payload offset
     else if tag = 6 then read_scalar RInt16 payload offset
     else if tag = 7 then read_scalar RInt32 payload offset
     else if tag = 8 then read_scalar RInt128 payload offset
     else if tag = 9 then read_scalar RUInt8 payload offset
     else if tag = 10 then read_scalar RUInt16 payload offset
     else if tag = 11 then read_scalar RUInt32 payload offset
     else if tag = 12 then read_scalar RUInt128 payload offset
     else if tag = 13 then read_scalar (\<lambda>b. RFloat32 (float32_from_bits b)) payload offset
     else if tag = 14 then read_scalar (\<lambda>b. RFloat64 (float64_from_bits b)) payload offset
     else if tag = 15 then
       bindR (take_prefixed payload offset) (\<lambda>(bytes, offset). Inr (RBytes bytes, offset))
     else Inl (Codec (UnknownScalarTag tag))))"

definition validate_decoded_scalar :: "scalar_ref \<Rightarrow> column_def \<Rightarrow> (row_error, unit) res" where
  "validate_decoded_scalar value column =
     (if is_null value then ensure (col_nullable column) (NullNotAllowed (col_name column))
      else ensure (ref_matches_type value (column_semantic_type column))
             (TypeMismatch (col_name column) (sem_physical (column_semantic_type column))
                (ref_physical_type value)))"

text \<open>The loop over the schema columns, carrying the offset and the selected values.\<close>

fun decode_columns :: "byte list \<Rightarrow> usize list \<Rightarrow> usize \<Rightarrow> column_def list \<Rightarrow> usize
    \<Rightarrow> scalar_value option list \<Rightarrow> (row_error, scalar_value option list \<times> usize) res" where
  "decode_columns payload positions schema_position [] offset selected = Inr (selected, offset)"
| "decode_columns payload positions schema_position (column # columns) offset selected =
     bindR (decode_value payload offset) (\<lambda>(value, offset).
     bindR (validate_decoded_scalar value column) (\<lambda>_.
     decode_columns payload positions (Suc schema_position) columns offset
       (map2 (\<lambda>requested current. if requested = schema_position then Some (to_owned value) else current)
          positions selected)))"

definition decode_row_positions :: "byte list \<Rightarrow> table_def \<Rightarrow> usize list \<Rightarrow> (row_error, scalar_value list) res" where
  "decode_row_positions payload table positions =
     bindR (decode_columns payload positions 0 (table_columns table) 0
              (replicate (length positions) None)) (\<lambda>(selected, offset).
     bindR (ensure (offset = length payload) (Codec ExtraValues)) (\<lambda>_.
     collect (ok_or (InvalidFormat ''row projection position is out of bounds'')) selected))"

definition decode_row :: "byte list \<Rightarrow> table_def \<Rightarrow> (row_error, scalar_value list) res" where
  "decode_row payload table = decode_row_positions payload table [0..<length (table_columns table)]"

definition decode_row_columns :: "byte list \<Rightarrow> table_def \<Rightarrow> ColumnId list \<Rightarrow> (row_error, scalar_value list) res" where
  "decode_row_columns payload table columns =
     bindR (resolve_columns table columns) (decode_row_positions payload table)"

section \<open>The scalar codec as a self-delimiting codec\<close>

text \<open>The bytes of one scalar without the length check, and when that check passes.\<close>

fun value_bytes :: "scalar_value \<Rightarrow> byte list" where
  "value_bytes (Text v) = 3 # string_bytes v"
| "value_bytes (Bytes v) = 15 # string_bytes v"
| "value_bytes v = (case encode_value v of Inr bs \<Rightarrow> bs | Inl _ \<Rightarrow> [])"

fun encodable :: "scalar_value \<Rightarrow> bool" where
  "encodable (Text v) \<longleftrightarrow> length v \<le> U32_MAX"
| "encodable (Bytes v) \<longleftrightarrow> length v \<le> U32_MAX"
| "encodable _ \<longleftrightarrow> True"

lemma encode_value_Inr: "encode_value v = Inr bs \<longleftrightarrow> encodable v \<and> bs = value_bytes v"
  by (cases v) (auto simp: encode_length_def u32_try_from_Some_iff string_bytes_def)

lemma encode_values_Inr:
  "encode_values acc vs = Inr bs \<longleftrightarrow> list_all encodable vs \<and> bs = acc @ concat (map value_bytes vs)"
  by (induction vs arbitrary: acc) (auto simp: encode_value_Inr)

lemma encode_row_Inr:
  "encode_row vs = Inr bs \<longleftrightarrow> list_all encodable vs \<and> bs = concat (map value_bytes vs)"
  by (simp add: encode_row_def encode_values_Inr)

lemma take_le_at [cursor_simps]:
  "at_cursor p off (to_le_bytes (w :: 'a::len word) @ rest) \<Longrightarrow> 8 dvd LENGTH('a) \<Longrightarrow>
     take_le p off = Inr (w, off + LENGTH('a) div 8)"
  by (simp add: take_le_def take_array_def take_bytes_at)

lemma read_scalar_at:
  "at_cursor p off (to_le_bytes (w :: 'a::len word) @ rest) \<Longrightarrow> 8 dvd LENGTH('a) \<Longrightarrow>
     read_scalar f p off = Inr (f w, off + LENGTH('a) div 8)"
  by (simp add: read_scalar_def take_le_at)

lemma take_prefixed_at:
  assumes "at_cursor p off (string_bytes s @ rest)" "length s \<le> U32_MAX"
  shows "take_prefixed p off = Inr (s, off + length (string_bytes s))"
proof -
  have cur: "at_cursor p off (to_le_bytes (of_nat (length s) :: u32) @ s @ rest)"
    using assms(1) by (simp add: string_bytes_def)
  have "at_cursor p (off + 4) (s @ rest)" using at_cursor_le[OF cur] by simp
  then show ?thesis
    using assms(2) take_le_at[OF cur] at_cursor_checked at_cursor_range
    by (simp add: take_prefixed_def string_bytes_def add.assoc[symmetric] at_cursor_checked at_cursor_range
        del: of_nat_numeral)
qed

lemma decode_value_at:
  assumes cur: "at_cursor p off (value_bytes v @ rest)" and v: "encodable v" "wf_scalar v"
  shows "decode_value p off = Inr (scalar_ref_from v, off + length (value_bytes v))"
proof -
  obtain tag bs where bs: "value_bytes v = tag # bs" by (cases v) auto
  have tag: "get_at p off = Some tag" and nxt: "at_cursor p (Suc off) (bs @ rest)"
    using cur bs at_cursor_get at_cursor_Cons by auto
  have step: "checked_add off 1 = Some (Suc off)"
    using at_cursor_checked[of p off "[tag]"] cur bs by auto
  show ?thesis
  proof (cases v)
    case (Bool b)
    have b: "get_at p (Suc off) = Some (bool_byte b)" and "checked_add (Suc off) 1 = Some (off + 2)"
      using nxt bs Bool at_cursor_get[of p "Suc off" "bool_byte b" rest]
        at_cursor_checked[of p "Suc off" "[bool_byte b]" rest] by auto
    then show ?thesis using tag step bs Bool by (auto simp: decode_value_def bool_byte_def)
  next
    case (Text t)
    then show ?thesis
      using tag step bs v take_prefixed_at[of p "Suc off" t rest] nxt
      by (auto simp: decode_value_def from_utf8_def)
  next
    case (Bytes t)
    then show ?thesis
      using tag step bs v take_prefixed_at[of p "Suc off" t rest] nxt
      by (auto simp: decode_value_def)
  qed (use tag step bs nxt v in \<open>auto simp: decode_value_def read_scalar_at\<close>)
qed

text \<open>
  The scalar decoder meets the codec contract on the values Rust's types admit, so counted loops
  over scalars (rows here, index keys elsewhere) inherit the locale's round trip.
\<close>

interpretation scalar_codec: cursor_codec
  "\<lambda>r. value_bytes (to_owned r)" decode_value "\<lambda>r. encodable (to_owned r) \<and> wf_scalar (to_owned r)"
  by unfold_locales (metis decode_value_at from_to_owned)

section \<open>What a successful scalar decode tells\<close>

lemma take_le_Inr:
  assumes "take_le p off = Inr (w :: 'a::len word, off')"
  shows "off' = off + LENGTH('a) div 8 \<and> off' \<le> length p"
  using assms take_bytes_Inr by (fastforce simp: take_le_def take_array_def)

lemma take_prefixed_Inr:
  assumes "take_prefixed p off = Inr (s, off')"
  shows "off' = off + 4 + length s \<and> off' \<le> length p \<and> length s \<le> U32_MAX"
proof -
  obtain len :: u32 and off1 where "take_le p off = Inr (len, off1)"
    and "off' = off1 + unat len" "get_range p off1 off' = Some s"
    using assms by (auto simp: take_prefixed_def checked_add_Some_iff)
  then show ?thesis
    using take_le_Inr[of p off len off1] unat_u32_le[of len] by (auto simp: get_range_Some_iff)
qed

lemma take_prefixed_bytes:
  assumes "take_prefixed p off = Inr (s, off')"
  shows "off' = off + length (string_bytes s)"
  using take_prefixed_Inr[OF assms] by (simp add: string_bytes_def)

lemma read_scalar_Inr:
  assumes "read_scalar f p off = Inr (r, off')"
  shows "\<exists>w :: 'a::len word. r = f w \<and> off' = off + LENGTH('a) div 8 \<and> off' \<le> length p"
  using assms by (auto simp: read_scalar_def dest: take_le_Inr)

lemma decode_value_Inr:
  assumes "decode_value p off = Inr (r, off')"
  shows "encodable (to_owned r) \<and> wf_scalar (to_owned r) \<and> off' \<le> length p \<and>
    off' = off + length (value_bytes (to_owned r))"
  using assms
  by (auto simp: decode_value_def checked_add_Some_iff get_at_Some_iff from_utf8_Some_iff
      float32_from_bits_idem float64_from_bits_idem split: if_splits
      dest!: read_scalar_Inr dest: take_prefixed_Inr take_prefixed_bytes)

text \<open>Bytes after a scalar do not change how it decodes: \<open>keeps\<close> compares two computations.\<close>

definition keeps :: "('e, 'a) res \<Rightarrow> ('e, 'a) res \<Rightarrow> bool" where
  "keeps m m' \<longleftrightarrow> (\<forall>x. m = Inr x \<longrightarrow> m' = Inr x)"

lemma keeps_refl [intro]: "keeps m m"
  by (simp add: keeps_def)

lemma keeps_bindR [intro]:
  "keeps m m' \<Longrightarrow> (\<And>x. keeps (f x) (g x)) \<Longrightarrow> keeps (bindR m f) (bindR m' g)"
  by (auto simp: keeps_def)

lemma keeps_if [intro]: "keeps a a' \<Longrightarrow> keeps b b' \<Longrightarrow> keeps (if c then a else b) (if c then a' else b')"
  by simp

lemma keeps_prod [intro]: "(\<And>a b. keeps (f a b) (g a b)) \<Longrightarrow> keeps (case z of (a, b) \<Rightarrow> f a b) (case z of (a, b) \<Rightarrow> g a b)"
  by (cases z) simp

lemma keeps_get_at: "keeps (ok_or e (get_at p i)) (ok_or e (get_at (p @ q) i))"
  by (auto simp: keeps_def get_at_Some_iff nth_append)

lemma keeps_get_range: "keeps (ok_or e (get_range p a b)) (ok_or e (get_range (p @ q) a b))"
  by (auto simp: keeps_def get_range_Some_iff slice_def)

lemma keeps_take_le: "keeps (take_le p off) (take_le (p @ q) off :: (row_error, 'a::len word \<times> usize) res)"
  unfolding take_le_def take_array_def take_bytes_def
  by (intro keeps_bindR keeps_prod keeps_refl keeps_get_range)

lemma keeps_read_scalar: "keeps (read_scalar f p off) (read_scalar f (p @ q) off)"
  unfolding read_scalar_def by (intro keeps_bindR keeps_prod keeps_refl keeps_take_le)

lemma keeps_take_prefixed: "keeps (take_prefixed p off) (take_prefixed (p @ q) off)"
  unfolding take_prefixed_def by (intro keeps_bindR keeps_prod keeps_refl keeps_take_le keeps_get_range)

lemma keeps_decode_value: "keeps (decode_value p off) (decode_value (p @ q) off)"
  unfolding decode_value_def
  by (intro keeps_bindR keeps_if keeps_prod keeps_refl keeps_get_at keeps_read_scalar keeps_take_prefixed)

section \<open>The row loop\<close>

text \<open>The loop without the projection: every column's value, validated, and the final offset.\<close>

fun decode_all :: "byte list \<Rightarrow> column_def list \<Rightarrow> usize \<Rightarrow> (row_error, scalar_value list \<times> usize) res" where
  "decode_all p [] off = Inr ([], off)"
| "decode_all p (c # cs) off =
     bindR (decode_value p off) (\<lambda>(r, off).
     bindR (validate_decoded_scalar r c) (\<lambda>_.
     bindR (decode_all p cs off) (\<lambda>(vs, off).
     Inr (to_owned r # vs, off))))"

lemma decode_all_length: "decode_all p cs off = Inr (vs, off') \<Longrightarrow> length vs = length cs"
  by (induction cs arbitrary: off vs) auto

definition project_from :: "usize \<Rightarrow> scalar_value list \<Rightarrow> usize list \<Rightarrow> scalar_value option list \<Rightarrow> scalar_value option list" where
  "project_from k vs = map2 (\<lambda>requested current.
     if k \<le> requested \<and> requested < k + length vs then Some (vs ! (requested - k)) else current)"

lemma project_from_Cons:
  "length pos = length sel \<Longrightarrow>
   project_from (Suc k) vs pos (map2 (\<lambda>requested current. if requested = k then Some v else current) pos sel)
   = project_from k (v # vs) pos sel"
  by (induction pos sel rule: list_induct2)
     (auto simp: project_from_def nth_Cons' Suc_le_eq)

lemma decode_columns_eq:
  "length pos = length sel \<Longrightarrow>
   decode_columns p pos k cs off sel =
     bindR (decode_all p cs off) (\<lambda>(vs, off'). Inr (project_from k vs pos sel, off'))"
proof (induction cs arbitrary: k off sel)
  case Nil
  then show ?case
    by (induction pos sel rule: list_induct2) (auto simp: project_from_def)
next
  case (Cons c cs)
  then show ?case
    by (cases "decode_value p off")
       (auto simp: bindR_def project_from_Cons split: sum.splits prod.splits)
qed

lemma project_from_replicate:
  "project_from 0 vs pos (replicate (length pos) None) = map (get_at vs) pos"
  by (induction pos) (auto simp: project_from_def get_at_def)

lemma collect_map: "collect f (map g xs) = collect (\<lambda>x. f (g x)) xs"
  by (induction xs) auto

lemma decode_row_positions_eq:
  "decode_row_positions p t pos =
     bindR (decode_all p (table_columns t) 0) (\<lambda>(vs, off).
     bindR (ensure (off = length p) (Codec ExtraValues)) (\<lambda>_.
     collect (\<lambda>i. ok_or (InvalidFormat ''row projection position is out of bounds'') (get_at vs i)) pos))"
  by (cases "decode_all p (table_columns t) 0")
     (auto simp: decode_row_positions_def decode_columns_eq project_from_replicate collect_map)

lemma collect_whole: "collect (\<lambda>i. ok_or e (get_at vs i)) [0..<length vs] = Inr vs"
  using collect_all_Inr[of "[0..<length vs]" "\<lambda>i. ok_or e (get_at vs i)" "nth vs"]
  by (simp add: get_at_def map_nth)

lemma decode_row_eq:
  "decode_row p t =
     bindR (decode_all p (table_columns t) 0) (\<lambda>(vs, off).
     bindR (ensure (off = length p) (Codec ExtraValues)) (\<lambda>_. Inr vs))"
proof (cases "decode_all p (table_columns t) 0")
  case (Inr r)
  obtain vs off where r: "r = (vs, off)" by (cases r)
  have "length (table_columns t) = length vs" using decode_all_length Inr r by metis
  then show ?thesis using Inr r by (simp add: decode_row_def decode_row_positions_eq collect_whole)
qed (simp add: decode_row_def decode_row_positions_eq)

lemma decode_row_Inr: "decode_row p t = Inr vs \<longleftrightarrow> decode_all p (table_columns t) 0 = Inr (vs, length p)"
  by (auto simp: decode_row_eq)

lemma validate_value_to_owned [simp]: "validate_value (to_owned r, c) = validate_decoded_scalar r c"
  by (simp add: validate_value_def validate_decoded_scalar_def is_null_def matches_type_to_owned)

lemma validate_row_Inr:
  "validate_row t vs = Inr u \<longleftrightarrow> length vs = length (table_columns t) \<and>
     for_each validate_value (zip vs (table_columns t)) = Inr ()"
  by (simp add: validate_row_def)

lemma decode_all_at:
  "length vs = length cs \<Longrightarrow> list_all encodable vs \<Longrightarrow> list_all wf_scalar vs \<Longrightarrow>
   for_each validate_value (zip vs cs) = Inr () \<Longrightarrow>
   at_cursor p off (concat (map value_bytes vs) @ rest) \<Longrightarrow>
   decode_all p cs off = Inr (vs, off + length (concat (map value_bytes vs)))"
proof (induction vs cs arbitrary: off rule: list_induct2)
  case (Cons v vs c cs)
  have cur: "at_cursor p off (value_bytes v @ concat (map value_bytes vs) @ rest)"
    using Cons.prems by simp
  have "validate_decoded_scalar (scalar_ref_from v) c = Inr ()"
    using Cons.prems validate_value_to_owned[of "scalar_ref_from v" c] by simp
  then show ?case
    using Cons.prems Cons.IH[OF _ _ _ at_cursor_append[OF cur]] decode_value_at[OF cur] by simp
qed simp

lemma decode_all_Inr:
  "decode_all p cs off = Inr (vs, off') \<Longrightarrow>
   list_all encodable vs \<and> list_all wf_scalar vs \<and> for_each validate_value (zip vs cs) = Inr () \<and>
   off' = off + length (concat (map value_bytes vs))"
proof (induction cs arbitrary: off vs)
  case (Cons c cs)
  then obtain r off1 ws where "decode_value p off = Inr (r, off1)" "decode_all p cs off1 = Inr (ws, off')"
    "validate_decoded_scalar r c = Inr ()" "vs = to_owned r # ws"
    by auto
  then show ?case using Cons.IH[of off1 ws] decode_value_Inr[of p off r off1] by auto
qed simp

lemma keeps_decode_all: "keeps (decode_all p cs off) (decode_all (p @ q) cs off)"
  by (induction cs arbitrary: off) (auto intro!: keeps_bindR keeps_prod keeps_decode_value)

lemma decode_all_encoded:
  assumes "validate_row t vs = Inr ()" "encode_row vs = Inr bs" "list_all wf_scalar vs" "fits (length bs)"
  shows "decode_all bs (table_columns t) 0 = Inr (vs, length bs)"
  using assms decode_all_at[of vs "table_columns t" bs 0 "[]"]
  by (auto simp: validate_row_Inr encode_row_Inr at_cursor_start)

lemma decode_row_positions_project:
  "decode_row_positions p t pos = bindR (decode_row p t) (\<lambda>row.
     collect (\<lambda>i. ok_or (InvalidFormat ''row projection position is out of bounds'') (get_at row i)) pos)"
  by (cases "decode_all p (table_columns t) 0")
     (auto simp: decode_row_positions_eq decode_row_eq ensure_def)

lemma position_Some:
  "position P xs = Some i \<Longrightarrow> i < length xs \<and> P (xs ! i) \<and> (\<forall>j < i. \<not> P (xs ! j))"
proof (induction xs arbitrary: i)
  case (Cons x xs)
  then show ?case by (cases i) (auto simp: nth_Cons less_Suc_eq_0_disj split: if_splits)
qed simp

lemma resolve_columns_Inr:
  assumes "resolve_columns t cids = Inr pos"
  shows "length pos = length cids \<and>
    (\<forall>k < length cids. pos ! k < length (table_columns t) \<and> col_id (table_columns t ! (pos ! k)) = cids ! k)"
  using collect_Inr_length[OF assms[unfolded resolve_columns_def]]
    collect_Inr_nth[OF assms[unfolded resolve_columns_def]]
  by (auto dest!: position_Some)

lemma decode_row_columns_project:
  "decode_row_columns p t cids = bindR (resolve_columns t cids) (\<lambda>pos.
     bindR (decode_row p t) (\<lambda>row. Inr (map ((!) row) pos)))"
proof (cases "resolve_columns t cids")
  case (Inr pos)
  have "collect (\<lambda>i. ok_or e (get_at row i)) pos = Inr (map ((!) row) pos)"
    if "decode_row p t = Inr row" for row and e :: row_error
  proof (rule collect_all_Inr)
    fix i assume "i \<in> set pos"
    moreover have "length row = length (table_columns t)"
      using that decode_all_length unfolding decode_row_Inr by blast
    ultimately have "i < length row"
      using resolve_columns_Inr[OF Inr] by (metis in_set_conv_nth)
    then show "ok_or e (get_at row i) = Inr (row ! i)" by (simp add: get_at_def)
  qed
  then show ?thesis
    using Inr by (cases "decode_row p t") (simp_all add: decode_row_columns_def decode_row_positions_project)
qed (simp add: decode_row_columns_def)

section \<open>Errors that cannot occur\<close>

lemma take_le_no_overflow:
  "fits off \<Longrightarrow> LENGTH('a) div 8 \<le> 2 ^ 63 \<Longrightarrow>
     take_le p off \<noteq> (Inl (Codec LengthOverflow) :: (row_error, 'a::len word \<times> usize) res)"
  by (auto simp: take_le_def take_array_def take_bytes_def bindR_Inl_iff checked_add_fits)

lemma read_scalar_no_overflow:
  fixes f :: "'a::len word \<Rightarrow> scalar_ref"
  assumes "fits off" "LENGTH('a) div 8 \<le> 2 ^ 63"
  shows "read_scalar f p off \<noteq> Inl (Codec LengthOverflow)"
  using take_le_no_overflow[OF assms] by (auto simp: read_scalar_def bindR_Inl_iff)

lemma take_prefixed_no_overflow:
  assumes "fits (length p)" "fits off"
  shows "take_prefixed p off \<noteq> Inl (Codec LengthOverflow)"
proof -
  have "fits off1 \<and> unat len \<le> 2 ^ 63" if "take_le p off = Inr (len :: u32, off1)" for len off1
    using take_le_Inr[OF that] unat_u32_le[of len] assms(1) by (simp add: fits_def U32_MAX_def)
  then show ?thesis
    using take_le_no_overflow[OF assms(2), where 'a = 32]
    by (auto simp: take_prefixed_def bindR_Inl_iff checked_add_fits)
qed

lemma decode_value_no_overflow:
  assumes "fits (length p)"
  shows "decode_value p off \<noteq> Inl (Codec LengthOverflow)"
proof -
  have "fits off \<and> fits (Suc off)" if "get_at p off = Some b" for off b
    using that assms by (auto simp: get_at_Some_iff fits_def)
  then show ?thesis
    using take_prefixed_no_overflow[OF assms]
    by (auto simp: decode_value_def bindR_Inl_iff checked_add_fits read_scalar_no_overflow
        split: if_splits)
qed

lemma decode_value_no_format: "decode_value p off \<noteq> Inl (InvalidFormat m)"
  by (auto simp: decode_value_def read_scalar_def take_prefixed_def take_le_def take_array_def
      take_bytes_def bindR_Inl_iff split: if_splits)

lemma decode_all_Inl:
  assumes "decode_all p cs off = Inl e"
  shows "(\<exists>off'. decode_value p off' = Inl e) \<or> (\<exists>r c. validate_decoded_scalar r c = Inl e)"
  using assms by (induction cs arbitrary: off) (auto simp: bindR_Inl_iff)

section \<open>Properties\<close>

declare encode_length_def [eval_simps] and encode_row_def [eval_simps]
  and validate_value_def [eval_simps] and validate_row_def [eval_simps]
  and resolve_columns_def [eval_simps] and take_array_def [eval_simps] and take_le_def [eval_simps]
  and take_prefixed_def [eval_simps] and read_scalar_def [eval_simps] and decode_value_def [eval_simps]
  and validate_decoded_scalar_def [eval_simps] and decode_row_positions_def [eval_simps]
  and decode_row_def [eval_simps] and decode_row_columns_def [eval_simps]


text \<open>
  C26. Round trip: a row that passes validation against a table and encodes to a payload decodes
  from that payload to exactly the same values.
\<close>

theorem row_roundtrip:
  assumes "validate_row t vs = Inr ()" "encode_row vs = Inr bs" "list_all wf_scalar vs" "fits (length bs)"
  shows "decode_row bs t = Inr vs"
  using decode_all_encoded[OF assms] by (simp add: decode_row_Inr)

theorem row_roundtrip_witness:
  "decode_row [6, 0xFE, 0xFF, 3, 1, 0, 0, 0, 0x7A] sample_table = Inr [Int16 0xFFFE, Text [0x7A]]"
proof (rule row_roundtrip)
  show "validate_row sample_table [Int16 0xFFFE, Text [0x7A]] = Inr ()" by (simp add: eval_simps)
  show "encode_row [Int16 0xFFFE, Text [0x7A]] = Inr [6, 0xFE, 0xFF, 3, 1, 0, 0, 0, 0x7A]" by (simp add: eval_simps)
  show "list_all wf_scalar [Int16 0xFFFE, Text [0x7A]]" by (simp add: eval_simps)
  show "fits (length [6 :: byte, 0xFE, 0xFF, 3, 1, 0, 0, 0, 0x7A])" by (simp add: fits_def ISIZE_MAX_def)
qed

text \<open>
  C28. Projection: decoding selected columns resolves every identifier to the position of the first
  column that carries it and returns exactly the values that decoding the whole row yields at those
  positions, with the errors of the resolution first and of the full decode next.
\<close>

theorem projection_is_projection_of_decode:
  "decode_row_columns p t cids = bindR (resolve_columns t cids) (\<lambda>pos.
     bindR (decode_row p t) (\<lambda>row. Inr (map ((!) row) pos)))"
  by (rule decode_row_columns_project)

text \<open>
  C27. Whatever a decode accepts is a valid row: it passes validation against the table, satisfies
  the invariants of the scalar types, re-encodes to a payload of the same length, and that payload
  decodes to the same row again.
\<close>

theorem decoded_rows_are_valid_and_stable:
  assumes "decode_row p t = Inr vs" "fits (length p)"
  shows "validate_row t vs = Inr () \<and> list_all wf_scalar vs \<and>
    (\<exists>bs. encode_row vs = Inr bs \<and> length bs = length p \<and> decode_row bs t = Inr vs)"
proof -
  have dec: "decode_all p (table_columns t) 0 = Inr (vs, length p)"
    using assms(1) by (simp add: decode_row_Inr)
  note facts = decode_all_Inr[OF dec]
  have valid: "validate_row t vs = Inr ()"
    using decode_all_length[OF dec] facts by (simp add: validate_row_Inr)
  have enc: "encode_row vs = Inr (concat (map value_bytes vs))" using facts by (simp add: encode_row_Inr)
  have "fits (length (concat (map value_bytes vs)))" using facts assms(2) by simp
  then show ?thesis
    using decode_all_encoded[OF valid enc] valid enc facts by (simp add: decode_row_Inr)
qed

theorem decoded_rows_are_valid_and_stable_witness:
  "validate_row sample_table [Int16 3, Null] = Inr ()"
proof -
  have "decode_row [6, 3, 0, 4] sample_table = Inr [Int16 3, Null]" by (simp add: eval_simps)
  moreover have "fits (length [6 :: byte, 3, 0, 4])" by (simp add: fits_def ISIZE_MAX_def)
  ultimately show ?thesis using decoded_rows_are_valid_and_stable by blast
qed

text \<open>
  Payloads are self-delimiting: no payload accepted for a table is a proper prefix of another
  payload accepted for it, so a truncated row never decodes.
\<close>

theorem accepted_rows_prefix_free:
  assumes "decode_row p t = Inr vs" "decode_row (p @ q) t = Inr ws"
  shows "q = [] \<and> vs = ws"
proof -
  have "decode_all p (table_columns t) 0 = Inr (vs, length p)"
    "decode_all (p @ q) (table_columns t) 0 = Inr (ws, length (p @ q))"
    using assms by (simp_all add: decode_row_Inr)
  then show ?thesis using keeps_decode_all[of p "table_columns t" 0 q] by (auto simp: keeps_def)
qed

theorem accepted_rows_prefix_free_witness:
  "\<exists>p q vs ws. decode_row p sample_table = Inr vs \<and> decode_row (p @ q) sample_table = Inr ws \<and> q = []"
proof -
  have "decode_row [6, 3, 0, 4] sample_table = Inr [Int16 3, Null]" by (simp add: eval_simps)
  moreover from this have "decode_row ([6, 3, 0, 4] @ []) sample_table = Inr [Int16 3, Null]" by simp
  ultimately show ?thesis using accepted_rows_prefix_free by blast
qed

text \<open>
  On every payload that fits in memory the overflow branch of the decoder is unreachable, and
  so is the out-of-bounds branch of a projection whose positions come from column identifiers.
\<close>

theorem row_decode_unreachable_errors:
  assumes "fits (length p)"
  shows "decode_row_columns p t cids \<noteq> Inl (Codec LengthOverflow) \<and>
    decode_row_columns p t cids \<noteq> Inl (InvalidFormat m)"
proof -
  have "decode_row p t \<noteq> Inl e" if "e = Codec LengthOverflow \<or> e = InvalidFormat m" for e
    using that decode_value_no_overflow[OF assms] decode_value_no_format
    by (auto simp: decode_row_eq bindR_Inl_iff validate_decoded_scalar_def split: if_splits
        dest!: decode_all_Inl)
  moreover have "resolve_columns t cids \<noteq> Inl e" if "e = Codec LengthOverflow \<or> e = InvalidFormat m" for e
    using that unfolding resolve_columns_def by (induction cids) (auto simp: bindR_Inl_iff)
  ultimately show ?thesis by (auto simp: decode_row_columns_project bindR_Inl_iff)
qed

theorem row_decode_unreachable_errors_witness:
  "decode_row_columns [3, 0xFF, 0xFF, 0xFF, 0xFF] sample_table [2] \<noteq> Inl (Codec LengthOverflow)"
  using row_decode_unreachable_errors[of "[3, 0xFF, 0xFF, 0xFF, 0xFF]" sample_table "[2]"]
  by (simp add: fits_def ISIZE_MAX_def)
end
