(* ===== verification/Ordered_Map.thy ===== *)
theory Ordered_Map
  imports Prelude
begin

text \<open>
  \<open>std::collections::BTreeMap\<close> as a strictly sorted association list, with the laws of a finite map
  and of its first key. \<open>map_laws\<close> is the interface its clients rely on.
\<close>

type_synonym ('k, 'v) btree_map = "('k \<times> 'v) list"

definition bt_sorted :: "('k::linorder, 'v) btree_map \<Rightarrow> bool" where
  "bt_sorted m \<longleftrightarrow> sorted_wrt (<) (map fst m)"

fun bt_get :: "('k::linorder, 'v) btree_map \<Rightarrow> 'k \<Rightarrow> 'v option" where
  "bt_get [] k = None"
| "bt_get ((a, v) # m) k = (if k = a then Some v else bt_get m k)"

fun bt_insert :: "'k::linorder \<Rightarrow> 'v \<Rightarrow> ('k, 'v) btree_map \<Rightarrow> ('k, 'v) btree_map" where
  "bt_insert k v [] = [(k, v)]"
| "bt_insert k v ((a, w) # m) =
     (if k < a then (k, v) # (a, w) # m
      else if k = a then (k, v) # m
      else (a, w) # bt_insert k v m)"

fun bt_remove :: "'k::linorder \<Rightarrow> ('k, 'v) btree_map \<Rightarrow> ('k, 'v) btree_map" where
  "bt_remove k [] = []"
| "bt_remove k ((a, w) # m) = (if k = a then m else (a, w) # bt_remove k m)"

text \<open>\<open>first_key_value\<close>\<close>

definition bt_first :: "('k::linorder, 'v) btree_map \<Rightarrow> ('k \<times> 'v) option" where
  "bt_first m = (case m of [] \<Rightarrow> None | e # _ \<Rightarrow> Some e)"

lemma bt_get_map_of: "bt_get m k = map_of m k"
  by (induction m) auto

lemma bt_keys_insert: "fst ` set (bt_insert k v m) = insert k (fst ` set m)"
  by (induction k v m rule: bt_insert.induct) (simp_all add: insert_commute)

lemma bt_sorted_Nil [simp]: "bt_sorted []"
  by (simp add: bt_sorted_def)

lemma bt_sorted_Cons: "bt_sorted ((a, v) # m) \<longleftrightarrow> (\<forall>b \<in> fst ` set m. a < b) \<and> bt_sorted m"
  by (auto simp: bt_sorted_def)

lemma bt_sorted_insert [simp]: "bt_sorted m \<Longrightarrow> bt_sorted (bt_insert k v m)"
proof (induction m)
  case (Cons e m)
  obtain a w where e: "e = (a, w)" by (cases e)
  show ?case
    using Cons bt_keys_insert[of k v m] by (auto simp: e bt_sorted_Cons intro: less_trans)
qed (simp add: bt_sorted_Cons)

lemma bt_set_remove: "set (bt_remove k m) \<subseteq> set m"
  by (induction k m rule: bt_remove.induct) auto

lemma bt_sorted_remove [simp]: "bt_sorted m \<Longrightarrow> bt_sorted (bt_remove k m)"
proof (induction m)
  case (Cons e m)
  then show ?case
    using bt_set_remove[of k m] by (cases e) (fastforce simp: bt_sorted_Cons)
qed simp

lemma bt_get_insert: "bt_get (bt_insert k v m) = (bt_get m)(k \<mapsto> v)"
proof (rule ext)
  fix x show "bt_get (bt_insert k v m) x = ((bt_get m)(k \<mapsto> v)) x"
    by (induction m) auto
qed

lemma bt_get_None_iff: "bt_get m k = None \<longleftrightarrow> k \<notin> fst ` set m"
  by (simp add: bt_get_map_of map_of_eq_None_iff)

lemma bt_get_remove:
  assumes "bt_sorted m"
  shows "bt_get (bt_remove k m) = (bt_get m)(k := None)"
proof (rule ext)
  fix x
  show "bt_get (bt_remove k m) x = ((bt_get m)(k := None)) x"
    using assms
  proof (induction m)
    case (Cons e m)
    obtain a w where e: "e = (a, w)" by (cases e)
    show ?case using Cons bt_get_None_iff[of m a] by (auto simp: e bt_sorted_Cons)
  qed simp
qed

lemma bt_first_Some:
  assumes "bt_sorted m" "bt_first m = Some (k, v)"
  shows "bt_get m k = Some v \<and> (\<forall>a \<in> dom (bt_get m). k \<le> a)"
proof -
  obtain m' where m: "m = (k, v) # m'" using assms(2) by (auto simp: bt_first_def split: list.splits)
  have "k \<le> a" if "bt_get m a = Some w" for a w
  proof -
    have "a \<in> fst ` set m" using that bt_get_None_iff[of m a] by auto
    then show ?thesis using assms(1) by (auto simp: m bt_sorted_Cons)
  qed
  then show ?thesis by (auto simp: m)
qed

lemma bt_first_None: "bt_first m = None \<longleftrightarrow> (\<forall>k. bt_get m k = None)"
proof (cases m)
  case (Cons e m')
  then show ?thesis by (cases e) (auto simp: bt_first_def)
qed (simp add: bt_first_def)

text \<open>The map interface: lookup after insert and remove, and the invariant they keep.\<close>

locale map_laws =
  fixes get :: "'m \<Rightarrow> 'k \<Rightarrow> 'v option"
    and insrt :: "'k \<Rightarrow> 'v \<Rightarrow> 'm \<Rightarrow> 'm"
    and remove :: "'k \<Rightarrow> 'm \<Rightarrow> 'm"
    and inv :: "'m \<Rightarrow> bool"
  assumes get_insert: "inv m \<Longrightarrow> get (insrt k v m) = (get m)(k \<mapsto> v)"
    and get_remove: "inv m \<Longrightarrow> get (remove k m) = (get m)(k := None)"
    and inv_insert: "inv m \<Longrightarrow> inv (insrt k v m)"
    and inv_remove: "inv m \<Longrightarrow> inv (remove k m)"
begin

lemma insert_then_remove: "inv m \<Longrightarrow> get m k = None \<Longrightarrow> get (remove k (insrt k v m)) = get m"
  using get_remove[OF inv_insert] get_insert by (auto simp: fun_eq_iff)

lemma dom_insert: "inv m \<Longrightarrow> dom (get (insrt k v m)) = insert k (dom (get m))"
  by (simp add: get_insert)

lemma dom_remove: "inv m \<Longrightarrow> dom (get (remove k m)) = dom (get m) - {k}"
  by (simp add: get_remove)

end

interpretation bt: map_laws bt_get bt_insert bt_remove bt_sorted
  by unfold_locales (auto simp: bt_get_insert bt_get_remove)

end
