(* ===== verification/Index_Types.thy ===== *)
theory Index_Types
  imports Schema
begin

text \<open>
  The domain objects of \<open>crates/netbadb-index\<close>: specifications, ranges, page references, entries,
  nodes and errors, and the order of keys and entries on which the B+-tree rests.
\<close>

record index_spec =
  spec_data_type :: semantic_type
  spec_nullable :: bool

datatype index_bound = Unbounded | Included scalar_value | Excluded scalar_value

record index_range =
  range_lower :: index_bound
  range_upper :: index_bound

datatype btree_page_ref = Legacy PageId | Allocated page_ref

fun ref_id :: "btree_page_ref \<Rightarrow> PageId" where
  "ref_id (Legacy p) = p"
| "ref_id (Allocated r) = ref_page_id r"

fun ref_gen :: "btree_page_ref \<Rightarrow> PageGeneration option" where
  "ref_gen (Legacy p) = None"
| "ref_gen (Allocated r) = Some (ref_generation r)"

record btree_handle =
  handle_owner :: "IndexId option"
  handle_meta_page :: btree_page_ref

record index_definition =
  def_id :: IndexId
  def_name :: "IndexName option"
  def_column_id :: ColumnId
  def_handle :: btree_handle

record table_statistics =
  ts_row_count :: u64
  ts_managed_page_count :: u64

record index_statistics =
  is_distinct_non_null_keys :: u64
  is_null_count :: u64
  is_tree_height :: u32

record index_catalog_entry =
  ent_retired :: bool
  ent_definition :: index_definition
  ent_statistics :: "index_statistics option"

record retired_index_ownership =
  own_index_id :: IndexId
  own_meta_page :: "btree_page_ref option"

record tail_reclaim_intent =
  ri_old_page_count :: u64
  ri_truncate_from :: u64
  ri_checkpoint_lsn :: Lsn
  ri_covered :: "retired_index_ownership list"

record index_catalog_node =
  cat_reclaim_intent :: "tail_reclaim_intent option"
  cat_pending :: "retired_index_ownership list"
  cat_next_index_id :: "IndexId option"
  cat_next_catalog :: "PageId option"
  cat_table_statistics :: "table_statistics option"
  cat_entries :: "index_catalog_entry list"

record index_entry =
  ie_key :: scalar_value
  ie_row_id :: row_id

record meta_node =
  meta_generation :: "PageGeneration option"
  meta_owner :: "IndexId option"
  meta_root_page :: btree_page_ref
  meta_height :: u32
  meta_spec :: index_spec

record leaf_node =
  leaf_entries :: "index_entry list"
  leaf_next :: "btree_page_ref option"

record internal_separator =
  sep_key :: index_entry
  sep_right_child :: btree_page_ref

record internal_node =
  int_first_child :: btree_page_ref
  int_separators :: "internal_separator list"

record retired_btree_page =
  ret_page_ref :: page_ref
  ret_owner :: IndexId

datatype (plugins only: code) index_error =
    InvalidReclaimIntent
  | AlreadyRetired page_ref
  | InvalidPageGeneration PageGeneration
  | PageGenerationExhausted
  | GenerationMismatch "PageGeneration option" "PageGeneration option"
  | IxInvalidMagic "byte list" "byte list"
  | IxUnsupportedVersion u16
  | IxInvalidReservedBytes
  | InvalidNodeType
  | OwnerMismatch "IndexId option" "IndexId option"
  | InvalidHeight u32
  | InvalidChild PageId
  | InvalidEntryOrder
  | InvalidPhysicalType u8
  | InvalidNullable u8
  | InvalidSemanticNamePresence u8
  | InvalidStatisticsPresence u8
  | InvalidIndexNamePresence u8
  | InvalidIndexName
  | InvalidIndexState u8
  | InvalidIndexId IndexId
  | InvalidIndexHighWater IndexId
  | IndexIdExhausted
  | SharedTreePage PageId
  | InvalidLeafChain PageId
  | DuplicateIndexId IndexId
  | DuplicateTreeHandle PageId
  | UnknownIndexId IndexId
  | IndexAlreadyRetired IndexId
  | RetiredIndexStatistics IndexId
  | InvalidValueTag u8
  | IxInvalidBoolean u8
  | IxInvalidUtf8
  | IxInvalidRowId PageId u32
  | IxTruncated
  | IxLengthOverflow
  | IxExtraBytes
  | IxTypeMismatch physical_type "physical_type option"
  | IxNullNotAllowed
  | DuplicateEntry
  | EntryNotFound
  | KeyTooLarge usize usize
  | NodeTooLarge usize usize
  | LeafChainCycle PageId
  | EmptyLeaf PageId
  | LeafChainOrder PageId PageId
  | InvalidLeafLink PageId PageId "PageId option"
  | IndexAlreadyExists ColumnId
  | IndexNameAlreadyExists IndexName
  | UnknownIndexColumn ColumnId
  | DuplicateRegisteredColumn ColumnId
  | CatalogCycle PageId
  | TableStatisticsOnContinuation PageId
  | CatalogSpecMismatch ColumnId
  | MissingTableStatistics
  | InvalidManagedPageCount u64
  | InvalidNullCount u64 u64
  | InvalidDistinctCount u64 u64

section \<open>Order\<close>

definition compare_row_ids :: "row_id \<Rightarrow> row_id \<Rightarrow> ordering" where
  "compare_row_ids left right =
     then_with (then_with (cmp_ord (row_page left) (row_page right))
       (cmp_ord (row_slot left) (row_slot right)))
       (cmp_ord (row_generation left) (row_generation right))"

fun value_rank :: "scalar_value \<Rightarrow> u8" where
  "value_rank Null = 0"
| "value_rank (Bool _) = 1"
| "value_rank (Int64 _) = 2"
| "value_rank (UInt64 _) = 3"
| "value_rank (Text _) = 4"
| "value_rank (Int8 _) = 5"
| "value_rank (Int16 _) = 6"
| "value_rank (Int32 _) = 7"
| "value_rank (Int128 _) = 8"
| "value_rank (UInt8 _) = 9"
| "value_rank (UInt16 _) = 10"
| "value_rank (UInt32 _) = 11"
| "value_rank (UInt128 _) = 12"
| "value_rank (Float32 _) = 13"
| "value_rank (Float64 _) = 14"
| "value_rank (Bytes _) = 15"

definition compare_values :: "scalar_value \<Rightarrow> scalar_value \<Rightarrow> ordering" where
  "compare_values left right =
     (case database_cmp left right of
        Some o1 \<Rightarrow> o1
      | None \<Rightarrow> cmp_ord (value_rank left) (value_rank right))"

definition compare_entry_keys :: "index_entry \<Rightarrow> index_entry \<Rightarrow> ordering" where
  "compare_entry_keys left right =
     then_with (compare_values (ie_key left) (ie_key right))
       (compare_row_ids (ie_row_id left) (ie_row_id right))"

definition compare_key_to_entry :: "scalar_value \<Rightarrow> index_entry \<Rightarrow> ordering" where
  "compare_key_to_entry key entry = compare_values key (ie_key entry)"

definition validate_key :: "index_spec \<Rightarrow> scalar_value \<Rightarrow> (index_error, unit) res" where
  "validate_key spec key =
     (if key = Null then (if spec_nullable spec then Inr () else Inl IxNullNotAllowed)
      else let actual = scalar_physical_type key
           in ensure (actual = Some (sem_physical (spec_data_type spec)))
                (IxTypeMismatch (sem_physical (spec_data_type spec)) actual))"

fun validate_bound :: "index_spec \<Rightarrow> index_bound \<Rightarrow> (index_error, unit) res" where
  "validate_bound spec Unbounded = Inr ()"
| "validate_bound spec (Included v) = validate_key spec v"
| "validate_bound spec (Excluded v) = validate_key spec v"

definition range_validate :: "index_range \<Rightarrow> index_spec \<Rightarrow> (index_error, unit) res" where
  "range_validate r spec = for_each (validate_bound spec) [range_lower r, range_upper r]"

fun bound_value :: "index_bound \<Rightarrow> (scalar_value \<times> bool) option" where
  "bound_value Unbounded = None"
| "bound_value (Included v) = Some (v, True)"
| "bound_value (Excluded v) = Some (v, False)"

definition range_is_empty :: "index_range \<Rightarrow> bool" where
  "range_is_empty r =
     (case bound_value (range_lower r) of
        None \<Rightarrow> False
      | Some (lower_value, lower_included) \<Rightarrow>
          (case bound_value (range_upper r) of
             None \<Rightarrow> False
           | Some (upper_value, upper_included) \<Rightarrow>
               (case compare_values lower_value upper_value of
                  Greater \<Rightarrow> True
                | Equal \<Rightarrow> \<not> (lower_included \<and> upper_included)
                | Less \<Rightarrow> False)))"

section \<open>The orders are total\<close>

text \<open>Every scalar as a rank, a number and a byte string, which the comparison reads in that order.\<close>

fun scalar_number :: "scalar_value \<Rightarrow> int" where
  "scalar_number (Bool b) = (if b then 1 else 0)"
| "scalar_number (Int8 w) = sint w"
| "scalar_number (Int16 w) = sint w"
| "scalar_number (Int32 w) = sint w"
| "scalar_number (Int64 w) = sint w"
| "scalar_number (Int128 w) = sint w"
| "scalar_number (UInt8 w) = uint w"
| "scalar_number (UInt16 w) = uint w"
| "scalar_number (UInt32 w) = uint w"
| "scalar_number (UInt64 w) = uint w"
| "scalar_number (UInt128 w) = uint w"
| "scalar_number (Float32 w) = sint (total_key w)"
| "scalar_number (Float64 w) = sint (total_key w)"
| "scalar_number (Text s) = 0"
| "scalar_number (Bytes s) = 0"
| "scalar_number Null = 0"

fun scalar_octets :: "scalar_value \<Rightarrow> byte list" where
  "scalar_octets (Text s) = s"
| "scalar_octets (Bytes s) = s"
| "scalar_octets _ = []"

lemma cmp_ord_uint: "cmp_ord (uint a) (uint b) = cmp_ord (a :: 'a::len word) b"
  by (simp add: cmp_ord_def word_less_def word_uint_eq_iff)

lemma cmp_ord_bool: "cmp_ord (if a then 1 else 0 :: int) (if b then 1 else 0) = cmp_ord a b"
  by (cases a; cases b) (simp_all add: cmp_ord_def)

lemma value_rank_Null [simp]: "value_rank a = 0 \<longleftrightarrow> a = Null" "0 = value_rank a \<longleftrightarrow> a = Null"
  by (cases a; simp)+

lemma value_rank_type: "value_rank a = value_rank b \<longleftrightarrow> scalar_physical_type a = scalar_physical_type b"
  by (cases a; cases b) simp_all

lemma then_with_Equal [simp]: "then_with r Equal = r"
  by (cases r) simp_all

lemma database_cmp_same:
  assumes "value_rank a = value_rank b"
  shows "database_cmp a b = Some (then_with (cmp_ord (scalar_number a) (scalar_number b))
    (cmp_slice (scalar_octets a) (scalar_octets b)))"
  using assms
  by (cases a; cases b)
     (simp_all only: value_rank.simps scalar_number.simps scalar_octets.simps database_cmp_def
        scalar_ref_from.simps ref_database_cmp_def scalar_ref.case cmp_ord_uint cmp_ord_bool
        total_cmp_float_def cmp_slice.simps then_with_Equal cmp_ord.cmp_refl then_with.simps,
      simp_all)

lemma compare_values_key:
  "compare_values a b =
     then_with (cmp_ord (value_rank a) (value_rank b))
       (then_with (cmp_ord (scalar_number a) (scalar_number b))
         (cmp_slice (scalar_octets a) (scalar_octets b)))"
proof (cases "value_rank a = value_rank b")
  case True
  then show ?thesis by (simp add: compare_values_def database_cmp_same)
next
  case False
  show ?thesis
  proof (cases "a = Null \<or> b = Null")
    case True
    have "0 < value_rank c" if "c \<noteq> Null" for c using that by (cases c) simp_all
    moreover have "ref_database_cmp r RNull = Some Greater" if "r \<noteq> RNull" for r
      using that by (cases r) (simp_all add: ref_database_cmp_def)
    moreover have "ref_database_cmp RNull r = Some Less" if "r \<noteq> RNull" for r
      using that by (cases r) (simp_all add: ref_database_cmp_def)
    ultimately show ?thesis
      using True False by (auto simp: compare_values_def database_cmp_def cmp_ord_def)
  next
    case nonnull: False
    then have "database_cmp a b = None" using False by (simp add: database_cmp_None_iff value_rank_type)
    then show ?thesis using False by (simp add: compare_values_def cmp_ord_def)
  qed
qed

lemma sint_inject: "sint a = sint b \<longleftrightarrow> a = (b :: 'a::len word)"
  by (auto dest: signed_word_eqI)

lemma scalar_key_inject:
  assumes "value_rank a = value_rank b" "scalar_number a = scalar_number b" "scalar_octets a = scalar_octets b"
  shows "a = b"
  using assms
  by (cases a; cases b) (simp_all add: sint_inject word_uint_eq_iff[symmetric] split: if_splits)


interpretation compare_values: total_cmp compare_values
proof unfold_locales
  fix a b c
  show "compare_values a b = Equal \<longleftrightarrow> a = b"
    by (auto simp: compare_values_key then_with_eq_iff intro: scalar_key_inject)
  show "compare_values b a = swap (compare_values a b)"
    by (simp add: compare_values_key swap_then_with cmp_ord.cmp_swap[of "value_rank b"]
        cmp_ord.cmp_swap[of "scalar_number b"] cmp_slice.cmp_swap[of "scalar_octets b"])
  show "compare_values a b = Less \<Longrightarrow> compare_values b c = Less \<Longrightarrow> compare_values a c = Less"
    unfolding compare_values_key
    by (auto simp: then_with_eq_iff intro: cmp_slice.cmp_trans)
qed

interpretation compare_row_ids: total_cmp compare_row_ids
proof unfold_locales
  fix a b c :: row_id
  show "compare_row_ids a b = Equal \<longleftrightarrow> a = b"
    by (auto simp: compare_row_ids_def then_with_eq_iff intro: row_id.equality)
  show "compare_row_ids b a = swap (compare_row_ids a b)"
    by (simp add: compare_row_ids_def swap_then_with cmp_ord.cmp_swap[of "row_page b"]
        cmp_ord.cmp_swap[of "row_slot b"] cmp_ord.cmp_swap[of "row_generation b"])
  show "compare_row_ids a b = Less \<Longrightarrow> compare_row_ids b c = Less \<Longrightarrow> compare_row_ids a c = Less"
    unfolding compare_row_ids_def by (auto simp: then_with_eq_iff)
qed

interpretation compare_entry_keys: total_cmp compare_entry_keys
proof unfold_locales
  fix a b c :: index_entry
  show "compare_entry_keys a b = Equal \<longleftrightarrow> a = b"
    by (auto simp: compare_entry_keys_def then_with_eq_iff intro: index_entry.equality)
  show "compare_entry_keys b a = swap (compare_entry_keys a b)"
    by (simp add: compare_entry_keys_def swap_then_with compare_values.cmp_swap[of "ie_key b"]
        compare_row_ids.cmp_swap[of "ie_row_id b"])
  show "compare_entry_keys a b = Less \<Longrightarrow> compare_entry_keys b c = Less \<Longrightarrow> compare_entry_keys a c = Less"
    unfolding compare_entry_keys_def
    by (auto simp: then_with_eq_iff intro: compare_values.cmp_trans compare_row_ids.cmp_trans)
qed

instantiation scalar_value :: linorder
begin

definition less_eq_scalar_value :: "scalar_value \<Rightarrow> scalar_value \<Rightarrow> bool" where
  "less_eq_scalar_value a b \<longleftrightarrow> compare_values a b \<noteq> Greater"

definition less_scalar_value :: "scalar_value \<Rightarrow> scalar_value \<Rightarrow> bool" where
  "less_scalar_value a b \<longleftrightarrow> compare_values a b = Less"

instance
proof
  fix x y z :: scalar_value
  show "x < y \<longleftrightarrow> x \<le> y \<and> \<not> y \<le> x"
    using compare_values.cmp_Greater compare_values.cmp_asym
    by (auto simp: less_eq_scalar_value_def less_scalar_value_def)
  show "x \<le> x" by (simp add: less_eq_scalar_value_def)
  show "x \<le> y \<Longrightarrow> y \<le> z \<Longrightarrow> x \<le> z"
    unfolding less_eq_scalar_value_def by (rule compare_values.cmp_le_trans)
  show "x \<le> y \<Longrightarrow> y \<le> x \<Longrightarrow> x = y" "x \<le> y \<or> y \<le> x"
    using compare_values.cmp_total[of x y] compare_values.cmp_Greater compare_values.cmp_asym
    by (auto simp: less_eq_scalar_value_def)
qed

end

end
