(* ===== verification/Index_Node.thy ===== *)
theory Index_Node
  imports Index_Types
begin

text \<open>
  The in-memory node operations of \<open>crates/netbadb-index\<close>: validation, exact entry insertion,
  removal and lookup in a leaf, routing and separator maintenance in an internal node.
\<close>

section \<open>Validation\<close>

definition validate_generation :: "PageGeneration \<Rightarrow> (index_error, unit) res" where
  "validate_generation g = ensure (g \<noteq> 0) (InvalidPageGeneration g)"

definition validate_child :: "btree_page_ref \<Rightarrow> (index_error, unit) res" where
  "validate_child r =
     bindR (case ref_gen r of Some g \<Rightarrow> validate_generation g | None \<Rightarrow> Inr ()) (\<lambda>_.
     ensure (ref_id r \<noteq> 0) (InvalidChild (ref_id r)))"

definition validate_row_id :: "row_id \<Rightarrow> (index_error, unit) res" where
  "validate_row_id r =
     ensure (\<not> (row_page r = 0 \<or> row_generation r = 0)) (IxInvalidRowId (row_page r) (row_generation r))"

fun order_loop :: "index_entry option \<Rightarrow> index_entry list \<Rightarrow> (index_error, unit) res" where
  "order_loop previous [] = Inr ()"
| "order_loop previous (entry # entries) =
     bindR (ensure (case previous of Some left \<Rightarrow> compare_entry_keys left entry = Less | None \<Rightarrow> True)
              InvalidEntryOrder) (\<lambda>_.
     order_loop (Some entry) entries)"

definition validate_entry_order :: "index_entry list \<Rightarrow> (index_error, unit) res" where
  "validate_entry_order entries = order_loop None entries"

definition validate_entry :: "index_spec \<Rightarrow> index_entry \<Rightarrow> (index_error, unit) res" where
  "validate_entry spec entry =
     bindR (validate_key spec (ie_key entry)) (\<lambda>_. validate_row_id (ie_row_id entry))"

definition validate_leaf :: "index_spec \<Rightarrow> leaf_node \<Rightarrow> (index_error, unit) res" where
  "validate_leaf spec node =
     bindR (ensure (case leaf_next node of Some p \<Rightarrow> ref_id p \<noteq> 0 | None \<Rightarrow> True) (InvalidChild 0)) (\<lambda>_.
     bindR (for_each (validate_entry spec) (leaf_entries node)) (\<lambda>_.
     validate_entry_order (leaf_entries node)))"

definition validate_internal_order :: "internal_node \<Rightarrow> (index_error, unit) res" where
  "validate_internal_order node = validate_entry_order (map sep_key (int_separators node))"

definition validate_separator :: "index_spec \<Rightarrow> internal_separator \<Rightarrow> (index_error, unit) res" where
  "validate_separator spec s =
     bindR (validate_entry spec (sep_key s)) (\<lambda>_. validate_child (sep_right_child s))"

definition validate_internal :: "index_spec \<Rightarrow> internal_node \<Rightarrow> (index_error, unit) res" where
  "validate_internal spec node =
     bindR (validate_child (int_first_child node)) (\<lambda>_.
     bindR (for_each (validate_separator spec) (int_separators node)) (\<lambda>_.
     validate_internal_order node))"

definition validate_meta :: "meta_node \<Rightarrow> (index_error, unit) res" where
  "validate_meta node =
     bindR (validate_child (meta_root_page node)) (\<lambda>_.
     bindR (ensure (meta_height node \<noteq> 0) (InvalidHeight (meta_height node))) (\<lambda>_.
     ensure (sem_name (spec_data_type (meta_spec node)) \<noteq> Some []) (InvalidSemanticNamePresence 1)))"

section \<open>Leaves\<close>

definition leaf_empty :: leaf_node where
  "leaf_empty = \<lparr>leaf_entries = [], leaf_next = None\<rparr>"

definition leaf_insert :: "index_spec \<Rightarrow> leaf_node \<Rightarrow> index_entry \<Rightarrow> (index_error, leaf_node \<times> usize) res" where
  "leaf_insert spec self entry =
     bindR (validate_key spec (ie_key entry)) (\<lambda>_.
     bindR (validate_row_id (ie_row_id entry)) (\<lambda>_.
     case binary_search_by (\<lambda>existing. compare_entry_keys existing entry) (leaf_entries self) of
       Inr _ \<Rightarrow> Inl DuplicateEntry
     | Inl index \<Rightarrow> Inr (self \<lparr>leaf_entries := vec_insert (leaf_entries self) index entry\<rparr>, index)))"

definition leaf_remove :: "index_spec \<Rightarrow> leaf_node \<Rightarrow> index_entry \<Rightarrow> (index_error, leaf_node) res" where
  "leaf_remove spec self entry =
     bindR (validate_key spec (ie_key entry)) (\<lambda>_.
     bindR (validate_row_id (ie_row_id entry)) (\<lambda>_.
     bindR (map_err (\<lambda>_. EntryNotFound)
              (binary_search_by (\<lambda>existing. compare_entry_keys existing entry) (leaf_entries self))) (\<lambda>position.
     Inr (self \<lparr>leaf_entries := vec_remove (leaf_entries self) position\<rparr>))))"

definition leaf_contains_exact :: "index_spec \<Rightarrow> leaf_node \<Rightarrow> index_entry \<Rightarrow> (index_error, bool) res" where
  "leaf_contains_exact spec self entry =
     bindR (validate_key spec (ie_key entry)) (\<lambda>_.
     bindR (validate_row_id (ie_row_id entry)) (\<lambda>_.
     Inr (is_ok (binary_search_by (\<lambda>existing. compare_entry_keys existing entry) (leaf_entries self)))))"

section \<open>Internal nodes\<close>

definition int_child :: "internal_node \<Rightarrow> usize \<Rightarrow> (index_error, btree_page_ref) res" where
  "int_child self position =
     bindR (if position = 0 then Inr (int_first_child self)
            else bindR (ok_or InvalidNodeType (get_at (int_separators self) (position - 1))) (\<lambda>s.
                 Inr (sep_right_child s))) (\<lambda>child.
     bindR (validate_child child) (\<lambda>_. Inr child))"

definition child_position :: "internal_node \<Rightarrow> index_entry \<Rightarrow> usize" where
  "child_position self key =
     partition_point (\<lambda>s. compare_entry_keys key (sep_key s) \<noteq> Less) (int_separators self)"

text \<open>
  The separator is already inserted when the order check fails, so the node is returned beside the
  result.
\<close>

definition insert_separator :: "internal_node \<Rightarrow> usize \<Rightarrow> index_entry \<Rightarrow> btree_page_ref
    \<Rightarrow> internal_node \<times> (index_error, unit) res" where
  "insert_separator self position key right_child =
     (case validate_child right_child of
        Inl e \<Rightarrow> (self, Inl e)
      | Inr _ \<Rightarrow>
          if position > length (int_separators self) then (self, Inl InvalidNodeType)
          else let self' = self \<lparr>int_separators := vec_insert (int_separators self) position
                                   \<lparr>sep_key = key, sep_right_child = right_child\<rparr>\<rparr>
               in (self', validate_internal_order self'))"

definition remove_separator :: "internal_node \<Rightarrow> usize \<Rightarrow> (index_error, internal_node \<times> internal_separator) res" where
  "remove_separator self position =
     (if position \<ge> length (int_separators self) then Inl InvalidNodeType
      else Inr (self \<lparr>int_separators := vec_remove (int_separators self) position\<rparr>,
                int_separators self ! position))"

section \<open>What validation establishes\<close>

definition entries_sorted :: "index_entry list \<Rightarrow> bool" where
  "entries_sorted es \<longleftrightarrow> sorted_wrt (\<lambda>a b. compare_entry_keys a b = Less) es"

lemma validate_child_iff: "validate_child r = Inr u \<longleftrightarrow> ref_id r \<noteq> 0 \<and> ref_gen r \<noteq> Some 0"
  by (auto simp: validate_child_def validate_generation_def split: option.splits)

lemma order_loop_Some:
  "order_loop (Some e) es = Inr u \<longleftrightarrow> entries_sorted (e # es)"
proof (induction es arbitrary: e)
  case (Cons x xs)
  show ?case
    using Cons[of x] compare_entry_keys.cmp_trans[of e x] by (auto simp: entries_sorted_def)
qed (simp add: entries_sorted_def)

lemma validate_entry_order_iff: "validate_entry_order es = Inr u \<longleftrightarrow> entries_sorted es"
proof (cases es)
  case (Cons e es')
  then show ?thesis using order_loop_Some[of e es'] by (simp add: validate_entry_order_def)
qed (simp add: validate_entry_order_def entries_sorted_def)

lemma validate_leaf_iff:
  "validate_leaf spec node = Inr u \<longleftrightarrow>
     (\<forall>p. leaf_next node = Some p \<longrightarrow> ref_id p \<noteq> 0) \<and>
     (\<forall>e \<in> set (leaf_entries node). validate_entry spec e = Inr ()) \<and> entries_sorted (leaf_entries node)"
  by (auto simp: validate_leaf_def for_each_Inr_iff validate_entry_order_iff split: option.splits)

lemma validate_internal_iff:
  "validate_internal spec node = Inr u \<longleftrightarrow>
     validate_child (int_first_child node) = Inr () \<and>
     (\<forall>s \<in> set (int_separators node). validate_entry spec (sep_key s) = Inr () \<and>
        validate_child (sep_right_child s) = Inr ()) \<and>
     entries_sorted (map sep_key (int_separators node))"
  by (auto simp: validate_internal_def for_each_Inr_iff validate_separator_def
      validate_internal_order_def validate_entry_order_iff)

lemma entries_sorted_distinct: "entries_sorted es \<Longrightarrow> distinct es"
  unfolding entries_sorted_def
  by (induction es) auto

section \<open>Leaf operations refine a set of entries\<close>

lemma leaf_search_cases:
  assumes "entries_sorted es"
  shows "(\<exists>i. binary_search_by (\<lambda>x. compare_entry_keys x e) es = Inr i \<and> i < length es \<and> es ! i = e \<and> e \<in> set es) \<or>
    (\<exists>i. binary_search_by (\<lambda>x. compare_entry_keys x e) es = Inl i \<and> i \<le> length es \<and> e \<notin> set es \<and>
       entries_sorted (vec_insert es i e))"
proof (cases "binary_search_by (\<lambda>x. compare_entry_keys x e) es")
  case (Inl i)
  have "e \<notin> set es"
    using compare_entry_keys.search_found_iff[OF assms[unfolded entries_sorted_def], of e] Inl by simp
  moreover have "i \<le> length es"
    using binary_search_by_Inl[OF compare_entry_keys.sorted_partitioned[OF assms[unfolded entries_sorted_def]] Inl]
    by simp
  ultimately show ?thesis
    using compare_entry_keys.search_insert_sorted[OF assms[unfolded entries_sorted_def] Inl] Inl
    by (simp add: entries_sorted_def)
next
  case (Inr i)
  then show ?thesis
    using compare_entry_keys.search_found_nth[OF assms[unfolded entries_sorted_def] Inr] by auto
qed

lemma nth_vec_insert: "i \<le> length xs \<Longrightarrow> vec_insert xs i x ! i = x"
  by (simp add: vec_insert_def nth_append)

lemma leaf_insert_new:
  assumes "validate_leaf spec node = Inr ()" "validate_entry spec e = Inr ()" "e \<notin> set (leaf_entries node)"
  shows "\<exists>node' i. leaf_insert spec node e = Inr (node', i) \<and> validate_leaf spec node' = Inr () \<and>
    set (leaf_entries node') = insert e (set (leaf_entries node)) \<and> leaf_entries node' ! i = e \<and>
    leaf_next node' = leaf_next node"
proof -
  have sorted: "entries_sorted (leaf_entries node)" using assms(1) by (simp add: validate_leaf_iff)
  then obtain i where i: "binary_search_by (\<lambda>x. compare_entry_keys x e) (leaf_entries node) = Inl i"
      "i \<le> length (leaf_entries node)" "entries_sorted (vec_insert (leaf_entries node) i e)"
    using leaf_search_cases[OF sorted, of e] assms(3) by auto
  let ?node' = "node \<lparr>leaf_entries := vec_insert (leaf_entries node) i e\<rparr>"
  have "leaf_insert spec node e = Inr (?node', i)"
    using assms(2) i(1) by (simp add: leaf_insert_def validate_entry_def)
  moreover have "validate_leaf spec ?node' = Inr ()"
    using assms(1,2) i(3) by (auto simp: validate_leaf_iff)
  ultimately show ?thesis using i(2) by (auto simp: nth_vec_insert)
qed

lemma leaf_insert_present:
  assumes "validate_leaf spec node = Inr ()" "validate_entry spec e = Inr ()" "e \<in> set (leaf_entries node)"
  shows "leaf_insert spec node e = Inl DuplicateEntry"
  using assms leaf_search_cases[of "leaf_entries node" e]
  by (auto simp: leaf_insert_def validate_entry_def validate_leaf_iff)

lemma leaf_remove_present:
  assumes "validate_leaf spec node = Inr ()" "validate_entry spec e = Inr ()" "e \<in> set (leaf_entries node)"
  shows "\<exists>node'. leaf_remove spec node e = Inr node' \<and> validate_leaf spec node' = Inr () \<and>
    set (leaf_entries node') = set (leaf_entries node) - {e} \<and> leaf_next node' = leaf_next node"
proof -
  have sorted: "entries_sorted (leaf_entries node)" using assms(1) by (simp add: validate_leaf_iff)
  then obtain i where i: "binary_search_by (\<lambda>x. compare_entry_keys x e) (leaf_entries node) = Inr i"
      "i < length (leaf_entries node)" "leaf_entries node ! i = e"
    using leaf_search_cases[OF sorted, of e] assms(3) by auto
  let ?node' = "node \<lparr>leaf_entries := vec_remove (leaf_entries node) i\<rparr>"
  have entries: "set (vec_remove (leaf_entries node) i) = set (leaf_entries node) - {e}"
    using set_vec_remove[OF entries_sorted_distinct[OF sorted] i(2)] i(3) by simp
  moreover have "leaf_remove spec node e = Inr ?node'"
    using assms(2) i(1) by (simp add: leaf_remove_def validate_entry_def)
  moreover have "validate_leaf spec ?node' = Inr ()"
    using assms(1) entries sorted_vec_remove[OF _ i(2)] by (auto simp: validate_leaf_iff entries_sorted_def)
  ultimately show ?thesis by simp
qed

lemma leaf_remove_absent:
  assumes "validate_leaf spec node = Inr ()" "validate_entry spec e = Inr ()" "e \<notin> set (leaf_entries node)"
  shows "leaf_remove spec node e = Inl EntryNotFound"
  using assms leaf_search_cases[of "leaf_entries node" e]
  by (auto simp: leaf_remove_def validate_entry_def validate_leaf_iff)

lemma leaf_contains_iff:
  assumes "validate_leaf spec node = Inr ()" "validate_entry spec e = Inr ()"
  shows "leaf_contains_exact spec node e = Inr (e \<in> set (leaf_entries node))"
  using assms leaf_search_cases[of "leaf_entries node" e]
  by (auto simp: leaf_contains_exact_def validate_entry_def validate_leaf_iff)

section \<open>Routing\<close>

text \<open>The children of a node in order, and the boundary between the separators at most and above a key.\<close>

definition int_children :: "internal_node \<Rightarrow> btree_page_ref list" where
  "int_children node = int_first_child node # map sep_right_child (int_separators node)"

lemma int_child_nth:
  assumes "validate_internal spec node = Inr ()"
  shows "int_child node i =
    (if i < length (int_children node) then Inr (int_children node ! i) else Inl InvalidNodeType)"
proof (cases i)
  case 0
  then show ?thesis using assms by (simp add: int_child_def int_children_def validate_internal_iff)
next
  case (Suc j)
  then show ?thesis
    using assms by (auto simp: int_child_def int_children_def get_at_def validate_internal_iff)
qed

lemma child_position_bounds:
  assumes "entries_sorted (map sep_key (int_separators node))"
  shows "child_position node key \<le> length (int_separators node) \<and>
    (\<forall>j < child_position node key. compare_entry_keys key (sep_key (int_separators node ! j)) \<noteq> Less) \<and>
    (\<forall>j. child_position node key \<le> j \<and> j < length (int_separators node) \<longrightarrow>
       compare_entry_keys key (sep_key (int_separators node ! j)) = Less)"
proof -
  let ?p = "\<lambda>s. compare_entry_keys key (sep_key s) \<noteq> Less"
  have down: "?p (int_separators node ! i)"
    if ij: "i \<le> j" "j < length (int_separators node)" "?p (int_separators node ! j)" for i j
  proof (cases "i = j")
    case False
    then have "compare_entry_keys (sep_key (int_separators node ! i)) (sep_key (int_separators node ! j)) = Less"
      using assms ij by (auto simp: entries_sorted_def sorted_wrt_iff_nth_less)
    then show ?thesis using ij(3) compare_entry_keys.cmp_trans by blast
  qed (use ij in simp)
  show ?thesis
    using partition_point_spec[of "int_separators node" ?p, OF down] by (auto simp: child_position_def)
qed

lemma child_position_unique:
  assumes "entries_sorted (map sep_key (int_separators node))" "i \<le> length (int_separators node)"
    and "\<And>j. j < i \<Longrightarrow> compare_entry_keys key (sep_key (int_separators node ! j)) \<noteq> Less"
    and "\<And>j. i \<le> j \<Longrightarrow> j < length (int_separators node) \<Longrightarrow>
           compare_entry_keys key (sep_key (int_separators node ! j)) = Less"
  shows "child_position node key = i"
proof (rule ccontr)
  assume "child_position node key \<noteq> i"
  then consider "child_position node key < i" | "i < child_position node key" by linarith
  then show False
    using child_position_bounds[OF assms(1), of key] assms(2-4) by cases (meson le_refl less_le_trans)+
qed

lemma order_loop_cases: "order_loop prev es = Inr () \<or> order_loop prev es = Inl InvalidEntryOrder"
  by (induction es arbitrary: prev) (auto simp: ensure_def)

lemma validate_entry_order_cases:
  "validate_entry_order es = Inr () \<or> validate_entry_order es = Inl InvalidEntryOrder"
  unfolding validate_entry_order_def by (rule order_loop_cases)

lemma map_vec_insert: "map f (vec_insert xs i x) = vec_insert (map f xs) i (f x)"
  by (simp add: vec_insert_def take_map drop_map)

lemma ball_set_drop: "(\<forall>x \<in> set (drop i xs). P x) \<longleftrightarrow> (\<forall>j. i \<le> j \<and> j < length xs \<longrightarrow> P (xs ! j))"
proof -
  have "(\<forall>x \<in> set (drop i xs). P x) \<longleftrightarrow> (\<forall>j < length xs - i. P (xs ! (i + j)))"
    by (simp add: all_set_conv_all_nth)
  also have "\<dots> \<longleftrightarrow> (\<forall>j. i \<le> j \<and> j < length xs \<longrightarrow> P (xs ! j))"
    by (metis diff_less_mono le_add1 le_add_diff_inverse less_diff_conv add.commute)
  finally show ?thesis .
qed

lemma entries_sorted_insert:
  assumes "entries_sorted es" "i \<le> length es"
  shows "entries_sorted (vec_insert es i k) \<longleftrightarrow>
    (\<forall>j < i. compare_entry_keys (es ! j) k = Less) \<and>
    (\<forall>j. i \<le> j \<and> j < length es \<longrightarrow> compare_entry_keys k (es ! j) = Less)"
proof -
  have split: "entries_sorted (take i es @ drop i es)" using assms(1) by simp
  have "(\<forall>x \<in> set (take i es). P x) \<longleftrightarrow> (\<forall>j < i. P (es ! j))" for P
    using assms(2) by (auto simp: nth_image[symmetric])
  moreover have "(\<forall>x \<in> set (drop i es). P x) \<longleftrightarrow> (\<forall>j. i \<le> j \<and> j < length es \<longrightarrow> P (es ! j))" for P
    by (simp add: ball_set_drop)
  moreover have "entries_sorted (vec_insert es i k) \<longleftrightarrow>
      (\<forall>x \<in> set (take i es). compare_entry_keys x k = Less) \<and> (\<forall>x \<in> set (drop i es). compare_entry_keys k x = Less)"
    using split compare_entry_keys.cmp_trans
    by (auto simp: entries_sorted_def vec_insert_def sorted_wrt_append)
  ultimately show ?thesis by simp
qed

lemma insert_separator_sorted_iff:
  assumes "entries_sorted (map sep_key (int_separators node))" "pos \<le> length (int_separators node)"
  shows "entries_sorted (vec_insert (map sep_key (int_separators node)) pos key) \<longleftrightarrow>
    pos = child_position node key \<and> key \<notin> sep_key ` set (int_separators node)"
proof -
  let ?s = "\<lambda>j. sep_key (int_separators node ! j)"
  have eq: "entries_sorted (vec_insert (map sep_key (int_separators node)) pos key) \<longleftrightarrow>
     (\<forall>j < pos. compare_entry_keys (?s j) key = Less) \<and>
     (\<forall>j. pos \<le> j \<and> j < length (int_separators node) \<longrightarrow> compare_entry_keys key (?s j) = Less)"
    using entries_sorted_insert[OF assms(1), of pos key] assms(2) by auto
  note bounds = child_position_bounds[OF assms(1), of key]
  show ?thesis
  proof
    assume "entries_sorted (vec_insert (map sep_key (int_separators node)) pos key)"
    then have left: "\<And>j. j < pos \<Longrightarrow> compare_entry_keys (?s j) key = Less"
      and right: "\<And>j. pos \<le> j \<Longrightarrow> j < length (int_separators node) \<Longrightarrow> compare_entry_keys key (?s j) = Less"
      using eq by blast+
    have "?s j \<noteq> key" if "j < length (int_separators node)" for j
      using left[of j] right[of j] that compare_entry_keys.cmp_refl by (cases "j < pos") force+
    then have "key \<notin> sep_key ` set (int_separators node)" by (metis imageE in_set_conv_nth)
    moreover have "child_position node key = pos"
      using child_position_unique[OF assms] left right compare_entry_keys.cmp_asym by blast
    ultimately show "pos = child_position node key \<and> key \<notin> sep_key ` set (int_separators node)" by simp
  next
    assume pos: "pos = child_position node key \<and> key \<notin> sep_key ` set (int_separators node)"
    have "compare_entry_keys (?s j) key = Less" if "j < pos" for j
    proof -
      have "?s j \<noteq> key" using pos that assms(2) by (metis image_eqI nth_mem order_less_le_trans)
      then show ?thesis using bounds pos that compare_entry_keys.cmp_total[of "?s j" key] by blast
    qed
    then show "entries_sorted (vec_insert (map sep_key (int_separators node)) pos key)"
      using eq bounds pos by blast
  qed
qed

section \<open>Properties\<close>

definition sample_spec :: index_spec where
  "sample_spec = \<lparr>spec_data_type = semantic_physical PUInt16, spec_nullable = True\<rparr>"

definition sample_entry :: "scalar_value \<Rightarrow> u64 \<Rightarrow> index_entry" where
  "sample_entry v p = \<lparr>ie_key = v, ie_row_id = \<lparr>row_page = p, row_slot = 0, row_generation = 1\<rparr>\<rparr>"

definition sample_leaf :: leaf_node where
  "sample_leaf = \<lparr>leaf_entries = [sample_entry Null 4, sample_entry (UInt16 5) 3, sample_entry (UInt16 5) 9],
     leaf_next = Some (Legacy 12)\<rparr>"

declare compare_values_def [eval_simps] and database_cmp_def [eval_simps] and ref_database_cmp_def [eval_simps]
  and cmp_ord_def [eval_simps] and compare_row_ids_def [eval_simps] and compare_entry_keys_def [eval_simps]
  and validate_key_def [eval_simps] and validate_generation_def [eval_simps] and validate_child_def [eval_simps]
  and validate_row_id_def [eval_simps] and validate_entry_order_def [eval_simps] and validate_entry_def [eval_simps]
  and validate_leaf_def [eval_simps] and validate_internal_order_def [eval_simps]
  and validate_separator_def [eval_simps] and validate_internal_def [eval_simps] and ensure_def [eval_simps]
  and sample_spec_def [eval_simps] and sample_entry_def [eval_simps] and sample_leaf_def [eval_simps]

text \<open>
  C16. On a valid leaf the three entry operations implement a finite set of complete (key, row id)
  identities: insertion of a valid entry adds it and keeps the leaf valid and strictly ordered, or
  reports a duplicate exactly when it is present; removal deletes exactly that entry or reports it
  missing; lookup reports membership. The leaf link never changes.
\<close>

theorem leaf_operations_refine_set:
  assumes "validate_leaf spec node = Inr ()" "validate_entry spec e = Inr ()"
  shows "(if e \<in> set (leaf_entries node) then leaf_insert spec node e = Inl DuplicateEntry
      else \<exists>node' i. leaf_insert spec node e = Inr (node', i) \<and> validate_leaf spec node' = Inr () \<and>
        set (leaf_entries node') = insert e (set (leaf_entries node)) \<and> leaf_entries node' ! i = e \<and>
        leaf_next node' = leaf_next node) \<and>
    (if e \<in> set (leaf_entries node) then
        \<exists>node'. leaf_remove spec node e = Inr node' \<and> validate_leaf spec node' = Inr () \<and>
          set (leaf_entries node') = set (leaf_entries node) - {e} \<and> leaf_next node' = leaf_next node
      else leaf_remove spec node e = Inl EntryNotFound) \<and>
    leaf_contains_exact spec node e = Inr (e \<in> set (leaf_entries node))"
  using leaf_insert_present[OF assms] leaf_insert_new[OF assms] leaf_remove_present[OF assms]
    leaf_remove_absent[OF assms] leaf_contains_iff[OF assms]
  by simp

theorem leaf_operations_refine_set_witness:
  "leaf_contains_exact sample_spec sample_leaf (sample_entry (UInt16 5) 9) = Inr True"
proof -
  have "validate_leaf sample_spec sample_leaf = Inr ()" by (simp add: eval_simps)
  moreover have "validate_entry sample_spec (sample_entry (UInt16 5) 9) = Inr ()" by (simp add: eval_simps)
  ultimately have "leaf_contains_exact sample_spec sample_leaf (sample_entry (UInt16 5) 9)
      = Inr (sample_entry (UInt16 5) 9 \<in> set (leaf_entries sample_leaf))"
    using leaf_operations_refine_set by blast
  then show ?thesis by (simp add: sample_leaf_def)
qed

definition sample_internal :: internal_node where
  "sample_internal = \<lparr>int_first_child = Legacy 7, int_separators =
     [\<lparr>sep_key = sample_entry (UInt16 3) 2, sep_right_child = Legacy 8\<rparr>,
      \<lparr>sep_key = sample_entry (UInt16 9) 2, sep_right_child = Legacy 11\<rparr>]\<rparr>"

declare sample_internal_def [eval_simps]

text \<open>
  C29. Routing in a valid internal node is exact: the chosen position names a child, every separator
  to its left is at most the searched entry and every separator from it on is strictly greater, and
  no other position has both properties.
\<close>

theorem child_routing_exact:
  assumes "validate_internal spec node = Inr ()"
  shows "let i = child_position node key in
    int_child node i = Inr (int_children node ! i) \<and> i < length (int_children node) \<and>
    (\<forall>k \<le> length (int_separators node).
       (\<forall>j < k. compare_entry_keys key (sep_key (int_separators node ! j)) \<noteq> Less) \<and>
       (\<forall>j. k \<le> j \<and> j < length (int_separators node) \<longrightarrow>
          compare_entry_keys key (sep_key (int_separators node ! j)) = Less) \<longleftrightarrow> k = i)"
proof -
  have sorted: "entries_sorted (map sep_key (int_separators node))"
    using assms by (simp add: validate_internal_iff)
  note bounds = child_position_bounds[OF sorted, of key]
  have "(\<forall>j < k. compare_entry_keys key (sep_key (int_separators node ! j)) \<noteq> Less) \<and>
      (\<forall>j. k \<le> j \<and> j < length (int_separators node) \<longrightarrow>
        compare_entry_keys key (sep_key (int_separators node ! j)) = Less) \<longleftrightarrow> k = child_position node key"
    if "k \<le> length (int_separators node)" for k
    using bounds child_position_unique[OF sorted that, of key] by blast
  moreover have "child_position node key < length (int_children node)"
    using bounds by (simp add: int_children_def)
  ultimately show ?thesis
    using int_child_nth[OF assms, of "child_position node key"] by (simp only: Let_def if_True) blast
qed

theorem child_routing_exact_witness:
  "int_child sample_internal (child_position sample_internal (sample_entry (UInt16 5) 1))
     = Inr (int_children sample_internal ! child_position sample_internal (sample_entry (UInt16 5) 1))"
proof -
  have "validate_internal sample_spec sample_internal = Inr ()" by (simp add: eval_simps)
  from child_routing_exact[OF this, of "sample_entry (UInt16 5) 1"] show ?thesis
    by (simp add: Let_def)
qed

text \<open>
  Inserting a valid separator into a valid internal node is accepted exactly at the routed
  position of a key that no separator carries yet; the node is then valid again and the new child
  stands immediately to the right of the child it was split from.
\<close>

theorem separator_insert_exact:
  assumes "validate_internal spec node = Inr ()" "validate_entry spec key = Inr ()"
    and "validate_child child = Inr ()" "pos \<le> length (int_separators node)"
  shows "snd (insert_separator node pos key child) =
      (if pos = child_position node key \<and> key \<notin> sep_key ` set (int_separators node)
       then Inr () else Inl InvalidEntryOrder) \<and>
    int_children (fst (insert_separator node pos key child)) = vec_insert (int_children node) (Suc pos) child \<and>
    (snd (insert_separator node pos key child) = Inr () \<longrightarrow>
       validate_internal spec (fst (insert_separator node pos key child)) = Inr ())"
proof -
  let ?node' = "node \<lparr>int_separators := vec_insert (int_separators node) pos \<lparr>sep_key = key, sep_right_child = child\<rparr>\<rparr>"
  have sorted: "entries_sorted (map sep_key (int_separators node))" using assms(1) by (simp add: validate_internal_iff)
  have res: "insert_separator node pos key child = (?node', validate_internal_order ?node')"
    using assms(3,4) by (simp add: insert_separator_def Let_def)
  have order: "validate_internal_order ?node' = Inr () \<longleftrightarrow>
      pos = child_position node key \<and> key \<notin> sep_key ` set (int_separators node)"
    using insert_separator_sorted_iff[OF sorted assms(4), of key]
    by (simp add: validate_internal_order_def validate_entry_order_iff map_vec_insert)
  have err: "validate_internal_order ?node' = Inr () \<or> validate_internal_order ?node' = Inl InvalidEntryOrder"
    unfolding validate_internal_order_def by (rule validate_entry_order_cases)
  have "int_children ?node' = vec_insert (int_children node) (Suc pos) child"
    by (simp add: int_children_def map_vec_insert) (simp add: vec_insert_def)
  moreover have "validate_internal_order ?node' = Inr () \<Longrightarrow> validate_internal spec ?node' = Inr ()"
    using assms(1-3) by (auto simp: validate_internal_iff validate_internal_order_def validate_entry_order_iff)
  ultimately show ?thesis using res order err by auto
qed

theorem separator_insert_exact_witness:
  "snd (insert_separator sample_internal 1 (sample_entry (UInt16 5) 1) (Legacy 21)) = Inr ()"
proof -
  have "validate_internal sample_spec sample_internal = Inr ()" by (simp add: eval_simps)
  moreover have "validate_entry sample_spec (sample_entry (UInt16 5) 1) = Inr ()" by (simp add: eval_simps)
  moreover have "validate_child (Legacy 21) = Inr ()" by (simp add: eval_simps)
  moreover have "1 \<le> length (int_separators sample_internal)" by (simp add: eval_simps)
  ultimately have "snd (insert_separator sample_internal 1 (sample_entry (UInt16 5) 1) (Legacy 21)) =
      (if 1 = child_position sample_internal (sample_entry (UInt16 5) 1)
          \<and> sample_entry (UInt16 5) 1 \<notin> sep_key ` set (int_separators sample_internal)
       then Inr () else Inl InvalidEntryOrder)"
    using separator_insert_exact by blast
  moreover have "child_position sample_internal (sample_entry (UInt16 5) 1) = 1"
    by (simp add: child_position_def partition_point_def binary_search_by_def bs_loop.simps eval_simps)
  ultimately show ?thesis by (simp add: eval_simps)
qed

end
