(* ===== verification/Index_Codec.thy ===== *)
theory Index_Codec
  imports Index_Node Row_Codec
begin

text \<open>
  The binary formats of B+-tree pages in \<open>crates/netbadb-index\<close>: the versioned common header (v1 raw,
  v2 owned, v3 generation-aware), page references, keys and entries, meta, leaf and internal
  payloads, and the retired-page marker. An encoder returns the bytes it appends; a decoder threads
  the offset of \<open>Decoder\<close> and returns it beside the value.
\<close>

definition META_MAGIC :: "byte list" where "META_MAGIC = [0x4E, 0x42, 0x54, 0x4D]"
definition LEAF_MAGIC :: "byte list" where "LEAF_MAGIC = [0x4E, 0x42, 0x54, 0x4C]"
definition INTERNAL_MAGIC :: "byte list" where "INTERNAL_MAGIC = [0x4E, 0x42, 0x54, 0x49]"
definition BTREE_FORMAT_VERSION :: u16 where "BTREE_FORMAT_VERSION = 3"
definition COMMON_HEADER_SIZE :: usize where "COMMON_HEADER_SIZE = 8"
definition NODE_HEADER_SIZE :: usize where "NODE_HEADER_SIZE = COMMON_HEADER_SIZE + 4 + 8"
definition ROW_ID_SIZE :: usize where "ROW_ID_SIZE = 8 + 2 + 4"
definition MIN_ENTRY_SIZE :: usize where "MIN_ENTRY_SIZE = 1 + ROW_ID_SIZE"

section \<open>Decoder primitives\<close>

definition dec_array :: "byte list \<Rightarrow> usize \<Rightarrow> usize \<Rightarrow> (index_error, byte list \<times> usize) res" where
  "dec_array input offset n = take_bytes IxLengthOverflow IxTruncated input offset n"

definition dec_int :: "byte list \<Rightarrow> usize \<Rightarrow> (index_error, 'a::len word \<times> usize) res" where
  "dec_int input offset =
     bindR (dec_array input offset (LENGTH('a) div 8)) (\<lambda>(bytes, offset). Inr (from_le_bytes bytes, offset))"

definition dec_bytes :: "byte list \<Rightarrow> usize \<Rightarrow> (index_error, byte list \<times> usize) res" where
  "dec_bytes input offset =
     bindR (dec_int input offset) (\<lambda>(len :: u32, offset).
     bindR (ok_or IxLengthOverflow (checked_add offset (unat len))) (\<lambda>end.
     bindR (ok_or IxTruncated (get_range input offset end)) (\<lambda>bytes.
     Inr (bytes, end))))"

definition dec_text :: "byte list \<Rightarrow> usize \<Rightarrow> (index_error, str \<times> usize) res" where
  "dec_text input offset =
     bindR (dec_bytes input offset) (\<lambda>(bytes, offset).
     bindR (ok_or IxInvalidUtf8 (from_utf8 bytes)) (\<lambda>text. Inr (text, offset)))"

definition dec_finish :: "byte list \<Rightarrow> usize \<Rightarrow> (index_error, unit) res" where
  "dec_finish input offset = ensure (offset = length input) IxExtraBytes"

text \<open>\<open>Decoder::common_header\<close> returns the owner and sets the decoder's generation.\<close>

definition common_header :: "byte list \<Rightarrow> byte list
    \<Rightarrow> (index_error, (IndexId option \<times> PageGeneration option) \<times> usize) res" where
  "common_header expected input =
     bindR (dec_array input 0 4) (\<lambda>(actual, offset).
     bindR (ensure (actual = expected) (IxInvalidMagic expected actual)) (\<lambda>_.
     bindR (dec_int input offset) (\<lambda>(version :: u16, offset).
     bindR (ensure (version = 1 \<or> version = 2 \<or> version = BTREE_FORMAT_VERSION)
              (IxUnsupportedVersion version)) (\<lambda>_.
     bindR (dec_int input offset) (\<lambda>(reserved :: u16, offset).
     bindR (ensure (reserved = 0) IxInvalidReservedBytes) (\<lambda>_.
     if version = 1 then Inr ((None, None), offset)
     else
       bindR (dec_int input offset) (\<lambda>(owner :: u64, offset).
       bindR (ensure (owner \<noteq> 0) (InvalidIndexId owner)) (\<lambda>_.
       if version \<ge> 3 then
         bindR (dec_int input offset) (\<lambda>(generation :: u64, offset).
         bindR (validate_generation generation) (\<lambda>_.
         Inr ((Some owner, Some generation), offset)))
       else Inr ((Some owner, None), offset)))))))))"

definition dec_page_ref :: "bool \<Rightarrow> byte list \<Rightarrow> usize \<Rightarrow> (index_error, btree_page_ref option \<times> usize) res" where
  "dec_page_ref generated input offset =
     bindR (dec_int input offset) (\<lambda>(page_id :: u64, offset).
     bindR (if generated then dec_int input offset else Inr (0, offset)) (\<lambda>(raw_generation :: u64, offset).
     if page_id = 0 then
       bindR (ensure (raw_generation = 0) (InvalidChild page_id)) (\<lambda>_. Inr (None, offset))
     else if generated then
       bindR (validate_generation raw_generation) (\<lambda>_.
       Inr (Some (Allocated \<lparr>ref_page_id = page_id, ref_generation = raw_generation\<rparr>), offset))
     else Inr (Some (Legacy page_id), offset)))"

text \<open>A child reference that must be present.\<close>

definition dec_child :: "bool \<Rightarrow> byte list \<Rightarrow> usize \<Rightarrow> (index_error, btree_page_ref \<times> usize) res" where
  "dec_child generated input offset =
     bindR (dec_page_ref generated input offset) (\<lambda>(r, offset).
     bindR (ok_or (InvalidChild 0) r) (\<lambda>r. Inr (r, offset)))"

definition dec_count :: "byte list \<Rightarrow> usize \<Rightarrow> usize \<Rightarrow> (index_error, usize \<times> usize) res" where
  "dec_count input offset minimum_size =
     bindR (ok_or IxTruncated (get_range input offset (offset + 4))) (\<lambda>bytes.
     let raw = unat (from_le_bytes bytes :: u32);
         offset = offset + 4;
         remaining_after_header = length input - (offset + 8)
     in bindR (ensure (\<not> raw > remaining_after_header div minimum_size) IxTruncated) (\<lambda>_.
        Inr (raw, offset)))"

definition dec_scalar :: "('a::len word \<Rightarrow> scalar_value) \<Rightarrow> byte list \<Rightarrow> usize \<Rightarrow> (index_error, scalar_value \<times> usize) res" where
  "dec_scalar f input offset = bindR (dec_int input offset) (\<lambda>(w, offset). Inr (f w, offset))"

definition dec_key :: "byte list \<Rightarrow> usize \<Rightarrow> (index_error, scalar_value \<times> usize) res" where
  "dec_key input offset =
     bindR (dec_int input offset) (\<lambda>(tag :: u8, offset).
     if tag = 0 then Inr (Null, offset)
     else if tag = 1 then
       bindR (dec_int input offset) (\<lambda>(value :: u8, offset).
       if value = 0 then Inr (Bool False, offset)
       else if value = 1 then Inr (Bool True, offset)
       else Inl (IxInvalidBoolean value))
     else if tag = 2 then dec_scalar Int64 input offset
     else if tag = 3 then dec_scalar UInt64 input offset
     else if tag = 4 then bindR (dec_text input offset) (\<lambda>(t, offset). Inr (Text t, offset))
     else if tag = 5 then dec_scalar Int8 input offset
     else if tag = 6 then dec_scalar Int16 input offset
     else if tag = 7 then dec_scalar Int32 input offset
     else if tag = 8 then dec_scalar Int128 input offset
     else if tag = 9 then dec_scalar UInt8 input offset
     else if tag = 10 then dec_scalar UInt16 input offset
     else if tag = 11 then dec_scalar UInt32 input offset
     else if tag = 12 then dec_scalar UInt128 input offset
     else if tag = 13 then dec_scalar (\<lambda>b. Float32 (float32_from_bits b)) input offset
     else if tag = 14 then dec_scalar (\<lambda>b. Float64 (float64_from_bits b)) input offset
     else if tag = 15 then bindR (dec_bytes input offset) (\<lambda>(b, offset). Inr (Bytes b, offset))
     else Inl (InvalidValueTag tag))"

definition dec_entry :: "index_spec \<Rightarrow> byte list \<Rightarrow> usize \<Rightarrow> (index_error, index_entry \<times> usize) res" where
  "dec_entry spec input offset =
     bindR (dec_key input offset) (\<lambda>(key, offset).
     bindR (validate_key spec key) (\<lambda>_.
     bindR (dec_int input offset) (\<lambda>(page :: u64, offset).
     bindR (dec_int input offset) (\<lambda>(slot :: u16, offset).
     bindR (dec_int input offset) (\<lambda>(generation :: u32, offset).
     let row_id = \<lparr>row_page = page, row_slot = slot, row_generation = generation\<rparr>
     in bindR (validate_row_id row_id) (\<lambda>_.
        Inr (\<lparr>ie_key = key, ie_row_id = row_id\<rparr>, offset)))))))"

section \<open>Encoder primitives\<close>

definition push_bytes :: "byte list \<Rightarrow> (index_error, byte list) res" where
  "push_bytes value =
     bindR (ok_or IxLengthOverflow (u32_try_from (length value))) (\<lambda>len. Inr (to_le_bytes len @ value))"

definition push_text :: "str \<Rightarrow> (index_error, byte list) res" where
  "push_text value =
     bindR (ok_or IxLengthOverflow (u32_try_from (length value))) (\<lambda>len. Inr (to_le_bytes len @ value))"

fun encode_key :: "scalar_value \<Rightarrow> (index_error, byte list) res" where
  "encode_key Null = Inr [0]"
| "encode_key (Bool v) = Inr [1, bool_byte v]"
| "encode_key (Int64 v) = Inr (2 # to_le_bytes v)"
| "encode_key (UInt64 v) = Inr (3 # to_le_bytes v)"
| "encode_key (Text v) = bindR (push_text v) (\<lambda>bs. Inr (4 # bs))"
| "encode_key (Int8 v) = Inr (5 # to_le_bytes v)"
| "encode_key (Int16 v) = Inr (6 # to_le_bytes v)"
| "encode_key (Int32 v) = Inr (7 # to_le_bytes v)"
| "encode_key (Int128 v) = Inr (8 # to_le_bytes v)"
| "encode_key (UInt8 v) = Inr (9 # to_le_bytes v)"
| "encode_key (UInt16 v) = Inr (10 # to_le_bytes v)"
| "encode_key (UInt32 v) = Inr (11 # to_le_bytes v)"
| "encode_key (UInt128 v) = Inr (12 # to_le_bytes v)"
| "encode_key (Float32 v) = Inr (13 # to_le_bytes v)"
| "encode_key (Float64 v) = Inr (14 # to_le_bytes v)"
| "encode_key (Bytes v) = bindR (push_bytes v) (\<lambda>bs. Inr (15 # bs))"

definition row_id_bytes :: "row_id \<Rightarrow> byte list" where
  "row_id_bytes r = to_le_bytes (row_page r) @ to_le_bytes (row_slot r) @ to_le_bytes (row_generation r)"

definition encode_entry :: "index_entry \<Rightarrow> (index_error, byte list) res" where
  "encode_entry entry = bindR (encode_key (ie_key entry)) (\<lambda>bs. Inr (bs @ row_id_bytes (ie_row_id entry)))"

definition common_header_generation :: "byte list \<Rightarrow> IndexId option \<Rightarrow> PageGeneration option
    \<Rightarrow> (index_error, byte list) res" where
  "common_header_generation magic owner generation =
     bindR (ensure (\<not> (generation \<noteq> None \<and> owner = None)) (InvalidIndexId 0)) (\<lambda>_.
     let version = (if generation \<noteq> None then 3 else if owner \<noteq> None then 2 else 1 :: u16)
     in bindR (case owner of
                 None \<Rightarrow> Inr []
               | Some o1 \<Rightarrow> bindR (ensure (o1 \<noteq> 0) (InvalidIndexId o1)) (\<lambda>_. Inr (to_le_bytes o1))) (\<lambda>owner_bytes.
        bindR (case generation of
                 None \<Rightarrow> Inr []
               | Some g \<Rightarrow> bindR (validate_generation g) (\<lambda>_. Inr (to_le_bytes g))) (\<lambda>generation_bytes.
        Inr (magic @ to_le_bytes version @ to_le_bytes (0 :: u16) @ owner_bytes @ generation_bytes))))"

definition encode_page_ref :: "btree_page_ref option \<Rightarrow> bool \<Rightarrow> (index_error, byte list) res" where
  "encode_page_ref reference generated =
     bindR (case reference of
              None \<Rightarrow> Inr ()
            | Some r \<Rightarrow> bindR (validate_child r) (\<lambda>_.
                        ensure ((ref_gen r \<noteq> None) = generated) InvalidNodeType)) (\<lambda>_.
     Inr (to_le_bytes (case reference of None \<Rightarrow> 0 | Some r \<Rightarrow> ref_id r)
          @ (if generated
             then to_le_bytes (case Option.bind reference ref_gen of None \<Rightarrow> 0 | Some g \<Rightarrow> g)
             else [])))"

fun encode_entries :: "index_entry list \<Rightarrow> (index_error, byte list) res" where
  "encode_entries [] = Inr []"
| "encode_entries (e # es) = bindR (encode_entry e) (\<lambda>bs. bindR (encode_entries es) (\<lambda>rest. Inr (bs @ rest)))"

fun encode_separators :: "bool \<Rightarrow> internal_separator list \<Rightarrow> (index_error, byte list) res" where
  "encode_separators generated [] = Inr []"
| "encode_separators generated (s # ss) =
     bindR (encode_entry (sep_key s)) (\<lambda>key.
     bindR (encode_page_ref (Some (sep_right_child s)) generated) (\<lambda>child.
     bindR (encode_separators generated ss) (\<lambda>rest. Inr (key @ child @ rest))))"

section \<open>Node codecs\<close>

fun physical_type_from_tag :: "u8 \<Rightarrow> (index_error, physical_type) res" where
  "physical_type_from_tag tag =
     (if tag = 1 then Inr PBool else if tag = 2 then Inr PInt64 else if tag = 3 then Inr PUInt64
      else if tag = 4 then Inr PText else if tag = 5 then Inr PInt8 else if tag = 6 then Inr PInt16
      else if tag = 7 then Inr PInt32 else if tag = 8 then Inr PInt128 else if tag = 9 then Inr PUInt8
      else if tag = 10 then Inr PUInt16 else if tag = 11 then Inr PUInt32 else if tag = 12 then Inr PUInt128
      else if tag = 13 then Inr PFloat32 else if tag = 14 then Inr PFloat64 else if tag = 15 then Inr PBytes
      else Inl (InvalidPhysicalType tag))"

definition decode_bool_flag :: "u8 \<Rightarrow> (u8, bool) res" where
  "decode_bool_flag value = (if value = 0 then Inr False else if value = 1 then Inr True else Inl value)"

definition encode_meta :: "meta_node \<Rightarrow> (index_error, byte list) res" where
  "encode_meta node =
     bindR (validate_meta node) (\<lambda>_.
     bindR (common_header_generation META_MAGIC (meta_owner node) (meta_generation node)) (\<lambda>header.
     bindR (encode_page_ref (Some (meta_root_page node)) (meta_generation node \<noteq> None)) (\<lambda>root.
     let name = sem_name (spec_data_type (meta_spec node))
     in bindR (push_text (case name of None \<Rightarrow> [] | Some n \<Rightarrow> n)) (\<lambda>text.
        Inr (header @ root @ to_le_bytes (meta_height node)
             @ [physical_type_tag (sem_physical (spec_data_type (meta_spec node))),
                bool_byte (spec_nullable (meta_spec node)), bool_byte (name \<noteq> None), 0] @ text)))))"

definition decode_meta :: "byte list \<Rightarrow> (index_error, meta_node) res" where
  "decode_meta input =
     bindR (common_header META_MAGIC input) (\<lambda>((owner, generation), offset).
     bindR (dec_child (generation \<noteq> None) input offset) (\<lambda>(root_page, offset).
     bindR (dec_int input offset) (\<lambda>(height :: u32, offset).
     bindR (dec_int input offset) (\<lambda>(tag :: u8, offset).
     bindR (physical_type_from_tag tag) (\<lambda>physical.
     bindR (dec_int input offset) (\<lambda>(flag :: u8, offset).
     bindR (map_err InvalidNullable (decode_bool_flag flag)) (\<lambda>nullable.
     bindR (dec_int input offset) (\<lambda>(presence :: u8, offset).
     bindR (map_err InvalidSemanticNamePresence (decode_bool_flag presence)) (\<lambda>name_present.
     bindR (dec_int input offset) (\<lambda>(reserved :: u8, offset).
     bindR (ensure (reserved = 0) IxInvalidReservedBytes) (\<lambda>_.
     bindR (dec_text input offset) (\<lambda>(name, offset).
     bindR (dec_finish input offset) (\<lambda>_.
     bindR (ensure (name_present = (name \<noteq> [])) (InvalidSemanticNamePresence (bool_byte name_present))) (\<lambda>_.
     let node = \<lparr>meta_generation = generation, meta_owner = owner, meta_root_page = root_page,
                  meta_height = height,
                  meta_spec = \<lparr>spec_data_type = \<lparr>sem_physical = physical,
                                 sem_name = (if name_present then Some name else None)\<rparr>,
                               spec_nullable = nullable\<rparr>\<rparr>
     in bindR (validate_meta node) (\<lambda>_. Inr node)))))))))))))))"

definition encode_leaf_generation :: "index_spec \<Rightarrow> leaf_node \<Rightarrow> IndexId option \<Rightarrow> PageGeneration option
    \<Rightarrow> (index_error, byte list) res" where
  "encode_leaf_generation spec node owner generation =
     bindR (validate_leaf spec node) (\<lambda>_.
     bindR (ok_or IxLengthOverflow (u32_try_from (length (leaf_entries node)))) (\<lambda>count.
     bindR (common_header_generation LEAF_MAGIC owner generation) (\<lambda>header.
     bindR (encode_page_ref (leaf_next node) (generation \<noteq> None)) (\<lambda>next.
     bindR (encode_entries (leaf_entries node)) (\<lambda>entries.
     Inr (header @ to_le_bytes count @ next @ entries))))))"

definition encode_leaf_owned :: "index_spec \<Rightarrow> leaf_node \<Rightarrow> IndexId option \<Rightarrow> (index_error, byte list) res" where
  "encode_leaf_owned spec node owner = encode_leaf_generation spec node owner None"

definition encode_leaf :: "index_spec \<Rightarrow> leaf_node \<Rightarrow> (index_error, byte list) res" where
  "encode_leaf spec node = encode_leaf_owned spec node None"

definition validate_btree_owner :: "IndexId option \<Rightarrow> IndexId option \<Rightarrow> (index_error, unit) res" where
  "validate_btree_owner expected actual = ensure (expected = actual) (OwnerMismatch expected actual)"

definition validate_btree_generation :: "PageGeneration option \<Rightarrow> PageGeneration option \<Rightarrow> (index_error, unit) res" where
  "validate_btree_generation expected actual = ensure (expected = actual) (GenerationMismatch expected actual)"

definition decode_leaf_owned :: "index_spec \<Rightarrow> byte list \<Rightarrow> IndexId option \<Rightarrow> (index_error, leaf_node) res" where
  "decode_leaf_owned spec input expected =
     bindR (common_header LEAF_MAGIC input) (\<lambda>((actual, generation), offset).
     bindR (validate_btree_owner expected actual) (\<lambda>_.
     bindR (dec_count input offset MIN_ENTRY_SIZE) (\<lambda>(count, offset).
     bindR (dec_page_ref (generation \<noteq> None) input offset) (\<lambda>(next_leaf, offset).
     bindR (repeat_decode (dec_entry spec input) count offset) (\<lambda>(entries, offset).
     bindR (dec_finish input offset) (\<lambda>_.
     let node = \<lparr>leaf_entries = entries, leaf_next = next_leaf\<rparr>
     in bindR (validate_leaf spec node) (\<lambda>_. Inr node)))))))"

definition decode_leaf :: "index_spec \<Rightarrow> byte list \<Rightarrow> (index_error, leaf_node) res" where
  "decode_leaf spec input = decode_leaf_owned spec input None"

definition encode_internal_generation :: "index_spec \<Rightarrow> internal_node \<Rightarrow> IndexId option \<Rightarrow> PageGeneration option
    \<Rightarrow> (index_error, byte list) res" where
  "encode_internal_generation spec node owner generation =
     bindR (validate_internal spec node) (\<lambda>_.
     bindR (ok_or IxLengthOverflow (u32_try_from (length (int_separators node)))) (\<lambda>count.
     bindR (common_header_generation INTERNAL_MAGIC owner generation) (\<lambda>header.
     bindR (encode_page_ref (Some (int_first_child node)) (generation \<noteq> None)) (\<lambda>first.
     bindR (encode_separators (generation \<noteq> None) (int_separators node)) (\<lambda>separators.
     Inr (header @ to_le_bytes count @ first @ separators))))))"

definition encode_internal_owned :: "index_spec \<Rightarrow> internal_node \<Rightarrow> IndexId option \<Rightarrow> (index_error, byte list) res" where
  "encode_internal_owned spec node owner = encode_internal_generation spec node owner None"

definition encode_internal :: "index_spec \<Rightarrow> internal_node \<Rightarrow> (index_error, byte list) res" where
  "encode_internal spec node = encode_internal_owned spec node None"

definition dec_separator :: "index_spec \<Rightarrow> bool \<Rightarrow> byte list \<Rightarrow> usize \<Rightarrow> (index_error, internal_separator \<times> usize) res" where
  "dec_separator spec generated input offset =
     bindR (dec_entry spec input offset) (\<lambda>(key, offset).
     bindR (dec_child generated input offset) (\<lambda>(right_child, offset).
     Inr (\<lparr>sep_key = key, sep_right_child = right_child\<rparr>, offset)))"

definition decode_internal_owned :: "index_spec \<Rightarrow> byte list \<Rightarrow> IndexId option \<Rightarrow> (index_error, internal_node) res" where
  "decode_internal_owned spec input expected =
     bindR (common_header INTERNAL_MAGIC input) (\<lambda>((actual, generation), offset).
     bindR (validate_btree_owner expected actual) (\<lambda>_.
     bindR (dec_count input offset (MIN_ENTRY_SIZE + 8)) (\<lambda>(count, offset).
     bindR (dec_child (generation \<noteq> None) input offset) (\<lambda>(first_child, offset).
     bindR (repeat_decode (dec_separator spec (generation \<noteq> None) input) count offset) (\<lambda>(separators, offset).
     bindR (dec_finish input offset) (\<lambda>_.
     let node = \<lparr>int_first_child = first_child, int_separators = separators\<rparr>
     in bindR (validate_internal spec node) (\<lambda>_. Inr node)))))))"

definition decode_internal :: "index_spec \<Rightarrow> byte list \<Rightarrow> (index_error, internal_node) res" where
  "decode_internal spec input = decode_internal_owned spec input None"

section \<open>Retired pages\<close>

definition RETIRED_MAGIC :: "byte list" where "RETIRED_MAGIC = [0x4E, 0x42, 0x54, 0x52]"
definition RETIRED_BTREE_FORMAT_VERSION :: u16 where "RETIRED_BTREE_FORMAT_VERSION = 1"

definition encode_retired_btree :: "retired_btree_page \<Rightarrow> (index_error, byte list) res" where
  "encode_retired_btree page =
     bindR (validate_generation (ref_generation (ret_page_ref page))) (\<lambda>_.
     bindR (ensure (ret_owner page \<noteq> 0) (InvalidIndexId (ret_owner page))) (\<lambda>_.
     bindR (ensure (ref_page_id (ret_page_ref page) \<noteq> 0) (InvalidChild (ref_page_id (ret_page_ref page)))) (\<lambda>_.
     Inr (RETIRED_MAGIC @ to_le_bytes RETIRED_BTREE_FORMAT_VERSION @ to_le_bytes (0 :: u16)
          @ to_le_bytes (ret_owner page) @ to_le_bytes (ref_generation (ret_page_ref page))
          @ to_le_bytes (ref_page_id (ret_page_ref page))))))"

definition decode_retired_btree :: "byte list \<Rightarrow> (index_error, retired_btree_page) res" where
  "decode_retired_btree bytes =
     bindR (dec_array bytes 0 4) (\<lambda>(actual, offset).
     bindR (ensure (actual = RETIRED_MAGIC) (IxInvalidMagic RETIRED_MAGIC actual)) (\<lambda>_.
     bindR (dec_int bytes offset) (\<lambda>(version :: u16, offset).
     bindR (ensure (version = RETIRED_BTREE_FORMAT_VERSION) (IxUnsupportedVersion version)) (\<lambda>_.
     bindR (dec_int bytes offset) (\<lambda>(reserved :: u16, offset).
     bindR (ensure (reserved = 0) IxInvalidReservedBytes) (\<lambda>_.
     bindR (dec_int bytes offset) (\<lambda>(owner :: u64, offset).
     bindR (dec_int bytes offset) (\<lambda>(generation :: u64, offset).
     bindR (dec_int bytes offset) (\<lambda>(page_id :: u64, offset).
     let page = \<lparr>ret_page_ref = \<lparr>ref_page_id = page_id, ref_generation = generation\<rparr>, ret_owner = owner\<rparr>
     in bindR (encode_retired_btree page) (\<lambda>encoded.
        bindR (ensure (encoded = bytes) InvalidNodeType) (\<lambda>_. Inr page)))))))))))"

definition retired_btree_page :: "byte list \<Rightarrow> (index_error, retired_btree_page option) res" where
  "retired_btree_page bytes =
     (if take 4 bytes = RETIRED_MAGIC then bindR (decode_retired_btree bytes) (\<lambda>p. Inr (Some p))
      else Inr None)"

definition header_of_magic :: "byte list \<Rightarrow> (index_error, (IndexId option \<times> PageGeneration option) \<times> usize) res" where
  "header_of_magic input =
     bindR (ok_or IxTruncated (get_range input 0 4)) (\<lambda>magic.
     if magic = META_MAGIC then common_header META_MAGIC input
     else if magic = LEAF_MAGIC then common_header LEAF_MAGIC input
     else if magic = INTERNAL_MAGIC then common_header INTERNAL_MAGIC input
     else Inl InvalidNodeType)"

definition btree_page_owner :: "byte list \<Rightarrow> (index_error, IndexId option) res" where
  "btree_page_owner input =
     bindR (retired_btree_page input) (\<lambda>marker.
     case marker of
       Some m \<Rightarrow> Inr (Some (ret_owner m))
     | None \<Rightarrow> bindR (header_of_magic input) (\<lambda>((owner, _), _). Inr owner))"

definition btree_page_generation :: "byte list \<Rightarrow> (index_error, PageGeneration option) res" where
  "btree_page_generation input =
     bindR (retired_btree_page input) (\<lambda>marker.
     case marker of
       Some m \<Rightarrow> Inr (Some (ref_generation (ret_page_ref m)))
     | None \<Rightarrow> bindR (header_of_magic input) (\<lambda>((_, generation), _). Inr generation))"

section \<open>Decoding at a cursor\<close>

lemma dec_int_at [cursor_simps]:
  "at_cursor p off (to_le_bytes (w :: 'a::len word) @ rest) \<Longrightarrow> 8 dvd LENGTH('a) \<Longrightarrow>
     dec_int p off = Inr (w, off + LENGTH('a) div 8)"
  by (simp add: dec_int_def dec_array_def take_bytes_at)

lemma to_le_bytes_u8: "to_le_bytes (w :: u8) = [w]"
  by (simp add: to_le_bytes_def)

lemma dec_u8_at [cursor_simps]:
  "at_cursor p off ((w :: u8) # rest) \<Longrightarrow> dec_int p off = Inr (w, Suc off)"
  using dec_int_at[of p off w rest] by (simp add: to_le_bytes_u8)

lemma dec_bytes_at:
  assumes "at_cursor p off (string_bytes s @ rest)" "length s \<le> U32_MAX"
  shows "dec_bytes p off = Inr (s, off + length (string_bytes s))"
proof -
  have cur: "at_cursor p off (to_le_bytes (of_nat (length s) :: u32) @ s @ rest)"
    using assms(1) by (simp add: string_bytes_def)
  have "at_cursor p (off + 4) (s @ rest)" using at_cursor_le[OF cur] by simp
  then show ?thesis
    using assms(2) dec_int_at[OF cur]
    by (simp add: dec_bytes_def string_bytes_def add.assoc[symmetric] at_cursor_checked at_cursor_range
        del: of_nat_numeral)
qed

lemma dec_text_at:
  assumes "at_cursor p off (string_bytes s @ rest)" "length s \<le> U32_MAX" "utf8_valid s"
  shows "dec_text p off = Inr (s, off + length (string_bytes s))"
  using dec_bytes_at[OF assms(1,2)] assms(3) by (simp add: dec_text_def from_utf8_def)

lemma push_text_Inr: "push_text s = Inr bs \<longleftrightarrow> length s \<le> U32_MAX \<and> bs = string_bytes s"
  by (auto simp: push_text_def string_bytes_def u32_try_from_Some_iff)

lemma push_bytes_Inr: "push_bytes s = Inr bs \<longleftrightarrow> length s \<le> U32_MAX \<and> bs = string_bytes s"
  by (auto simp: push_bytes_def string_bytes_def u32_try_from_Some_iff)

section \<open>Keys and entries\<close>

fun key_bytes :: "scalar_value \<Rightarrow> byte list" where
  "key_bytes (Text v) = 4 # string_bytes v"
| "key_bytes (Bytes v) = 15 # string_bytes v"
| "key_bytes v = (case encode_key v of Inr bs \<Rightarrow> bs | Inl _ \<Rightarrow> [])"

lemma encode_key_Inr: "encode_key v = Inr bs \<longleftrightarrow> encodable v \<and> bs = key_bytes v"
  by (cases v) (auto simp: push_text_Inr push_bytes_Inr)

lemma dec_scalar_at:
  "at_cursor p off (to_le_bytes (w :: 'a::len word) @ rest) \<Longrightarrow> 8 dvd LENGTH('a) \<Longrightarrow>
     dec_scalar f p off = Inr (f w, off + LENGTH('a) div 8)"
  by (simp add: dec_scalar_def dec_int_at)

lemma dec_key_at:
  assumes cur: "at_cursor p off (key_bytes v @ rest)" and v: "encodable v" "wf_scalar v"
  shows "dec_key p off = Inr (v, off + length (key_bytes v))"
proof -
  obtain tag bs where bs: "key_bytes v = tag # bs" by (cases v) auto
  have tag: "dec_int p off = Inr (tag, Suc off)" and nxt: "at_cursor p (Suc off) (bs @ rest)"
    using cur bs dec_u8_at at_cursor_Cons by auto
  show ?thesis
  proof (cases v)
    case (Bool b)
    have "dec_int p (Suc off) = Inr (bool_byte b, Suc (Suc off))"
      using nxt bs Bool dec_u8_at[of p "Suc off" "bool_byte b" rest] by auto
    then show ?thesis using tag bs Bool by (auto simp: dec_key_def bool_byte_def)
  next
    case (Text t)
    then show ?thesis
      using tag bs v dec_text_at[of p "Suc off" t rest] nxt by (auto simp: dec_key_def)
  next
    case (Bytes t)
    then show ?thesis
      using tag bs v dec_bytes_at[of p "Suc off" t rest] nxt by (auto simp: dec_key_def)
  qed (use tag bs nxt v in \<open>auto simp: dec_key_def dec_scalar_at\<close>)
qed

interpretation key_codec: cursor_codec key_bytes dec_key "\<lambda>v. encodable v \<and> wf_scalar v"
  by unfold_locales (use dec_key_at in blast)

definition entry_bytes :: "index_entry \<Rightarrow> byte list" where
  "entry_bytes e = key_bytes (ie_key e) @ row_id_bytes (ie_row_id e)"

definition ok_entry :: "index_spec \<Rightarrow> index_entry \<Rightarrow> bool" where
  "ok_entry spec e \<longleftrightarrow> encodable (ie_key e) \<and> wf_scalar (ie_key e) \<and> validate_entry spec e = Inr ()"

lemma encode_entry_Inr: "encode_entry e = Inr bs \<longleftrightarrow> encodable (ie_key e) \<and> bs = entry_bytes e"
  by (auto simp: encode_entry_def encode_key_Inr entry_bytes_def)

lemma encode_entries_Inr:
  "encode_entries es = Inr bs \<longleftrightarrow> (\<forall>e \<in> set es. encodable (ie_key e)) \<and> bs = concat (map entry_bytes es)"
  by (induction es arbitrary: bs) (auto simp: encode_entry_Inr)

lemma row_id_eta: "\<lparr>row_page = row_page r, row_slot = row_slot r, row_generation = row_generation r\<rparr> = r"
  by simp

lemma index_entry_eta: "\<lparr>ie_key = ie_key e, ie_row_id = ie_row_id e\<rparr> = e"
  by simp

lemma dec_entry_at:
  assumes cur: "at_cursor p off (entry_bytes e @ rest)" and ok: "ok_entry spec e"
  shows "dec_entry spec p off = Inr (e, off + length (entry_bytes e))"
proof -
  let ?r = "ie_row_id e" and ?k = "off + length (key_bytes (ie_key e))"
  have c0: "at_cursor p off (key_bytes (ie_key e) @ to_le_bytes (row_page ?r) @ to_le_bytes (row_slot ?r)
      @ to_le_bytes (row_generation ?r) @ rest)"
    using cur by (simp add: entry_bytes_def row_id_bytes_def)
  note c1 = at_cursor_append[OF c0]
  have c2: "at_cursor p (?k + 8) (to_le_bytes (row_slot ?r) @ to_le_bytes (row_generation ?r) @ rest)"
    using at_cursor_le[OF c1] by simp
  have c3: "at_cursor p (?k + 8 + 2) (to_le_bytes (row_generation ?r) @ rest)"
    using at_cursor_le[OF c2] by simp
  have ints: "dec_int p ?k = Inr (row_page ?r, ?k + 8)" "dec_int p (?k + 8) = Inr (row_slot ?r, ?k + 8 + 2)"
    "dec_int p (?k + 8 + 2) = Inr (row_generation ?r, ?k + 8 + 2 + 4)"
    using dec_int_at[OF c1] dec_int_at[OF c2] dec_int_at[OF c3] by simp_all
  have key: "dec_key p off = Inr (ie_key e, ?k)"
    using dec_key_at[OF c0] ok by (simp add: ok_entry_def)
  show ?thesis
    using ok by (simp add: dec_entry_def key ints[simplified] ok_entry_def validate_entry_def entry_bytes_def
        row_id_bytes_def row_id_eta Let_def)
qed

interpretation entry_codec: cursor_codec entry_bytes "dec_entry spec" "ok_entry spec" for spec
  by unfold_locales (use dec_entry_at in blast)

section \<open>Headers and references\<close>

definition ok_ref :: "bool \<Rightarrow> btree_page_ref \<Rightarrow> bool" where
  "ok_ref generated r \<longleftrightarrow> validate_child r = Inr () \<and> (ref_gen r \<noteq> None) = generated"

definition ref_bytes :: "bool \<Rightarrow> btree_page_ref option \<Rightarrow> byte list" where
  "ref_bytes generated reference =
     to_le_bytes (case reference of None \<Rightarrow> 0 | Some r \<Rightarrow> ref_id r)
     @ (if generated then to_le_bytes (case Option.bind reference ref_gen of None \<Rightarrow> 0 | Some g \<Rightarrow> g) else [])"

definition ok_ref_opt :: "bool \<Rightarrow> btree_page_ref option \<Rightarrow> bool" where
  "ok_ref_opt generated reference \<longleftrightarrow> (\<forall>r. reference = Some r \<longrightarrow> ok_ref generated r)"

lemma length_ref_bytes [simp]: "length (ref_bytes g r) = (if g then 16 else 8)"
  by (simp add: ref_bytes_def)

lemma encode_page_ref_Inr:
  "encode_page_ref reference g = Inr bs \<longleftrightarrow> ok_ref_opt g reference \<and> bs = ref_bytes g reference"
  by (auto simp: encode_page_ref_def ok_ref_opt_def ok_ref_def ref_bytes_def split: option.splits)

lemma dec_page_ref_at:
  assumes cur: "at_cursor p off (ref_bytes g reference @ rest)" and ok: "ok_ref_opt g reference"
  shows "dec_page_ref g p off = Inr (reference, off + length (ref_bytes g reference))"
proof -
  define pid where "pid = (case reference of None \<Rightarrow> 0 | Some r \<Rightarrow> ref_id r)"
  define gen where "gen = (case Option.bind reference ref_gen of None \<Rightarrow> 0 | Some g \<Rightarrow> g)"
  have c0: "at_cursor p off (to_le_bytes pid @ (if g then to_le_bytes gen else []) @ rest)"
    using cur by (simp only: ref_bytes_def pid_def gen_def append_assoc)
  have d0: "dec_int p off = Inr (pid, off + 8)" using dec_int_at[OF c0] by simp
  have d1: "dec_int p (off + 8) = Inr (gen, off + 16)" if g
  proof -
    have "at_cursor p (off + 8) (to_le_bytes gen @ rest)" using at_cursor_le[OF c0] that by simp
    from dec_int_at[OF this] show ?thesis by simp
  qed
  show ?thesis
  proof (cases reference)
    case None
    then show ?thesis using d0 d1 by (auto simp: dec_page_ref_def pid_def gen_def)
  next
    case (Some r)
    then have "ok_ref g r" using ok by (simp add: ok_ref_opt_def)
    then show ?thesis
      using d0 d1 Some
      by (cases r) (auto simp: dec_page_ref_def pid_def gen_def ok_ref_def validate_child_iff validate_generation_def)
  qed
qed

lemma dec_child_at:
  assumes "at_cursor p off (ref_bytes g (Some r) @ rest)" "ok_ref g r"
  shows "dec_child g p off = Inr (r, off + length (ref_bytes g (Some r)))"
  using dec_page_ref_at[OF assms(1)] assms(2) by (simp add: dec_child_def ok_ref_opt_def)

definition ok_header :: "IndexId option \<Rightarrow> PageGeneration option \<Rightarrow> bool" where
  "ok_header owner generation \<longleftrightarrow>
     (generation \<noteq> None \<longrightarrow> owner \<noteq> None) \<and> owner \<noteq> Some 0 \<and> generation \<noteq> Some 0"

definition opt_bytes :: "u64 option \<Rightarrow> byte list" where
  "opt_bytes v = (case v of None \<Rightarrow> [] | Some w \<Rightarrow> to_le_bytes w)"

definition header_bytes :: "byte list \<Rightarrow> IndexId option \<Rightarrow> PageGeneration option \<Rightarrow> byte list" where
  "header_bytes magic owner generation =
     magic @ to_le_bytes (if generation \<noteq> None then 3 else if owner \<noteq> None then 2 else 1 :: u16)
     @ to_le_bytes (0 :: u16) @ opt_bytes owner @ opt_bytes generation"

lemma common_header_generation_Inr:
  "common_header_generation magic owner generation = Inr bs \<longleftrightarrow>
     ok_header owner generation \<and> bs = header_bytes magic owner generation"
  by (auto simp: common_header_generation_def ok_header_def header_bytes_def opt_bytes_def Let_def
      validate_generation_def split: option.splits)

lemma common_header_at:
  assumes "fits (length (header_bytes magic owner generation @ rest))" "length magic = 4"
    and ok: "ok_header owner generation"
  shows "common_header magic (header_bytes magic owner generation @ rest) =
    Inr ((owner, generation), length (header_bytes magic owner generation))"
proof -
  define p where "p = header_bytes magic owner generation @ rest"
  define version where "version = (if generation \<noteq> None then 3 else if owner \<noteq> None then 2 else 1 :: u16)"
  have c0: "at_cursor p 0 (magic @ to_le_bytes version @ to_le_bytes (0 :: u16) @ opt_bytes owner @ opt_bytes generation @ rest)"
    using at_cursor_start[OF assms(1)] by (simp add: p_def header_bytes_def version_def)
  have c1: "at_cursor p 4 (to_le_bytes version @ to_le_bytes (0 :: u16) @ opt_bytes owner @ opt_bytes generation @ rest)"
    using at_cursor_append[OF c0] assms(2) by simp
  have c2: "at_cursor p 6 (to_le_bytes (0 :: u16) @ opt_bytes owner @ opt_bytes generation @ rest)"
    using at_cursor_le[OF c1] by simp
  have c3: "at_cursor p 8 (opt_bytes owner @ opt_bytes generation @ rest)"
    using at_cursor_le[OF c2] by simp
  have magic: "dec_array p 0 4 = Inr (magic, 4)"
    using take_bytes_at[OF c0] assms(2) by (simp add: dec_array_def)
  have ver: "dec_int p 4 = Inr (version, 6)" and res: "dec_int p 6 = Inr (0 :: u16, 8)"
    using dec_int_at[OF c1] dec_int_at[OF c2] by simp_all
  have own: "dec_int p 8 = Inr (w, 16)" if "owner = Some w" for w
    using dec_int_at[of p 8 w] c3 that by (simp add: opt_bytes_def)
  have gen: "dec_int p 16 = Inr (g, 24)" if "owner = Some w" "generation = Some g" for w g
    using dec_int_at[of p 16 g] at_cursor_le[of p 8 w "opt_bytes generation @ rest"] c3 that
    by (simp add: opt_bytes_def)
  have len: "length (header_bytes magic o1 g1) = 8 + length (opt_bytes o1) + length (opt_bytes g1)" for o1 g1
    using assms(2) by (simp add: header_bytes_def)
  show ?thesis
    using ok own gen unfolding p_def[symmetric]
    by (cases owner; cases generation)
       (simp_all add: common_header_def magic ver res len version_def ok_header_def validate_generation_def
         opt_bytes_def BTREE_FORMAT_VERSION_def)
qed

lemma dec_count_at:
  assumes cur: "at_cursor p off (to_le_bytes (of_nat n :: u32) @ rest)"
    and n: "n \<le> U32_MAX" "0 < m" "n * m + 8 \<le> length rest"
  shows "dec_count p off m = Inr (n, off + 4)"
proof -
  have range: "get_range p off (off + 4) = Some (to_le_bytes (of_nat n :: u32))"
    using at_cursor_range[OF cur] by simp
  have "length p = off + 4 + length rest"
    using at_cursor_le[OF cur] by (auto simp: at_cursor_def)
  then have "length p - (off + 4 + 8) = length rest - 8" by simp
  moreover have "n \<le> (length rest - 8) div m"
    using n by (simp add: less_eq_div_iff_mult_less_eq)
  ultimately show ?thesis using n(1) by (simp add: dec_count_def range Let_def)
qed

definition separator_bytes :: "bool \<Rightarrow> internal_separator \<Rightarrow> byte list" where
  "separator_bytes g s = entry_bytes (sep_key s) @ ref_bytes g (Some (sep_right_child s))"

definition ok_separator :: "index_spec \<Rightarrow> bool \<Rightarrow> internal_separator \<Rightarrow> bool" where
  "ok_separator spec g s \<longleftrightarrow> ok_entry spec (sep_key s) \<and> ok_ref g (sep_right_child s)"

lemma encode_separators_Inr:
  "encode_separators g ss = Inr bs \<longleftrightarrow>
     (\<forall>s \<in> set ss. encodable (ie_key (sep_key s)) \<and> ok_ref g (sep_right_child s)) \<and>
     bs = concat (map (separator_bytes g) ss)"
  by (induction ss arbitrary: bs)
     (auto simp: encode_entry_Inr encode_page_ref_Inr ok_ref_opt_def separator_bytes_def)

lemma dec_separator_at:
  assumes cur: "at_cursor p off (separator_bytes g s @ rest)" and ok: "ok_separator spec g s"
  shows "dec_separator spec g p off = Inr (s, off + length (separator_bytes g s))"
proof -
  have c0: "at_cursor p off (entry_bytes (sep_key s) @ ref_bytes g (Some (sep_right_child s)) @ rest)"
    using cur by (simp add: separator_bytes_def)
  have "dec_entry spec p off = Inr (sep_key s, off + length (entry_bytes (sep_key s)))"
    using dec_entry_at[OF c0] ok by (simp add: ok_separator_def)
  moreover note dec_child_at[OF at_cursor_append[OF c0]]
  ultimately show ?thesis
    using ok by (simp add: dec_separator_def ok_separator_def separator_bytes_def)
qed

interpretation separator_codec: cursor_codec "separator_bytes g" "dec_separator spec g" "ok_separator spec g" for spec g
  by unfold_locales (use dec_separator_at in blast)

section \<open>Nodes\<close>

lemma key_bytes_nonempty: "1 \<le> length (key_bytes v)"
  by (cases v) auto

lemma entry_bytes_min: "15 \<le> length (entry_bytes e)"
  using key_bytes_nonempty[of "ie_key e"] by (simp add: entry_bytes_def row_id_bytes_def)

lemma concat_length_min:
  "(\<And>x. x \<in> set xs \<Longrightarrow> k \<le> length (f x)) \<Longrightarrow> length xs * k \<le> length (concat (map f xs))"
proof (induction xs)
  case (Cons x xs)
  have "k \<le> length (f x)" "length xs * k \<le> length (concat (map f xs))" using Cons by auto
  then show ?case by simp
qed simp

definition leaf_bytes :: "leaf_node \<Rightarrow> IndexId option \<Rightarrow> PageGeneration option \<Rightarrow> byte list" where
  "leaf_bytes node owner generation =
     header_bytes LEAF_MAGIC owner generation @ to_le_bytes (of_nat (length (leaf_entries node)) :: u32)
     @ ref_bytes (generation \<noteq> None) (leaf_next node) @ concat (map entry_bytes (leaf_entries node))"

definition internal_bytes :: "internal_node \<Rightarrow> IndexId option \<Rightarrow> PageGeneration option \<Rightarrow> byte list" where
  "internal_bytes node owner generation =
     header_bytes INTERNAL_MAGIC owner generation @ to_le_bytes (of_nat (length (int_separators node)) :: u32)
     @ ref_bytes (generation \<noteq> None) (Some (int_first_child node))
     @ concat (map (separator_bytes (generation \<noteq> None)) (int_separators node))"

lemma encode_leaf_generation_Inr:
  "encode_leaf_generation spec node owner generation = Inr bs \<longleftrightarrow>
     validate_leaf spec node = Inr () \<and> length (leaf_entries node) \<le> U32_MAX \<and> ok_header owner generation \<and>
     ok_ref_opt (generation \<noteq> None) (leaf_next node) \<and>
     (\<forall>e \<in> set (leaf_entries node). encodable (ie_key e)) \<and> bs = leaf_bytes node owner generation"
  by (auto simp: encode_leaf_generation_def u32_try_from_Some_iff common_header_generation_Inr
      encode_page_ref_Inr encode_entries_Inr leaf_bytes_def)

lemma encode_internal_generation_Inr:
  "encode_internal_generation spec node owner generation = Inr bs \<longleftrightarrow>
     validate_internal spec node = Inr () \<and> length (int_separators node) \<le> U32_MAX \<and> ok_header owner generation \<and>
     ok_ref (generation \<noteq> None) (int_first_child node) \<and>
     (\<forall>s \<in> set (int_separators node). encodable (ie_key (sep_key s)) \<and> ok_ref (generation \<noteq> None) (sep_right_child s)) \<and>
     bs = internal_bytes node owner generation"
  by (auto simp: encode_internal_generation_def u32_try_from_Some_iff common_header_generation_Inr
      encode_page_ref_Inr ok_ref_opt_def encode_separators_Inr internal_bytes_def)

lemma leaf_eta: "\<lparr>leaf_entries = leaf_entries n, leaf_next = leaf_next n\<rparr> = n"
  by simp

lemma internal_eta: "\<lparr>int_first_child = int_first_child n, int_separators = int_separators n\<rparr> = n"
  by simp

lemma decode_leaf_bytes:
  assumes enc: "encode_leaf_generation spec node owner generation = Inr bs" and fit: "fits (length bs)"
    and wf: "\<forall>e \<in> set (leaf_entries node). wf_scalar (ie_key e)"
  shows "decode_leaf_owned spec bs owner = Inr node"
proof -
  note facts = enc[unfolded encode_leaf_generation_Inr]
  let ?h = "header_bytes LEAF_MAGIC owner generation" and ?n = "length (leaf_entries node)"
  let ?g = "generation \<noteq> None" and ?es = "concat (map entry_bytes (leaf_entries node))"
  have bs: "bs = ?h @ to_le_bytes (of_nat ?n :: u32) @ ref_bytes ?g (leaf_next node) @ ?es"
    using facts by (simp add: leaf_bytes_def)
  have hdr: "common_header LEAF_MAGIC bs = Inr ((owner, generation), length ?h)"
    unfolding bs by (rule common_header_at) (use fit facts bs in \<open>simp_all add: LEAF_MAGIC_def\<close>)
  have c0: "at_cursor bs 0 (?h @ to_le_bytes (of_nat ?n :: u32) @ ref_bytes ?g (leaf_next node) @ ?es)"
    using at_cursor_start[OF fit] bs by simp
  note c1 = at_cursor_append[OF c0]
  have c2: "at_cursor bs (length ?h + 4) (ref_bytes ?g (leaf_next node) @ ?es)"
    using at_cursor_le[OF c1] by simp
  have c3: "at_cursor bs (length ?h + 4 + length (ref_bytes ?g (leaf_next node))) (?es @ [])"
    using at_cursor_append[OF c2] by simp
  have "?n * 15 \<le> length ?es" by (rule concat_length_min) (rule entry_bytes_min)
  then have cnt: "dec_count bs (length ?h) MIN_ENTRY_SIZE = Inr (?n, length ?h + 4)"
    using dec_count_at[OF c1, of MIN_ENTRY_SIZE] facts by (simp add: MIN_ENTRY_SIZE_def ROW_ID_SIZE_def)
  have ref: "dec_page_ref ?g bs (length ?h + 4) = Inr (leaf_next node, length ?h + 4 + length (ref_bytes ?g (leaf_next node)))"
    using dec_page_ref_at[OF c2] facts by simp
  have "list_all (ok_entry spec) (leaf_entries node)"
    using facts wf by (auto simp: list_all_iff ok_entry_def validate_leaf_iff)
  from entry_codec.repeat_roundtrip[OF this c3]
  have ents: "repeat_decode (dec_entry spec bs) ?n (length ?h + 4 + length (ref_bytes ?g (leaf_next node))) =
      Inr (leaf_entries node, length bs)"
    using at_cursor_end[OF at_cursor_append[OF c3]] by (simp add: add.assoc)
  show ?thesis
    using conjunct1[OF facts]
    by (simp add: decode_leaf_owned_def hdr cnt ref ents dec_finish_def validate_btree_owner_def Let_def
        leaf_eta del: not_None_eq length_ref_bytes)
qed

lemma separator_bytes_min: "23 \<le> length (separator_bytes g s)"
  using entry_bytes_min[of "sep_key s"] by (simp add: separator_bytes_def)

lemma decode_internal_bytes:
  assumes enc: "encode_internal_generation spec node owner generation = Inr bs" and fit: "fits (length bs)"
    and wf: "\<forall>s \<in> set (int_separators node). wf_scalar (ie_key (sep_key s))"
  shows "decode_internal_owned spec bs owner = Inr node"
proof -
  note facts = enc[unfolded encode_internal_generation_Inr]
  let ?h = "header_bytes INTERNAL_MAGIC owner generation" and ?n = "length (int_separators node)"
  let ?g = "generation \<noteq> None"
  let ?r = "ref_bytes ?g (Some (int_first_child node))" and ?ss = "concat (map (separator_bytes ?g) (int_separators node))"
  have bs: "bs = ?h @ to_le_bytes (of_nat ?n :: u32) @ ?r @ ?ss"
    using facts by (simp add: internal_bytes_def)
  have hdr: "common_header INTERNAL_MAGIC bs = Inr ((owner, generation), length ?h)"
    unfolding bs by (rule common_header_at) (use fit facts bs in \<open>simp_all add: INTERNAL_MAGIC_def\<close>)
  have c0: "at_cursor bs 0 (?h @ to_le_bytes (of_nat ?n :: u32) @ ?r @ ?ss)"
    using at_cursor_start[OF fit] bs by simp
  have c1: "at_cursor bs (length ?h) (to_le_bytes (of_nat ?n :: u32) @ ?r @ ?ss)"
    using at_cursor_append[OF c0] by simp
  have c2: "at_cursor bs (length ?h + 4) (?r @ ?ss)" using at_cursor_le[OF c1] by simp
  have c3: "at_cursor bs (length ?h + 4 + length ?r) (?ss @ [])" using at_cursor_append[OF c2] by simp
  have "?n * 23 \<le> length ?ss" by (rule concat_length_min) (rule separator_bytes_min)
  moreover have "8 \<le> length ?r" by simp
  ultimately have room: "?n * (MIN_ENTRY_SIZE + 8) + 8 \<le> length (?r @ ?ss)"
    by (simp add: MIN_ENTRY_SIZE_def ROW_ID_SIZE_def del: length_ref_bytes not_None_eq)
  have cnt: "dec_count bs (length ?h) (MIN_ENTRY_SIZE + 8) = Inr (?n, length ?h + 4)"
    by (rule dec_count_at[OF c1 _ _ room]) (use facts in simp_all)
  have ref: "dec_child ?g bs (length ?h + 4) = Inr (int_first_child node, length ?h + 4 + length ?r)"
    using dec_child_at[OF c2] facts by simp
  have "list_all (ok_separator spec ?g) (int_separators node)"
    using facts wf by (auto simp: list_all_iff ok_separator_def ok_entry_def validate_internal_iff)
  from separator_codec.repeat_roundtrip[OF this c3]
  have seps: "repeat_decode (dec_separator spec ?g bs) ?n (length ?h + 4 + length ?r) = Inr (int_separators node, length bs)"
    using at_cursor_end[OF at_cursor_append[OF c3]] by (simp add: add.assoc)
  show ?thesis
    using conjunct1[OF facts]
    by (simp add: decode_internal_owned_def hdr cnt ref seps dec_finish_def validate_btree_owner_def Let_def
        internal_eta del: not_None_eq length_ref_bytes)
qed

lemma retired_magic_other:
  "take 4 (header_bytes magic owner generation @ rest) = RETIRED_MAGIC \<longleftrightarrow> magic = RETIRED_MAGIC"
  if "length magic = 4"
  using that by (simp add: header_bytes_def)

lemma page_identity_of_header:
  assumes "fits (length (header_bytes magic owner generation @ rest))" "ok_header owner generation"
    and "magic = META_MAGIC \<or> magic = LEAF_MAGIC \<or> magic = INTERNAL_MAGIC"
  shows "btree_page_owner (header_bytes magic owner generation @ rest) = Inr owner"
    and "btree_page_generation (header_bytes magic owner generation @ rest) = Inr generation"
proof -
  let ?p = "header_bytes magic owner generation @ rest"
  have len: "length magic = 4" and other: "magic \<noteq> RETIRED_MAGIC"
    using assms(3) by (auto simp: META_MAGIC_def LEAF_MAGIC_def INTERNAL_MAGIC_def RETIRED_MAGIC_def)
  have "get_range ?p 0 4 = Some magic"
    using len by (simp add: get_range_def slice_def header_bytes_def)
  then have "header_of_magic ?p = Inr ((owner, generation), length (header_bytes magic owner generation))"
    using common_header_at[OF assms(1) len assms(2)] assms(3)
    by (auto simp: header_of_magic_def META_MAGIC_def LEAF_MAGIC_def INTERNAL_MAGIC_def)
  moreover have "retired_btree_page ?p = Inr None"
    using retired_magic_other[OF len] other by (simp add: retired_btree_page_def)
  ultimately show "btree_page_owner ?p = Inr owner" "btree_page_generation ?p = Inr generation"
    by (simp_all add: btree_page_owner_def btree_page_generation_def)
qed

lemma decode_leaf_wrong_owner:
  assumes "encode_leaf_generation spec node owner generation = Inr bs" "fits (length bs)" "other \<noteq> owner"
  shows "decode_leaf_owned spec bs other = Inl (OwnerMismatch other owner)"
proof -
  note facts = assms(1)[unfolded encode_leaf_generation_Inr]
  have "common_header LEAF_MAGIC bs = Inr ((owner, generation), length (header_bytes LEAF_MAGIC owner generation))"
    using common_header_at[of LEAF_MAGIC owner generation] assms(2) facts
    by (simp add: leaf_bytes_def LEAF_MAGIC_def)
  then show ?thesis using assms(3) by (simp add: decode_leaf_owned_def validate_btree_owner_def)
qed

lemma physical_type_tag_roundtrip: "physical_type_from_tag (physical_type_tag p) = Inr p"
  by (cases p) simp_all

lemma decode_bool_flag_byte [simp]: "decode_bool_flag (bool_byte b) = Inr b"
  by (simp add: decode_bool_flag_def bool_byte_def)

definition meta_tail :: "meta_node \<Rightarrow> byte list" where
  "meta_tail node = to_le_bytes (meta_height node)
     @ [physical_type_tag (sem_physical (spec_data_type (meta_spec node))),
        bool_byte (spec_nullable (meta_spec node)),
        bool_byte (sem_name (spec_data_type (meta_spec node)) \<noteq> None), 0]
     @ string_bytes (case sem_name (spec_data_type (meta_spec node)) of None \<Rightarrow> [] | Some n \<Rightarrow> n)"

lemma encode_meta_Inr:
  "encode_meta node = Inr bs \<longleftrightarrow>
     validate_meta node = Inr () \<and> ok_header (meta_owner node) (meta_generation node) \<and>
     ok_ref (meta_generation node \<noteq> None) (meta_root_page node) \<and>
     (\<forall>n. sem_name (spec_data_type (meta_spec node)) = Some n \<longrightarrow> length n \<le> U32_MAX) \<and>
     bs = header_bytes META_MAGIC (meta_owner node) (meta_generation node)
       @ ref_bytes (meta_generation node \<noteq> None) (Some (meta_root_page node)) @ meta_tail node"
  by (auto simp: encode_meta_def common_header_generation_Inr encode_page_ref_Inr ok_ref_opt_def
      push_text_Inr meta_tail_def Let_def U32_MAX_def split: option.splits)

lemma decode_meta_bytes:
  assumes enc: "encode_meta node = Inr bs" and fit: "fits (length bs)"
    and wf: "\<forall>n. sem_name (spec_data_type (meta_spec node)) = Some n \<longrightarrow> utf8_valid n"
  shows "decode_meta bs = Inr node"
proof -
  note facts = enc[unfolded encode_meta_Inr]
  define name where "name = (case sem_name (spec_data_type (meta_spec node)) of None \<Rightarrow> [] | Some n \<Rightarrow> n)"
  define present where "present = (sem_name (spec_data_type (meta_spec node)) \<noteq> None)"
  let ?g = "meta_generation node \<noteq> None"
  let ?h = "header_bytes META_MAGIC (meta_owner node) (meta_generation node)" and ?r = "ref_bytes ?g (Some (meta_root_page node))"
  define k where "k = length ?h + length ?r"
  have hdr: "common_header META_MAGIC bs = Inr ((meta_owner node, meta_generation node), length ?h)"
    using common_header_at[of META_MAGIC "meta_owner node" "meta_generation node"] facts fit
    by (simp add: META_MAGIC_def)
  have c0: "at_cursor bs 0 (?h @ ?r @ meta_tail node)" using at_cursor_start[OF fit] facts by simp
  have c1: "at_cursor bs (length ?h) (?r @ meta_tail node)" using at_cursor_append[OF c0] by simp
  have c2: "at_cursor bs k (to_le_bytes (meta_height node) @ [physical_type_tag (sem_physical (spec_data_type (meta_spec node))),
      bool_byte (spec_nullable (meta_spec node)), bool_byte present, 0] @ string_bytes name @ [])"
    using at_cursor_append[OF c1] by (simp add: meta_tail_def name_def present_def k_def)
  have c3: "at_cursor bs (k + 4) (physical_type_tag (sem_physical (spec_data_type (meta_spec node)))
      # bool_byte (spec_nullable (meta_spec node)) # bool_byte present # 0 # string_bytes name)"
    using at_cursor_le[OF c2] by simp
  note c4 = at_cursor_Cons[OF c3, unfolded Suc_eq_plus1 add.assoc, simplified]
  note c5 = at_cursor_Cons[OF c4, unfolded Suc_eq_plus1 add.assoc, simplified]
  note c6 = at_cursor_Cons[OF c5, unfolded Suc_eq_plus1 add.assoc, simplified]
  note c7 = at_cursor_Cons[OF c6, unfolded Suc_eq_plus1 add.assoc, simplified]
  note flags = dec_u8_at[OF c3, unfolded Suc_eq_plus1 add.assoc, simplified]
    dec_u8_at[OF c4, unfolded Suc_eq_plus1 add.assoc, simplified]
    dec_u8_at[OF c5, unfolded Suc_eq_plus1 add.assoc, simplified]
    dec_u8_at[OF c6, unfolded Suc_eq_plus1 add.assoc, simplified]
  have root: "dec_child ?g bs (length ?h) = Inr (meta_root_page node, k)"
    using dec_child_at[OF c1] facts by (simp add: k_def)
  have name_dec: "dec_text bs (k + 8) = Inr (name, length bs)"
  proof -
    have "at_cursor bs (k + 8) (string_bytes name @ [])" using c7 by simp
    moreover have "length name \<le> U32_MAX" "utf8_valid name"
      using facts wf by (auto simp: name_def split: option.splits)
    ultimately show ?thesis
      using dec_text_at at_cursor_end[OF at_cursor_append] by metis
  qed
  have ints: "dec_int bs k = Inr (meta_height node, k + 4)"
    using dec_int_at[OF c2] by simp
  have consistent: "present = (name \<noteq> [])"
    using facts by (auto simp: present_def name_def validate_meta_def split: option.splits)
  have eta: "\<lparr>meta_generation = meta_generation node, meta_owner = meta_owner node,
      meta_root_page = meta_root_page node, meta_height = meta_height node,
      meta_spec = \<lparr>spec_data_type = \<lparr>sem_physical = sem_physical (spec_data_type (meta_spec node)), sem_name = n\<rparr>,
        spec_nullable = spec_nullable (meta_spec node)\<rparr>\<rparr> = node" if "n = (if present then Some name else None)" for n
    using that by (auto simp: present_def name_def split: option.splits)
  show ?thesis
    using conjunct1[OF facts] consistent
    by (cases present) (simp_all add: decode_meta_def hdr root ints flags
        physical_type_tag_roundtrip name_dec dec_finish_def eta Let_def
        del: not_None_eq length_ref_bytes physical_type_from_tag.simps)
qed

lemma encode_retired_Inr:
  "encode_retired_btree page = Inr bs \<longleftrightarrow>
     ref_generation (ret_page_ref page) \<noteq> 0 \<and> ret_owner page \<noteq> 0 \<and> ref_page_id (ret_page_ref page) \<noteq> 0 \<and>
     bs = RETIRED_MAGIC @ to_le_bytes RETIRED_BTREE_FORMAT_VERSION @ to_le_bytes (0 :: u16)
       @ to_le_bytes (ret_owner page) @ to_le_bytes (ref_generation (ret_page_ref page))
       @ to_le_bytes (ref_page_id (ret_page_ref page))"
  by (auto simp: encode_retired_btree_def validate_generation_def)

lemma decode_retired_encoded:
  assumes enc: "encode_retired_btree page = Inr bs"
  shows "decode_retired_btree bs = Inr page"
proof -
  note facts = enc[unfolded encode_retired_Inr]
  have len: "length RETIRED_MAGIC = 4" by (simp add: RETIRED_MAGIC_def)
  have "length bs = 32" using facts len by simp
  then have fit: "fits (length bs)" by (simp add: fits_def ISIZE_MAX_def)
  have c0: "at_cursor bs 0 (RETIRED_MAGIC @ to_le_bytes RETIRED_BTREE_FORMAT_VERSION @ to_le_bytes (0 :: u16)
     @ to_le_bytes (ret_owner page) @ to_le_bytes (ref_generation (ret_page_ref page))
     @ to_le_bytes (ref_page_id (ret_page_ref page)) @ [])"
    using at_cursor_start[OF fit] facts by simp
  note c1 = at_cursor_append[OF c0, unfolded len, simplified]
  note c2 = at_cursor_le[OF c1, simplified]
  note c3 = at_cursor_le[OF c2, simplified]
  note c4 = at_cursor_le[OF c3, simplified]
  note c5 = at_cursor_le[OF c4, simplified]
  have magic: "dec_array bs 0 4 = Inr (RETIRED_MAGIC, 4)"
    using take_bytes_at[OF c0, of 4] len by (simp add: dec_array_def)
  have ints: "dec_int bs 4 = Inr (RETIRED_BTREE_FORMAT_VERSION, 6)" "dec_int bs 6 = Inr (0 :: u16, 8)"
      "dec_int bs 8 = Inr (ret_owner page, 16)" "dec_int bs 16 = Inr (ref_generation (ret_page_ref page), 24)"
      "dec_int bs 24 = Inr (ref_page_id (ret_page_ref page), 32)"
    using dec_int_at[OF c1] dec_int_at[OF c2] dec_int_at[OF c3] dec_int_at[OF c4]
      dec_int_at[of bs 24 "ref_page_id (ret_page_ref page)" "[]"] c5 by simp_all
  have eta: "\<lparr>ret_page_ref = \<lparr>ref_page_id = ref_page_id (ret_page_ref page),
      ref_generation = ref_generation (ret_page_ref page)\<rparr>, ret_owner = ret_owner page\<rparr> = page" by simp
  show ?thesis
    by (simp add: decode_retired_btree_def magic ints eta enc Let_def)
qed

lemma decode_retired_sound:
  assumes "decode_retired_btree bs = Inr page"
  shows "encode_retired_btree page = Inr bs"
  using assms by (auto simp: decode_retired_btree_def Let_def)

section \<open>Properties\<close>

declare META_MAGIC_def [eval_simps] and LEAF_MAGIC_def [eval_simps] and INTERNAL_MAGIC_def [eval_simps]
  and BTREE_FORMAT_VERSION_def [eval_simps] and MIN_ENTRY_SIZE_def [eval_simps] and ROW_ID_SIZE_def [eval_simps]
  and push_bytes_def [eval_simps] and push_text_def [eval_simps] and row_id_bytes_def [eval_simps]
  and encode_entry_def [eval_simps] and common_header_generation_def [eval_simps]
  and encode_page_ref_def [eval_simps] and encode_meta_def [eval_simps] and validate_meta_def [eval_simps]
  and encode_leaf_generation_def [eval_simps] and encode_internal_generation_def [eval_simps]

text \<open>
  C30. Leaf pages round-trip with their identity: the payload written for an owner and a page
  generation decodes under that owner to the same leaf, reports that owner and generation from its
  header alone, and is refused with an owner mismatch under every other expected owner.
\<close>

theorem leaf_codec_roundtrip:
  assumes "encode_leaf_generation spec node owner generation = Inr bs" "fits (length bs)"
    and "\<forall>e \<in> set (leaf_entries node). wf_scalar (ie_key e)"
  shows "decode_leaf_owned spec bs owner = Inr node \<and>
    btree_page_owner bs = Inr owner \<and> btree_page_generation bs = Inr generation \<and>
    (\<forall>other. other \<noteq> owner \<longrightarrow> decode_leaf_owned spec bs other = Inl (OwnerMismatch other owner))"
proof -
  have ok: "ok_header owner generation" and "bs = leaf_bytes node owner generation"
    using assms(1) by (simp_all add: encode_leaf_generation_Inr)
  then obtain rest where bs: "bs = header_bytes LEAF_MAGIC owner generation @ rest"
    by (simp add: leaf_bytes_def)
  then show ?thesis
    using decode_leaf_bytes[OF assms] decode_leaf_wrong_owner[OF assms(1,2)]
      page_identity_of_header[of LEAF_MAGIC owner generation rest] ok assms(2)
    by simp
qed

theorem leaf_codec_roundtrip_witness:
  "\<exists>bs. encode_leaf_generation sample_spec sample_leaf (Some 6) None = Inr bs \<and>
     decode_leaf_owned sample_spec bs (Some 6) = Inr sample_leaf"
proof -
  obtain bs where enc: "encode_leaf_generation sample_spec sample_leaf (Some 6) None = Inr bs"
    and len: "length bs = 77"
    by (simp add: eval_simps)
  moreover have "\<forall>e \<in> set (leaf_entries sample_leaf). wf_scalar (ie_key e)" by (simp add: eval_simps)
  moreover have "fits (length bs)" using len by (simp add: eval_simps)
  ultimately show ?thesis using leaf_codec_roundtrip by blast
qed

text \<open>
  Internal pages round-trip with their identity: the payload of a valid internal node decodes
  under its owner to the same children and separators, and its header alone yields the owner and
  the page generation.
\<close>

theorem internal_codec_roundtrip:
  assumes "encode_internal_generation spec node owner generation = Inr bs" "fits (length bs)"
    and "\<forall>s \<in> set (int_separators node). wf_scalar (ie_key (sep_key s))"
  shows "decode_internal_owned spec bs owner = Inr node \<and>
    btree_page_owner bs = Inr owner \<and> btree_page_generation bs = Inr generation"
proof -
  have ok: "ok_header owner generation" and "bs = internal_bytes node owner generation"
    using assms(1) by (simp_all add: encode_internal_generation_Inr)
  then obtain rest where "bs = header_bytes INTERNAL_MAGIC owner generation @ rest"
    by (simp add: internal_bytes_def)
  then show ?thesis
    using decode_internal_bytes[OF assms] page_identity_of_header[of INTERNAL_MAGIC owner generation rest]
      ok assms(2)
    by simp
qed

theorem internal_codec_roundtrip_witness:
  "\<exists>bs. encode_internal_generation sample_spec sample_internal (Some 6) None = Inr bs \<and>
     decode_internal_owned sample_spec bs (Some 6) = Inr sample_internal"
proof -
  obtain bs where enc: "encode_internal_generation sample_spec sample_internal (Some 6) None = Inr bs"
    and len: "length bs = 78"
    by (simp add: eval_simps)
  moreover have "\<forall>s \<in> set (int_separators sample_internal). wf_scalar (ie_key (sep_key s))"
    by (simp add: eval_simps)
  moreover have "fits (length bs)" using len by (simp add: eval_simps)
  ultimately show ?thesis using internal_codec_roundtrip by blast
qed

text \<open>
  Tree metadata round-trips: the payload written for a meta node decodes to the same root,
  height, key specification, owner and generation.
\<close>

theorem meta_codec_roundtrip:
  assumes "encode_meta node = Inr bs" "fits (length bs)"
    and "\<forall>n. sem_name (spec_data_type (meta_spec node)) = Some n \<longrightarrow> utf8_valid n"
  shows "decode_meta bs = Inr node"
  using assms by (rule decode_meta_bytes)

definition sample_meta :: meta_node where
  "sample_meta = \<lparr>meta_generation = Some 4, meta_owner = Some 6,
     meta_root_page = Allocated \<lparr>ref_page_id = 9, ref_generation = 5\<rparr>, meta_height = 2, meta_spec = sample_spec\<rparr>"

theorem meta_codec_roundtrip_witness:
  "\<exists>bs. encode_meta sample_meta = Inr bs \<and> decode_meta bs = Inr sample_meta"
proof -
  obtain bs where enc: "encode_meta sample_meta = Inr bs" and len: "length bs = 52"
    by (simp add: eval_simps sample_meta_def)
  moreover have "\<forall>n. sem_name (spec_data_type (meta_spec sample_meta)) = Some n \<longrightarrow> utf8_valid n"
    by (simp add: eval_simps sample_meta_def)
  moreover have "fits (length bs)" using len by (simp add: eval_simps)
  ultimately show ?thesis using meta_codec_roundtrip by blast
qed

text \<open>
  The retired-page marker has exactly one encoding: a payload decodes to a marker if and only if
  it is the encoding of that marker, so no malformed or padded payload passes as a retirement proof.
\<close>

theorem retired_marker_exact:
  "decode_retired_btree bs = Inr page \<longleftrightarrow> encode_retired_btree page = Inr bs"
  using decode_retired_encoded decode_retired_sound by blast

end
