(* ===== verification/Index_Split.thy ===== *)
theory Index_Split
  imports Index_Codec
begin

text \<open>
  Encoded sizes and the split and merge calculations of \<open>crates/netbadb-index\<close>. The split loops visit
  every boundary, keep the one with the least size imbalance among those that fit, and build the two
  nodes and the promoted separator; the merges are their inverses when the result fits.
\<close>

section \<open>Sizes\<close>

fun encoded_key_len :: "scalar_value \<Rightarrow> (index_error, usize) res" where
  "encoded_key_len Null = Inr 1"
| "encoded_key_len (Bool _) = Inr 2"
| "encoded_key_len (Int8 _) = Inr 2"
| "encoded_key_len (UInt8 _) = Inr 2"
| "encoded_key_len (Int16 _) = Inr 3"
| "encoded_key_len (UInt16 _) = Inr 3"
| "encoded_key_len (Int32 _) = Inr 5"
| "encoded_key_len (UInt32 _) = Inr 5"
| "encoded_key_len (Float32 _) = Inr 5"
| "encoded_key_len (Int64 _) = Inr 9"
| "encoded_key_len (UInt64 _) = Inr 9"
| "encoded_key_len (Float64 _) = Inr 9"
| "encoded_key_len (Int128 _) = Inr 17"
| "encoded_key_len (UInt128 _) = Inr 17"
| "encoded_key_len (Text v) = ok_or IxLengthOverflow (checked_add 5 (length v))"
| "encoded_key_len (Bytes v) = ok_or IxLengthOverflow (checked_add 5 (length v))"

definition encoded_entry_len :: "index_entry \<Rightarrow> (index_error, usize) res" where
  "encoded_entry_len entry =
     bindR (encoded_key_len (ie_key entry)) (\<lambda>n. ok_or IxLengthOverflow (checked_add n ROW_ID_SIZE))"

fun entries_size_fold :: "usize \<Rightarrow> index_entry list \<Rightarrow> (index_error, usize) res" where
  "entries_size_fold sz [] = Inr sz"
| "entries_size_fold sz (e # es) =
     bindR (encoded_entry_len e) (\<lambda>n.
     bindR (ok_or IxLengthOverflow (checked_add sz n)) (\<lambda>sz. entries_size_fold sz es))"

definition encoded_entries_size :: "index_entry list \<Rightarrow> (index_error, usize) res" where
  "encoded_entries_size entries = entries_size_fold NODE_HEADER_SIZE entries"

definition leaf_encoded_len :: "index_spec \<Rightarrow> leaf_node \<Rightarrow> bool \<Rightarrow> (index_error, usize) res" where
  "leaf_encoded_len spec node generated =
     bindR (validate_leaf spec node) (\<lambda>_.
     bindR (ensure (\<not> (case leaf_next node of Some p \<Rightarrow> (ref_gen p \<noteq> None) \<noteq> generated | None \<Rightarrow> False))
              InvalidNodeType) (\<lambda>_.
     bindR (encoded_entries_size (leaf_entries node)) (\<lambda>n.
     Inr ((if generated then 8 else 0) + n))))"

fun separators_size_fold :: "usize \<Rightarrow> usize \<Rightarrow> internal_separator list \<Rightarrow> (index_error, usize) res" where
  "separators_size_fold width sz [] = Inr sz"
| "separators_size_fold width sz (s # ss) =
     bindR (encoded_entry_len (sep_key s)) (\<lambda>n.
     bindR (ok_or IxLengthOverflow (Option.bind (checked_add sz n) (\<lambda>sz. checked_add sz width))) (\<lambda>sz.
     separators_size_fold width sz ss))"

definition internal_encoded_len :: "index_spec \<Rightarrow> internal_node \<Rightarrow> (index_error, usize) res" where
  "internal_encoded_len spec node =
     bindR (validate_internal spec node) (\<lambda>_.
     let width = (if ref_gen (int_first_child node) \<noteq> None then 16 else 8)
     in separators_size_fold width (COMMON_HEADER_SIZE + 4 + width) (int_separators node))"

definition ensure_key_fits :: "index_spec \<Rightarrow> scalar_value \<Rightarrow> usize \<Rightarrow> (index_error, unit) res" where
  "ensure_key_fits spec key capacity =
     bindR (validate_key spec key) (\<lambda>_.
     bindR (encoded_key_len key) (\<lambda>n.
     bindR (ok_or IxLengthOverflow (Option.bind (checked_add NODE_HEADER_SIZE n) (\<lambda>sz. checked_add sz ROW_ID_SIZE))) (\<lambda>leaf_size.
     bindR (ok_or IxLengthOverflow (checked_add leaf_size 8)) (\<lambda>internal_size.
     ensure (\<not> internal_size > capacity) (KeyTooLarge internal_size capacity)))))"

definition ensure_entry_fits :: "index_spec \<Rightarrow> index_entry \<Rightarrow> usize \<Rightarrow> (index_error, unit) res" where
  "ensure_entry_fits spec entry capacity =
     bindR (validate_key spec (ie_key entry)) (\<lambda>_.
     bindR (validate_row_id (ie_row_id entry)) (\<lambda>_.
     ensure_key_fits spec (ie_key entry) capacity))"

section \<open>Splits\<close>

definition abs_diff :: "usize \<Rightarrow> usize \<Rightarrow> usize" where
  "abs_diff a b = (if a < b then b - a else a - b)"

text \<open>\<open>best.is_none_or(|best| (imbalance, split) < best)\<close>\<close>

definition better :: "usize \<Rightarrow> usize \<Rightarrow> (usize \<times> usize) option \<Rightarrow> bool" where
  "better imbalance split best =
     (case best of
        None \<Rightarrow> True
      | Some (best_imbalance, best_split) \<Rightarrow>
          imbalance < best_imbalance \<or> (imbalance = best_imbalance \<and> split < best_split))"

definition leaf_left :: "index_entry list \<Rightarrow> btree_page_ref \<Rightarrow> usize \<Rightarrow> leaf_node" where
  "leaf_left entries right_page split = \<lparr>leaf_entries = take split entries, leaf_next = Some right_page\<rparr>"

definition leaf_right :: "index_entry list \<Rightarrow> btree_page_ref option \<Rightarrow> usize \<Rightarrow> leaf_node" where
  "leaf_right entries old_next split = \<lparr>leaf_entries = drop split entries, leaf_next = old_next\<rparr>"

fun split_leaf_loop :: "index_spec \<Rightarrow> index_entry list \<Rightarrow> btree_page_ref option \<Rightarrow> btree_page_ref \<Rightarrow> usize
    \<Rightarrow> (usize \<times> usize) option \<Rightarrow> usize list \<Rightarrow> (index_error, (usize \<times> usize) option) res" where
  "split_leaf_loop spec entries old_next right_page capacity best [] = Inr best"
| "split_leaf_loop spec entries old_next right_page capacity best (split # splits) =
     bindR (leaf_encoded_len spec (leaf_left entries right_page split) (ref_gen right_page \<noteq> None)) (\<lambda>left_size.
     bindR (leaf_encoded_len spec (leaf_right entries old_next split) (ref_gen right_page \<noteq> None)) (\<lambda>right_size.
     let imbalance = abs_diff left_size right_size;
         best' = (if left_size \<le> capacity \<and> right_size \<le> capacity \<and> better imbalance split best
                  then Some (imbalance, split) else best)
     in split_leaf_loop spec entries old_next right_page capacity best' splits))"

definition split_leaf :: "index_spec \<Rightarrow> index_entry list \<Rightarrow> btree_page_ref option \<Rightarrow> btree_page_ref \<Rightarrow> usize
    \<Rightarrow> (index_error, leaf_node \<times> leaf_node \<times> index_entry) res" where
  "split_leaf spec entries old_next right_page capacity =
     bindR (validate_child right_page) (\<lambda>_.
     if length entries < 2 then
       bindR (encoded_entries_size entries) (\<lambda>n. Inl (NodeTooLarge n capacity))
     else
       bindR (split_leaf_loop spec entries old_next right_page capacity None [1..<length entries]) (\<lambda>best.
       case best of
         None \<Rightarrow> bindR (encoded_entries_size entries) (\<lambda>n. Inl (NodeTooLarge n capacity))
       | Some (_, split) \<Rightarrow>
           let right = leaf_right entries old_next split
           in bindR (ok_or InvalidEntryOrder (get_at (leaf_entries right) 0)) (\<lambda>promoted.
              Inr (leaf_left entries right_page split, right, promoted))))"

definition int_left :: "internal_node \<Rightarrow> usize \<Rightarrow> internal_node" where
  "int_left node middle =
     \<lparr>int_first_child = int_first_child node, int_separators = take middle (int_separators node)\<rparr>"

definition int_right :: "internal_node \<Rightarrow> usize \<Rightarrow> internal_node" where
  "int_right node middle =
     \<lparr>int_first_child = sep_right_child (int_separators node ! middle),
      int_separators = drop (Suc middle) (int_separators node)\<rparr>"

fun split_internal_loop :: "index_spec \<Rightarrow> internal_node \<Rightarrow> usize
    \<Rightarrow> (usize \<times> usize) option \<Rightarrow> usize list \<Rightarrow> (index_error, (usize \<times> usize) option) res" where
  "split_internal_loop spec node capacity best [] = Inr best"
| "split_internal_loop spec node capacity best (middle # middles) =
     bindR (internal_encoded_len spec (int_left node middle)) (\<lambda>left_size.
     bindR (internal_encoded_len spec (int_right node middle)) (\<lambda>right_size.
     let imbalance = abs_diff left_size right_size;
         best' = (if left_size \<le> capacity \<and> right_size \<le> capacity \<and> better imbalance middle best
                  then Some (imbalance, middle) else best)
     in split_internal_loop spec node capacity best' middles))"

definition split_internal :: "index_spec \<Rightarrow> internal_node \<Rightarrow> usize
    \<Rightarrow> (index_error, internal_node \<times> index_entry \<times> internal_node) res" where
  "split_internal spec node capacity =
     bindR (validate_internal spec node) (\<lambda>_.
     if int_separators node = [] then
       bindR (internal_encoded_len spec node) (\<lambda>n. Inl (NodeTooLarge n capacity))
     else
       bindR (split_internal_loop spec node capacity None [0..<length (int_separators node)]) (\<lambda>best.
       case best of
         None \<Rightarrow> bindR (internal_encoded_len spec node) (\<lambda>n. Inl (NodeTooLarge n capacity))
       | Some (_, middle) \<Rightarrow>
           Inr (int_left node middle, sep_key (int_separators node ! middle), int_right node middle)))"

section \<open>Merges\<close>

definition merge_leaves_if_fits :: "index_spec \<Rightarrow> leaf_node \<Rightarrow> leaf_node \<Rightarrow> usize \<Rightarrow> (index_error, leaf_node option) res" where
  "merge_leaves_if_fits spec left right capacity =
     bindR (ok_or IxLengthOverflow (checked_add (length (leaf_entries left)) (length (leaf_entries right)))) (\<lambda>_.
     let merged = \<lparr>leaf_entries = leaf_entries left @ leaf_entries right, leaf_next = leaf_next right\<rparr>
     in bindR (leaf_encoded_len spec merged
                 (case leaf_next left of Some p \<Rightarrow> ref_gen p \<noteq> None | None \<Rightarrow> False)) (\<lambda>n.
        Inr (if n \<le> capacity then Some merged else None)))"

definition merge_internals_if_fits :: "index_spec \<Rightarrow> internal_node \<Rightarrow> index_entry \<Rightarrow> internal_node \<Rightarrow> usize
    \<Rightarrow> (index_error, internal_node option) res" where
  "merge_internals_if_fits spec left parent_fence right capacity =
     bindR (validate_key spec (ie_key parent_fence)) (\<lambda>_.
     bindR (validate_row_id (ie_row_id parent_fence)) (\<lambda>_.
     bindR (validate_child (int_first_child right)) (\<lambda>_.
     bindR (ok_or IxLengthOverflow (Option.bind (checked_add (length (int_separators left)) 1)
              (\<lambda>count. checked_add count (length (int_separators right))))) (\<lambda>_.
     let merged = \<lparr>int_first_child = int_first_child left,
                    int_separators = int_separators left
                      @ [\<lparr>sep_key = parent_fence, sep_right_child = int_first_child right\<rparr>]
                      @ int_separators right\<rparr>
     in bindR (internal_encoded_len spec merged) (\<lambda>n.
        Inr (if n \<le> capacity then Some merged else None))))))"

section \<open>Sizes are exact\<close>

lemma encoded_key_len_bytes: "encoded_key_len v = Inr n \<Longrightarrow> n = length (key_bytes v)"
  by (cases v) (auto simp: checked_add_Some_iff string_bytes_def)

lemma encoded_key_len_fits: "fits (length (key_bytes v)) \<Longrightarrow> encoded_key_len v = Inr (length (key_bytes v))"
  by (cases v) (auto simp: checked_add_def string_bytes_def fits_def ISIZE_MAX_def USIZE_MAX_def)

lemma length_entry_bytes: "length (entry_bytes e) = length (key_bytes (ie_key e)) + 14"
  by (simp add: entry_bytes_def row_id_bytes_def)

lemma encoded_entry_len_bytes: "encoded_entry_len e = Inr n \<Longrightarrow> n = length (entry_bytes e)"
  by (auto simp: encoded_entry_len_def checked_add_Some_iff ROW_ID_SIZE_def length_entry_bytes
      dest: encoded_key_len_bytes)

lemma encoded_entry_len_fits:
  assumes "fits (length (entry_bytes e))"
  shows "encoded_entry_len e = Inr (length (entry_bytes e))"
proof -
  have "fits (length (key_bytes (ie_key e)))" using assms by (simp add: fits_def length_entry_bytes)
  then show ?thesis
    using assms encoded_key_len_fits
    by (simp add: encoded_entry_len_def checked_add_def ROW_ID_SIZE_def length_entry_bytes fits_def
        ISIZE_MAX_def USIZE_MAX_def)
qed

lemma entries_size_fold_bytes:
  "entries_size_fold sz es = Inr n \<Longrightarrow> n = sz + length (concat (map entry_bytes es))"
  by (induction es arbitrary: sz) (fastforce simp: checked_add_Some_iff dest!: encoded_entry_len_bytes)+

lemma entries_size_fold_fits:
  "fits (sz + length (concat (map entry_bytes es))) \<Longrightarrow>
     entries_size_fold sz es = Inr (sz + length (concat (map entry_bytes es)))"
proof (induction es arbitrary: sz)
  case (Cons e es)
  have "fits (length (entry_bytes e))" "fits (sz + length (entry_bytes e) + length (concat (map entry_bytes es)))"
    using Cons.prems by (simp_all add: fits_def)
  moreover from this have "checked_add sz (length (entry_bytes e)) = Some (sz + length (entry_bytes e))"
    by (simp add: checked_add_def fits_def ISIZE_MAX_def USIZE_MAX_def)
  ultimately show ?case using Cons.IH by (simp add: encoded_entry_len_fits add.assoc)
qed simp

lemma leaf_encoded_len_Inr:
  assumes "leaf_encoded_len spec node g = Inr n"
  shows "validate_leaf spec node = Inr () \<and> (\<forall>p. leaf_next node = Some p \<longrightarrow> (ref_gen p \<noteq> None) = g) \<and>
    n = 12 + length (ref_bytes g (leaf_next node)) + length (concat (map entry_bytes (leaf_entries node)))"
proof -
  obtain m where m: "encoded_entries_size (leaf_entries node) = Inr m" "n = (if g then 8 else 0) + m"
    and "validate_leaf spec node = Inr ()"
    and "\<not> (case leaf_next node of Some p \<Rightarrow> (ref_gen p \<noteq> None) \<noteq> g | None \<Rightarrow> False)"
    using assms by (auto simp: leaf_encoded_len_def)
  moreover have "m = 20 + length (concat (map entry_bytes (leaf_entries node)))"
    using entries_size_fold_bytes m(1)
    by (simp add: encoded_entries_size_def NODE_HEADER_SIZE_def COMMON_HEADER_SIZE_def)
  ultimately show ?thesis by (auto split: option.splits)
qed

lemma leaf_encoded_len_encoded:
  assumes "encode_leaf_generation spec node owner generation = Inr bs" "fits (length bs)"
  shows "leaf_encoded_len spec node (generation \<noteq> None) =
    Inr (length bs - length (opt_bytes owner) - length (opt_bytes generation))"
proof -
  note facts = assms(1)[unfolded encode_leaf_generation_Inr]
  let ?es = "length (concat (map entry_bytes (leaf_entries node)))"
  have hdr: "length (header_bytes LEAF_MAGIC owner generation)
      = 8 + length (opt_bytes owner) + length (opt_bytes generation)"
    by (simp add: header_bytes_def LEAF_MAGIC_def)
  have len: "length bs = 12 + length (opt_bytes owner) + length (opt_bytes generation)
      + (if generation \<noteq> None then 16 else 8) + ?es"
    using facts hdr by (simp add: leaf_bytes_def)
  have "fits (20 + ?es)" using assms(2) len by (simp add: fits_def split: if_splits)
  then have size: "encoded_entries_size (leaf_entries node) = Inr (20 + ?es)"
    using entries_size_fold_fits[of 20]
    by (simp add: encoded_entries_size_def NODE_HEADER_SIZE_def COMMON_HEADER_SIZE_def)
  have "\<not> (case leaf_next node of Some p \<Rightarrow> (ref_gen p \<noteq> None) \<noteq> (generation \<noteq> None) | None \<Rightarrow> False)"
    using facts by (auto simp: ok_ref_opt_def ok_ref_def split: option.splits)
  then show ?thesis
    using conjunct1[OF facts] size len by (simp add: leaf_encoded_len_def del: not_None_eq)
qed

section \<open>The best boundary\<close>

fun pick_best :: "(usize \<Rightarrow> usize option) \<Rightarrow> (usize \<times> usize) option \<Rightarrow> usize list \<Rightarrow> (usize \<times> usize) option" where
  "pick_best c best [] = best"
| "pick_best c best (k # ks) =
     pick_best c (case c k of Some i \<Rightarrow> if better i k best then Some (i, k) else best | None \<Rightarrow> best) ks"

lemma pick_best_None: "pick_best c best ks = None \<longleftrightarrow> best = None \<and> (\<forall>k \<in> set ks. c k = None)"
  by (induction ks arbitrary: best) (auto simp: better_def split: option.splits if_splits)

lemma pick_best_Some:
  "pick_best c best ks = Some (i, k) \<Longrightarrow>
     (best = Some (i, k) \<or> k \<in> set ks \<and> c k = Some i) \<and>
     (\<forall>k' \<in> set ks. \<forall>i'. c k' = Some i' \<longrightarrow> i \<le> i') \<and> (\<forall>i' k'. best = Some (i', k') \<longrightarrow> i \<le> i')"
proof (induction ks arbitrary: best)
  case (Cons x xs)
  let ?best = "case c x of Some i \<Rightarrow> if better i x best then Some (i, x) else best | None \<Rightarrow> best"
  have IH: "(?best = Some (i, k) \<or> k \<in> set xs \<and> c k = Some i) \<and>
     (\<forall>k' \<in> set xs. \<forall>i'. c k' = Some i' \<longrightarrow> i \<le> i') \<and> (\<forall>i' k'. ?best = Some (i', k') \<longrightarrow> i \<le> i')"
    using Cons by simp
  then show ?case
    by (cases "c x"; cases best) (auto simp: better_def split: if_splits)
qed simp

definition fit_imbalance :: "usize \<Rightarrow> (index_error, usize) res \<Rightarrow> (index_error, usize) res \<Rightarrow> usize option" where
  "fit_imbalance capacity l r =
     (case l of Inl _ \<Rightarrow> None
      | Inr a \<Rightarrow> (case r of Inl _ \<Rightarrow> None
         | Inr b \<Rightarrow> if a \<le> capacity \<and> b \<le> capacity then Some (abs_diff a b) else None))"

lemma fit_imbalance_Some:
  "fit_imbalance capacity l r = Some i \<longleftrightarrow>
     (\<exists>a b. l = Inr a \<and> r = Inr b \<and> a \<le> capacity \<and> b \<le> capacity \<and> i = abs_diff a b)"
  by (auto simp: fit_imbalance_def split: sum.splits)

definition leaf_candidate :: "index_spec \<Rightarrow> index_entry list \<Rightarrow> btree_page_ref option \<Rightarrow> btree_page_ref \<Rightarrow> usize
    \<Rightarrow> usize \<Rightarrow> usize option" where
  "leaf_candidate spec entries old_next right_page capacity split =
     fit_imbalance capacity
       (leaf_encoded_len spec (leaf_left entries right_page split) (ref_gen right_page \<noteq> None))
       (leaf_encoded_len spec (leaf_right entries old_next split) (ref_gen right_page \<noteq> None))"

definition int_candidate :: "index_spec \<Rightarrow> internal_node \<Rightarrow> usize \<Rightarrow> usize \<Rightarrow> usize option" where
  "int_candidate spec node capacity middle =
     fit_imbalance capacity (internal_encoded_len spec (int_left node middle))
       (internal_encoded_len spec (int_right node middle))"

lemma split_leaf_loop_pick:
  "split_leaf_loop spec entries old_next right_page capacity best ks = Inr b \<Longrightarrow>
     b = pick_best (leaf_candidate spec entries old_next right_page capacity) best ks"
proof (induction ks arbitrary: best)
  case (Cons k ks)
  then obtain l r where
    "leaf_encoded_len spec (leaf_left entries right_page k) (ref_gen right_page \<noteq> None) = Inr l"
    "leaf_encoded_len spec (leaf_right entries old_next k) (ref_gen right_page \<noteq> None) = Inr r"
    by (auto simp: Let_def)
  moreover from this have "leaf_candidate spec entries old_next right_page capacity k =
      (if l \<le> capacity \<and> r \<le> capacity then Some (abs_diff l r) else None)"
    by (simp add: leaf_candidate_def fit_imbalance_def)
  ultimately show ?case using Cons by (auto simp: Let_def split: if_splits)
qed simp

lemma split_internal_loop_pick:
  "split_internal_loop spec node capacity best ks = Inr b \<Longrightarrow>
     b = pick_best (int_candidate spec node capacity) best ks"
proof (induction ks arbitrary: best)
  case (Cons k ks)
  then obtain l r where
    "internal_encoded_len spec (int_left node k) = Inr l" "internal_encoded_len spec (int_right node k) = Inr r"
    by (auto simp: Let_def)
  moreover from this have "int_candidate spec node capacity k =
      (if l \<le> capacity \<and> r \<le> capacity then Some (abs_diff l r) else None)"
    by (simp add: int_candidate_def fit_imbalance_def)
  ultimately show ?case using Cons by (auto simp: Let_def split: if_splits)
qed simp

section \<open>Leaf splits\<close>

lemma split_leaf_Inr:
  assumes "split_leaf spec entries old_next right_page capacity = Inr (l, r, p)"
  shows "\<exists>split i. 1 \<le> split \<and> split < length entries \<and>
    leaf_candidate spec entries old_next right_page capacity split = Some i \<and>
    (\<forall>k i'. 1 \<le> k \<and> k < length entries \<and>
       leaf_candidate spec entries old_next right_page capacity k = Some i' \<longrightarrow> i \<le> i') \<and>
    l = leaf_left entries right_page split \<and> r = leaf_right entries old_next split \<and> p = entries ! split"
proof -
  obtain best where loop: "split_leaf_loop spec entries old_next right_page capacity None [1..<length entries] = Inr best"
    and "best \<noteq> None" and long: "\<not> length entries < 2"
    using assms by (auto simp: split_leaf_def split: if_splits option.splits)
  then obtain i split where best: "best = Some (i, split)" by auto
  have l: "l = leaf_left entries right_page split" and r: "r = leaf_right entries old_next split"
    and p: "get_at (drop split entries) 0 = Some p"
    using assms loop best long by (auto simp: split_leaf_def leaf_right_def Let_def)
  have pick: "pick_best (leaf_candidate spec entries old_next right_page capacity) None [1..<length entries] = Some (i, split)"
    using split_leaf_loop_pick[OF loop] best by simp
  note facts = pick_best_Some[OF pick]
  moreover from facts have "p = entries ! split"
    using p by (auto simp: get_at_Some_iff)
  ultimately show ?thesis using l r by (intro exI[of _ split] exI[of _ i]) auto
qed

lemma split_leaf_complete:
  assumes "\<And>k. 1 \<le> k \<Longrightarrow> k < length entries \<Longrightarrow>
      \<exists>a b. leaf_encoded_len spec (leaf_left entries right_page k) (ref_gen right_page \<noteq> None) = Inr a \<and>
        leaf_encoded_len spec (leaf_right entries old_next k) (ref_gen right_page \<noteq> None) = Inr b"
    and "validate_child right_page = Inr ()" "1 \<le> k" "k < length entries"
    and "leaf_candidate spec entries old_next right_page capacity k \<noteq> None"
  shows "is_ok (split_leaf spec entries old_next right_page capacity)"
proof -
  have loop: "\<exists>b. split_leaf_loop spec entries old_next right_page capacity best ks = Inr b"
    if "\<forall>k \<in> set ks. 1 \<le> k \<and> k < length entries" for ks best
    using that
  proof (induction ks arbitrary: best)
    case (Cons x xs)
    then obtain a b where
      "leaf_encoded_len spec (leaf_left entries right_page x) (ref_gen right_page \<noteq> None) = Inr a"
      "leaf_encoded_len spec (leaf_right entries old_next x) (ref_gen right_page \<noteq> None) = Inr b"
      using assms(1)[of x] by auto
    then show ?case using Cons by (simp add: Let_def del: not_None_eq)
  qed simp
  then obtain best where loop: "split_leaf_loop spec entries old_next right_page capacity None [1..<length entries] = Inr best"
    by (metis atLeastLessThan_iff set_upt)
  then have "best \<noteq> None"
    using split_leaf_loop_pick[OF loop] assms(3-5) pick_best_None by (metis atLeastLessThan_iff set_upt)
  then obtain i split where best: "best = Some (i, split)" by auto
  then have "split \<in> set [1..<length entries]"
    using pick_best_Some[of "leaf_candidate spec entries old_next right_page capacity" None "[1..<length entries]" i split]
      split_leaf_loop_pick[OF loop] by auto
  then show ?thesis
    using loop best assms(2-4) by (auto simp: split_leaf_def leaf_right_def get_at_def Let_def)
qed

lemma split_leaf_bounds:
  assumes "entries_sorted entries" "1 \<le> k" "k < length entries"
  shows "(\<forall>e \<in> set (take k entries). compare_entry_keys e (entries ! k) = Less) \<and>
    (\<forall>e \<in> set (drop k entries). compare_entry_keys e (entries ! k) \<noteq> Less)"
proof -
  have split: "entries = take k entries @ entries ! k # drop (Suc k) entries"
    using assms(3) by (rule id_take_nth_drop)
  have drop: "drop k entries = entries ! k # drop (Suc k) entries"
    using assms(3) by (simp add: Cons_nth_drop_Suc)
  have "entries_sorted (take k entries @ entries ! k # drop (Suc k) entries)"
    using assms(1) split by simp
  then have sorted: "\<forall>e \<in> set (take k entries). compare_entry_keys e (entries ! k) = Less"
    "\<forall>e \<in> set (drop (Suc k) entries). compare_entry_keys (entries ! k) e = Less"
    unfolding entries_sorted_def sorted_wrt_append by auto
  then show ?thesis
    unfolding drop using compare_entry_keys.cmp_asym by auto
qed

lemma merge_leaf_halves:
  assumes "leaf_encoded_len spec \<lparr>leaf_entries = entries, leaf_next = old_next\<rparr> (ref_gen right_page \<noteq> None) = Inr n"
    and "fits (length entries)"
  shows "merge_leaves_if_fits spec (leaf_left entries right_page k) (leaf_right entries old_next k) capacity =
    Inr (if n \<le> capacity then Some \<lparr>leaf_entries = entries, leaf_next = old_next\<rparr> else None)"
proof -
  have "length (take k entries) + length (drop k entries) = length entries" by simp
  then have "checked_add (length (take k entries)) (length (drop k entries)) = Some (length entries)"
    using assms(2) unfolding checked_add_def fits_def ISIZE_MAX_def USIZE_MAX_def by simp
  then show ?thesis
    using assms(1) by (simp add: merge_leaves_if_fits_def leaf_left_def leaf_right_def Let_def del: length_take length_drop not_None_eq)
qed

section \<open>Internal splits\<close>

lemma separators_size_fold_bytes:
  "separators_size_fold (if g then 16 else 8) sz ss = Inr n \<Longrightarrow>
     n = sz + length (concat (map (separator_bytes g) ss))"
  by (induction ss arbitrary: sz)
     (fastforce simp: checked_add_Some_iff separator_bytes_def bind_eq_Some_conv dest!: encoded_entry_len_bytes)+

lemma internal_encoded_len_valid: "internal_encoded_len spec node = Inr n \<Longrightarrow> validate_internal spec node = Inr ()"
  by (auto simp: internal_encoded_len_def)

lemma split_internal_Inr:
  assumes "split_internal spec node capacity = Inr (l, p, r)"
  shows "\<exists>m i. m < length (int_separators node) \<and> int_candidate spec node capacity m = Some i \<and>
    (\<forall>k i'. k < length (int_separators node) \<and> int_candidate spec node capacity k = Some i' \<longrightarrow> i \<le> i') \<and>
    l = int_left node m \<and> r = int_right node m \<and> p = sep_key (int_separators node ! m) \<and>
    validate_internal spec node = Inr ()"
proof -
  obtain best where loop: "split_internal_loop spec node capacity None [0..<length (int_separators node)] = Inr best"
    and "best \<noteq> None" and valid: "validate_internal spec node = Inr ()" and ne: "int_separators node \<noteq> []"
    using assms by (auto simp: split_internal_def split: if_splits option.splits)
  then obtain i m where best: "best = Some (i, m)" by auto
  have eqs: "l = int_left node m" "r = int_right node m" "p = sep_key (int_separators node ! m)"
    using assms loop best ne by (auto simp: split_internal_def)
  have pick: "pick_best (int_candidate spec node capacity) None [0..<length (int_separators node)] = Some (i, m)"
    using split_internal_loop_pick[OF loop] best by simp
  show ?thesis
    using pick_best_Some[OF pick] eqs valid by (intro exI[of _ m] exI[of _ i]) auto
qed

lemma separators_split:
  assumes "m < length ss"
  shows "ss = take m ss @ ss ! m # drop (Suc m) ss"
  using assms by (rule id_take_nth_drop)

lemma int_children_split:
  assumes "m < length (int_separators node)"
  shows "int_children (int_left node m) @ int_children (int_right node m) = int_children node"
  by (subst (3) int_children_def, subst separators_split[OF assms])
     (simp add: int_children_def int_left_def int_right_def)

lemma route_left:
  assumes sorted: "entries_sorted (map sep_key (int_separators node))" and m: "m < length (int_separators node)"
    and key: "compare_entry_keys key (sep_key (int_separators node ! m)) = Less"
  shows "child_position (int_left node m) key = child_position node key \<and> child_position node key \<le> m"
proof -
  note bounds = child_position_bounds[OF sorted, of key]
  have le: "child_position node key \<le> m" using bounds key by (meson not_le)
  have "entries_sorted (map sep_key (int_separators (int_left node m)))"
    using sorted by (simp add: int_left_def entries_sorted_def take_map[symmetric] sorted_wrt_take)
  then have "child_position (int_left node m) key = child_position node key"
    by (rule child_position_unique) (use le bounds m in \<open>auto simp: int_left_def\<close>)
  then show ?thesis using le by simp
qed

lemma route_right:
  assumes sorted: "entries_sorted (map sep_key (int_separators node))" and m: "m < length (int_separators node)"
    and key: "compare_entry_keys key (sep_key (int_separators node ! m)) \<noteq> Less"
  shows "child_position node key = Suc m + child_position (int_right node m) key"
proof -
  have sorted_r: "entries_sorted (map sep_key (int_separators (int_right node m)))"
    using sorted by (simp add: int_right_def entries_sorted_def drop_map[symmetric] sorted_wrt_drop)
  note bounds = child_position_bounds[OF sorted_r, of key]
  have below: "compare_entry_keys key (sep_key (int_separators node ! j)) \<noteq> Less" if "j \<le> m" for j
  proof (cases "j = m")
    case False
    then have "compare_entry_keys (sep_key (int_separators node ! j)) (sep_key (int_separators node ! m)) = Less"
      using sorted m that by (auto simp: entries_sorted_def sorted_wrt_iff_nth_less)
    then show ?thesis using key compare_entry_keys.cmp_trans by blast
  qed (use key in simp)
  have nth: "int_separators (int_right node m) ! j = int_separators node ! (Suc m + j)"
    if "Suc m + j < length (int_separators node)" for j
    using that by (simp add: int_right_def)
  show ?thesis
  proof (rule child_position_unique[OF sorted])
    show "Suc m + child_position (int_right node m) key \<le> length (int_separators node)"
      using bounds m by (auto simp: int_right_def)
  next
    fix j assume j: "j < Suc m + child_position (int_right node m) key"
    show "compare_entry_keys key (sep_key (int_separators node ! j)) \<noteq> Less"
    proof (cases "j \<le> m")
      case False
      then obtain k where k: "j = Suc m + k" by (metis add.commute le_add_diff_inverse2 not_less_eq_eq)
      then have "k < child_position (int_right node m) key" using j by simp
      moreover from this have "Suc m + k < length (int_separators node)"
        using bounds m by (auto simp: int_right_def)
      ultimately show ?thesis using bounds nth[of k] k by auto
    qed (use below in simp)
  next
    fix j assume j: "Suc m + child_position (int_right node m) key \<le> j" "j < length (int_separators node)"
    then obtain k where k: "j = Suc m + k" by (metis add_leD1 le_add_diff_inverse)
    then have "child_position (int_right node m) key \<le> k" "k < length (int_separators (int_right node m))"
      using j m by (auto simp: int_right_def)
    then have "compare_entry_keys key (sep_key (int_separators (int_right node m) ! k)) = Less"
      using bounds by blast
    then show "compare_entry_keys key (sep_key (int_separators node ! j)) = Less" using nth[of k] j k by simp
  qed
qed

lemma concat_take_drop_le:
  "length (concat (map f (take k xs))) \<le> length (concat (map f xs))"
  "length (concat (map f (drop k xs))) \<le> length (concat (map f xs))"
proof -
  have "map f xs = map f (take k xs) @ map f (drop k xs)" by (metis append_take_drop_id map_append)
  then have "length (concat (map f xs)) = length (concat (map f (take k xs))) + length (concat (map f (drop k xs)))"
    by (metis concat_append length_append)
  then show "length (concat (map f (take k xs))) \<le> length (concat (map f xs))"
    "length (concat (map f (drop k xs))) \<le> length (concat (map f xs))" by simp_all
qed

lemma leaf_encoded_len_part:
  assumes whole: "leaf_encoded_len spec \<lparr>leaf_entries = entries, leaf_next = old_next\<rparr> g = Inr n" "fits n"
    and part: "entries_sorted part" "set part \<subseteq> set entries"
      "length (concat (map entry_bytes part)) \<le> length (concat (map entry_bytes entries))"
    and link: "\<forall>p. link = Some p \<longrightarrow> ref_id p \<noteq> 0 \<and> (ref_gen p \<noteq> None) = g"
  shows "\<exists>a. leaf_encoded_len spec \<lparr>leaf_entries = part, leaf_next = link\<rparr> g = Inr a"
proof -
  note facts = leaf_encoded_len_Inr[OF whole(1)]
  have valid: "validate_leaf spec \<lparr>leaf_entries = part, leaf_next = link\<rparr> = Inr ()"
    using facts part(1,2) link by (auto simp: validate_leaf_iff)
  have "fits (20 + length (concat (map entry_bytes part)))"
    using facts whole(2) part(3) by (simp add: fits_def split: if_splits)
  then have "encoded_entries_size part = Inr (20 + length (concat (map entry_bytes part)))"
    using entries_size_fold_fits[of 20]
    by (simp add: encoded_entries_size_def NODE_HEADER_SIZE_def COMMON_HEADER_SIZE_def)
  then show ?thesis
    using valid link by (auto simp: leaf_encoded_len_def split: option.splits)
qed

lemma leaf_halves_encode:
  assumes "leaf_encoded_len spec \<lparr>leaf_entries = entries, leaf_next = old_next\<rparr> (ref_gen right_page \<noteq> None) = Inr n"
    and "fits n" "validate_child right_page = Inr ()"
  shows "\<exists>a. leaf_encoded_len spec (leaf_left entries right_page k) (ref_gen right_page \<noteq> None) = Inr a"
    and "\<exists>b. leaf_encoded_len spec (leaf_right entries old_next k) (ref_gen right_page \<noteq> None) = Inr b"
proof -
  note facts = leaf_encoded_len_Inr[OF assms(1)]
  have sorted: "entries_sorted (take k entries)" "entries_sorted (drop k entries)"
    using facts by (simp_all add: validate_leaf_iff entries_sorted_def sorted_wrt_take sorted_wrt_drop)
  show "\<exists>a. leaf_encoded_len spec (leaf_left entries right_page k) (ref_gen right_page \<noteq> None) = Inr a"
    unfolding leaf_left_def
    by (rule leaf_encoded_len_part[OF assms(1,2) sorted(1) set_take_subset concat_take_drop_le(1)])
       (use assms(3) in \<open>auto simp: validate_child_iff\<close>)
  show "\<exists>b. leaf_encoded_len spec (leaf_right entries old_next k) (ref_gen right_page \<noteq> None) = Inr b"
    unfolding leaf_right_def
    by (rule leaf_encoded_len_part[OF assms(1,2) sorted(2) set_drop_subset concat_take_drop_le(2)])
       (use facts in \<open>auto simp: validate_leaf_iff\<close>)
qed

section \<open>Properties\<close>

declare encoded_entry_len_def [eval_simps] and encoded_entries_size_def [eval_simps]
  and leaf_encoded_len_def [eval_simps] and internal_encoded_len_def [eval_simps]
  and NODE_HEADER_SIZE_def [eval_simps] and COMMON_HEADER_SIZE_def [eval_simps]
  and abs_diff_def [eval_simps] and better_def [eval_simps] and leaf_left_def [eval_simps]
  and leaf_right_def [eval_simps] and int_left_def [eval_simps] and int_right_def [eval_simps]
  and split_leaf_def [eval_simps] and split_internal_def [eval_simps]

text \<open>
  C17. A leaf split of ordered entries partitions them: the two leaves are valid, non-empty and hold
  the entries in order, both fit the capacity, the left one links to the new page and the right one
  keeps the old link, and the promoted entry separates them. No boundary that fits is better
  balanced, and merging the halves gives the unsplit leaf back whenever that fits.
\<close>

theorem split_leaf_correct:
  assumes "split_leaf spec entries old_next right_page capacity = Inr (l, r, p)" "entries_sorted entries"
    and "leaf_encoded_len spec \<lparr>leaf_entries = entries, leaf_next = old_next\<rparr> (ref_gen right_page \<noteq> None) = Inr n"
    and "fits (length entries)"
  shows "leaf_entries l @ leaf_entries r = entries \<and> leaf_entries l \<noteq> [] \<and> leaf_entries r \<noteq> [] \<and>
    leaf_next l = Some right_page \<and> leaf_next r = old_next \<and>
    validate_leaf spec l = Inr () \<and> validate_leaf spec r = Inr () \<and>
    (\<forall>e \<in> set (leaf_entries l). compare_entry_keys e p = Less) \<and>
    (\<forall>e \<in> set (leaf_entries r). compare_entry_keys e p \<noteq> Less) \<and> p \<in> set (leaf_entries r) \<and>
    (\<exists>a b. leaf_encoded_len spec l (ref_gen right_page \<noteq> None) = Inr a \<and>
      leaf_encoded_len spec r (ref_gen right_page \<noteq> None) = Inr b \<and> a \<le> capacity \<and> b \<le> capacity \<and>
      (\<forall>k i. 1 \<le> k \<and> k < length entries \<and> leaf_candidate spec entries old_next right_page capacity k = Some i \<longrightarrow>
         abs_diff a b \<le> i)) \<and>
    merge_leaves_if_fits spec l r m =
      Inr (if n \<le> m then Some \<lparr>leaf_entries = entries, leaf_next = old_next\<rparr> else None)"
proof -
  obtain split i where s: "1 \<le> split" "split < length entries"
    and cand: "leaf_candidate spec entries old_next right_page capacity split = Some i"
    and best: "\<forall>k i'. 1 \<le> k \<and> k < length entries \<and>
       leaf_candidate spec entries old_next right_page capacity k = Some i' \<longrightarrow> i \<le> i'"
    and eqs: "l = leaf_left entries right_page split" "r = leaf_right entries old_next split" "p = entries ! split"
    using split_leaf_Inr[OF assms(1)] by blast
  obtain a b where ab: "leaf_encoded_len spec l (ref_gen right_page \<noteq> None) = Inr a"
      "leaf_encoded_len spec r (ref_gen right_page \<noteq> None) = Inr b" "a \<le> capacity" "b \<le> capacity" "i = abs_diff a b"
    using cand eqs by (auto simp: leaf_candidate_def fit_imbalance_Some)
  have "validate_leaf spec l = Inr ()" "validate_leaf spec r = Inr ()"
    using leaf_encoded_len_Inr[OF ab(1)] leaf_encoded_len_Inr[OF ab(2)] by simp_all
  moreover have "entries ! split \<in> set (drop split entries)"
    using s(2) by (metis Cons_nth_drop_Suc list.set_intros(1))
  moreover have "take split entries \<noteq> [] \<and> drop split entries \<noteq> []" using s by auto
  ultimately show ?thesis
    using split_leaf_bounds[OF assms(2) s] merge_leaf_halves[OF assms(3,4), of split m] ab best eqs
    by (auto simp: leaf_left_def leaf_right_def)
qed

theorem split_leaf_correct_witness:
  "\<exists>l r p. split_leaf sample_spec (leaf_entries sample_leaf) (leaf_next sample_leaf) (Legacy 30) 60 = Inr (l, r, p) \<and>
     leaf_entries l @ leaf_entries r = leaf_entries sample_leaf \<and> leaf_entries l \<noteq> [] \<and> leaf_entries r \<noteq> []"
proof -
  obtain l r p where split: "split_leaf sample_spec (leaf_entries sample_leaf) (leaf_next sample_leaf) (Legacy 30) 60 = Inr (l, r, p)"
    by (simp add: eval_simps upt_rec)
  have sorted: "entries_sorted (leaf_entries sample_leaf)" by (simp add: eval_simps entries_sorted_def)
  have whole: "leaf_encoded_len sample_spec \<lparr>leaf_entries = leaf_entries sample_leaf, leaf_next = leaf_next sample_leaf\<rparr>
      (ref_gen (Legacy 30) \<noteq> None) = Inr 69"
    by (simp add: eval_simps)
  have fit: "fits (length (leaf_entries sample_leaf))" by (simp add: eval_simps)
  have "leaf_entries l @ leaf_entries r = leaf_entries sample_leaf \<and> leaf_entries l \<noteq> [] \<and> leaf_entries r \<noteq> []"
    using split_leaf_correct[OF split sorted whole fit, of 0] by blast
  then show ?thesis using split by blast
qed

text \<open>
  C35. A leaf split fails only when it must: for a valid, encodable leaf of at least two entries and a
  valid new page, it succeeds exactly when some boundary leaves two halves that fit the capacity.
\<close>

theorem split_leaf_succeeds_iff:
  assumes "leaf_encoded_len spec \<lparr>leaf_entries = entries, leaf_next = old_next\<rparr> (ref_gen right_page \<noteq> None) = Inr n"
    and "fits n" "validate_child right_page = Inr ()"
  shows "is_ok (split_leaf spec entries old_next right_page capacity) \<longleftrightarrow>
    (\<exists>k. 1 \<le> k \<and> k < length entries \<and> leaf_candidate spec entries old_next right_page capacity k \<noteq> None)"
proof
  assume "is_ok (split_leaf spec entries old_next right_page capacity)"
  then obtain l r p where "split_leaf spec entries old_next right_page capacity = Inr (l, r, p)"
    by (cases "split_leaf spec entries old_next right_page capacity") auto
  then show "\<exists>k. 1 \<le> k \<and> k < length entries \<and> leaf_candidate spec entries old_next right_page capacity k \<noteq> None"
    using split_leaf_Inr by (metis option.distinct(1))
next
  assume "\<exists>k. 1 \<le> k \<and> k < length entries \<and> leaf_candidate spec entries old_next right_page capacity k \<noteq> None"
  then show "is_ok (split_leaf spec entries old_next right_page capacity)"
    using split_leaf_complete[of entries spec right_page old_next] leaf_halves_encode[OF assms] assms(3) by blast
qed

theorem split_leaf_succeeds_iff_witness:
  "\<not> is_ok (split_leaf sample_spec (leaf_entries sample_leaf) (leaf_next sample_leaf) (Legacy 30) 40)"
proof -
  have whole: "leaf_encoded_len sample_spec \<lparr>leaf_entries = leaf_entries sample_leaf, leaf_next = leaf_next sample_leaf\<rparr>
      (ref_gen (Legacy 30) \<noteq> None) = Inr 69"
    by (simp add: eval_simps)
  have side: "fits 69" "validate_child (Legacy 30) = Inr ()" by (simp_all add: eval_simps)
  have "leaf_candidate sample_spec (leaf_entries sample_leaf) (leaf_next sample_leaf) (Legacy 30) 40 k = None"
    if "1 \<le> k" "k < 3" for k
  proof -
    have "k = 1 \<or> k = 2" using that by auto
    then show ?thesis by (auto simp: leaf_candidate_def fit_imbalance_def eval_simps)
  qed
  moreover have "length (leaf_entries sample_leaf) = 3" by (simp add: eval_simps)
  ultimately show ?thesis using split_leaf_succeeds_iff[OF whole side, of 40] by auto
qed

text \<open>
  C18. An internal split preserves routing: its halves are valid and fit, hold the children in order
  around the promoted separator, and every key reaches the same child as before, through the left
  half when it is below the promoted separator and through the right half otherwise.
\<close>

theorem split_internal_correct:
  assumes "split_internal spec node capacity = Inr (l, p, r)"
  shows "int_children l @ int_children r = int_children node \<and>
    validate_internal spec l = Inr () \<and> validate_internal spec r = Inr () \<and>
    (\<exists>a b. internal_encoded_len spec l = Inr a \<and> internal_encoded_len spec r = Inr b \<and>
       a \<le> capacity \<and> b \<le> capacity) \<and>
    (\<forall>key. (if compare_entry_keys key p = Less then int_child l (child_position l key)
            else int_child r (child_position r key)) = int_child node (child_position node key))"
proof -
  obtain m i where m: "m < length (int_separators node)"
    and cand: "int_candidate spec node capacity m = Some i"
    and eqs: "l = int_left node m" "r = int_right node m" "p = sep_key (int_separators node ! m)"
    and valid: "validate_internal spec node = Inr ()"
    using split_internal_Inr[OF assms] by blast
  have sorted: "entries_sorted (map sep_key (int_separators node))" using valid by (simp add: validate_internal_iff)
  obtain a b where ab: "internal_encoded_len spec l = Inr a" "internal_encoded_len spec r = Inr b"
      "a \<le> capacity" "b \<le> capacity"
    using cand eqs by (auto simp: int_candidate_def fit_imbalance_Some)
  note halves = internal_encoded_len_valid[OF ab(1)] internal_encoded_len_valid[OF ab(2)]
  have children: "int_children l @ int_children r = int_children node"
    using int_children_split[OF m] eqs by simp
  have len_l: "length (int_children l) = Suc m" using m eqs by (simp add: int_children_def int_left_def)
  have route: "(if compare_entry_keys key p = Less then int_child l (child_position l key)
      else int_child r (child_position r key)) = int_child node (child_position node key)" for key
  proof (cases "compare_entry_keys key p = Less")
    case True
    then have "child_position l key = child_position node key" "child_position l key < length (int_children l)"
      using route_left[OF sorted m, of key] eqs len_l by (simp_all add: less_Suc_eq_le)
    then show ?thesis
      using True int_child_nth[OF halves(1)] int_child_nth[OF valid]
      by (simp add: children[symmetric] nth_append)
  next
    case False
    then have "child_position node key = length (int_children l) + child_position r key"
      using route_right[OF sorted m] eqs len_l by simp
    then show ?thesis
      using False int_child_nth[OF halves(2)] int_child_nth[OF valid]
      by (simp add: children[symmetric])
  qed
  show ?thesis using children halves ab route by blast
qed

theorem split_internal_correct_witness:
  "\<exists>l p r. split_internal sample_spec sample_internal 60 = Inr (l, p, r) \<and>
     int_children l @ int_children r = int_children sample_internal"
proof -
  obtain l p r where split: "split_internal sample_spec sample_internal 60 = Inr (l, p, r)"
    by (simp add: eval_simps upt_rec)
  then show ?thesis using split_internal_correct[OF split] by blast
qed

text \<open>
  C37. The size used to decide splits and merges is exact: it is the length of the encoded leaf
  payload without its owner and generation prefix.
\<close>

theorem leaf_encoded_len_exact:
  assumes "encode_leaf_generation spec node owner generation = Inr bs" "fits (length bs)"
  shows "leaf_encoded_len spec node (generation \<noteq> None) =
    Inr (length bs - (if owner = None then 0 else 8) - (if generation = None then 0 else 8))"
proof -
  have "length (opt_bytes v) = (if v = None then 0 else 8)" for v
    by (cases v) (simp_all add: opt_bytes_def)
  then show ?thesis using leaf_encoded_len_encoded[OF assms] by simp
qed

theorem leaf_encoded_len_exact_witness:
  "\<exists>bs. encode_leaf_generation sample_spec sample_leaf (Some 6) None = Inr bs \<and>
     leaf_encoded_len sample_spec sample_leaf False = Inr (length bs - 8)"
proof -
  obtain bs where enc: "encode_leaf_generation sample_spec sample_leaf (Some 6) None = Inr bs"
    and len: "length bs = 77"
    by (simp add: eval_simps)
  moreover have "fits (length bs)" using len by (simp add: eval_simps)
  ultimately show ?thesis using leaf_encoded_len_exact[OF enc] by auto
qed

end
