(* ===== verification/Index_Catalog.thy ===== *)
theory Index_Catalog
  imports Index_Codec
begin

text \<open>
  The persistent index catalog of \<open>crates/netbadb-index\<close>: validation of registrations, statistics,
  pending retirements and the tail-reclaim intent, the version-9 encoder, and the decoder of
  versions 2 to 9.
\<close>

definition INDEX_CATALOG_MAGIC :: "byte list" where "INDEX_CATALOG_MAGIC = [0x4E, 0x42, 0x49, 0x43]"
definition INDEX_CATALOG_FORMAT_VERSION :: u16 where "INDEX_CATALOG_FORMAT_VERSION = 9"
definition LEGACY_INDEX_CATALOG_FORMAT_VERSION :: u16 where "LEGACY_INDEX_CATALOG_FORMAT_VERSION = 2"
definition INDEX_CATALOG_HEADER_SIZE :: usize where "INDEX_CATALOG_HEADER_SIZE = 48"
definition INDEX_CATALOG_ENTRY_HEADER_SIZE :: usize where "INDEX_CATALOG_ENTRY_HEADER_SIZE = 56"
definition LEGACY_INDEX_CATALOG_ENTRY_HEADER_SIZE :: usize where "LEGACY_INDEX_CATALOG_ENTRY_HEADER_SIZE = 40"
definition INDEX_CATALOG_PENDING_SIZE :: usize where "INDEX_CATALOG_PENDING_SIZE = 32"

section \<open>Validation\<close>

definition catalog_empty :: index_catalog_node where
  "catalog_empty =
     \<lparr>cat_reclaim_intent = None, cat_pending = [], cat_next_index_id = Some 1, cat_next_catalog = None,
      cat_table_statistics = None, cat_entries = []\<rparr>"

definition is_generation_safe :: "retired_index_ownership \<Rightarrow> bool" where
  "is_generation_safe own = (case own_meta_page own of None \<Rightarrow> True | Some page \<Rightarrow> ref_gen page \<noteq> None)"

definition ent_id :: "index_catalog_entry \<Rightarrow> IndexId" where
  "ent_id e = def_id (ent_definition e)"

definition ent_meta :: "index_catalog_entry \<Rightarrow> btree_page_ref" where
  "ent_meta e = handle_meta_page (def_handle (ent_definition e))"

definition ent_owner :: "index_catalog_entry \<Rightarrow> IndexId option" where
  "ent_owner e = handle_owner (def_handle (ent_definition e))"

definition validate_index_high_water :: "IndexId option \<Rightarrow> index_catalog_entry list \<Rightarrow> (index_error, unit) res" where
  "validate_index_high_water nxt entries =
     (case nxt of
        None \<Rightarrow> Inr ()
      | Some n \<Rightarrow> ensure (\<not> (n = 0 \<or> list_ex (\<lambda>entry. ent_id entry \<ge> n) entries)) (InvalidIndexHighWater n))"

text \<open>One iteration of the loop over pending records; \<open>seen\<close> is \<open>pending[..position]\<close>.\<close>

definition validate_pending_record :: "IndexId option \<Rightarrow> index_catalog_entry list
    \<Rightarrow> retired_index_ownership list \<Rightarrow> retired_index_ownership \<Rightarrow> (index_error, unit) res" where
  "validate_pending_record nxt entries seen rec =
     bindR (ensure (own_index_id rec \<noteq> 0) (InvalidIndexId (own_index_id rec))) (\<lambda>_.
     bindR (case own_meta_page rec of Some page \<Rightarrow> validate_child page | None \<Rightarrow> Inr ()) (\<lambda>_.
     bindR (case nxt of
              Some n \<Rightarrow> ensure (\<not> own_index_id rec \<ge> n) (InvalidIndexHighWater n)
            | None \<Rightarrow> Inr ()) (\<lambda>_.
     bindR (ensure (\<not> (list_ex (\<lambda>entry. ent_id entry = own_index_id rec) entries
                       \<or> list_ex (\<lambda>other. own_index_id other = own_index_id rec) seen))
              (DuplicateIndexId (own_index_id rec))) (\<lambda>_.
     case own_meta_page rec of
       None \<Rightarrow> Inr ()
     | Some page \<Rightarrow>
         ensure (\<not> (list_ex (\<lambda>entry. ref_id (ent_meta entry) = ref_id page) entries
                   \<or> list_ex (\<lambda>other. case own_meta_page other of
                                        Some o1 \<Rightarrow> ref_id o1 = ref_id page | None \<Rightarrow> False) seen))
           (DuplicateTreeHandle (ref_id page))))))"

fun pending_loop :: "IndexId option \<Rightarrow> index_catalog_entry list
    \<Rightarrow> retired_index_ownership list \<Rightarrow> retired_index_ownership list \<Rightarrow> (index_error, unit) res" where
  "pending_loop nxt entries seen [] = Inr ()"
| "pending_loop nxt entries seen (rec # recs) =
     bindR (validate_pending_record nxt entries seen rec) (\<lambda>_. pending_loop nxt entries (seen @ [rec]) recs)"

definition validate_pending_ownership :: "IndexId option \<Rightarrow> index_catalog_entry list
    \<Rightarrow> retired_index_ownership list \<Rightarrow> (index_error, unit) res" where
  "validate_pending_ownership nxt entries pending =
     bindR (validate_index_high_water nxt entries) (\<lambda>_. pending_loop nxt entries [] pending)"

definition validate_covered :: "tail_reclaim_intent \<Rightarrow> retired_index_ownership \<Rightarrow> (index_error, unit) res" where
  "validate_covered intent rec =
     (case own_meta_page rec of
        None \<Rightarrow> Inr ()
      | Some reference \<Rightarrow>
          let page = ref_id reference
          in bindR (ok_or InvalidReclaimIntent (ref_gen reference)) (\<lambda>generation.
             bindR (validate_generation generation) (\<lambda>_.
             ensure (\<not> (page < ri_truncate_from intent \<or> page \<ge> ri_old_page_count intent
                       \<or> generation \<ge> ri_checkpoint_lsn intent)) InvalidReclaimIntent)))"

definition reclaim_intent_validate :: "tail_reclaim_intent \<Rightarrow> (index_error, unit) res" where
  "reclaim_intent_validate intent =
     bindR (ensure (\<not> (ri_truncate_from intent < 3 \<or> ri_truncate_from intent \<ge> ri_old_page_count intent
                      \<or> ri_checkpoint_lsn intent = 0 \<or> ri_covered intent = [])) InvalidReclaimIntent) (\<lambda>_.
     bindR (validate_pending_ownership None [] (ri_covered intent)) (\<lambda>_.
     bindR (ensure (\<not> list_ex (\<lambda>(a, b). own_index_id a \<ge> own_index_id b)
                       (zip (ri_covered intent) (tl (ri_covered intent)))) InvalidReclaimIntent) (\<lambda>_.
     for_each (validate_covered intent) (ri_covered intent))))"

definition validate_covered_locally :: "IndexId \<Rightarrow> index_catalog_node \<Rightarrow> retired_index_ownership \<Rightarrow> (index_error, unit) res" where
  "validate_covered_locally nxt node rec =
     bindR (ensure (\<not> own_index_id rec \<ge> nxt) InvalidReclaimIntent) (\<lambda>_.
     bindR (case List.find (\<lambda>entry. ent_id entry = own_index_id rec) (cat_entries node) of
              None \<Rightarrow> Inr ()
            | Some entry \<Rightarrow>
                ensure (\<not> (\<not> ent_retired entry \<or> ent_owner entry \<noteq> Some (own_index_id rec)
                          \<or> Some (ent_meta entry) \<noteq> own_meta_page rec)) InvalidReclaimIntent) (\<lambda>_.
     case List.find (\<lambda>pending. own_index_id pending = own_index_id rec) (cat_pending node) of
       None \<Rightarrow> Inr ()
     | Some pending \<Rightarrow> ensure (pending = rec) InvalidReclaimIntent))"

definition validate_local_reclaim_intent :: "index_catalog_node \<Rightarrow> (index_error, unit) res" where
  "validate_local_reclaim_intent node =
     (case cat_reclaim_intent node of
        None \<Rightarrow> Inr ()
      | Some intent \<Rightarrow>
          bindR (reclaim_intent_validate intent) (\<lambda>_.
          bindR (ok_or InvalidReclaimIntent (cat_next_index_id node)) (\<lambda>nxt.
          for_each (validate_covered_locally nxt node) (ri_covered intent))))"

definition decode_index_name_presence :: "u8 \<Rightarrow> (index_error, bool) res" where
  "decode_index_name_presence value =
     (if value = 0 then Inr False else if value = 1 then Inr True else Inl (InvalidIndexNamePresence value))"

definition decode_statistics_presence :: "u8 \<Rightarrow> (index_error, bool) res" where
  "decode_statistics_presence value =
     (if value = 0 then Inr False else if value = 1 then Inr True else Inl (InvalidStatisticsPresence value))"

definition validate_table_statistics :: "table_statistics \<Rightarrow> (index_error, unit) res" where
  "validate_table_statistics statistics =
     ensure (ts_managed_page_count statistics \<noteq> 0) (InvalidManagedPageCount 0)"

definition validate_index_statistics_intrinsic :: "index_statistics \<Rightarrow> (index_error, unit) res" where
  "validate_index_statistics_intrinsic statistics =
     ensure (is_tree_height statistics \<noteq> 0) (InvalidHeight 0)"

definition validate_index_statistics :: "table_statistics \<Rightarrow> index_statistics \<Rightarrow> (index_error, unit) res" where
  "validate_index_statistics table index =
     bindR (validate_table_statistics table) (\<lambda>_.
     bindR (validate_index_statistics_intrinsic index) (\<lambda>_.
     bindR (ensure (\<not> is_null_count index > ts_row_count table)
              (InvalidNullCount (is_null_count index) (ts_row_count table))) (\<lambda>_.
     let non_null_rows = ts_row_count table - is_null_count index
     in ensure (\<not> (is_distinct_non_null_keys index > non_null_rows
                  \<or> (non_null_rows = 0 \<and> is_distinct_non_null_keys index \<noteq> 0)
                  \<or> (non_null_rows > 0 \<and> is_distinct_non_null_keys index = 0)))
          (InvalidDistinctCount (is_distinct_non_null_keys index) non_null_rows))))"

definition validate_catalog_index_statistics :: "table_statistics option \<Rightarrow> index_statistics \<Rightarrow> (index_error, unit) res" where
  "validate_catalog_index_statistics table index =
     bindR (ok_or MissingTableStatistics table) (\<lambda>table. validate_index_statistics table index)"

text \<open>The inner loop of \<open>validate_catalog_entries\<close>: one earlier registration against the current one.\<close>

definition validate_against :: "index_catalog_entry \<Rightarrow> index_catalog_entry \<Rightarrow> (index_error, unit) res" where
  "validate_against entry existing =
     bindR (ensure (ent_id existing \<noteq> ent_id entry) (DuplicateIndexId (ent_id entry))) (\<lambda>_.
     bindR (ensure (ref_id (ent_meta existing) \<noteq> ref_id (ent_meta entry))
              (DuplicateTreeHandle (ref_id (ent_meta entry)))) (\<lambda>_.
     if \<not> ent_retired existing \<and> \<not> ent_retired entry then
       bindR (ensure (def_column_id (ent_definition existing) \<noteq> def_column_id (ent_definition entry))
                (DuplicateRegisteredColumn (def_column_id (ent_definition entry)))) (\<lambda>_.
       case def_name (ent_definition entry) of
         None \<Rightarrow> Inr ()
       | Some name \<Rightarrow> ensure (def_name (ent_definition existing) \<noteq> Some name) (IndexNameAlreadyExists name))
     else Inr ()))"

definition validate_catalog_entry :: "index_catalog_entry list \<Rightarrow> index_catalog_entry \<Rightarrow> (index_error, unit) res" where
  "validate_catalog_entry seen entry =
     bindR (validate_child (ent_meta entry)) (\<lambda>_.
     bindR (ensure (\<not> (ref_gen (ent_meta entry) \<noteq> None \<and> ent_owner entry = None))
              (InvalidIndexId (ent_id entry))) (\<lambda>_.
     bindR (if ent_owner entry \<noteq> None then validate_btree_owner (Some (ent_id entry)) (ent_owner entry)
            else Inr ()) (\<lambda>_.
     bindR (ensure (ent_id entry \<noteq> 0) (InvalidIndexId (ent_id entry))) (\<lambda>_.
     bindR (ensure (\<not> (ent_retired entry \<and> ent_statistics entry \<noteq> None))
              (RetiredIndexStatistics (ent_id entry))) (\<lambda>_.
     for_each (validate_against entry) seen)))))"

fun catalog_entries_loop :: "index_catalog_entry list \<Rightarrow> index_catalog_entry list \<Rightarrow> (index_error, unit) res" where
  "catalog_entries_loop seen [] = Inr ()"
| "catalog_entries_loop seen (entry # entries) =
     bindR (validate_catalog_entry seen entry) (\<lambda>_. catalog_entries_loop (seen @ [entry]) entries)"

definition validate_catalog_entries :: "index_catalog_entry list \<Rightarrow> (index_error, unit) res" where
  "validate_catalog_entries entries = catalog_entries_loop [] entries"


section \<open>Encoder\<close>

definition validate_catalog_statistics :: "index_catalog_node \<Rightarrow> (index_error, unit) res" where
  "validate_catalog_statistics node =
     (case cat_table_statistics node of
        Some statistics \<Rightarrow>
          bindR (validate_table_statistics statistics) (\<lambda>_.
          for_each (\<lambda>entry. case ent_statistics entry of
                      Some index_statistics \<Rightarrow> validate_index_statistics statistics index_statistics
                    | None \<Rightarrow> Inr ()) (cat_entries node))
      | None \<Rightarrow>
          for_each (\<lambda>entry. case ent_statistics entry of
                      Some statistics \<Rightarrow> validate_index_statistics_intrinsic statistics
                    | None \<Rightarrow> Inr ()) (cat_entries node))"

definition name_len :: "index_catalog_entry \<Rightarrow> usize" where
  "name_len entry = (case def_name (ent_definition entry) of None \<Rightarrow> 0 | Some name \<Rightarrow> length name)"

fun catalog_capacity :: "usize \<Rightarrow> index_catalog_entry list \<Rightarrow> (index_error, usize) res" where
  "catalog_capacity sz [] = Inr sz"
| "catalog_capacity sz (entry # entries) =
     bindR (ok_or IxLengthOverflow
              (Option.bind (checked_add sz INDEX_CATALOG_ENTRY_HEADER_SIZE) (\<lambda>sz. checked_add sz (name_len entry))))
       (\<lambda>sz. catalog_capacity sz entries)"

definition encode_catalog_entry :: "index_catalog_entry \<Rightarrow> (index_error, byte list) res" where
  "encode_catalog_entry entry =
     bindR (ok_or IxLengthOverflow (u16_try_from (name_len entry))) (\<lambda>name_length.
     let statistics = (case ent_statistics entry of
                         Some s \<Rightarrow> s
                       | None \<Rightarrow> \<lparr>is_distinct_non_null_keys = 0, is_null_count = 0, is_tree_height = 0\<rparr>)
     in Inr (to_le_bytes (def_column_id (ent_definition entry))
          @ [bool_byte (ent_statistics entry \<noteq> None), bool_byte (def_name (ent_definition entry) \<noteq> None)]
          @ to_le_bytes name_length
          @ to_le_bytes (ref_id (ent_meta entry))
          @ to_le_bytes (is_distinct_non_null_keys statistics)
          @ to_le_bytes (is_null_count statistics)
          @ to_le_bytes (is_tree_height statistics)
          @ [bool_byte (ent_retired entry),
             if ref_gen (ent_meta entry) \<noteq> None then 2 else bool_byte (ent_owner entry \<noteq> None), 0, 0]
          @ to_le_bytes (ent_id entry)
          @ to_le_bytes (case ref_gen (ent_meta entry) of None \<Rightarrow> 0 | Some g \<Rightarrow> g)
          @ (case def_name (ent_definition entry) of None \<Rightarrow> [] | Some name \<Rightarrow> name)))"

fun encode_catalog_entries :: "index_catalog_entry list \<Rightarrow> (index_error, byte list) res" where
  "encode_catalog_entries [] = Inr []"
| "encode_catalog_entries (e # es) =
     bindR (encode_catalog_entry e) (\<lambda>bs. bindR (encode_catalog_entries es) (\<lambda>rest. Inr (bs @ rest)))"

definition own_page_id :: "retired_index_ownership \<Rightarrow> u64" where
  "own_page_id own = (case own_meta_page own of None \<Rightarrow> 0 | Some page \<Rightarrow> ref_id page)"

definition own_generation :: "retired_index_ownership \<Rightarrow> u64" where
  "own_generation own = (case Option.bind (own_meta_page own) ref_gen of None \<Rightarrow> 0 | Some g \<Rightarrow> g)"

definition encode_pending :: "retired_index_ownership \<Rightarrow> byte list" where
  "encode_pending own =
     to_le_bytes (own_index_id own) @ to_le_bytes (own_page_id own) @ to_le_bytes (own_generation own)
     @ [case own_meta_page own of None \<Rightarrow> 2 | Some page \<Rightarrow> bool_byte (ref_gen page \<noteq> None)]
     @ replicate 7 0"

definition encode_covered :: "retired_index_ownership \<Rightarrow> byte list" where
  "encode_covered own =
     to_le_bytes (own_index_id own) @ to_le_bytes (own_page_id own) @ to_le_bytes (own_generation own)"

definition encode_intent :: "tail_reclaim_intent \<Rightarrow> (index_error, byte list) res" where
  "encode_intent intent =
     bindR (ok_or IxLengthOverflow (u32_try_from (length (ri_covered intent)))) (\<lambda>count.
     Inr (to_le_bytes (ri_old_page_count intent) @ to_le_bytes (ri_truncate_from intent)
          @ to_le_bytes (ri_checkpoint_lsn intent) @ to_le_bytes count @ replicate 4 0
          @ concat (map encode_covered (ri_covered intent))))"

definition encode_index_catalog :: "index_catalog_node \<Rightarrow> (index_error, byte list) res" where
  "encode_index_catalog node =
     bindR (validate_local_reclaim_intent node) (\<lambda>_.
     bindR (case cat_next_catalog node of Some nxt \<Rightarrow> validate_child (Legacy nxt) | None \<Rightarrow> Inr ()) (\<lambda>_.
     bindR (validate_catalog_statistics node) (\<lambda>_.
     bindR (case cat_reclaim_intent node of
              Some intent \<Rightarrow>
                bindR (reclaim_intent_validate intent) (\<lambda>_.
                ensure (cat_next_index_id node \<noteq> None) InvalidReclaimIntent)
            | None \<Rightarrow> Inr ()) (\<lambda>_.
     bindR (validate_catalog_entries (cat_entries node)) (\<lambda>_.
     bindR (validate_pending_ownership (cat_next_index_id node) (cat_entries node) (cat_pending node)) (\<lambda>_.
     bindR (ok_or IxLengthOverflow (u32_try_from (length (cat_entries node)))) (\<lambda>count.
     bindR (catalog_capacity INDEX_CATALOG_HEADER_SIZE (cat_entries node)) (\<lambda>capacity.
     bindR (ok_or IxLengthOverflow (checked_mul (length (cat_pending node)) INDEX_CATALOG_PENDING_SIZE)) (\<lambda>pending_size.
     bindR (ok_or IxLengthOverflow (checked_add capacity pending_size)) (\<lambda>capacity.
     bindR (ok_or IxLengthOverflow (u32_try_from (length (cat_pending node)))) (\<lambda>pending_count.
     bindR (encode_catalog_entries (cat_entries node)) (\<lambda>entries.
     bindR (case cat_reclaim_intent node of Some intent \<Rightarrow> encode_intent intent | None \<Rightarrow> Inr []) (\<lambda>intent.
     let table_statistics = (case cat_table_statistics node of
                               Some s \<Rightarrow> s | None \<Rightarrow> \<lparr>ts_row_count = 0, ts_managed_page_count = 0\<rparr>)
     in Inr (INDEX_CATALOG_MAGIC @ to_le_bytes INDEX_CATALOG_FORMAT_VERSION
          @ [bool_byte (cat_table_statistics node \<noteq> None),
             if cat_reclaim_intent node \<noteq> None then 2 else bool_byte (cat_next_index_id node \<noteq> None)]
          @ to_le_bytes (case cat_next_catalog node of None \<Rightarrow> 0 | Some page \<Rightarrow> page)
          @ to_le_bytes count @ to_le_bytes pending_count
          @ to_le_bytes (ts_row_count table_statistics)
          @ to_le_bytes (ts_managed_page_count table_statistics)
          @ to_le_bytes (case cat_next_index_id node of None \<Rightarrow> 0 | Some i \<Rightarrow> i)
          @ entries @ concat (map encode_pending (cat_pending node)) @ intent))))))))))))))"

section \<open>Decoder\<close>

definition all_zero :: "byte list \<Rightarrow> bool" where
  "all_zero bs \<longleftrightarrow> \<not> list_ex (\<lambda>b. b \<noteq> 0) bs"

definition decode_high_water :: "u16 \<Rightarrow> byte list \<Rightarrow> (index_error, IndexId option) res" where
  "decode_high_water version input =
     (if version \<ge> 5 then
        let value = from_le_bytes (slice input 40 48)
        in if input ! 7 = 0 \<and> value = 0 then Inr None
           else if input ! 7 = 1 \<and> value \<ge> 1 then Inr (Some value)
           else if input ! 7 = 2 \<and> value \<ge> 1 \<and> version \<ge> 8 then Inr (Some value)
           else Inl (InvalidIndexHighWater value)
      else
        bindR (ensure (\<not> (input ! 7 \<noteq> 0 \<or> \<not> all_zero (slice input 40 48))) IxInvalidReservedBytes) (\<lambda>_.
        Inr None))"

definition entry_header_size :: "u16 \<Rightarrow> usize" where
  "entry_header_size version =
     (if version \<ge> 7 then INDEX_CATALOG_ENTRY_HEADER_SIZE
      else if version \<ge> 4 then 48
      else LEGACY_INDEX_CATALOG_ENTRY_HEADER_SIZE)"

definition decode_table_statistics :: "bool \<Rightarrow> byte list \<Rightarrow> (index_error, table_statistics option) res" where
  "decode_table_statistics present input =
     (let raw = \<lparr>ts_row_count = from_le_bytes (slice input 24 32),
                 ts_managed_page_count = from_le_bytes (slice input 32 40)\<rparr>
      in if present then bindR (validate_table_statistics raw) (\<lambda>_. Inr (Some raw))
         else bindR (ensure (\<not> (ts_row_count raw \<noteq> 0 \<or> ts_managed_page_count raw \<noteq> 0)) IxInvalidReservedBytes) (\<lambda>_.
              Inr None))"

definition decode_entry_name_header :: "u16 \<Rightarrow> byte list \<Rightarrow> (index_error, bool \<times> usize) res" where
  "decode_entry_name_header version chunk =
     (if version = LEGACY_INDEX_CATALOG_FORMAT_VERSION then
        bindR (ensure (all_zero (slice chunk 5 8)) IxInvalidReservedBytes) (\<lambda>_. Inr (False, 0))
      else
        bindR (decode_index_name_presence (chunk ! 5)) (\<lambda>present.
        let len = unat (from_le_bytes (slice chunk 6 8) :: u16)
        in bindR (ensure (present = (len \<noteq> 0)) InvalidIndexName) (\<lambda>_. Inr (present, len))))"

definition decode_entry_retired :: "u16 \<Rightarrow> byte list \<Rightarrow> (index_error, bool) res" where
  "decode_entry_retired version chunk =
     (if version \<ge> 4 then
        (if chunk ! 36 = 0 then Inr False else if chunk ! 36 = 1 then Inr True
         else Inl (InvalidIndexState (chunk ! 36)))
      else bindR (ensure (chunk ! 36 = 0) IxInvalidReservedBytes) (\<lambda>_. Inr False))"

definition decode_entry_statistics :: "table_statistics option \<Rightarrow> bool \<Rightarrow> byte list
    \<Rightarrow> (index_error, index_statistics option) res" where
  "decode_entry_statistics table present chunk =
     (let raw = \<lparr>is_distinct_non_null_keys = from_le_bytes (slice chunk 16 24),
                 is_null_count = from_le_bytes (slice chunk 24 32),
                 is_tree_height = from_le_bytes (slice chunk 32 36)\<rparr>
      in if present then
           bindR (validate_index_statistics_intrinsic raw) (\<lambda>_.
           bindR (case table of Some t \<Rightarrow> validate_index_statistics t raw | None \<Rightarrow> Inr ()) (\<lambda>_.
           Inr (Some raw)))
         else
           bindR (ensure (\<not> (is_distinct_non_null_keys raw \<noteq> 0 \<or> is_null_count raw \<noteq> 0 \<or> is_tree_height raw \<noteq> 0))
                    IxInvalidReservedBytes) (\<lambda>_.
           Inr None))"

definition decode_entry_owner :: "u16 \<Rightarrow> IndexId \<Rightarrow> byte list \<Rightarrow> (index_error, IndexId option) res" where
  "decode_entry_owner version index_id chunk =
     (if version \<ge> 6 then
        (if chunk ! 37 = 0 then Inr None
         else if chunk ! 37 = 1 then Inr (Some index_id)
         else if chunk ! 37 = 2 \<and> version \<ge> 7 then Inr (Some index_id)
         else Inl IxInvalidReservedBytes)
      else Inr None)"

definition decode_entry_meta_page :: "u16 \<Rightarrow> PageId \<Rightarrow> byte list \<Rightarrow> (index_error, btree_page_ref) res" where
  "decode_entry_meta_page version meta_page chunk =
     (if version \<ge> 7 \<and> chunk ! 37 = 2 then
        let generation = from_le_bytes (slice chunk 48 56)
        in bindR (validate_generation generation) (\<lambda>_.
           Inr (Allocated \<lparr>ref_page_id = meta_page, ref_generation = generation\<rparr>))
      else
        bindR (ensure (\<not> (version \<ge> 7 \<and> \<not> all_zero (slice chunk 48 56))) IxInvalidReservedBytes) (\<lambda>_.
        Inr (Legacy meta_page)))"

definition decode_entry_name :: "byte list \<Rightarrow> usize \<Rightarrow> bool \<Rightarrow> usize \<Rightarrow> (index_error, IndexName option \<times> usize) res" where
  "decode_entry_name input offset present len =
     (if present then
        bindR (ok_or IxLengthOverflow (checked_add offset len)) (\<lambda>name_end.
        bindR (ok_or IxTruncated (get_range input offset name_end)) (\<lambda>bytes.
        bindR (ok_or IxInvalidUtf8 (from_utf8 bytes)) (\<lambda>value.
        bindR (map_err (\<lambda>_. InvalidIndexName) (index_name_new value)) (\<lambda>name.
        Inr (Some name, name_end)))))
      else Inr (None, offset))"

definition decode_catalog_entry :: "u16 \<Rightarrow> table_statistics option \<Rightarrow> byte list \<Rightarrow> usize
    \<Rightarrow> (index_error, index_catalog_entry \<times> usize) res" where
  "decode_catalog_entry version table input offset =
     bindR (ok_or IxLengthOverflow (checked_add offset (entry_header_size version))) (\<lambda>end.
     bindR (ok_or IxTruncated (get_range input offset end)) (\<lambda>chunk.
     let column_id = from_le_bytes (slice chunk 0 4)
     in bindR (decode_statistics_presence (chunk ! 4)) (\<lambda>statistics_present.
        bindR (decode_entry_name_header version chunk) (\<lambda>(name_present, name_length).
        bindR (decode_entry_retired version chunk) (\<lambda>retired.
        bindR (ensure (all_zero (slice chunk (if version \<ge> 6 then 38 else 37) 40)) IxInvalidReservedBytes) (\<lambda>_.
        let meta_page = from_le_bytes (slice chunk 8 16)
        in bindR (validate_child (Legacy meta_page)) (\<lambda>_.
           let index_id = (if version \<ge> 4 then from_le_bytes (slice chunk 40 48) else meta_page)
           in bindR (decode_entry_statistics table statistics_present chunk) (\<lambda>statistics.
              bindR (decode_entry_name input end name_present name_length) (\<lambda>(name, offset).
              bindR (decode_entry_owner version index_id chunk) (\<lambda>owner.
              bindR (decode_entry_meta_page version meta_page chunk) (\<lambda>meta.
              Inr (\<lparr>ent_retired = retired,
                    ent_definition = \<lparr>def_id = index_id, def_name = name, def_column_id = column_id,
                                      def_handle = \<lparr>handle_owner = owner, handle_meta_page = meta\<rparr>\<rparr>,
                    ent_statistics = statistics\<rparr>, offset))))))))))))"

definition pending_size :: "u16 \<Rightarrow> usize" where
  "pending_size version = (if version \<ge> 7 then INDEX_CATALOG_PENDING_SIZE else 16)"

definition decode_pending :: "u16 \<Rightarrow> byte list \<Rightarrow> usize \<Rightarrow> (index_error, retired_index_ownership \<times> usize) res" where
  "decode_pending version input offset =
     (let chunk = slice input offset (offset + pending_size version)
      in bindR (dec_int chunk 0) (\<lambda>(index_id :: u64, pos).
         bindR (dec_int chunk pos) (\<lambda>(page_id :: u64, pos).
         bindR (if version \<ge> 7 then dec_int chunk pos else Inr (0, pos)) (\<lambda>(raw :: u64, pos).
         bindR (if version \<ge> 7 then
                  bindR (dec_int chunk pos) (\<lambda>(tag :: u8, pos).
                  bindR (dec_array chunk pos 7) (\<lambda>(reserved, pos).
                  bindR (ensure (reserved = replicate 7 0) IxInvalidReservedBytes) (\<lambda>_. Inr tag)))
                else Inr 0) (\<lambda>tag.
         bindR (if tag = 0 \<and> raw = 0 then Inr (Some (Legacy page_id))
                else if tag = 1 then
                  bindR (validate_generation raw) (\<lambda>_.
                  Inr (Some (Allocated \<lparr>ref_page_id = page_id, ref_generation = raw\<rparr>)))
                else if tag = 2 \<and> version \<ge> 9 \<and> page_id = 0 \<and> raw = 0 then Inr None
                else Inl IxInvalidReservedBytes) (\<lambda>meta_page.
         Inr (\<lparr>own_index_id = index_id, own_meta_page = meta_page\<rparr>, offset + pending_size version)))))))"

definition decode_covered :: "u16 \<Rightarrow> byte list \<Rightarrow> usize \<Rightarrow> (index_error, retired_index_ownership \<times> usize) res" where
  "decode_covered version input offset =
     bindR (dec_int input offset) (\<lambda>(index_id :: u64, offset).
     bindR (dec_int input offset) (\<lambda>(page_id :: u64, offset).
     bindR (dec_int input offset) (\<lambda>(generation :: u64, offset).
     let meta_page = (if version \<ge> 9 \<and> page_id = 0 \<and> generation = 0 then None
                      else Some (Allocated \<lparr>ref_page_id = page_id, ref_generation = generation\<rparr>))
     in Inr (\<lparr>own_index_id = index_id, own_meta_page = meta_page\<rparr>, offset))))"

definition decode_intent :: "u16 \<Rightarrow> byte list \<Rightarrow> usize \<Rightarrow> (index_error, tail_reclaim_intent \<times> usize) res" where
  "decode_intent version input offset =
     (let rest = drop offset input
      in bindR (dec_int rest 0) (\<lambda>(old_page_count :: u64, pos).
         bindR (dec_int rest pos) (\<lambda>(truncate_from :: u64, pos).
         bindR (dec_int rest pos) (\<lambda>(checkpoint_lsn :: u64, pos).
         bindR (dec_int rest pos) (\<lambda>(raw :: u32, pos).
         bindR (dec_array rest pos 4) (\<lambda>(reserved, pos).
         bindR (ensure (reserved = replicate 4 0) IxInvalidReservedBytes) (\<lambda>_.
         let count = unat raw
         in bindR (ensure (\<not> count > (length input - (offset + 32)) div 24) IxTruncated) (\<lambda>_.
            bindR (repeat_decode (decode_covered version rest) count pos) (\<lambda>(covered, _).
            let intent = \<lparr>ri_old_page_count = old_page_count, ri_truncate_from = truncate_from,
                          ri_checkpoint_lsn = checkpoint_lsn, ri_covered = covered\<rparr>
            in bindR (reclaim_intent_validate intent) (\<lambda>_.
               Inr (intent, offset + (32 + count * 24))))))))))))"

definition decode_index_catalog :: "byte list \<Rightarrow> (index_error, index_catalog_node) res" where
  "decode_index_catalog input =
     bindR (ensure (\<not> length input < INDEX_CATALOG_HEADER_SIZE) IxTruncated) (\<lambda>_.
     bindR (ensure (slice input 0 4 = INDEX_CATALOG_MAGIC) (IxInvalidMagic INDEX_CATALOG_MAGIC (slice input 0 4))) (\<lambda>_.
     let version = from_le_bytes (slice input 4 6)
     in bindR (ensure (version \<in> {2, 3, 4, 5, 6, 7, 8, INDEX_CATALOG_FORMAT_VERSION}) (IxUnsupportedVersion version)) (\<lambda>_.
        bindR (decode_statistics_presence (input ! 6)) (\<lambda>table_statistics_present.
        bindR (decode_high_water version input) (\<lambda>next_index_id.
        bindR (ensure (\<not> (version < 6 \<and> \<not> all_zero (slice input 20 24))) IxInvalidReservedBytes) (\<lambda>_.
        let raw_next = from_le_bytes (slice input 8 16);
            next_catalog = (if raw_next \<noteq> 0 then Some raw_next else None);
            count = unat (from_le_bytes (slice input 16 20) :: u32);
            maximum_entries = (length input - INDEX_CATALOG_HEADER_SIZE) div entry_header_size version
        in bindR (ensure (\<not> count > maximum_entries) IxTruncated) (\<lambda>_.
           bindR (decode_table_statistics table_statistics_present input) (\<lambda>table_statistics.
           bindR (repeat_decode (decode_catalog_entry version table_statistics input) count
                    INDEX_CATALOG_HEADER_SIZE) (\<lambda>(entries, offset).
           let pending_count = (if version \<ge> 6 then unat (from_le_bytes (slice input 20 24) :: u32) else 0)
           in bindR (ensure (\<not> pending_count > (length input - offset) div pending_size version) IxTruncated) (\<lambda>_.
              bindR (repeat_decode (decode_pending version input) pending_count offset) (\<lambda>(pending, offset).
              bindR (validate_pending_ownership next_index_id entries pending) (\<lambda>_.
              bindR (if version \<ge> 8 \<and> input ! 7 = 2
                     then bindR (decode_intent version input offset) (\<lambda>(intent, offset). Inr (Some intent, offset))
                     else Inr (None, offset)) (\<lambda>(reclaim_intent, offset).
              bindR (ensure (offset = length input) IxExtraBytes) (\<lambda>_.
              bindR (validate_catalog_entries entries) (\<lambda>_.
              bindR (validate_index_high_water next_index_id entries) (\<lambda>_.
              let node = \<lparr>cat_reclaim_intent = reclaim_intent, cat_pending = pending,
                          cat_next_index_id = next_index_id, cat_next_catalog = next_catalog,
                          cat_table_statistics = table_statistics, cat_entries = entries\<rparr>
              in bindR (validate_local_reclaim_intent node) (\<lambda>_. Inr node)))))))))))))))))"


section \<open>What validation accepts\<close>

lemma sorted_wrt_conj:
  "sorted_wrt (\<lambda>x y. P x y \<and> Q x y) xs \<longleftrightarrow> sorted_wrt P xs \<and> sorted_wrt Q xs"
  by (induction xs) auto

lemma sorted_wrt_neq: "sorted_wrt (\<lambda>x y. f x \<noteq> f y) xs \<longleftrightarrow> distinct (map f xs)"
  by (induction xs) auto

lemma sorted_wrt_filter_neq:
  "sorted_wrt (\<lambda>x y. P x \<and> P y \<longrightarrow> f x \<noteq> f y) xs \<longleftrightarrow> distinct (map f (filter P xs))"
  by (induction xs) auto

definition active_names :: "index_catalog_entry list \<Rightarrow> IndexName list" where
  "active_names entries = List.map_filter (\<lambda>e. def_name (ent_definition e)) (filter (\<lambda>e. \<not> ent_retired e) entries)"

definition active_columns :: "index_catalog_entry list \<Rightarrow> ColumnId list" where
  "active_columns entries = map (\<lambda>e. def_column_id (ent_definition e)) (filter (\<lambda>e. \<not> ent_retired e) entries)"

definition entry_intrinsic :: "index_catalog_entry \<Rightarrow> bool" where
  "entry_intrinsic e \<longleftrightarrow>
     validate_child (ent_meta e) = Inr () \<and> ent_id e \<noteq> 0 \<and>
     (ref_gen (ent_meta e) \<noteq> None \<longrightarrow> ent_owner e \<noteq> None) \<and>
     (ent_owner e \<noteq> None \<longrightarrow> ent_owner e = Some (ent_id e)) \<and>
     (ent_retired e \<longrightarrow> ent_statistics e = None)"

text \<open>What an earlier registration must not share with a later one.\<close>

definition compatible :: "index_catalog_entry \<Rightarrow> index_catalog_entry \<Rightarrow> bool" where
  "compatible x y \<longleftrightarrow>
     ent_id x \<noteq> ent_id y \<and> ref_id (ent_meta x) \<noteq> ref_id (ent_meta y) \<and>
     (\<not> ent_retired x \<and> \<not> ent_retired y \<longrightarrow>
        def_column_id (ent_definition x) \<noteq> def_column_id (ent_definition y)) \<and>
     (\<not> ent_retired x \<and> \<not> ent_retired y \<longrightarrow> def_name (ent_definition y) \<noteq> None \<longrightarrow>
        def_name (ent_definition x) \<noteq> def_name (ent_definition y))"

lemma validate_against_iff: "validate_against y x = Inr u \<longleftrightarrow> compatible x y"
  by (auto simp: validate_against_def compatible_def split: option.splits)

lemma validate_catalog_entry_iff:
  "validate_catalog_entry seen e = Inr u \<longleftrightarrow> entry_intrinsic e \<and> (\<forall>x \<in> set seen. compatible x e)"
  by (auto simp: validate_catalog_entry_def entry_intrinsic_def for_each_Inr_iff validate_against_iff
      validate_btree_owner_def)

lemma catalog_entries_loop_iff:
  "catalog_entries_loop seen es = Inr u \<longleftrightarrow>
     (\<forall>e \<in> set es. entry_intrinsic e \<and> (\<forall>x \<in> set seen. compatible x e)) \<and> sorted_wrt compatible es"
  by (induction es arbitrary: seen) (auto simp: validate_catalog_entry_iff)

lemma sorted_wrt_names:
  "sorted_wrt (\<lambda>x y. \<not> ent_retired x \<and> \<not> ent_retired y \<longrightarrow> def_name (ent_definition y) \<noteq> None \<longrightarrow>
      def_name (ent_definition x) \<noteq> def_name (ent_definition y)) es \<longleftrightarrow> distinct (active_names es)"
proof (induction es)
  case Nil
  then show ?case by (simp add: active_names_def map_filter_def)
next
  case (Cons e es)
  show ?case
  proof (cases "def_name (ent_definition e)")
    case None
    then show ?thesis using Cons.IH by (auto simp: active_names_def map_filter_def)
  next
    case (Some n)
    have "n \<in> set (active_names es) \<longleftrightarrow> (\<exists>y \<in> set es. \<not> ent_retired y \<and> def_name (ent_definition y) = Some n)"
      by (force simp: active_names_def map_filter_def image_iff)
    then show ?thesis
      using Some Cons.IH by (auto simp: active_names_def map_filter_def)
  qed
qed

lemma compatible_sorted_iff:
  "sorted_wrt compatible es \<longleftrightarrow>
     distinct (map ent_id es) \<and> distinct (map (\<lambda>e. ref_id (ent_meta e)) es) \<and>
     distinct (active_columns es) \<and> distinct (active_names es)"
proof -
  have eq: "compatible = (\<lambda>x y. ent_id x \<noteq> ent_id y \<and> ref_id (ent_meta x) \<noteq> ref_id (ent_meta y) \<and>
      (\<not> ent_retired x \<and> \<not> ent_retired y \<longrightarrow>
        def_column_id (ent_definition x) \<noteq> def_column_id (ent_definition y)) \<and>
      (\<not> ent_retired x \<and> \<not> ent_retired y \<longrightarrow> def_name (ent_definition y) \<noteq> None \<longrightarrow>
        def_name (ent_definition x) \<noteq> def_name (ent_definition y)))"
    by (simp only: fun_eq_iff compatible_def simp_thms)
  show ?thesis
    by (simp only: eq sorted_wrt_conj sorted_wrt_names sorted_wrt_filter_neq sorted_wrt_neq active_columns_def)
qed

lemma validate_catalog_entries_iff:
  "validate_catalog_entries es = Inr u \<longleftrightarrow>
     (\<forall>e \<in> set es. entry_intrinsic e) \<and>
     distinct (map ent_id es) \<and> distinct (map (\<lambda>e. ref_id (ent_meta e)) es) \<and>
     distinct (active_columns es) \<and> distinct (active_names es)"
  by (auto simp: validate_catalog_entries_def catalog_entries_loop_iff compatible_sorted_iff)

lemma pending_loop_imp:
  "pending_loop nxt entries seen recs = Inr u \<Longrightarrow> r \<in> set recs \<Longrightarrow>
     own_index_id r \<noteq> 0 \<and> (\<forall>page. own_meta_page r = Some page \<longrightarrow> validate_child page = Inr ()) \<and>
     (\<forall>n. nxt = Some n \<longrightarrow> own_index_id r < n) \<and> own_index_id r \<notin> set (map ent_id entries)"
  by (induction recs arbitrary: seen)
     (auto simp: validate_pending_record_def list_ex_iff not_le split: option.splits)

lemma pending_loop_distinct:
  "pending_loop nxt entries seen recs = Inr u \<Longrightarrow>
     distinct (map own_index_id recs) \<and> set (map own_index_id seen) \<inter> set (map own_index_id recs) = {}"
proof (induction recs arbitrary: seen)
  case (Cons r recs)
  have "own_index_id r \<notin> set (map own_index_id seen)"
    using Cons.prems by (auto simp: validate_pending_record_def list_ex_iff)
  moreover have "distinct (map own_index_id recs)"
    "set (map own_index_id (seen @ [r])) \<inter> set (map own_index_id recs) = {}"
    using Cons.IH[of "seen @ [r]"] Cons.prems by auto
  ultimately show ?case by auto
qed simp


section \<open>Codec of the parts\<close>

definition ok_statistics :: "table_statistics option \<Rightarrow> index_catalog_entry \<Rightarrow> bool" where
  "ok_statistics table e \<longleftrightarrow>
     (\<forall>s. ent_statistics e = Some s \<longrightarrow> validate_index_statistics_intrinsic s = Inr () \<and>
        (\<forall>t. table = Some t \<longrightarrow> validate_index_statistics t s = Inr ()))"

definition ok_index_name :: "index_catalog_entry \<Rightarrow> bool" where
  "ok_index_name e \<longleftrightarrow>
     (\<forall>n. def_name (ent_definition e) = Some n \<longrightarrow> index_name_new n = Inr n \<and> utf8_valid n)"

definition ok_catalog_entry :: "table_statistics option \<Rightarrow> index_catalog_entry \<Rightarrow> bool" where
  "ok_catalog_entry table e \<longleftrightarrow> entry_intrinsic e \<and> ok_statistics table e \<and> ok_index_name e"

definition stats_or_zero :: "index_catalog_entry \<Rightarrow> index_statistics" where
  "stats_or_zero e = (case ent_statistics e of
     Some s \<Rightarrow> s | None \<Rightarrow> \<lparr>is_distinct_non_null_keys = 0, is_null_count = 0, is_tree_height = 0\<rparr>)"

definition entry_header_bytes :: "index_catalog_entry \<Rightarrow> byte list" where
  "entry_header_bytes e =
     to_le_bytes (def_column_id (ent_definition e))
     @ [bool_byte (ent_statistics e \<noteq> None), bool_byte (def_name (ent_definition e) \<noteq> None)]
     @ to_le_bytes (of_nat (name_len e) :: u16)
     @ to_le_bytes (ref_id (ent_meta e))
     @ to_le_bytes (is_distinct_non_null_keys (stats_or_zero e))
     @ to_le_bytes (is_null_count (stats_or_zero e))
     @ to_le_bytes (is_tree_height (stats_or_zero e))
     @ [bool_byte (ent_retired e),
        if ref_gen (ent_meta e) \<noteq> None then 2 else bool_byte (ent_owner e \<noteq> None), 0, 0]
     @ to_le_bytes (ent_id e)
     @ to_le_bytes (case ref_gen (ent_meta e) of None \<Rightarrow> 0 | Some g \<Rightarrow> g)"

definition name_bytes :: "index_catalog_entry \<Rightarrow> byte list" where
  "name_bytes e = (case def_name (ent_definition e) of None \<Rightarrow> [] | Some n \<Rightarrow> n)"

definition catalog_entry_bytes :: "index_catalog_entry \<Rightarrow> byte list" where
  "catalog_entry_bytes e = entry_header_bytes e @ name_bytes e"

lemma length_entry_header_bytes [simp]: "length (entry_header_bytes e) = 56"
  by (simp add: entry_header_bytes_def)

lemma length_name_bytes [simp]: "length (name_bytes e) = name_len e"
  by (simp add: name_bytes_def name_len_def split: option.splits)

lemma encode_catalog_entry_Inr:
  "encode_catalog_entry e = Inr bs \<longleftrightarrow> name_len e \<le> U16_MAX \<and> bs = catalog_entry_bytes e"
  by (auto simp: encode_catalog_entry_def u16_try_from_Some_iff catalog_entry_bytes_def
      entry_header_bytes_def name_bytes_def stats_or_zero_def Let_def)

lemma encode_catalog_entries_Inr:
  "encode_catalog_entries es = Inr bs \<longleftrightarrow>
     (\<forall>e \<in> set es. name_len e \<le> U16_MAX) \<and> bs = concat (map catalog_entry_bytes es)"
  by (induction es arbitrary: bs) (auto simp: encode_catalog_entry_Inr)

lemma ok_index_name_len: "ok_index_name e \<Longrightarrow> name_len e \<le> U16_MAX"
  by (auto simp: ok_index_name_def name_len_def index_name_new_def MAX_INDEX_NAME_BYTES_def U16_MAX_def
      split: option.splits if_splits)

lemma header_name:
  assumes "ok_index_name e"
  shows "decode_entry_name_header 9 (entry_header_bytes e) = Inr (def_name (ent_definition e) \<noteq> None, name_len e)"
proof -
  have flag: "entry_header_bytes e ! 5 = bool_byte (def_name (ent_definition e) \<noteq> None)"
    by (simp add: entry_header_bytes_def nth_append)
  have len: "slice (entry_header_bytes e) 6 8 = to_le_bytes (of_nat (name_len e) :: u16)"
    by (simp add: entry_header_bytes_def slice_def)
  have "def_name (ent_definition e) \<noteq> None \<longleftrightarrow> name_len e \<noteq> 0"
    using assms by (auto simp: ok_index_name_def name_len_def index_name_new_def split: if_splits option.splits)
  then show ?thesis
    using ok_index_name_len[OF assms]
    by (simp add: decode_entry_name_header_def flag len LEGACY_INDEX_CATALOG_FORMAT_VERSION_def
        decode_index_name_presence_def bool_byte_def Let_def del: not_None_eq)
qed

lemma header_retired: "decode_entry_retired 9 (entry_header_bytes e) = Inr (ent_retired e)"
proof -
  have "entry_header_bytes e ! 36 = bool_byte (ent_retired e)"
    by (simp add: entry_header_bytes_def nth_append)
  then show ?thesis by (simp add: decode_entry_retired_def bool_byte_def)
qed

lemma header_statistics:
  assumes "ok_statistics table e"
  shows "decode_entry_statistics table (ent_statistics e \<noteq> None) (entry_header_bytes e) = Inr (ent_statistics e)"
proof -
  have "slice (entry_header_bytes e) 16 24 = to_le_bytes (is_distinct_non_null_keys (stats_or_zero e))"
    "slice (entry_header_bytes e) 24 32 = to_le_bytes (is_null_count (stats_or_zero e))"
    "slice (entry_header_bytes e) 32 36 = to_le_bytes (is_tree_height (stats_or_zero e))"
    by (simp_all add: entry_header_bytes_def slice_def)
  then show ?thesis
    using assms
    by (auto simp: decode_entry_statistics_def Let_def stats_or_zero_def ok_statistics_def split: option.splits)
qed

lemma header_tag:
  "entry_header_bytes e ! 37 = (if ref_gen (ent_meta e) \<noteq> None then 2 else bool_byte (ent_owner e \<noteq> None))"
  by (simp add: entry_header_bytes_def nth_append)

lemma header_owner:
  assumes "entry_intrinsic e"
  shows "decode_entry_owner 9 (ent_id e) (entry_header_bytes e) = Inr (ent_owner e)"
  using assms
  by (cases "ent_owner e") (auto simp: decode_entry_owner_def header_tag entry_intrinsic_def bool_byte_def)

lemma header_meta:
  assumes "entry_intrinsic e"
  shows "decode_entry_meta_page 9 (ref_id (ent_meta e)) (entry_header_bytes e) = Inr (ent_meta e)"
proof -
  have gen: "slice (entry_header_bytes e) 48 56 = to_le_bytes (case ref_gen (ent_meta e) of None \<Rightarrow> 0 | Some g \<Rightarrow> g)"
    by (simp add: entry_header_bytes_def slice_def)
  have zero: "all_zero (to_le_bytes (0 :: u64))"
    by (simp add: all_zero_def to_le_bytes_def)
  show ?thesis
    using assms gen zero
    by (cases "ent_meta e")
       (auto simp: decode_entry_meta_page_def header_tag bool_byte_def entry_intrinsic_def validate_child_iff
         validate_generation_def Let_def)
qed

lemma header_fixed:
  "from_le_bytes (slice (entry_header_bytes e) 0 4) = def_column_id (ent_definition e)"
  "entry_header_bytes e ! 4 = bool_byte (ent_statistics e \<noteq> None)"
  "from_le_bytes (slice (entry_header_bytes e) 8 16) = ref_id (ent_meta e)"
  "from_le_bytes (slice (entry_header_bytes e) 40 48) = ent_id e"
  "all_zero (slice (entry_header_bytes e) 38 40)"
  by (simp_all add: entry_header_bytes_def slice_def nth_append all_zero_def)

lemma decode_entry_name_at:
  assumes cur: "at_cursor p off (name_bytes e @ rest)" and "ok_index_name e"
  shows "decode_entry_name p off (def_name (ent_definition e) \<noteq> None) (name_len e) =
    Inr (def_name (ent_definition e), off + name_len e)"
  using assms(2) at_cursor_checked[OF cur] at_cursor_range[OF cur]
  by (auto simp: decode_entry_name_def ok_index_name_def name_bytes_def name_len_def from_utf8_def split: option.splits)

lemma catalog_entry_eta:
  "\<lparr>ent_retired = ent_retired e,
    ent_definition = \<lparr>def_id = ent_id e, def_name = def_name (ent_definition e),
      def_column_id = def_column_id (ent_definition e),
      def_handle = \<lparr>handle_owner = ent_owner e, handle_meta_page = ent_meta e\<rparr>\<rparr>,
    ent_statistics = ent_statistics e\<rparr> = e"
  by (simp add: ent_id_def ent_owner_def ent_meta_def)

lemma statistics_presence_byte [simp]: "decode_statistics_presence (bool_byte b) = Inr b"
  by (simp add: decode_statistics_presence_def bool_byte_def)

lemma decode_catalog_entry_at:
  assumes cur: "at_cursor p off (catalog_entry_bytes e @ rest)" and ok: "ok_catalog_entry table e"
  shows "decode_catalog_entry 9 table p off = Inr (e, off + length (catalog_entry_bytes e))"
proof -
  have c0: "at_cursor p off (entry_header_bytes e @ name_bytes e @ rest)"
    using cur by (simp add: catalog_entry_bytes_def)
  have add: "checked_add off 56 = Some (off + 56)" using at_cursor_checked[OF c0] by simp
  have range: "get_range p off (off + 56) = Some (entry_header_bytes e)" using at_cursor_range[OF c0] by simp
  have c1: "at_cursor p (off + 56) (name_bytes e @ rest)" using at_cursor_append[OF c0] by simp
  have int: "entry_intrinsic e" and st: "ok_statistics table e" and nm: "ok_index_name e"
    using ok by (simp_all add: ok_catalog_entry_def)
  have child: "validate_child (Legacy (ref_id (ent_meta e))) = Inr ()"
    using int by (simp add: entry_intrinsic_def validate_child_iff)
  show ?thesis
    by (simp add: decode_catalog_entry_def entry_header_size_def INDEX_CATALOG_ENTRY_HEADER_SIZE_def add range
        header_fixed header_name[OF nm] header_retired header_statistics[OF st] header_owner[OF int]
        header_meta[OF int] decode_entry_name_at[OF c1 nm] child catalog_entry_eta Let_def
        catalog_entry_bytes_def add.assoc del: not_None_eq)
qed

interpretation catalog_entry_codec: cursor_codec catalog_entry_bytes "decode_catalog_entry 9 table" "ok_catalog_entry table" for table
  by unfold_locales (use decode_catalog_entry_at in blast)

definition ok_own :: "retired_index_ownership \<Rightarrow> bool" where
  "ok_own own \<longleftrightarrow> (\<forall>page. own_meta_page own = Some page \<longrightarrow> validate_child page = Inr ())"

lemma length_encode_pending [simp]: "length (encode_pending own) = 32"
  by (simp add: encode_pending_def)

lemma length_encode_covered [simp]: "length (encode_covered own) = 24"
  by (simp add: encode_covered_def)

lemma decode_pending_at:
  assumes cur: "at_cursor p off (encode_pending own @ rest)" and ok: "ok_own own"
  shows "decode_pending 9 p off = Inr (own, off + length (encode_pending own))"
proof -
  let ?c = "encode_pending own"
  let ?tag = "case own_meta_page own of None \<Rightarrow> 2 | Some page \<Rightarrow> bool_byte (ref_gen page \<noteq> None)"
  have chunk: "slice p off (off + 32) = ?c"
    using at_cursor_range[OF cur] by (simp add: get_range_Some_iff)
  have "fits (length ?c)" by (simp add: fits_def ISIZE_MAX_def)
  from at_cursor_start[OF this]
  have c0: "at_cursor ?c 0 (to_le_bytes (own_index_id own) @ to_le_bytes (own_page_id own)
      @ to_le_bytes (own_generation own) @ ?tag # replicate 7 0 @ [])"
    by (simp add: encode_pending_def)
  have c1: "at_cursor ?c 8 (to_le_bytes (own_page_id own) @ to_le_bytes (own_generation own) @ ?tag # replicate 7 0 @ [])"
    using at_cursor_le[OF c0] by simp
  have c2: "at_cursor ?c 16 (to_le_bytes (own_generation own) @ ?tag # replicate 7 0 @ [])"
    using at_cursor_le[OF c1] by simp
  have c3: "at_cursor ?c 24 (?tag # replicate 7 0 @ [])" using at_cursor_le[OF c2] by simp
  have c4: "at_cursor ?c 25 (replicate 7 0 @ [])" using at_cursor_Cons[OF c3] by simp
  have d: "dec_int ?c 0 = Inr (own_index_id own, 8)" "dec_int ?c 8 = Inr (own_page_id own, 16)"
    "dec_int ?c 16 = Inr (own_generation own, 24)" "dec_int ?c 24 = Inr (?tag, 25)"
    "dec_array ?c 25 7 = Inr (replicate 7 0, 32)"
    using dec_int_at[OF c0] dec_int_at[OF c1] dec_int_at[OF c2] dec_u8_at[OF c3] take_bytes_at[OF c4, of 7]
    by (simp_all add: dec_array_def)
  obtain i m where own: "own = \<lparr>own_index_id = i, own_meta_page = m\<rparr>" by (cases own)
  show ?thesis
    using ok d unfolding own
    by (cases m rule: option.exhaust; (cases "the m")?)
       (simp_all add: decode_pending_def chunk[unfolded own] pending_size_def INDEX_CATALOG_PENDING_SIZE_def
         own_page_id_def own_generation_def ok_own_def validate_child_iff validate_generation_def bool_byte_def Let_def)
qed

interpretation pending_codec: cursor_codec encode_pending "decode_pending 9" ok_own
  by unfold_locales (use decode_pending_at in blast)

text \<open>The covered records of an intent are exact allocations or owner-only retirements.\<close>

definition ok_covered :: "retired_index_ownership \<Rightarrow> bool" where
  "ok_covered own \<longleftrightarrow>
     (\<forall>page. own_meta_page own = Some page \<longrightarrow> validate_child page = Inr () \<and> ref_gen page \<noteq> None)"

lemma decode_covered_at:
  assumes cur: "at_cursor p off (encode_covered own @ rest)" and ok: "ok_covered own"
  shows "decode_covered 9 p off = Inr (own, off + length (encode_covered own))"
proof -
  have c0: "at_cursor p off (to_le_bytes (own_index_id own) @ to_le_bytes (own_page_id own)
      @ to_le_bytes (own_generation own) @ rest)"
    using cur by (simp add: encode_covered_def)
  have c1: "at_cursor p (off + 8) (to_le_bytes (own_page_id own) @ to_le_bytes (own_generation own) @ rest)"
    using at_cursor_le[OF c0] by simp
  have c2: "at_cursor p (off + 16) (to_le_bytes (own_generation own) @ rest)"
    using at_cursor_le[OF c1] by (simp add: add.assoc)
  have d: "dec_int p off = Inr (own_index_id own, off + 8)" "dec_int p (off + 8) = Inr (own_page_id own, off + 16)"
    "dec_int p (off + 16) = Inr (own_generation own, off + 24)"
    using dec_int_at[OF c0] dec_int_at[OF c1] dec_int_at[OF c2] by (simp_all add: add.assoc)
  obtain i m where own: "own = \<lparr>own_index_id = i, own_meta_page = m\<rparr>" by (cases own)
  show ?thesis
    using ok d unfolding own
    by (cases m rule: option.exhaust; (cases "the m")?)
       (auto simp: decode_covered_def own_page_id_def own_generation_def ok_covered_def validate_child_iff Let_def)
qed

interpretation covered_codec: cursor_codec encode_covered "decode_covered 9" ok_covered
  by unfold_locales (use decode_covered_at in blast)



section \<open>Codec of the page\<close>

definition intent_bytes :: "tail_reclaim_intent \<Rightarrow> byte list" where
  "intent_bytes intent =
     to_le_bytes (ri_old_page_count intent) @ to_le_bytes (ri_truncate_from intent)
     @ to_le_bytes (ri_checkpoint_lsn intent) @ to_le_bytes (of_nat (length (ri_covered intent)) :: u32)
     @ replicate 4 0 @ concat (map encode_covered (ri_covered intent))"

definition opt_intent_bytes :: "tail_reclaim_intent option \<Rightarrow> byte list" where
  "opt_intent_bytes intent = (case intent of None \<Rightarrow> [] | Some i \<Rightarrow> intent_bytes i)"

definition table_or_zero :: "index_catalog_node \<Rightarrow> table_statistics" where
  "table_or_zero node = (case cat_table_statistics node of
     Some s \<Rightarrow> s | None \<Rightarrow> \<lparr>ts_row_count = 0, ts_managed_page_count = 0\<rparr>)"

definition catalog_header_bytes :: "index_catalog_node \<Rightarrow> byte list" where
  "catalog_header_bytes node =
     INDEX_CATALOG_MAGIC @ to_le_bytes INDEX_CATALOG_FORMAT_VERSION
     @ [bool_byte (cat_table_statistics node \<noteq> None),
        if cat_reclaim_intent node \<noteq> None then 2 else bool_byte (cat_next_index_id node \<noteq> None)]
     @ to_le_bytes (case cat_next_catalog node of None \<Rightarrow> 0 | Some page \<Rightarrow> page)
     @ to_le_bytes (of_nat (length (cat_entries node)) :: u32)
     @ to_le_bytes (of_nat (length (cat_pending node)) :: u32)
     @ to_le_bytes (ts_row_count (table_or_zero node))
     @ to_le_bytes (ts_managed_page_count (table_or_zero node))
     @ to_le_bytes (case cat_next_index_id node of None \<Rightarrow> 0 | Some i \<Rightarrow> i)"

definition catalog_bytes :: "index_catalog_node \<Rightarrow> byte list" where
  "catalog_bytes node =
     catalog_header_bytes node @ concat (map catalog_entry_bytes (cat_entries node))
     @ concat (map encode_pending (cat_pending node)) @ opt_intent_bytes (cat_reclaim_intent node)"

text \<open>Everything the encoder checks beside the sizes, and the sizes.\<close>

definition valid_catalog :: "index_catalog_node \<Rightarrow> bool" where
  "valid_catalog node \<longleftrightarrow>
     validate_local_reclaim_intent node = Inr () \<and> cat_next_catalog node \<noteq> Some 0 \<and>
     validate_catalog_statistics node = Inr () \<and> validate_catalog_entries (cat_entries node) = Inr () \<and>
     validate_pending_ownership (cat_next_index_id node) (cat_entries node) (cat_pending node) = Inr ()"

definition sized_catalog :: "index_catalog_node \<Rightarrow> bool" where
  "sized_catalog node \<longleftrightarrow>
     length (cat_entries node) \<le> U32_MAX \<and> length (cat_pending node) \<le> U32_MAX \<and>
     (\<forall>i. cat_reclaim_intent node = Some i \<longrightarrow> length (ri_covered i) \<le> U32_MAX) \<and>
     (\<forall>e \<in> set (cat_entries node). name_len e \<le> U16_MAX)"

lemma catalog_capacity_Inr:
  "sz + 56 * length es + sum_list (map name_len es) \<le> USIZE_MAX \<Longrightarrow>
     catalog_capacity sz es = Inr (sz + 56 * length es + sum_list (map name_len es))"
  by (induction es arbitrary: sz)
     (simp_all add: INDEX_CATALOG_ENTRY_HEADER_SIZE_def checked_add_def add.assoc algebra_simps)

lemma sum_name_len:
  "\<forall>e \<in> set es. name_len e \<le> U16_MAX \<Longrightarrow> sum_list (map name_len es) \<le> U16_MAX * length es"
  by (induction es) auto

lemma sized_capacity:
  assumes "sized_catalog node"
  shows "catalog_capacity INDEX_CATALOG_HEADER_SIZE (cat_entries node) =
      Inr (48 + 56 * length (cat_entries node) + sum_list (map name_len (cat_entries node)))"
    and "checked_mul (length (cat_pending node)) INDEX_CATALOG_PENDING_SIZE = Some (length (cat_pending node) * 32)"
    and "checked_add (48 + 56 * length (cat_entries node) + sum_list (map name_len (cat_entries node)))
      (length (cat_pending node) * 32) =
      Some (48 + 56 * length (cat_entries node) + sum_list (map name_len (cat_entries node)) + length (cat_pending node) * 32)"
proof -
  have "length (cat_entries node) \<le> 4294967295" "length (cat_pending node) \<le> 4294967295"
    "sum_list (map name_len (cat_entries node)) \<le> 65535 * length (cat_entries node)"
    using assms sum_name_len[of "cat_entries node"] by (simp_all add: sized_catalog_def U32_MAX_def U16_MAX_def)
  then show "catalog_capacity INDEX_CATALOG_HEADER_SIZE (cat_entries node) =
      Inr (48 + 56 * length (cat_entries node) + sum_list (map name_len (cat_entries node)))"
    and "checked_mul (length (cat_pending node)) INDEX_CATALOG_PENDING_SIZE = Some (length (cat_pending node) * 32)"
    and "checked_add (48 + 56 * length (cat_entries node) + sum_list (map name_len (cat_entries node)))
      (length (cat_pending node) * 32) =
      Some (48 + 56 * length (cat_entries node) + sum_list (map name_len (cat_entries node)) + length (cat_pending node) * 32)"
    by (simp_all add: catalog_capacity_Inr INDEX_CATALOG_HEADER_SIZE_def INDEX_CATALOG_PENDING_SIZE_def
        checked_mul_def checked_add_def USIZE_MAX_def)
qed

lemma encode_intent_Inr:
  "encode_intent intent = Inr bs \<longleftrightarrow> length (ri_covered intent) \<le> U32_MAX \<and> bs = intent_bytes intent"
  by (auto simp: encode_intent_def intent_bytes_def u32_try_from_Some_iff)

lemma validate_local_next:
  "validate_local_reclaim_intent node = Inr u \<Longrightarrow> cat_reclaim_intent node = Some i \<Longrightarrow>
     reclaim_intent_validate i = Inr () \<and> cat_next_index_id node \<noteq> None"
  by (auto simp: validate_local_reclaim_intent_def)

lemma encode_index_catalog_Inr:
  "encode_index_catalog node = Inr bs \<longleftrightarrow> valid_catalog node \<and> sized_catalog node \<and> bs = catalog_bytes node"
proof
  assume "encode_index_catalog node = Inr bs"
  then show "valid_catalog node \<and> sized_catalog node \<and> bs = catalog_bytes node"
    by (auto simp: encode_index_catalog_def valid_catalog_def sized_catalog_def catalog_bytes_def
        catalog_header_bytes_def table_or_zero_def opt_intent_bytes_def u32_try_from_Some_iff
        encode_catalog_entries_Inr encode_intent_Inr validate_child_iff Let_def simp del: not_None_eq split: option.splits)
next
  assume rhs: "valid_catalog node \<and> sized_catalog node \<and> bs = catalog_bytes node"
  have intent: "(case cat_reclaim_intent node of
      Some intent \<Rightarrow> bindR (reclaim_intent_validate intent) (\<lambda>_. ensure (cat_next_index_id node \<noteq> None) InvalidReclaimIntent)
    | None \<Rightarrow> Inr ()) = Inr ()"
    using rhs validate_local_next[of node] by (auto simp: valid_catalog_def simp del: not_None_eq split: option.splits)
  show "encode_index_catalog node = Inr bs"
    using rhs sized_capacity[of node]
    by (auto simp: encode_index_catalog_def intent valid_catalog_def sized_catalog_def catalog_bytes_def
        catalog_header_bytes_def table_or_zero_def opt_intent_bytes_def u32_try_from_Some_iff
        encode_catalog_entries_Inr encode_intent_Inr validate_child_iff Let_def simp del: not_None_eq split: option.splits)
qed

lemma intent_covered_ok:
  assumes "reclaim_intent_validate i = Inr u" shows "list_all ok_covered (ri_covered i)"
proof -
  have loop: "pending_loop None [] [] (ri_covered i) = Inr ()"
    and each: "\<forall>r \<in> set (ri_covered i). validate_covered i r = Inr ()"
    using assms by (auto simp: reclaim_intent_validate_def validate_pending_ownership_def for_each_Inr_iff)
  have "ok_covered r" if "r \<in> set (ri_covered i)" for r
    using pending_loop_imp[OF loop that] bspec[OF each that] by (auto simp: ok_covered_def validate_covered_def Let_def)
  then show ?thesis by (simp add: list_all_iff)
qed

lemma intent_eta:
  "\<lparr>ri_old_page_count = ri_old_page_count i, ri_truncate_from = ri_truncate_from i,
    ri_checkpoint_lsn = ri_checkpoint_lsn i, ri_covered = ri_covered i\<rparr> = i"
  by simp

lemma decode_intent_at:
  assumes cur: "at_cursor p off (intent_bytes i)" and ok: "reclaim_intent_validate i = Inr ()"
    and sz: "length (ri_covered i) \<le> U32_MAX"
  shows "decode_intent 9 p off = Inr (i, length p)"
proof -
  let ?r = "intent_bytes i" and ?n = "length (ri_covered i)"
  let ?cs = "concat (map encode_covered (ri_covered i))"
  have rest: "drop off p = ?r" and len: "length p = off + length ?r" and fit: "fits (length ?r)"
    using cur at_cursor_end[OF at_cursor_append[of p off ?r "[]"]] by (simp_all add: at_cursor_def fits_def)
  have clen: "length ?cs = 24 * ?n" by (simp add: length_concat comp_def sum_list_triv)
  have c0: "at_cursor ?r 0 (to_le_bytes (ri_old_page_count i) @ to_le_bytes (ri_truncate_from i)
      @ to_le_bytes (ri_checkpoint_lsn i) @ to_le_bytes (of_nat ?n :: u32) @ replicate 4 0 @ ?cs)"
    using at_cursor_start[OF fit] by (simp add: intent_bytes_def)
  have c1: "at_cursor ?r 8 (to_le_bytes (ri_truncate_from i)
      @ to_le_bytes (ri_checkpoint_lsn i) @ to_le_bytes (of_nat ?n :: u32) @ replicate 4 0 @ ?cs)"
    using at_cursor_le[OF c0] by simp
  have c2: "at_cursor ?r 16 (to_le_bytes (ri_checkpoint_lsn i) @ to_le_bytes (of_nat ?n :: u32) @ replicate 4 0 @ ?cs)"
    using at_cursor_le[OF c1] by simp
  have c3: "at_cursor ?r 24 (to_le_bytes (of_nat ?n :: u32) @ replicate 4 0 @ ?cs)"
    using at_cursor_le[OF c2] by simp
  have c4: "at_cursor ?r 28 (replicate 4 0 @ ?cs)" using at_cursor_le[OF c3] by simp
  have c5: "at_cursor ?r 32 (?cs @ [])" using at_cursor_append[OF c4] by simp
  have d: "dec_int ?r 0 = Inr (ri_old_page_count i, 8)" "dec_int ?r 8 = Inr (ri_truncate_from i, 16)"
    "dec_int ?r 16 = Inr (ri_checkpoint_lsn i, 24)" "dec_int ?r 24 = Inr (of_nat ?n :: u32, 28)"
    "dec_array ?r 28 4 = Inr (replicate 4 0, 32)"
    using dec_int_at[OF c0] dec_int_at[OF c1] dec_int_at[OF c2] dec_int_at[OF c3] take_bytes_at[OF c4, of 4]
    by (simp_all add: dec_array_def)
  have rlen: "length ?r = 32 + 24 * ?n" using clen by (simp add: intent_bytes_def)
  have "repeat_decode (decode_covered 9 ?r) ?n 32 = Inr (ri_covered i, 32 + 24 * ?n)"
    using covered_codec.repeat_roundtrip[OF intent_covered_ok[OF ok] c5] clen by simp
  then show ?thesis
    using ok sz by (simp add: decode_intent_def rest d len rlen Let_def mult.commute intent_eta)
qed



lemma length_catalog_header_bytes [simp]: "length (catalog_header_bytes node) = 48"
  by (simp add: catalog_header_bytes_def INDEX_CATALOG_MAGIC_def)

lemma header_reads:
  assumes "p = catalog_header_bytes node @ rest"
  shows "slice p 0 4 = INDEX_CATALOG_MAGIC" "slice p 4 6 = to_le_bytes (9 :: u16)"
    "p ! 6 = bool_byte (cat_table_statistics node \<noteq> None)"
    "p ! 7 = (if cat_reclaim_intent node \<noteq> None then 2 else bool_byte (cat_next_index_id node \<noteq> None))"
    "slice p 8 16 = to_le_bytes (case cat_next_catalog node of None \<Rightarrow> 0 | Some page \<Rightarrow> page)"
    "slice p 16 20 = to_le_bytes (of_nat (length (cat_entries node)) :: u32)"
    "slice p 20 24 = to_le_bytes (of_nat (length (cat_pending node)) :: u32)"
    "slice p 24 32 = to_le_bytes (ts_row_count (table_or_zero node))"
    "slice p 32 40 = to_le_bytes (ts_managed_page_count (table_or_zero node))"
    "slice p 40 48 = to_le_bytes (case cat_next_index_id node of None \<Rightarrow> 0 | Some i \<Rightarrow> i)"
  using assms
  by (simp_all add: catalog_header_bytes_def slice_def nth_append INDEX_CATALOG_MAGIC_def
      INDEX_CATALOG_FORMAT_VERSION_def)

lemma valid_catalog_ok_entries:
  assumes "valid_catalog node" "\<forall>e \<in> set (cat_entries node). ok_index_name e"
  shows "list_all (ok_catalog_entry (cat_table_statistics node)) (cat_entries node)"
  using assms
  by (auto simp: list_all_iff ok_catalog_entry_def valid_catalog_def validate_catalog_entries_iff ok_statistics_def
      validate_catalog_statistics_def for_each_Inr_iff validate_index_statistics_def dest!: bspec split: option.splits)

lemma valid_catalog_ok_pending:
  assumes "valid_catalog node" shows "list_all ok_own (cat_pending node)"
  using assms pending_loop_imp[of "cat_next_index_id node" "cat_entries node" "[]" "cat_pending node"]
  by (auto simp: list_all_iff ok_own_def valid_catalog_def validate_pending_ownership_def)

lemma decode_high_water_at:
  assumes p: "p = catalog_header_bytes node @ rest" and "valid_catalog node"
  shows "decode_high_water 9 p = Inr (cat_next_index_id node)"
proof -
  have "cat_next_index_id node \<noteq> Some 0"
    using assms(2) by (auto simp: valid_catalog_def validate_pending_ownership_def validate_index_high_water_def)
  moreover have "cat_next_index_id node = None \<Longrightarrow> cat_reclaim_intent node = None"
    using assms(2) validate_local_next[of node] by (cases "cat_reclaim_intent node") (auto simp: valid_catalog_def)
  ultimately show ?thesis
    by (auto simp: decode_high_water_def header_reads[OF p] bool_byte_def Let_def word_le_nat_alt unat_gt_0
        Suc_le_eq split: option.splits)
qed

lemma decode_table_statistics_at:
  assumes p: "p = catalog_header_bytes node @ rest" and "valid_catalog node"
  shows "decode_table_statistics (cat_table_statistics node \<noteq> None) p = Inr (cat_table_statistics node)"
  using assms(2)
  by (auto simp: decode_table_statistics_def header_reads[OF p] table_or_zero_def valid_catalog_def
      validate_catalog_statistics_def validate_table_statistics_def Let_def split: option.splits)

lemma catalog_eta:
  "\<lparr>cat_reclaim_intent = cat_reclaim_intent n, cat_pending = cat_pending n, cat_next_index_id = cat_next_index_id n,
    cat_next_catalog = cat_next_catalog n, cat_table_statistics = cat_table_statistics n, cat_entries = cat_entries n\<rparr> = n"
  by simp

lemma decode_catalog_bytes:
  assumes valid: "valid_catalog node" and sized: "sized_catalog node"
    and names: "\<forall>e \<in> set (cat_entries node). ok_index_name e" and fit: "fits (length (catalog_bytes node))"
  shows "decode_index_catalog (catalog_bytes node) = Inr node"
proof -
  let ?p = "catalog_bytes node" and ?es = "concat (map catalog_entry_bytes (cat_entries node))"
  let ?ps = "concat (map encode_pending (cat_pending node))" and ?i = "opt_intent_bytes (cat_reclaim_intent node)"
  let ?n = "length (cat_entries node)" and ?m = "length (cat_pending node)"
  have p: "?p = catalog_header_bytes node @ ?es @ ?ps @ ?i" by (simp add: catalog_bytes_def)
  have c0: "at_cursor ?p 48 (?es @ ?ps @ ?i)"
    using at_cursor_append[of ?p 0 "catalog_header_bytes node"] at_cursor_start[OF fit] p by simp
  note c1 = at_cursor_append[OF c0] and c2 = at_cursor_append[OF at_cursor_append[OF c0]]
  have len: "length ?p = 48 + length ?es + length ?ps + length ?i" by (simp add: p)
  have "?n * 56 \<le> length ?es" by (rule concat_length_min) (simp add: catalog_entry_bytes_def)
  then have room: "\<not> (length ?p - 48) div 56 < ?n" using len by (simp add: not_less less_eq_div_iff_mult_less_eq)
  have plen: "length ?ps = ?m * 32" by (simp add: length_concat comp_def sum_list_triv)
  then have room2: "\<not> (length ?p - (48 + length ?es)) div 32 < ?m"
    using len by (simp add: not_less less_eq_div_iff_mult_less_eq)
  have ents: "repeat_decode (decode_catalog_entry 9 (cat_table_statistics node) ?p) ?n 48 =
      Inr (cat_entries node, 48 + length ?es)"
    by (rule catalog_entry_codec.repeat_roundtrip[OF valid_catalog_ok_entries[OF valid names] c0])
  have pend: "repeat_decode (decode_pending 9 ?p) ?m (48 + length ?es) =
      Inr (cat_pending node, 48 + length ?es + length ?ps)"
    by (rule pending_codec.repeat_roundtrip[OF valid_catalog_ok_pending[OF valid] c1])
  have intent: "decode_intent 9 ?p (48 + length ?es + length ?ps) = Inr (i, length ?p)"
    if "cat_reclaim_intent node = Some i" for i
    using that c2 valid sized validate_local_next[of node, OF _ that]
    by (intro decode_intent_at) (auto simp: opt_intent_bytes_def valid_catalog_def sized_catalog_def)
  have nolen: "48 + length ?es + length ?ps = length ?p" if "cat_reclaim_intent node = None"
    using that len by (simp add: opt_intent_bytes_def)
  have step: "(if cat_reclaim_intent node \<noteq> None
      then bindR (decode_intent 9 ?p (48 + length ?es + length ?ps)) (\<lambda>(intent, offset). Inr (Some intent, offset))
      else Inr (None, 48 + length ?es + length ?ps)) = Inr (cat_reclaim_intent node, length ?p)"
    using intent nolen by (cases "cat_reclaim_intent node") simp_all
  have tag: "?p ! 7 = 2 \<longleftrightarrow> cat_reclaim_intent node \<noteq> None"
    by (simp add: header_reads(4)[OF p] bool_byte_def)
  have nxt: "(if (case cat_next_catalog node of None \<Rightarrow> 0 | Some page \<Rightarrow> page) \<noteq> 0
      then Some (case cat_next_catalog node of None \<Rightarrow> 0 | Some page \<Rightarrow> page) else None) = cat_next_catalog node"
    using valid by (auto simp: valid_catalog_def split: option.splits)
  have counts: "unat (of_nat ?n :: u32) = ?n" "unat (of_nat ?m :: u32) = ?m"
    using sized by (simp_all add: sized_catalog_def)
  have hw: "validate_index_high_water (cat_next_index_id node) (cat_entries node) = Inr ()"
    using valid by (simp add: valid_catalog_def validate_pending_ownership_def)
  show ?thesis
    using valid room room2
    by (simp add: decode_index_catalog_def header_reads(1,2,3,5,6,7)[OF p] tag INDEX_CATALOG_HEADER_SIZE_def
        INDEX_CATALOG_FORMAT_VERSION_def entry_header_size_def INDEX_CATALOG_ENTRY_HEADER_SIZE_def
        pending_size_def INDEX_CATALOG_PENDING_SIZE_def decode_high_water_at[OF p valid]
        decode_table_statistics_at[OF p valid] ents pend step nxt counts hw valid_catalog_def len catalog_eta
        Let_def del: not_None_eq)
qed



section \<open>Accepted pages can be rewritten\<close>

lemma repeat_decode_all:
  "repeat_decode dec n off = Inr (vs, off') \<Longrightarrow> (\<And>off v off'. dec off = Inr (v, off') \<Longrightarrow> P v) \<Longrightarrow>
     \<forall>v \<in> set vs. P v"
  by (induction n arbitrary: off vs) force+

lemma decode_entry_statistics_ok:
  "decode_entry_statistics table present chunk = Inr s \<Longrightarrow>
     (\<forall>x. s = Some x \<longrightarrow> validate_index_statistics_intrinsic x = Inr () \<and>
       (\<forall>t. table = Some t \<longrightarrow> validate_index_statistics t x = Inr ()))"
  by (auto simp: decode_entry_statistics_def Let_def split: if_splits option.splits)

lemma decode_entry_name_ok:
  "decode_entry_name p off present len = Inr (name, off') \<Longrightarrow> name = Some n \<Longrightarrow>
     index_name_new n = Inr n \<and> utf8_valid n"
  by (auto simp: decode_entry_name_def from_utf8_Some_iff index_name_new_def split: if_splits)

lemma decode_catalog_entry_ok:
  assumes "decode_catalog_entry version table p off = Inr (e, off')"
  shows "ok_statistics table e \<and> ok_index_name e"
  using assms
  by (auto simp: decode_catalog_entry_def ok_statistics_def ok_index_name_def Let_def
      dest: decode_entry_statistics_ok decode_entry_name_ok)

lemma decode_intent_sized:
  "decode_intent version p off = Inr (i, off') \<Longrightarrow> length (ri_covered i) \<le> U32_MAX"
  by (auto simp: decode_intent_def Let_def dest!: repeat_decode_length intro: unat_u32_le)

lemma decode_table_statistics_ok:
  "decode_table_statistics present p = Inr (Some t) \<Longrightarrow> validate_table_statistics t = Inr ()"
  by (auto simp: decode_table_statistics_def Let_def split: if_splits)

lemma decoded_catalog_ok:
  assumes "decode_index_catalog input = Inr node"
  shows "valid_catalog node" "sized_catalog node" "\<forall>e \<in> set (cat_entries node). ok_index_name e"
proof -
  define version :: u16 where "version = from_le_bytes (slice input 4 6)"
  let ?n = "unat (from_le_bytes (slice input 16 20) :: u32)"
  let ?m = "if version \<ge> 6 then unat (from_le_bytes (slice input 20 24) :: u32) else 0"
  from assms obtain present off1 off2 off3 where
    table: "decode_table_statistics present input = Inr (cat_table_statistics node)" and
    entries: "repeat_decode (decode_catalog_entry version (cat_table_statistics node) input) ?n 48 = Inr (cat_entries node, off1)" and
    pending: "repeat_decode (decode_pending version input) ?m off1 = Inr (cat_pending node, off2)" and
    own: "validate_pending_ownership (cat_next_index_id node) (cat_entries node) (cat_pending node) = Inr ()" and
    intent: "(if version \<ge> 8 \<and> input ! 7 = 2
       then bindR (decode_intent version input off2) (\<lambda>(intent, offset). Inr (Some intent, offset))
       else Inr (None, off2)) = Inr (cat_reclaim_intent node, off3)" and
    valid: "validate_catalog_entries (cat_entries node) = Inr ()" and
    local: "validate_local_reclaim_intent node = Inr ()" and
    nxt: "cat_next_catalog node \<noteq> Some 0"
    unfolding decode_index_catalog_def Let_def version_def
    by (auto simp: INDEX_CATALOG_HEADER_SIZE_def)
  have each: "\<forall>e \<in> set (cat_entries node). ok_statistics (cat_table_statistics node) e \<and> ok_index_name e"
    by (rule repeat_decode_all[OF entries]) (rule decode_catalog_entry_ok)
  then show names: "\<forall>e \<in> set (cat_entries node). ok_index_name e" by blast
  have "validate_catalog_statistics node = Inr ()"
    using each decode_table_statistics_ok[of present input] table
    by (auto simp: validate_catalog_statistics_def for_each_Inr_iff ok_statistics_def split: option.splits)
  then show "valid_catalog node" using own valid local nxt by (simp add: valid_catalog_def)
  have "length (cat_entries node) \<le> U32_MAX" "length (cat_pending node) \<le> U32_MAX"
    using repeat_decode_length[OF entries] repeat_decode_length[OF pending] by (auto intro: unat_u32_le)
  moreover have "length (ri_covered i) \<le> U32_MAX" if "cat_reclaim_intent node = Some i" for i
    using intent that by (auto intro: decode_intent_sized split: if_splits)
  ultimately show "sized_catalog node" using names by (auto simp: sized_catalog_def intro: ok_index_name_len)
qed

lemma sized_catalog_fits:
  assumes "sized_catalog node" shows "fits (length (catalog_bytes node))"
proof -
  let ?es = "cat_entries node"
  have "length (concat (map catalog_entry_bytes ?es)) = 56 * length ?es + sum_list (map name_len ?es)"
    by (simp add: length_concat comp_def catalog_entry_bytes_def sum_list_addf sum_list_triv)
  moreover have "length (concat (map encode_pending (cat_pending node))) = 32 * length (cat_pending node)"
    by (simp add: length_concat comp_def sum_list_triv)
  moreover have "length (opt_intent_bytes (cat_reclaim_intent node)) \<le> 32 + 24 * U32_MAX"
    using assms
    by (auto simp: opt_intent_bytes_def intent_bytes_def sized_catalog_def length_concat comp_def sum_list_triv
        split: option.splits)
  moreover have "sum_list (map name_len ?es) \<le> 65535 * length ?es"
    using assms sum_name_len[of ?es] by (simp add: sized_catalog_def U16_MAX_def)
  moreover have "length ?es \<le> 4294967295" "length (cat_pending node) \<le> 4294967295"
    using assms by (simp_all add: sized_catalog_def U32_MAX_def)
  ultimately show ?thesis by (simp add: catalog_bytes_def fits_def ISIZE_MAX_def U32_MAX_def)
qed

section \<open>Properties\<close>

text \<open>
  A catalog page that encodes decodes to the same node: registrations, statistics, pending
  retirements, allocator boundary, chain link and reclaim intent, provided every name is one that
  the index-name constructor accepts.
\<close>

theorem catalog_roundtrip:
  assumes "encode_index_catalog node = Inr bs"
    and "\<forall>e \<in> set (cat_entries node). \<forall>n. def_name (ent_definition e) = Some n \<longrightarrow> index_name_new n = Inr n \<and> utf8_valid n"
  shows "decode_index_catalog bs = Inr node"
proof -
  have "valid_catalog node" "sized_catalog node" "bs = catalog_bytes node"
    using assms(1) by (simp_all add: encode_index_catalog_Inr)
  then show ?thesis
    using decode_catalog_bytes[of node] sized_catalog_fits[of node] assms(2) by (simp add: ok_index_name_def)
qed

text \<open>
  C32. Every page the decoder accepts, in any format from version 2 to version 9, can be written back:
  the encoder produces a version-9 page, and that page decodes to the same node, so migrating a
  catalog loses nothing.
\<close>

theorem catalog_migration:
  assumes "decode_index_catalog input = Inr node"
  shows "\<exists>bs. encode_index_catalog node = Inr bs \<and> from_le_bytes (slice bs 4 6) = INDEX_CATALOG_FORMAT_VERSION
    \<and> decode_index_catalog bs = Inr node"
  using decoded_catalog_ok[OF assms] decode_catalog_bytes[of node] sized_catalog_fits[of node]
    header_reads(2)[of "catalog_bytes node" node]
  by (simp add: encode_index_catalog_Inr INDEX_CATALOG_FORMAT_VERSION_def catalog_bytes_def)


definition sample_catalog :: index_catalog_node where
  "sample_catalog =
     \<lparr>cat_reclaim_intent = Some \<lparr>ri_old_page_count = 9, ri_truncate_from = 5, ri_checkpoint_lsn = 100,
        ri_covered = [\<lparr>own_index_id = 2, own_meta_page = None\<rparr>]\<rparr>,
      cat_pending = [\<lparr>own_index_id = 2, own_meta_page = None\<rparr>],
      cat_next_index_id = Some 3, cat_next_catalog = None,
      cat_table_statistics = Some \<lparr>ts_row_count = 4, ts_managed_page_count = 2\<rparr>,
      cat_entries = [\<lparr>ent_retired = False,
        ent_definition = \<lparr>def_id = 1, def_name = Some [0x61], def_column_id = 7,
          def_handle = \<lparr>handle_owner = Some 1, handle_meta_page = Allocated \<lparr>ref_page_id = 3, ref_generation = 8\<rparr>\<rparr>\<rparr>,
        ent_statistics = Some \<lparr>is_distinct_non_null_keys = 2, is_null_count = 1, is_tree_height = 1\<rparr>\<rparr>]\<rparr>"

lemma sample_catalog_ok: "valid_catalog sample_catalog" "sized_catalog sample_catalog"
  "\<forall>e \<in> set (cat_entries sample_catalog). \<forall>n. def_name (ent_definition e) = Some n \<longrightarrow> index_name_new n = Inr n \<and> utf8_valid n"
  by (simp_all add: sample_catalog_def valid_catalog_def sized_catalog_def validate_local_reclaim_intent_def
      reclaim_intent_validate_def validate_pending_ownership_def validate_pending_record_def
      validate_index_high_water_def validate_covered_def validate_covered_locally_def validate_catalog_statistics_def
      validate_index_statistics_def validate_table_statistics_def validate_index_statistics_intrinsic_def
      validate_catalog_entries_def validate_catalog_entry_def validate_btree_owner_def validate_child_iff
      ent_id_def ent_meta_def ent_owner_def name_len_def index_name_new_def MAX_INDEX_NAME_BYTES_def
      U32_MAX_def U16_MAX_def utf8_width_def word_le_nat_alt word_less_nat_alt)

theorem catalog_roundtrip_witness:
  "\<exists>bs. encode_index_catalog sample_catalog = Inr bs \<and> decode_index_catalog bs = Inr sample_catalog"
proof -
  have "encode_index_catalog sample_catalog = Inr (catalog_bytes sample_catalog)"
    using sample_catalog_ok by (simp add: encode_index_catalog_Inr)
  with catalog_roundtrip[OF this sample_catalog_ok(3)] show ?thesis by blast
qed

lemma decode_sample_catalog: "decode_index_catalog (catalog_bytes sample_catalog) = Inr sample_catalog"
  using sample_catalog_ok sized_catalog_fits decode_catalog_bytes by (simp add: ok_index_name_def)

theorem catalog_migration_witness:
  "\<exists>bs. encode_index_catalog sample_catalog = Inr bs \<and> decode_index_catalog bs = Inr sample_catalog"
  using catalog_migration[OF decode_sample_catalog] by blast


end
