(* ===== verification/Heap_Types.thy ===== *)
theory Heap_Types
  imports Index_Codec
begin

text \<open>
  Types shared by the heap engine (\<open>crates/netbadb-heap\<close>): page types, log records, transaction
  statuses, snapshots, and the error enumerations of the page, buffer, log, status, transaction and
  recovery layers. An operating-system error is opaque (\<open>Io\<close>); CRC-32C comes from a third-party
  crate and is a parameter, the record \<open>crc\<close>.
\<close>

record crc =
  crc32c :: "byte list \<Rightarrow> u32"
  crc32c_append :: "u32 \<Rightarrow> byte list \<Rightarrow> u32"

definition PAGE_SIZE :: usize where "PAGE_SIZE = 4096"

datatype page_type = HeapPage | BTreeMeta | BTreeInternal | BTreeLeaf | IndexCatalogPage

datatype (plugins only: code) page_error =
    PgInvalidMagic
  | PgUnsupportedVersion u16
  | PgChecksumMismatch u32 u32
  | UnknownPageType u8
  | InvalidReservedByte u8
  | InvalidSlotCount u16
  | InvalidFreeSpace u16 u16
  | SlotDirectoryOutOfBounds u16 u16
  | InvalidSlot SlotId
  | InvalidSlotGeneration SlotId u32
  | SlotDeleted SlotId
  | InvalidDeletedSlotEncoding SlotId u16 u16
  | RecordOutOfBounds SlotId u16 u16
  | RecordOverlapsFreeSpace SlotId u16 u16
  | OverlappingRecords SlotId SlotId
  | WrongPageType page_type page_type
  | InvalidSinglePayload page_type u16
  | InvalidSinglePayloadGeneration page_type u32
  | PageFull usize usize
  | RecordTooLarge usize usize
  | UpdateWouldOverflowPage SlotId usize usize

datatype buffer_error =
    BufPageDirty PageId
  | BufInvalidCapacity
  | BufExhausted usize
  | BufPagePinned PageId
  | BufPageNotCached PageId
  | BufPinCountOverflow PageId
  | BufWalUnavailable PageId Lsn

text \<open>Log records; a page image is its list of \<open>PAGE_SIZE\<close> bytes.\<close>

datatype wal_record_kind =
    Begin
  | PageGenerationReservation
  | PageUpdate PageId "byte list" "byte list"
  | PageAllocationTransition PageId "byte list" "byte list"
  | Commit
  | Abort
  | RollbackComplete
  | Prepare DatabaseTxnId

record wal_record =
  rec_lsn :: Lsn
  rec_txn_id :: TxnId
  rec_prev_lsn :: "Lsn option"
  rec_kind :: wal_record_kind

datatype (plugins only: code) wal_error =
    WalIo
  | WalInvalidMagic
  | WalUnsupportedVersion u16
  | WalInvalidHeaderSize u16
  | WalInvalidReservedBytes
  | HeaderChecksumMismatch u32 u32
  | InvalidGeneration u64
  | InvalidBaseLsn Lsn "Lsn option"
  | InvalidNextTxnId u64
  | InvalidDatabaseTxnId Lsn
  | GenerationConflict
  | TruncatedHeader
  | WalTruncatedRecord Lsn
  | InvalidRecordMagic Lsn
  | UnsupportedRecordVersion Lsn u16
  | UnknownRecordType Lsn u8
  | InvalidRecordLength Lsn u32
  | WalRecordTooLarge Lsn u32
  | UnexpectedRecordLength Lsn u32 u32
  | WalRecordChecksumMismatch Lsn u32 u32
  | InvalidRecordedLsn Lsn Lsn
  | InvalidPrevLsn Lsn "Lsn option" "Lsn option"
  | InvalidTransactionSequence Lsn TxnId u8
  | InvalidPageImage Lsn string
  | InvalidPageLsn Lsn "Lsn option"
  | LsnOverflow
  | FlushBeyondWritten Lsn "Lsn option"
  | WalPoisoned

datatype txn_status = TxnActive | Committed CommitSeq | Aborted

datatype (plugins only: code) txn_status_error =
    TsIo
  | TsAppendCleanup u64
  | RecoveryRequired
  | TsInvalidMagic
  | TsUnsupportedVersion u16
  | TsInvalidHeaderSize u16
  | TsInvalidReservedBytes
  | TsHeaderChecksumMismatch u32 u32
  | TsTruncatedRecord
  | TsInvalidRecordMagic u64
  | TsUnsupportedRecordVersion u64 u16
  | InvalidStatusTag u64 u8
  | InvalidTxnId u64
  | InvalidCommitSeq u64
  | InvalidRecordReserved u64
  | TsRecordChecksumMismatch u64 u32 u32
  | ConflictingStatus TxnId
  | UnknownTransaction TxnId
  | SnapshotCountOverflow

record snapshot =
  visible_csn :: CommitSeq
  own_txn :: "TxnId option"
  command_id :: CommandId

datatype prepared_transaction_state = StPrepared | StCommitted | StRolledBack

record prepared_transaction =
  pt_database_txn_id :: DatabaseTxnId
  pt_physical_txn_id :: TxnId
  pt_prepare_order :: u64
  pt_state :: prepared_transaction_state

datatype prepared_decision = DecideCommit | DecideAbort

record prepared_txn_resolution =
  res_database_txn_id :: DatabaseTxnId
  res_physical_txn_id :: TxnId
  res_decision :: prepared_decision

text \<open>The variants of \<open>HeapStorageError\<close> that the modelled operations raise.\<close>

datatype (plugins only: code) storage_error =
    SeIo
  | SeInvalidFormat string
  | SePage page_error
  | SeBuffer buffer_error
  | SeIndex index_error
  | SeWal wal_error
  | SeTxnStatus txn_status_error
  | PageOffsetOverflow PageId
  | InvalidMvccHeader string
  | UnsupportedTupleVersion u16

text \<open>Conversions by the \<open>?\<close> operator.\<close>

abbreviation page_res :: "(page_error, 'a) res \<Rightarrow> (storage_error, 'a) res" where
  "page_res \<equiv> map_err SePage"

abbreviation index_res :: "(index_error, 'a) res \<Rightarrow> (storage_error, 'a) res" where
  "index_res \<equiv> map_err SeIndex"

declare PAGE_SIZE_def [eval_simps]

end
