(* ===== verification/Page.thy ===== *)
theory Page
  imports Heap_Types
begin

text \<open>
  The slotted page of \<open>crates/netbadb-heap/src/page.rs\<close>: the 4096-byte layout with header, slot
  directory and payloads, its full validation, and the record operations, all of which decode the
  page into its slots and rebuild it compactly.
\<close>

definition PAGE_MAGIC :: "byte list" where "PAGE_MAGIC = [0x4E, 0x42, 0x50, 0x31]"
definition PAGE_FORMAT_VERSION :: u16 where "PAGE_FORMAT_VERSION = 5"
definition PAGE_HEADER_SIZE :: usize where "PAGE_HEADER_SIZE = 28"
definition SLOT_SIZE :: usize where "SLOT_SIZE = 8"
definition PAGE_TYPE_OFFSET :: usize where "PAGE_TYPE_OFFSET = 6"
definition RESERVED_OFFSET :: usize where "RESERVED_OFFSET = 7"
definition SLOT_COUNT_OFFSET :: usize where "SLOT_COUNT_OFFSET = 8"
definition FREE_START_OFFSET :: usize where "FREE_START_OFFSET = 10"
definition FREE_END_OFFSET :: usize where "FREE_END_OFFSET = 12"
definition PAGE_LSN_OFFSET :: usize where "PAGE_LSN_OFFSET = 16"
definition CHECKSUM_OFFSET :: usize where "CHECKSUM_OFFSET = 24"
definition CHECKSUM_END :: usize where "CHECKSUM_END = CHECKSUM_OFFSET + 4"
definition DELETED_SLOT_OFFSET :: u16 where "DELETED_SLOT_OFFSET = 0"
definition DELETED_SLOT_LENGTH :: u16 where "DELETED_SLOT_LENGTH = 0xFFFF"

lemmas page_consts = PAGE_SIZE_def PAGE_HEADER_SIZE_def SLOT_SIZE_def PAGE_TYPE_OFFSET_def RESERVED_OFFSET_def
  SLOT_COUNT_OFFSET_def FREE_START_OFFSET_def FREE_END_OFFSET_def PAGE_LSN_OFFSET_def CHECKSUM_OFFSET_def
  CHECKSUM_END_def

fun page_type_tag :: "page_type \<Rightarrow> u8" where
  "page_type_tag HeapPage = 2"
| "page_type_tag BTreeMeta = 3"
| "page_type_tag BTreeInternal = 4"
| "page_type_tag BTreeLeaf = 5"
| "page_type_tag IndexCatalogPage = 6"

definition page_type_from_tag :: "u8 \<Rightarrow> (page_error, page_type) res" where
  "page_type_from_tag tag =
     (if tag = 2 then Inr HeapPage
      else if tag = 3 then Inr BTreeMeta
      else if tag = 4 then Inr BTreeInternal
      else if tag = 5 then Inr BTreeLeaf
      else if tag = 6 then Inr IndexCatalogPage
      else Inl (UnknownPageType tag))"

record page_header =
  hdr_page_type :: page_type
  hdr_slot_count :: u16
  hdr_free_start :: u16
  hdr_free_end :: u16
  hdr_page_lsn :: "Lsn option"

text \<open>\<open>saturating_sub\<close> on \<open>u16\<close>\<close>

definition free_space :: "page_header \<Rightarrow> usize" where
  "free_space h = unat (hdr_free_end h) - unat (hdr_free_start h)"

record slot =
  slot_offset :: u16
  slot_length :: u16
  slot_generation :: u32

record slot_ref =
  sref_slot :: SlotId
  sref_generation :: u32

datatype SlotState = Live slot | Deleted u32

record rebuild_slot =
  rb_generation :: u32
  rb_payload :: "byte list option"

text \<open>A page is its identity and its \<open>PAGE_SIZE\<close> raw bytes.\<close>

record page =
  page_id :: PageId
  page_bytes :: "byte list"

datatype validated_before_image = Existing page | NewPage

section \<open>Raw access\<close>

definition rd_u16 :: "page \<Rightarrow> usize \<Rightarrow> u16" where
  "rd_u16 page offset = from_le_bytes (slice (page_bytes page) offset (offset + 2))"

definition rd_u32 :: "page \<Rightarrow> usize \<Rightarrow> u32" where
  "rd_u32 page offset = from_le_bytes (slice (page_bytes page) offset (offset + 4))"

definition rd_u64 :: "page \<Rightarrow> usize \<Rightarrow> u64" where
  "rd_u64 page offset = from_le_bytes (slice (page_bytes page) offset (offset + 8))"

definition put_bytes :: "usize \<Rightarrow> byte list \<Rightarrow> page \<Rightarrow> page" where
  "put_bytes offset bs page = page\<lparr>page_bytes := copy_at (page_bytes page) offset bs\<rparr>"

definition write_u16 :: "usize \<Rightarrow> u16 \<Rightarrow> page \<Rightarrow> page" where
  "write_u16 offset value page = put_bytes offset (to_le_bytes value) page"

definition write_u32 :: "usize \<Rightarrow> u32 \<Rightarrow> page \<Rightarrow> page" where
  "write_u32 offset value page = put_bytes offset (to_le_bytes value) page"

definition slot_at :: "page \<Rightarrow> nat \<Rightarrow> slot" where
  "slot_at page i =
     (let offset = PAGE_HEADER_SIZE + i * SLOT_SIZE
      in \<lparr>slot_offset = rd_u16 page offset, slot_length = rd_u16 page (offset + 2),
          slot_generation = rd_u32 page (offset + 4)\<rparr>)"

definition is_deleted_slot :: "slot \<Rightarrow> bool" where
  "is_deleted_slot s \<longleftrightarrow> slot_offset s = DELETED_SLOT_OFFSET \<and> slot_length s = DELETED_SLOT_LENGTH"

definition computed_checksum :: "crc \<Rightarrow> page \<Rightarrow> u32" where
  "computed_checksum C page =
     (let c1 = crc32c C (to_le_bytes (page_id page));
          c2 = crc32c_append C c1 (take CHECKSUM_OFFSET (page_bytes page));
          c3 = crc32c_append C c2 (replicate (CHECKSUM_END - CHECKSUM_OFFSET) 0)
      in crc32c_append C c3 (drop CHECKSUM_END (page_bytes page)))"

definition verify_checksum :: "crc \<Rightarrow> page \<Rightarrow> (page_error, unit) res" where
  "verify_checksum C page =
     (let stored = rd_u32 page CHECKSUM_OFFSET; computed = computed_checksum C page
      in ensure (stored = computed) (PgChecksumMismatch stored computed))"

definition refresh_checksum :: "crc \<Rightarrow> page \<Rightarrow> page" where
  "refresh_checksum C page =
     (let zeroed = put_bytes CHECKSUM_OFFSET (replicate (CHECKSUM_END - CHECKSUM_OFFSET) 0) page;
          checksum = computed_checksum C zeroed
      in put_bytes CHECKSUM_OFFSET (to_le_bytes checksum) zeroed)"

definition page_zero :: "PageId \<Rightarrow> page" where
  "page_zero i = \<lparr>page_id = i, page_bytes = replicate PAGE_SIZE 0\<rparr>"

definition page_new :: "crc \<Rightarrow> PageId \<Rightarrow> page_type \<Rightarrow> page" where
  "page_new C i ty =
     refresh_checksum C
       (write_u16 FREE_END_OFFSET (of_nat PAGE_SIZE)
         (write_u16 FREE_START_OFFSET (of_nat PAGE_HEADER_SIZE)
           (write_u16 SLOT_COUNT_OFFSET 0
             (put_bytes PAGE_TYPE_OFFSET [page_type_tag ty]
               (put_bytes 4 (to_le_bytes PAGE_FORMAT_VERSION)
                 (put_bytes 0 PAGE_MAGIC (page_zero i)))))))"

definition set_page_lsn :: "crc \<Rightarrow> Lsn \<Rightarrow> page \<Rightarrow> page" where
  "set_page_lsn C lsn page = refresh_checksum C (put_bytes PAGE_LSN_OFFSET (to_le_bytes lsn) page)"

section \<open>Validation\<close>

text \<open>The loop over the slot directory; \<open>ranges\<close> are the live records seen so far.\<close>

definition validate_slot :: "page \<Rightarrow> u16 \<Rightarrow> (SlotId \<times> usize \<times> usize) list \<Rightarrow> nat
    \<Rightarrow> (page_error, (SlotId \<times> usize \<times> usize) list) res" where
  "validate_slot page free_end ranges i =
     (let slot_id = of_nat i; s = slot_at page i
      in bindR (ensure (slot_generation s \<noteq> 0) (InvalidSlotGeneration slot_id (slot_generation s))) (\<lambda>_.
         if is_deleted_slot s then Inr ranges
         else
           bindR (ensure (\<not> (slot_offset s = DELETED_SLOT_OFFSET \<or> slot_length s = DELETED_SLOT_LENGTH))
                    (InvalidDeletedSlotEncoding slot_id (slot_offset s) (slot_length s))) (\<lambda>_.
           let offset = unat (slot_offset s)
           in bindR (ok_or (RecordOutOfBounds slot_id (slot_offset s) (slot_length s))
                      (checked_add offset (unat (slot_length s)))) (\<lambda>end.
              bindR (ensure (\<not> (offset > PAGE_SIZE \<or> end > PAGE_SIZE))
                       (RecordOutOfBounds slot_id (slot_offset s) (slot_length s))) (\<lambda>_.
              bindR (ensure (\<not> offset < unat free_end)
                       (RecordOverlapsFreeSpace slot_id (slot_offset s) free_end)) (\<lambda>_.
              case List.find (\<lambda>(_, other_start, other_end). offset < other_end \<and> other_start < end) ranges of
                Some (other_slot, _) \<Rightarrow> Inl (OverlappingRecords other_slot slot_id)
              | None \<Rightarrow> Inr (ranges @ [(slot_id, offset, end)])))))))"

fun validate_slots :: "page \<Rightarrow> u16 \<Rightarrow> (SlotId \<times> usize \<times> usize) list \<Rightarrow> nat list \<Rightarrow> (page_error, unit) res" where
  "validate_slots page free_end ranges [] = Inr ()"
| "validate_slots page free_end ranges (i # is) =
     bindR (validate_slot page free_end ranges i) (\<lambda>ranges. validate_slots page free_end ranges is)"

definition page_header_checked :: "crc \<Rightarrow> page \<Rightarrow> (page_error, page_header) res" where
  "page_header_checked C page =
     bindR (ensure (slice (page_bytes page) 0 4 = PAGE_MAGIC) PgInvalidMagic) (\<lambda>_.
     let version = rd_u16 page 4
     in bindR (ensure (version = PAGE_FORMAT_VERSION) (PgUnsupportedVersion version)) (\<lambda>_.
        bindR (verify_checksum C page) (\<lambda>_.
        bindR (ensure (page_bytes page ! RESERVED_OFFSET = 0)
                 (InvalidReservedByte (page_bytes page ! RESERVED_OFFSET))) (\<lambda>_.
        bindR (case List.find (\<lambda>b. b \<noteq> 0) (slice (page_bytes page) 14 PAGE_LSN_OFFSET) of
                 Some value \<Rightarrow> Inl (InvalidReservedByte value) | None \<Rightarrow> Inr ()) (\<lambda>_.
        bindR (page_type_from_tag (page_bytes page ! PAGE_TYPE_OFFSET)) (\<lambda>ty.
        let slot_count = rd_u16 page SLOT_COUNT_OFFSET;
            free_start = rd_u16 page FREE_START_OFFSET;
            free_end = rd_u16 page FREE_END_OFFSET;
            raw_page_lsn = rd_u64 page PAGE_LSN_OFFSET;
            page_lsn = (if raw_page_lsn \<noteq> 0 then Some raw_page_lsn else None);
            max_slots = (PAGE_SIZE - PAGE_HEADER_SIZE) div SLOT_SIZE
        in bindR (ensure (\<not> unat slot_count > max_slots) (InvalidSlotCount slot_count)) (\<lambda>_.
           bindR (ok_or (SlotDirectoryOutOfBounds slot_count free_start)
                    (Option.bind (checked_mul (unat slot_count) SLOT_SIZE) (checked_add PAGE_HEADER_SIZE))) (\<lambda>directory_end.
           bindR (ensure (directory_end = unat free_start) (SlotDirectoryOutOfBounds slot_count free_start)) (\<lambda>_.
           bindR (ensure (\<not> (unat free_start > unat free_end \<or> unat free_end > PAGE_SIZE))
                    (InvalidFreeSpace free_start free_end)) (\<lambda>_.
           bindR (validate_slots page free_end [] [0..<unat slot_count]) (\<lambda>_.
           Inr \<lparr>hdr_page_type = ty, hdr_slot_count = slot_count, hdr_free_start = free_start,
                hdr_free_end = free_end, hdr_page_lsn = page_lsn\<rparr>)))))))))))"

text \<open>\<open>Page::header\<close>: the same with the error of the storage layer.\<close>

definition header :: "crc \<Rightarrow> page \<Rightarrow> (storage_error, page_header) res" where
  "header C page = page_res (page_header_checked C page)"

definition page_lsn :: "crc \<Rightarrow> page \<Rightarrow> (storage_error, Lsn option) res" where
  "page_lsn C page = bindR (header C page) (\<lambda>h. Inr (hdr_page_lsn h))"

definition expect_page_type :: "crc \<Rightarrow> page_type \<Rightarrow> page \<Rightarrow> (storage_error, page_header) res" where
  "expect_page_type C expected page =
     bindR (header C page) (\<lambda>h.
     bindR (page_res (ensure (hdr_page_type h = expected) (WrongPageType expected (hdr_page_type h)))) (\<lambda>_. Inr h))"

section \<open>Reading\<close>

definition slot_state :: "crc \<Rightarrow> page \<Rightarrow> SlotId \<Rightarrow> (storage_error, SlotState) res" where
  "slot_state C page s =
     bindR (header C page) (\<lambda>h.
     bindR (page_res (ensure (\<not> s \<ge> hdr_slot_count h) (InvalidSlot s))) (\<lambda>_.
     let entry = slot_at page (unat s)
     in Inr (if is_deleted_slot entry then Deleted (slot_generation entry) else Live entry)))"

definition page_slot :: "crc \<Rightarrow> page \<Rightarrow> SlotId \<Rightarrow> (storage_error, slot) res" where
  "page_slot C page s =
     bindR (slot_state C page s) (\<lambda>st.
     case st of Live entry \<Rightarrow> Inr entry | Deleted _ \<Rightarrow> Inl (SePage (SlotDeleted s)))"

definition is_slot_deleted :: "crc \<Rightarrow> page \<Rightarrow> SlotId \<Rightarrow> (storage_error, bool) res" where
  "is_slot_deleted C page s =
     bindR (slot_state C page s) (\<lambda>st. Inr (case st of Deleted _ \<Rightarrow> True | Live _ \<Rightarrow> False))"

definition slot_payload :: "page \<Rightarrow> SlotId \<Rightarrow> slot \<Rightarrow> (page_error, byte list) res" where
  "slot_payload page s entry =
     (let start = unat (slot_offset entry); err = RecordOutOfBounds s (slot_offset entry) (slot_length entry)
      in bindR (ok_or err (checked_add start (unat (slot_length entry)))) (\<lambda>end.
         ok_or err (get_range (page_bytes page) start end)))"

definition read_record :: "crc \<Rightarrow> page \<Rightarrow> SlotId \<Rightarrow> (storage_error, byte list) res" where
  "read_record C page s = bindR (page_slot C page s) (\<lambda>entry. page_res (slot_payload page s entry))"

text \<open>\<open>ValidatedPage::live_record\<close>, on the header the view was created with.\<close>

definition live_record :: "page \<Rightarrow> page_header \<Rightarrow> SlotId \<Rightarrow> (page_error, (slot \<times> byte list) option) res" where
  "live_record page h s =
     bindR (ensure (\<not> s \<ge> hdr_slot_count h) (InvalidSlot s)) (\<lambda>_.
     let entry = slot_at page (unat s)
     in if is_deleted_slot entry then Inr None
        else bindR (slot_payload page s entry) (\<lambda>payload. Inr (Some (entry, payload))))"

definition validate_before_image :: "crc \<Rightarrow> PageId \<Rightarrow> byte list \<Rightarrow> (storage_error, validated_before_image) res" where
  "validate_before_image C i bytes =
     (if list_all (\<lambda>b. b = 0) bytes then Inr NewPage
      else let page = \<lparr>page_id = i, page_bytes = bytes\<rparr>
           in bindR (header C page) (\<lambda>_. Inr (Existing page)))"

section \<open>Rebuilding\<close>

definition rebuild_slot_of :: "page \<Rightarrow> page_header \<Rightarrow> nat \<Rightarrow> (page_error, rebuild_slot) res" where
  "rebuild_slot_of page h i =
     bindR (live_record page h (of_nat i)) (\<lambda>r.
     Inr \<lparr>rb_generation = slot_generation (slot_at page i), rb_payload = map_option snd r\<rparr>)"

definition rebuild_slots :: "crc \<Rightarrow> page \<Rightarrow> (storage_error, rebuild_slot list) res" where
  "rebuild_slots C page =
     bindR (header C page) (\<lambda>h. page_res (collect (rebuild_slot_of page h) [0..<unat (hdr_slot_count h)]))"

definition payload_len :: "rebuild_slot \<Rightarrow> usize" where
  "payload_len r = (case rb_payload r of None \<Rightarrow> 0 | Some bs \<Rightarrow> length bs)"

fun payload_size :: "usize \<Rightarrow> usize \<Rightarrow> rebuild_slot list \<Rightarrow> (page_error, usize) res" where
  "payload_size capacity used [] = Inr used"
| "payload_size capacity used (r # rs) =
     bindR (ok_or (RecordTooLarge USIZE_MAX capacity) (checked_add used (payload_len r))) (\<lambda>used.
     payload_size capacity used rs)"

fun rebuild_loop :: "usize \<Rightarrow> usize \<Rightarrow> nat \<Rightarrow> page \<Rightarrow> usize \<Rightarrow> rebuild_slot list \<Rightarrow> (page_error, page \<times> usize) res" where
  "rebuild_loop required available i page free_end [] = Inr (page, free_end)"
| "rebuild_loop required available i page free_end (r # rs) =
     (let entry_offset = PAGE_HEADER_SIZE + i * SLOT_SIZE
      in bindR (case rb_payload r of
                  Some rec \<Rightarrow>
                    bindR (ok_or (PageFull required available) (checked_sub free_end (length rec))) (\<lambda>free_end.
                    Inr (write_u16 (entry_offset + 2) (of_nat (length rec))
                          (write_u16 entry_offset (of_nat free_end) (put_bytes free_end rec page)), free_end))
                | None \<Rightarrow>
                    Inr (write_u16 (entry_offset + 2) DELETED_SLOT_LENGTH
                          (write_u16 entry_offset DELETED_SLOT_OFFSET page), free_end)) (\<lambda>(page, free_end).
         rebuild_loop required available (Suc i)
           (write_u32 (entry_offset + 4) (rb_generation r) page) free_end rs))"

definition rebuild_records :: "crc \<Rightarrow> page \<Rightarrow> rebuild_slot list \<Rightarrow> (SlotId \<times> usize) option
    \<Rightarrow> (storage_error, page) res" where
  "rebuild_records C page records replacement =
     bindR (header C page) (\<lambda>h.
     bindR (page_res (ok_or (InvalidSlotCount (hdr_slot_count h))
              (Option.bind (checked_mul (length records) SLOT_SIZE) (checked_add PAGE_HEADER_SIZE)))) (\<lambda>directory_end.
     let capacity = PAGE_SIZE - directory_end
     in bindR (page_res (payload_size capacity 0 records)) (\<lambda>used.
        bindR (page_res (ensure (\<not> used > capacity)
                 (case replacement of
                    Some (s, sz) \<Rightarrow> UpdateWouldOverflowPage s sz (capacity - (used - sz))
                  | None \<Rightarrow> PageFull used capacity))) (\<lambda>_.
        let fresh = page_new C (page_id page) (hdr_page_type h);
            rebuilt = (case hdr_page_lsn h of Some lsn \<Rightarrow> set_page_lsn C lsn fresh | None \<Rightarrow> fresh)
        in bindR (page_res (ok_or (InvalidSlotCount 0xFFFF) (u16_try_from (length records)))) (\<lambda>slot_count.
           let rebuilt = write_u16 FREE_START_OFFSET (of_nat directory_end)
                           (write_u16 SLOT_COUNT_OFFSET slot_count rebuilt)
           in bindR (page_res (rebuild_loop used capacity 0 rebuilt PAGE_SIZE records)) (\<lambda>(rebuilt, free_end).
              let rebuilt = refresh_checksum C (write_u16 FREE_END_OFFSET (of_nat free_end) rebuilt)
              in bindR (header C rebuilt) (\<lambda>_. Inr rebuilt)))))))"

definition MAX_RECORD_SIZE :: usize where "MAX_RECORD_SIZE = PAGE_SIZE - PAGE_HEADER_SIZE - SLOT_SIZE"

definition reusable_slot :: "page \<Rightarrow> nat \<Rightarrow> bool" where
  "reusable_slot page i \<longleftrightarrow> is_deleted_slot (slot_at page i) \<and> slot_generation (slot_at page i) < 0xFFFFFFFF"

definition checked_add_u32 :: "u32 \<Rightarrow> u32 \<Rightarrow> u32 option" where
  "checked_add_u32 a b = (if unat a + unat b < 2 ^ 32 then Some (a + b) else None)"

definition insert_record :: "crc \<Rightarrow> page \<Rightarrow> byte list \<Rightarrow> (storage_error, slot_ref \<times> page) res" where
  "insert_record C page rec =
     bindR (expect_page_type C HeapPage page) (\<lambda>h.
     bindR (page_res (ensure (\<not> (length rec > MAX_RECORD_SIZE \<or> length rec > U16_MAX))
              (RecordTooLarge (length rec) MAX_RECORD_SIZE))) (\<lambda>_.
     let reusable = List.find (reusable_slot page) [0..<unat (hdr_slot_count h)]
     in bindR (page_res (if reusable \<noteq> None then Inr (length rec)
                         else ok_or (RecordTooLarge (length rec) MAX_RECORD_SIZE)
                                (checked_add SLOT_SIZE (length rec)))) (\<lambda>required.
        let available = free_space h
        in bindR (page_res (ensure (\<not> required > available) (PageFull required available))) (\<lambda>_.
           bindR (rebuild_slots C page) (\<lambda>records.
           bindR (page_res (case reusable of
                    Some i \<Rightarrow>
                      bindR (ok_or (PageFull required available)
                               (checked_add_u32 (rb_generation (records ! i)) 1)) (\<lambda>generation.
                      Inr (records[i := \<lparr>rb_generation = generation, rb_payload = Some rec\<rparr>],
                           \<lparr>sref_slot = of_nat i, sref_generation = generation\<rparr>))
                  | None \<Rightarrow>
                      Inr (records @ [\<lparr>rb_generation = 1, rb_payload = Some rec\<rparr>],
                           \<lparr>sref_slot = hdr_slot_count h, sref_generation = 1\<rparr>))) (\<lambda>(records, sref).
           bindR (rebuild_records C page records None) (\<lambda>page. Inr (sref, page))))))))"

text \<open>\<open>records.get_mut(slot)\<close>, then the check that the slot is live.\<close>

definition live_target :: "rebuild_slot list \<Rightarrow> SlotId \<Rightarrow> (page_error, rebuild_slot) res" where
  "live_target records s =
     bindR (ok_or (InvalidSlot s) (get_at records (unat s))) (\<lambda>target.
     bindR (ensure (rb_payload target \<noteq> None) (SlotDeleted s)) (\<lambda>_. Inr target))"

definition delete_record :: "crc \<Rightarrow> page \<Rightarrow> SlotId \<Rightarrow> (storage_error, page) res" where
  "delete_record C page s =
     bindR (expect_page_type C HeapPage page) (\<lambda>_.
     bindR (rebuild_slots C page) (\<lambda>records.
     bindR (page_res (live_target records s)) (\<lambda>target.
     rebuild_records C page (records[unat s := target\<lparr>rb_payload := None\<rparr>]) None)))"

definition replace_record :: "crc \<Rightarrow> page \<Rightarrow> SlotId \<Rightarrow> byte list \<Rightarrow> (storage_error, page) res" where
  "replace_record C page s rec =
     bindR (expect_page_type C HeapPage page) (\<lambda>_.
     bindR (page_res (ensure (\<not> (length rec > MAX_RECORD_SIZE \<or> length rec > U16_MAX))
              (RecordTooLarge (length rec) MAX_RECORD_SIZE))) (\<lambda>_.
     bindR (rebuild_slots C page) (\<lambda>records.
     bindR (page_res (live_target records s)) (\<lambda>target.
     rebuild_records C page (records[unat s := target\<lparr>rb_payload := Some rec\<rparr>]) (Some (s, length rec))))))"

section \<open>Single-payload pages\<close>

definition single_payload_capacity :: usize where
  "single_payload_capacity = PAGE_SIZE - PAGE_HEADER_SIZE - SLOT_SIZE"

definition validate_single_payload :: "crc \<Rightarrow> page_type \<Rightarrow> page \<Rightarrow> (storage_error, unit) res" where
  "validate_single_payload C expected page =
     bindR (expect_page_type C expected page) (\<lambda>h.
     bindR (page_res (ensure (\<not> (expected = HeapPage \<or> hdr_slot_count h \<noteq> 1))
              (InvalidSinglePayload expected (hdr_slot_count h)))) (\<lambda>_.
     bindR (slot_state C page 0) (\<lambda>st.
     page_res (case st of
                 Live s \<Rightarrow> ensure (slot_generation s = 1) (InvalidSinglePayloadGeneration expected (slot_generation s))
               | Deleted generation \<Rightarrow> Inl (InvalidSinglePayloadGeneration expected generation)))))"

definition initialize_single_payload :: "crc \<Rightarrow> page \<Rightarrow> page_type \<Rightarrow> byte list \<Rightarrow> (storage_error, page) res" where
  "initialize_single_payload C page expected payload =
     bindR (expect_page_type C expected page) (\<lambda>h.
     bindR (page_res (ensure (\<not> (expected = HeapPage \<or> hdr_slot_count h \<noteq> 0))
              (InvalidSinglePayload expected (hdr_slot_count h)))) (\<lambda>_.
     bindR (page_res (ensure (\<not> (length payload > single_payload_capacity \<or> length payload > U16_MAX))
              (RecordTooLarge (length payload) single_payload_capacity))) (\<lambda>_.
     rebuild_records C page [\<lparr>rb_generation = 1, rb_payload = Some payload\<rparr>] None)))"

definition replace_single_payload :: "crc \<Rightarrow> page \<Rightarrow> page_type \<Rightarrow> byte list \<Rightarrow> (storage_error, page) res" where
  "replace_single_payload C page expected payload =
     bindR (validate_single_payload C expected page) (\<lambda>_.
     bindR (page_res (ensure (\<not> (length payload > single_payload_capacity \<or> length payload > U16_MAX))
              (RecordTooLarge (length payload) single_payload_capacity))) (\<lambda>_.
     rebuild_records C page [\<lparr>rb_generation = 1, rb_payload = Some payload\<rparr>] (Some (0, length payload))))"

definition single_payload :: "crc \<Rightarrow> page \<Rightarrow> page_type \<Rightarrow> (storage_error, byte list) res" where
  "single_payload C page expected =
     bindR (validate_single_payload C expected page) (\<lambda>_. read_record C page 0)"

section \<open>Allocation identity\<close>

definition allocation_generation :: "crc \<Rightarrow> page \<Rightarrow> (storage_error, PageGeneration option) res" where
  "allocation_generation C page =
     (if list_all (\<lambda>b. b = 0) (page_bytes page) then Inr None
      else
        bindR (header C page) (\<lambda>h.
        let kind = hdr_page_type h
        in if kind = BTreeMeta \<or> kind = BTreeInternal \<or> kind = BTreeLeaf then
             bindR (single_payload C page kind) (\<lambda>payload.
             bindR (index_res (Index_Codec.retired_btree_page payload)) (\<lambda>marker.
             bindR (case marker of
                      Some m \<Rightarrow> index_res (ensure (\<not> (ref_page_id (ret_page_ref m) \<noteq> page_id page \<or> kind = BTreeMeta))
                                 InvalidNodeType)
                    | None \<Rightarrow> Inr ()) (\<lambda>_.
             index_res (btree_page_generation payload))))
           else Inr None))"

definition validate_allocation :: "crc \<Rightarrow> page \<Rightarrow> PageGeneration option \<Rightarrow> (storage_error, unit) res" where
  "validate_allocation C page expected =
     bindR (allocation_generation C page) (\<lambda>actual. index_res (validate_btree_generation expected actual))"


section \<open>Layout\<close>

definition wf_page :: "page \<Rightarrow> bool" where
  "wf_page p \<longleftrightarrow> length (page_bytes p) = 4096"

text \<open>The bytes of a page between two offsets.\<close>

abbreviation region :: "page \<Rightarrow> usize \<Rightarrow> usize \<Rightarrow> byte list" where
  "region p a b \<equiv> slice (page_bytes p) a b"

lemma page_id_put [simp]: "page_id (put_bytes off bs p) = page_id p"
  by (simp add: put_bytes_def)

lemma wf_put [simp]: "wf_page p \<Longrightarrow> off + length bs \<le> 4096 \<Longrightarrow> wf_page (put_bytes off bs p)"
  by (simp add: wf_page_def put_bytes_def)

lemma region_put_same:
  "wf_page p \<Longrightarrow> off + length bs \<le> 4096 \<Longrightarrow> b = off + length bs \<Longrightarrow> region (put_bytes off bs p) off b = bs"
  by (simp add: wf_page_def put_bytes_def)

lemma region_put_other:
  "wf_page p \<Longrightarrow> off + length bs \<le> 4096 \<Longrightarrow> b \<le> 4096 \<Longrightarrow> b \<le> off \<or> off + length bs \<le> a \<Longrightarrow>
     region (put_bytes off bs p) a b = region p a b"
  by (simp add: wf_page_def put_bytes_def slice_copy_at_other)

lemma nth_as_region: "wf_page p \<Longrightarrow> k < 4096 \<Longrightarrow> page_bytes p ! k = hd (region p k (Suc k))"
  by (simp add: wf_page_def slice_def hd_drop_conv_nth take_Suc_conv_app_nth hd_append)

lemma to_le_bytes_length_words [simp]:
  "length (to_le_bytes (w :: u16)) = 2" "length (to_le_bytes (d :: u32)) = 4" "length (to_le_bytes (q :: u64)) = 8"
  by simp_all

lemma checksum_put: "wf_page p \<Longrightarrow> length bs = 4 \<Longrightarrow> computed_checksum C (put_bytes 24 bs p) = computed_checksum C p"
  by (simp add: computed_checksum_def page_consts put_bytes_def copy_at_def wf_page_def Let_def)

lemma refresh_props:
  assumes "wf_page p"
  shows "wf_page (refresh_checksum C p)" "page_id (refresh_checksum C p) = page_id p"
    "verify_checksum C (refresh_checksum C p) = Inr ()"
    "b \<le> 4096 \<Longrightarrow> b \<le> 24 \<or> 28 \<le> a \<Longrightarrow> region (refresh_checksum C p) a b = region p a b"
proof -
  let ?z = "put_bytes 24 (replicate 4 0) p"
  have z: "wf_page ?z" using assms by simp
  have r: "refresh_checksum C p = put_bytes 24 (to_le_bytes (computed_checksum C p)) ?z"
    using assms checksum_put[OF assms, of "replicate 4 0" C] by (simp add: refresh_checksum_def page_consts Let_def)
  show "wf_page (refresh_checksum C p)" "page_id (refresh_checksum C p) = page_id p"
    using z by (simp_all add: r)
  have "computed_checksum C (refresh_checksum C p) = computed_checksum C p"
    unfolding r using z assms by (simp add: checksum_put)
  moreover have "rd_u32 (refresh_checksum C p) 24 = computed_checksum C p"
    unfolding r rd_u32_def using z by (simp add: region_put_same)
  ultimately show "verify_checksum C (refresh_checksum C p) = Inr ()"
    by (simp add: verify_checksum_def page_consts)
  show "region (refresh_checksum C p) a b = region p a b" if "b \<le> 4096" "b \<le> 24 \<or> 28 \<le> a"
    unfolding r using that z assms by (auto simp: region_put_other)
qed

lemma wf_page_zero: "wf_page (page_zero i)"
  by (simp add: wf_page_def page_zero_def PAGE_SIZE_def)

lemma region_zero: "b \<le> 4096 \<Longrightarrow> region (page_zero i) a b = replicate (b - a) 0"
  by (simp add: page_zero_def PAGE_SIZE_def slice_def min_def)

text \<open>The fixed fields of the header as regions.\<close>

definition header_fields :: "page \<Rightarrow> page_type \<Rightarrow> u16 \<Rightarrow> u16 \<Rightarrow> u16 \<Rightarrow> u64 \<Rightarrow> bool" where
  "header_fields p ty count start fin lsn \<longleftrightarrow>
     region p 0 4 = PAGE_MAGIC \<and> region p 4 6 = to_le_bytes PAGE_FORMAT_VERSION \<and>
     region p 6 7 = [page_type_tag ty] \<and> region p 7 8 = replicate 1 0 \<and> region p 8 10 = to_le_bytes count \<and>
     region p 10 12 = to_le_bytes start \<and> region p 12 14 = to_le_bytes fin \<and> region p 14 16 = replicate 2 0 \<and>
     region p 16 24 = to_le_bytes lsn"

lemma header_fields_refresh:
  "wf_page p \<Longrightarrow> header_fields p ty count start fin lsn \<Longrightarrow> header_fields (refresh_checksum C p) ty count start fin lsn"
  by (simp add: header_fields_def refresh_props(4))

lemma to_le_bytes_zero: "to_le_bytes (0 :: 'a::len word) = replicate (LENGTH('a) div 8) 0"
proof -
  have "le_bytes n (0 :: 'a word) = replicate n 0" for n by (induction n) simp_all
  then show ?thesis by (simp add: to_le_bytes_def)
qed

lemma page_new_fields: "wf_page (page_new C i ty)" "page_id (page_new C i ty) = i"
  "header_fields (page_new C i ty) ty 0 28 4096 0" "verify_checksum C (page_new C i ty) = Inr ()"
proof -
  let ?p = "write_u16 12 (of_nat 4096) (write_u16 10 (of_nat 28) (write_u16 8 0
    (put_bytes 6 [page_type_tag ty] (put_bytes 4 (to_le_bytes PAGE_FORMAT_VERSION) (put_bytes 0 PAGE_MAGIC (page_zero i))))))"
  have n: "page_new C i ty = refresh_checksum C ?p" by (simp add: page_new_def page_consts)
  have magic: "length PAGE_MAGIC = 4" by (simp add: PAGE_MAGIC_def)
  have wf: "wf_page ?p" by (simp add: write_u16_def wf_page_zero magic)
  show "wf_page (page_new C i ty)" "page_id (page_new C i ty) = i" "verify_checksum C (page_new C i ty) = Inr ()"
    using refresh_props(1,2,3)[OF wf, of C] by (simp_all add: n write_u16_def page_zero_def)
  have "header_fields ?p ty 0 28 4096 0"
    by (simp add: header_fields_def write_u16_def region_put_same region_put_other wf_page_zero magic region_zero
        to_le_bytes_zero)
  then show "header_fields (page_new C i ty) ty 0 28 4096 0" unfolding n by (rule header_fields_refresh[OF wf])
qed


section \<open>What validation accepts\<close>

definition live_at :: "page \<Rightarrow> nat \<Rightarrow> bool" where
  "live_at p i \<longleftrightarrow> \<not> is_deleted_slot (slot_at p i)"

definition start_at :: "page \<Rightarrow> nat \<Rightarrow> usize" where
  "start_at p i = unat (slot_offset (slot_at p i))"

definition end_at :: "page \<Rightarrow> nat \<Rightarrow> usize" where
  "end_at p i = unat (slot_offset (slot_at p i)) + unat (slot_length (slot_at p i))"

definition slot_ok :: "page \<Rightarrow> u16 \<Rightarrow> nat \<Rightarrow> bool" where
  "slot_ok p fin i \<longleftrightarrow>
     slot_generation (slot_at p i) \<noteq> 0 \<and>
     (live_at p i \<longrightarrow> slot_offset (slot_at p i) \<noteq> DELETED_SLOT_OFFSET \<and>
        slot_length (slot_at p i) \<noteq> DELETED_SLOT_LENGTH \<and> end_at p i \<le> 4096 \<and> unat fin \<le> start_at p i)"

definition apart :: "usize \<times> usize \<Rightarrow> usize \<times> usize \<Rightarrow> bool" where
  "apart a b \<longleftrightarrow> \<not> (fst b < snd a \<and> fst a < snd b)"

lemma end_at_checked: "checked_add (unat (slot_offset s)) (unat (slot_length s)) = Some (unat (slot_offset s) + unat (slot_length s))"
  using unat_u16_le[of "slot_offset s"] unat_u16_le[of "slot_length s"]
  by (simp add: checked_add_def USIZE_MAX_def U16_MAX_def)

lemma validate_slot_Inr:
  "validate_slot p fin ranges i = Inr ranges' \<longleftrightarrow>
     slot_ok p fin i \<and> (live_at p i \<longrightarrow> (\<forall>r \<in> set ranges. apart (snd r) (start_at p i, end_at p i))) \<and>
     ranges' = (if live_at p i then ranges @ [(of_nat i, start_at p i, end_at p i)] else ranges)"
proof (cases "live_at p i")
  case True
  let ?P = "\<lambda>(_ :: u16, other_start, other_end). start_at p i < other_end \<and> other_start < end_at p i"
  have ap: "(\<forall>r \<in> set ranges. apart (snd r) (start_at p i, end_at p i)) \<longleftrightarrow> List.find ?P ranges = None"
    by (auto simp: find_None_iff apart_def split_beta)
  have "checked_add (start_at p i) (unat (slot_length (slot_at p i))) = Some (end_at p i)"
    "start_at p i \<le> end_at p i"
    by (simp_all add: start_at_def end_at_def end_at_checked)
  then show ?thesis
    using True unfolding ap
    by (auto simp: validate_slot_def live_at_def slot_ok_def Let_def start_at_def[symmetric]
        PAGE_SIZE_def not_less split: option.splits)
next
  case False
  then show ?thesis by (auto simp: validate_slot_def live_at_def slot_ok_def Let_def)
qed

lemma validate_slots_Inr:
  "validate_slots p fin ranges is = Inr u \<longleftrightarrow>
     (\<forall>i \<in> set is. slot_ok p fin i) \<and>
     (\<forall>r \<in> set ranges. \<forall>i \<in> set is. live_at p i \<longrightarrow> apart (snd r) (start_at p i, end_at p i)) \<and>
     sorted_wrt (\<lambda>i j. live_at p i \<and> live_at p j \<longrightarrow> apart (start_at p i, end_at p i) (start_at p j, end_at p j)) is"
  by (induction "is" arbitrary: ranges) (auto simp: validate_slot_Inr split: if_splits)

text \<open>Everything \<open>Page::header\<close> checks beside the checksum, as a predicate.\<close>

definition valid_slots :: "page \<Rightarrow> nat \<Rightarrow> u16 \<Rightarrow> bool" where
  "valid_slots p n fin \<longleftrightarrow>
     (\<forall>i < n. slot_ok p fin i) \<and>
     (\<forall>i j. i < j \<and> j < n \<and> live_at p i \<and> live_at p j \<longrightarrow> apart (start_at p i, end_at p i) (start_at p j, end_at p j))"

lemma validate_slots_valid: "validate_slots p fin [] [0..<n] = Inr u \<longleftrightarrow> valid_slots p n fin"
  by (auto simp: validate_slots_Inr valid_slots_def sorted_wrt_iff_nth_less)

lemma page_type_tag_roundtrip: "page_type_from_tag (page_type_tag ty) = Inr ty"
  by (cases ty) (simp_all add: page_type_from_tag_def)

lemma page_type_from_tag_Inr: "page_type_from_tag tag = Inr ty \<longleftrightarrow> tag = page_type_tag ty"
  by (cases ty) (auto simp: page_type_from_tag_def)

definition lsn_opt :: "u64 \<Rightarrow> Lsn option" where
  "lsn_opt raw = (if raw \<noteq> 0 then Some raw else None)"

lemma header_from_fields:
  assumes wf: "wf_page p" and f: "header_fields p ty count start fin lsn" and chk: "verify_checksum C p = Inr ()"
    and n: "unat count \<le> 508" "unat start = 28 + 8 * unat count" "unat start \<le> unat fin" "unat fin \<le> 4096"
    and slots: "valid_slots p (unat count) fin"
  shows "header C p = Inr \<lparr>hdr_page_type = ty, hdr_slot_count = count, hdr_free_start = start,
    hdr_free_end = fin, hdr_page_lsn = lsn_opt lsn\<rparr>"
proof -
  have b6: "page_bytes p ! 6 = page_type_tag ty" and b7: "page_bytes p ! 7 = 0"
    using f nth_as_region[OF wf, of 6] nth_as_region[OF wf, of 7] by (simp_all add: header_fields_def)
  have rd: "rd_u16 p 4 = PAGE_FORMAT_VERSION" "rd_u16 p 8 = count" "rd_u16 p 10 = start" "rd_u16 p 12 = fin"
    "rd_u64 p 16 = lsn"
    using f by (simp_all add: header_fields_def rd_u16_def rd_u64_def)
  have "region p 0 4 = PAGE_MAGIC" "List.find (\<lambda>b. b \<noteq> 0) (region p 14 16) = None"
    using f by (simp_all add: header_fields_def find_None_iff)
  moreover have "checked_mul (unat count) 8 = Some (8 * unat count)"
    "checked_add 28 (8 * unat count) = Some (28 + 8 * unat count)"
    using n by (simp_all add: checked_mul_def checked_add_def USIZE_MAX_def)
  ultimately show ?thesis
    using n slots
    by (simp add: header_def page_header_checked_def page_consts rd b6 b7 chk page_type_tag_roundtrip
        validate_slots_valid[THEN iffD2] lsn_opt_def Let_def)
qed

lemma header_Inr:
  assumes "header C p = Inr h"
  shows "unat (hdr_slot_count h) \<le> 508" "unat (hdr_free_start h) = 28 + 8 * unat (hdr_slot_count h)"
    "unat (hdr_free_start h) \<le> unat (hdr_free_end h)" "unat (hdr_free_end h) \<le> 4096"
    "valid_slots p (unat (hdr_slot_count h)) (hdr_free_end h)" "hdr_page_lsn h \<noteq> Some 0"
  using assms
  by (auto simp: header_def page_header_checked_def page_consts Let_def validate_slots_valid checked_add_Some_iff
      checked_mul_def Option.bind_eq_Some_conv not_less split: option.splits if_splits)



section \<open>The rebuild loop\<close>

definition used_bytes :: "rebuild_slot list \<Rightarrow> usize" where
  "used_bytes rs = sum_list (map payload_len rs)"

lemma used_bytes_simps [simp]: "used_bytes [] = 0" "used_bytes (r # rs) = payload_len r + used_bytes rs"
  by (simp_all add: used_bytes_def)

lemma payload_len_simps [simp]:
  "payload_len \<lparr>rb_generation = g, rb_payload = None\<rparr> = 0"
  "payload_len \<lparr>rb_generation = g, rb_payload = Some bs\<rparr> = length bs"
  by (simp_all add: payload_len_def)

lemma used_bytes_append [simp]: "used_bytes (rs @ rs') = used_bytes rs + used_bytes rs'"
  by (simp add: used_bytes_def)

text \<open>Where the loop places the record with index \<open>j\<close> when it starts below \<open>fin\<close>.\<close>

definition placed :: "usize \<Rightarrow> rebuild_slot list \<Rightarrow> nat \<Rightarrow> usize" where
  "placed fin rs j = fin - used_bytes (take (Suc j) rs)"

definition slot_for :: "usize \<Rightarrow> rebuild_slot \<Rightarrow> slot" where
  "slot_for off r =
     (case rb_payload r of
        None \<Rightarrow> \<lparr>slot_offset = DELETED_SLOT_OFFSET, slot_length = DELETED_SLOT_LENGTH, slot_generation = rb_generation r\<rparr>
      | Some bs \<Rightarrow> \<lparr>slot_offset = of_nat off, slot_length = of_nat (length bs), slot_generation = rb_generation r\<rparr>)"

text \<open>What the loop leaves behind.\<close>

definition loop_result :: "nat \<Rightarrow> page \<Rightarrow> usize \<Rightarrow> rebuild_slot list \<Rightarrow> page \<Rightarrow> bool" where
  "loop_result i p fin rs p' \<longleftrightarrow>
     wf_page p' \<and> page_id p' = page_id p \<and>
     (\<forall>a b. b \<le> 28 + 8 * i \<longrightarrow> region p' a b = region p a b) \<and>
     (\<forall>a b. fin \<le> a \<longrightarrow> b \<le> 4096 \<longrightarrow> region p' a b = region p a b) \<and>
     (\<forall>j < length rs. slot_at p' (i + j) = slot_for (placed fin rs j) (rs ! j)) \<and>
     (\<forall>j < length rs. \<forall>bs. rb_payload (rs ! j) = Some bs \<longrightarrow>
        region p' (placed fin rs j) (placed fin rs j + length bs) = bs)"

lemma slot_at_regions:
  "slot_at p i = \<lparr>slot_offset = from_le_bytes (region p (28 + 8 * i) (30 + 8 * i)),
    slot_length = from_le_bytes (region p (30 + 8 * i) (32 + 8 * i)),
    slot_generation = from_le_bytes (region p (32 + 8 * i) (36 + 8 * i))\<rparr>"
  by (simp add: slot_at_def rd_u16_def rd_u32_def page_consts Let_def algebra_simps)

text \<open>One entry of the directory and its payload.\<close>

lemma write_entry:
  assumes wf: "wf_page p" and dir: "36 + 8 * i \<le> lo" "lo \<le> 4096"
    and p': "p' = put_bytes (32 + 8 * i) (to_le_bytes g) (put_bytes (30 + 8 * i) (to_le_bytes l) (put_bytes (28 + 8 * i) (to_le_bytes w) p))"
  shows "wf_page p'" "page_id p' = page_id p" "slot_at p' i = \<lparr>slot_offset = w, slot_length = l, slot_generation = g\<rparr>"
    "b \<le> 28 + 8 * i \<Longrightarrow> region p' a b = region p a b"
    "lo \<le> a \<Longrightarrow> b \<le> 4096 \<Longrightarrow> region p' a b = region p a b"
  using assms
  by (simp_all add: slot_at_regions region_put_same region_put_other)

lemma rebuild_step:
  assumes wf: "wf_page p" and room: "36 + 8 * i + payload_len r \<le> fin" "fin \<le> 4096"
  obtains p1 where "wf_page p1" "page_id p1 = page_id p"
    "rebuild_loop required available i p fin (r # rs) = rebuild_loop required available (Suc i) p1 (fin - payload_len r) rs"
    "\<And>a b. b \<le> 28 + 8 * i \<Longrightarrow> region p1 a b = region p a b"
    "\<And>a b. fin \<le> a \<Longrightarrow> b \<le> 4096 \<Longrightarrow> region p1 a b = region p a b"
    "slot_at p1 i = slot_for (fin - payload_len r) r"
    "\<And>bs. rb_payload r = Some bs \<Longrightarrow> region p1 (fin - payload_len r) fin = bs"
proof (cases "rb_payload r")
  case None
  let ?p1 = "put_bytes (32 + 8 * i) (to_le_bytes (rb_generation r)) (put_bytes (30 + 8 * i) (to_le_bytes DELETED_SLOT_LENGTH)
    (put_bytes (28 + 8 * i) (to_le_bytes DELETED_SLOT_OFFSET) p))"
  have eq: "rebuild_loop required available i p fin (r # rs) = rebuild_loop required available (Suc i) ?p1 (fin - payload_len r) rs"
    using None by (simp add: payload_len_def write_u16_def write_u32_def page_consts Let_def mult.commute)
  have dir: "36 + 8 * i \<le> fin" using room by simp
  show thesis
    by (rule that[OF write_entry(1,2)[OF wf dir room(2) refl] eq write_entry(4,5)[OF wf dir room(2) refl]])
       (use None write_entry(3)[OF wf dir room(2) refl] in \<open>simp_all add: slot_for_def\<close>)
next
  case (Some bs)
  let ?lo = "fin - length bs"
  let ?q = "put_bytes ?lo bs p"
  let ?p1 = "put_bytes (32 + 8 * i) (to_le_bytes (rb_generation r)) (put_bytes (30 + 8 * i) (to_le_bytes (of_nat (length bs) :: u16))
    (put_bytes (28 + 8 * i) (to_le_bytes (of_nat ?lo :: u16)) ?q))"
  have len: "payload_len r = length bs" "length bs \<le> fin" using Some room by (simp_all add: payload_len_def)
  have wfq: "wf_page ?q" using wf len room by simp
  have dir: "36 + 8 * i \<le> ?lo" "?lo \<le> 4096" using room len by simp_all
  have eq: "rebuild_loop required available i p fin (r # rs) = rebuild_loop required available (Suc i) ?p1 (fin - payload_len r) rs"
    using Some len by (simp add: write_u16_def write_u32_def page_consts Let_def mult.commute checked_sub_def)
  show thesis
  proof (rule that[OF write_entry(1)[OF wfq dir refl] _ eq])
    show "page_id ?p1 = page_id p" by simp
    show "region ?p1 a b = region p a b" if "b \<le> 28 + 8 * i" for a b
    proof -
      have "b \<le> ?lo" "b \<le> 4096" using that dir by simp_all
      then show ?thesis using write_entry(4)[OF wfq dir refl that] wf len room by (simp add: region_put_other)
    qed
    show "region ?p1 a b = region p a b" if "fin \<le> a" "b \<le> 4096" for a b
      using write_entry(5)[OF wfq dir refl, of a b] wf len room that by (simp add: region_put_other)
    show "slot_at ?p1 i = slot_for (fin - payload_len r) r"
      using write_entry(3)[OF wfq dir refl] Some len by (simp add: slot_for_def)
    show "region ?p1 (fin - payload_len r) fin = bs'" if "rb_payload r = Some bs'" for bs'
      using write_entry(5)[OF wfq dir refl, of ?lo fin] wf len room that Some by (simp add: region_put_same)
  qed
qed

lemma placed_Cons: "placed fin (r # rs) (Suc j) = placed (fin - payload_len r) rs j"
  "placed fin (r # rs) 0 = fin - payload_len r"
  by (simp_all add: placed_def)

lemma slot_at_below:
  assumes "\<And>a b. b \<le> 28 + 8 * Suc i \<Longrightarrow> region p' a b = region p a b"
  shows "slot_at p' i = slot_at p i"
  using assms[of "30 + 8 * i"] assms[of "32 + 8 * i"] assms[of "36 + 8 * i"] by (simp add: slot_at_regions)

lemma rebuild_loop_result:
  assumes "wf_page p" "28 + 8 * (i + length rs) + used_bytes rs \<le> fin" "fin \<le> 4096"
  shows "\<exists>p'. rebuild_loop required available i p fin rs = Inr (p', fin - used_bytes rs) \<and> loop_result i p fin rs p'"
  using assms
proof (induction rs arbitrary: i p fin)
  case Nil
  then show ?case by (simp add: loop_result_def)
next
  case (Cons r rs)
  have room: "36 + 8 * i + payload_len r \<le> fin" using Cons.prems by simp
  from rebuild_step[OF Cons.prems(1) room Cons.prems(3), of required available rs]
  obtain p1 where p1: "wf_page p1" "page_id p1 = page_id p"
    "rebuild_loop required available i p fin (r # rs) = rebuild_loop required available (Suc i) p1 (fin - payload_len r) rs"
    "\<And>a b. b \<le> 28 + 8 * i \<Longrightarrow> region p1 a b = region p a b"
    "\<And>a b. fin \<le> a \<Longrightarrow> b \<le> 4096 \<Longrightarrow> region p1 a b = region p a b"
    "slot_at p1 i = slot_for (fin - payload_len r) r"
    "\<And>bs. rb_payload r = Some bs \<Longrightarrow> region p1 (fin - payload_len r) fin = bs"
    by blast
  have "28 + 8 * (Suc i + length rs) + used_bytes rs \<le> fin - payload_len r" "fin - payload_len r \<le> 4096"
    using Cons.prems by simp_all
  from Cons.IH[OF p1(1) this] obtain p' where
    run: "rebuild_loop required available (Suc i) p1 (fin - payload_len r) rs = Inr (p', fin - payload_len r - used_bytes rs)" and
    res: "loop_result (Suc i) p1 (fin - payload_len r) rs p'" by blast
  have slot0: "slot_at p' i = slot_for (fin - payload_len r) r"
    using slot_at_below[of i p' p1] res p1(6) by (simp add: loop_result_def)
  have pay0: "region p' (fin - payload_len r) fin = bs" if "rb_payload r = Some bs" for bs
    using res p1(7)[OF that] Cons.prems(3) by (simp add: loop_result_def)
  have "slot_at p' (i + j) = slot_for (placed fin (r # rs) j) ((r # rs) ! j)" if "j < Suc (length rs)" for j
    using that res slot0 by (cases j) (auto simp: loop_result_def placed_Cons)
  moreover have "region p' (placed fin (r # rs) j) (placed fin (r # rs) j + length bs) = bs"
    if "j < Suc (length rs)" "rb_payload ((r # rs) ! j) = Some bs" for j bs
  proof (cases j)
    case 0
    then have "payload_len r = length bs" using that by (simp add: payload_len_def)
    then show ?thesis using 0 that pay0 room by (simp add: placed_Cons)
  next
    case (Suc k)
    then show ?thesis using that res by (simp add: loop_result_def placed_Cons)
  qed
  ultimately have "loop_result i p fin (r # rs) p'"
    using res p1(2,4,5) by (simp add: loop_result_def)
  then show ?case using run p1(3) by auto
qed



section \<open>Rebuilding is exact\<close>

text \<open>The slots of a page as the code decodes them.\<close>

definition records_of :: "page \<Rightarrow> nat \<Rightarrow> rebuild_slot list" where
  "records_of p n = map (\<lambda>i. \<lparr>rb_generation = slot_generation (slot_at p i),
     rb_payload = (if live_at p i then Some (region p (start_at p i) (end_at p i)) else None)\<rparr>) [0..<n]"

lemma length_records_of [simp]: "length (records_of p n) = n"
  by (simp add: records_of_def)

lemma slot_index_bound:
  assumes "unat (n :: u16) \<le> 508" "i < unat n"
  shows "unat (of_nat i :: u16) = i" "\<not> n \<le> of_nat i"
proof -
  show u: "unat (of_nat i :: u16) = i" using assms by (simp add: U16_MAX_def)
  show "\<not> n \<le> of_nat i" using assms(2) u by (simp add: word_le_nat_alt)
qed

lemma slot_payload_valid:
  assumes "wf_page p" "end_at p i \<le> 4096"
  shows "slot_payload p s (slot_at p i) = Inr (region p (start_at p i) (end_at p i))"
  using assms
  by (simp add: slot_payload_def end_at_checked Let_def start_at_def end_at_def wf_page_def get_range_def)

lemma live_record_valid:
  assumes h: "header C p = Inr h" and wf: "wf_page p" and i: "i < unat (hdr_slot_count h)"
  shows "live_record p h (of_nat i) =
    Inr (if live_at p i then Some (slot_at p i, region p (start_at p i) (end_at p i)) else None)"
proof -
  have "live_at p i \<Longrightarrow> end_at p i \<le> 4096"
    using header_Inr(5)[OF h] i by (auto simp: valid_slots_def slot_ok_def)
  then show ?thesis
    using slot_index_bound[OF header_Inr(1)[OF h] i] slot_payload_valid[OF wf, of i]
    by (auto simp: live_record_def live_at_def Let_def)
qed

lemma rebuild_slots_valid:
  assumes "header C p = Inr h" "wf_page p"
  shows "rebuild_slots C p = Inr (records_of p (unat (hdr_slot_count h)))"
proof -
  have "collect (rebuild_slot_of p h) [0..<unat (hdr_slot_count h)] = Inr (records_of p (unat (hdr_slot_count h)))"
    unfolding records_of_def
    by (rule collect_all_Inr) (use live_record_valid[OF assms] in \<open>simp add: rebuild_slot_of_def\<close>)
  then show ?thesis using assms by (simp add: rebuild_slots_def)
qed

lemma used_bytes_take: "i \<le> j \<Longrightarrow> used_bytes (take i rs) \<le> used_bytes (take j rs)"
proof -
  assume "i \<le> j"
  then have "take j rs = take i rs @ take (j - i) (drop i rs)" by (metis le_add_diff_inverse take_add)
  then show ?thesis by simp
qed

lemma used_bytes_take_all: "used_bytes (take i rs) \<le> used_bytes rs"
proof -
  have "used_bytes rs = used_bytes (take i rs) + used_bytes (drop i rs)"
    by (metis append_take_drop_id used_bytes_append)
  then show ?thesis by simp
qed

lemma placed_end:
  assumes "j < length rs" "used_bytes rs \<le> fin"
  shows "placed fin rs j + payload_len (rs ! j) = fin - used_bytes (take j rs)"
proof -
  have "used_bytes (take (Suc j) rs) = used_bytes (take j rs) + payload_len (rs ! j)"
    using assms(1) by (simp add: take_Suc_conv_app_nth)
  then show ?thesis using used_bytes_take_all[of "Suc j" rs] assms(2) by (simp add: placed_def)
qed

lemma payload_size_Inr:
  "used + used_bytes rs \<le> USIZE_MAX \<Longrightarrow> payload_size capacity used rs = Inr (used + used_bytes rs)"
  by (induction rs arbitrary: used) (simp_all add: checked_add_def)

text \<open>A page whose directory and payloads are those the loop writes is valid and decodes to the records.\<close>

lemma slots_valid:
  assumes slots: "\<And>j. j < length rs \<Longrightarrow> slot_at p j = slot_for (placed 4096 rs j) (rs ! j)"
    and pay: "\<And>j bs. j < length rs \<Longrightarrow> rb_payload (rs ! j) = Some bs \<Longrightarrow>
      region p (placed 4096 rs j) (placed 4096 rs j + length bs) = bs"
    and gens: "\<forall>r \<in> set rs. rb_generation r \<noteq> 0"
    and room: "28 + 8 * length rs + used_bytes rs \<le> 4096"
  shows "valid_slots p (length rs) (of_nat (4096 - used_bytes rs))" "records_of p (length rs) = rs"
proof -
  have fin: "unat (of_nat (4096 - used_bytes rs) :: u16) = 4096 - used_bytes rs" by (simp add: U16_MAX_def)
  have place: "placed 4096 rs j \<le> 4096" "28 \<le> placed 4096 rs j" "4096 - used_bytes rs \<le> placed 4096 rs j" for j
    using used_bytes_take_all[of "Suc j" rs] room by (simp_all add: placed_def)
  have off: "unat (of_nat (placed 4096 rs j) :: u16) = placed 4096 rs j" for j
    using place[of j] by (simp add: U16_MAX_def)
  have len: "length bs \<le> 4096" if "j < length rs" "rb_payload (rs ! j) = Some bs" for j bs
    using placed_end[OF that(1), of 4096] that(2) room by (simp add: payload_len_def)
  have nz: "(of_nat (placed 4096 rs j) :: u16) \<noteq> 0" for j
    using off[of j] place(2)[of j] by (metis not_numeral_le_zero unsigned_0)
  have nmax: "(of_nat (length bs) :: u16) \<noteq> 0xFFFF" if "j < length rs" "rb_payload (rs ! j) = Some bs" for j bs
  proof
    assume "(of_nat (length bs) :: u16) = 0xFFFF"
    then have "unat (of_nat (length bs) :: u16) = 65535" by simp
    then show False using len[OF that] by (simp add: U16_MAX_def)
  qed
  have live: "live_at p j \<longleftrightarrow> rb_payload (rs ! j) \<noteq> None" if "j < length rs" for j
    using slots[OF that] nz[of j]
    by (simp add: live_at_def is_deleted_slot_def slot_for_def DELETED_SLOT_OFFSET_def split: option.splits)
  have rng: "start_at p j = placed 4096 rs j" "end_at p j = 4096 - used_bytes (take j rs)"
    "end_at p j = placed 4096 rs j + length bs" if "j < length rs" "rb_payload (rs ! j) = Some bs" for j bs
    using slots[OF that(1)] that off[of j] len[OF that] placed_end[OF that(1), of 4096] room
    by (simp_all add: start_at_def end_at_def slot_for_def payload_len_def U16_MAX_def)
  have gen: "slot_generation (slot_at p j) = rb_generation (rs ! j)" if "j < length rs" for j
    using slots[OF that] by (simp add: slot_for_def split: option.splits)
  have ok: "slot_ok p (of_nat (4096 - used_bytes rs)) j" if j: "j < length rs" for j
  proof (cases "rb_payload (rs ! j)")
    case None
    then show ?thesis using gens gen[OF j] live[OF j] j by (simp add: slot_ok_def)
  next
    case (Some bs)
    have "slot_offset (slot_at p j) \<noteq> 0" "slot_length (slot_at p j) \<noteq> 0xFFFF"
      using slots[OF j] Some nz[of j] nmax[OF j Some] by (simp_all add: slot_for_def)
    then show ?thesis
      using gens gen[OF j] rng(1,2)[OF j Some] place[of j] j fin
      by (simp add: slot_ok_def DELETED_SLOT_OFFSET_def DELETED_SLOT_LENGTH_def)
  qed
  have "apart (start_at p i, end_at p i) (start_at p j, end_at p j)"
    if ij: "i < j" and j: "j < length rs" and l: "live_at p i" "live_at p j" for i j
  proof -
    have i: "i < length rs" using ij j by simp
    obtain bi bj where b: "rb_payload (rs ! i) = Some bi" "rb_payload (rs ! j) = Some bj"
      using l live[OF i] live[OF j] by auto
    have "used_bytes (take (Suc i) rs) \<le> used_bytes (take j rs)" using ij by (intro used_bytes_take) simp
    then show ?thesis
      using rng(1)[OF i b(1)] rng(2)[OF j b(2)] by (auto simp: apart_def placed_def)
  qed
  then show "valid_slots p (length rs) (of_nat (4096 - used_bytes rs))" using ok by (simp add: valid_slots_def)
  show "records_of p (length rs) = rs"
  proof (rule nth_equalityI)
    fix j assume "j < length (records_of p (length rs))"
    then have j: "j < length rs" by simp
    show "records_of p (length rs) ! j = rs ! j"
      using live[OF j] gen[OF j] rng(1,3)[OF j] pay[OF j] j
      by (cases "rb_payload (rs ! j)") (auto simp: records_of_def intro: rebuild_slot.equality)
  qed simp
qed



text \<open>Rebuilding replaces the slots and nothing else.\<close>

definition rebuilt_header :: "page_header \<Rightarrow> rebuild_slot list \<Rightarrow> page_header" where
  "rebuilt_header h rs =
     \<lparr>hdr_page_type = hdr_page_type h, hdr_slot_count = of_nat (length rs),
      hdr_free_start = of_nat (28 + 8 * length rs), hdr_free_end = of_nat (4096 - used_bytes rs),
      hdr_page_lsn = hdr_page_lsn h\<rparr>"

lemma set_lsn_fields:
  assumes "wf_page p" "header_fields p ty count start fin lsn"
  shows "wf_page (set_page_lsn C l p)" "page_id (set_page_lsn C l p) = page_id p"
    "header_fields (set_page_lsn C l p) ty count start fin l"
proof -
  let ?q = "put_bytes 16 (to_le_bytes l) p"
  have wf: "wf_page ?q" using assms by simp
  have eq: "set_page_lsn C l p = refresh_checksum C ?q" by (simp add: set_page_lsn_def page_consts)
  show "wf_page (set_page_lsn C l p)" "page_id (set_page_lsn C l p) = page_id p"
    using refresh_props(1,2)[OF wf, of C] by (simp_all add: eq)
  have "header_fields ?q ty count start fin l"
    using assms by (simp add: header_fields_def region_put_same region_put_other)
  then show "header_fields (set_page_lsn C l p) ty count start fin l" unfolding eq by (rule header_fields_refresh[OF wf])
qed

lemma fresh_fields:
  assumes "lsn \<noteq> Some 0"
    and p_def: "p = (case lsn of Some l \<Rightarrow> set_page_lsn C l (page_new C i ty) | None \<Rightarrow> page_new C i ty)"
  shows "wf_page p" "page_id p = i" "\<exists>raw. header_fields p ty 0 28 4096 raw \<and> lsn_opt raw = lsn"
  using set_lsn_fields[OF page_new_fields(1,3), of C _ C i ty] page_new_fields[of C i ty] assms(1)
  by (auto simp: p_def lsn_opt_def split: option.splits)

lemma header_fields_loop:
  assumes "loop_result 0 p fin rs p'" "header_fields p ty count start fe lsn"
  shows "header_fields p' ty count start fe lsn"
  using assms by (simp add: header_fields_def loop_result_def)

lemma header_fields_put:
  assumes "wf_page p" "header_fields p ty count start fin lsn"
  shows "header_fields (put_bytes 8 (to_le_bytes count') p) ty count' start fin lsn"
    "header_fields (put_bytes 10 (to_le_bytes start') p) ty count start' fin lsn"
    "header_fields (put_bytes 12 (to_le_bytes fin') p) ty count start fin' lsn"
  using assms by (simp_all add: header_fields_def region_put_same region_put_other)

lemma rebuild_records_ok:
  assumes h: "header C p = Inr h" and gens: "\<forall>r \<in> set rs. rb_generation r \<noteq> 0"
    and room: "28 + 8 * length rs + used_bytes rs \<le> 4096"
  shows "\<exists>p'. rebuild_records C p rs replacement = Inr p' \<and> wf_page p' \<and> page_id p' = page_id p \<and>
    header C p' = Inr (rebuilt_header h rs) \<and> rebuild_slots C p' = Inr rs"
proof -
  let ?n = "length rs" and ?fin = "4096 - used_bytes rs"
  let ?dir = "28 + 8 * ?n"
  define p0 where "p0 = (case hdr_page_lsn h of Some l \<Rightarrow> set_page_lsn C l (page_new C (page_id p) (hdr_page_type h))
    | None \<Rightarrow> page_new C (page_id p) (hdr_page_type h))"
  note f0 = fresh_fields[OF header_Inr(6)[OF h] p0_def]
  obtain raw where raw: "header_fields p0 (hdr_page_type h) 0 28 4096 raw" "lsn_opt raw = hdr_page_lsn h"
    using f0(3) by blast
  define p1 where "p1 = put_bytes 10 (to_le_bytes (of_nat ?dir :: u16)) (put_bytes 8 (to_le_bytes (of_nat ?n :: u16)) p0)"
  have wf1: "wf_page p1" "page_id p1 = page_id p" using f0 by (simp_all add: p1_def)
  have h1: "header_fields p1 (hdr_page_type h) (of_nat ?n) (of_nat ?dir) 4096 raw"
    unfolding p1_def by (rule header_fields_put(2)[OF _ header_fields_put(1)[OF f0(1) raw(1)]]) (use f0 in simp)
  have "28 + 8 * (0 + ?n) + used_bytes rs \<le> 4096" using room by simp
  from rebuild_loop_result[OF wf1(1) this order_refl, of "used_bytes rs" "4096 - ?dir"]
  obtain p2 where run: "rebuild_loop (used_bytes rs) (4096 - ?dir) 0 p1 4096 rs = Inr (p2, ?fin)"
    and res: "loop_result 0 p1 4096 rs p2" by auto
  define p3 where "p3 = put_bytes 12 (to_le_bytes (of_nat ?fin :: u16)) p2"
  define p4 where "p4 = refresh_checksum C p3"
  have wf2: "wf_page p2" "page_id p2 = page_id p" using res wf1 by (simp_all add: loop_result_def)
  have wf3: "wf_page p3" "page_id p3 = page_id p" using wf2 by (simp_all add: p3_def)
  have wf4: "wf_page p4" "page_id p4 = page_id p" using refresh_props(1,2)[OF wf3(1), of C] wf3 by (simp_all add: p4_def)
  have fields: "header_fields p4 (hdr_page_type h) (of_nat ?n) (of_nat ?dir) (of_nat ?fin) raw"
    unfolding p4_def
    by (rule header_fields_refresh[OF wf3(1)])
       (simp only: p3_def header_fields_put(3)[OF wf2(1) header_fields_loop[OF res h1]])
  have reg: "region p4 a b = region p2 a b" if "28 \<le> a" "b \<le> 4096" for a b
    using that refresh_props(4)[OF wf3(1), of b a C] wf2(1) by (simp add: p4_def p3_def region_put_other)
  have small: "?n \<le> 508" using room by simp
  have slots: "slot_at p4 j = slot_for (placed 4096 rs j) (rs ! j)" if "j < ?n" for j
  proof -
    have "slot_at p4 j = slot_at p2 j" using that small by (simp add: slot_at_regions reg)
    then show ?thesis using res that by (simp add: loop_result_def)
  qed
  have pay: "region p4 (placed 4096 rs j) (placed 4096 rs j + length bs) = bs"
    if "j < ?n" "rb_payload (rs ! j) = Some bs" for j bs
  proof -
    have "28 \<le> placed 4096 rs j" using used_bytes_take_all[of "Suc j" rs] room by (simp add: placed_def)
    moreover have "placed 4096 rs j + length bs \<le> 4096"
      using placed_end[OF that(1), of 4096] that(2) room by (simp add: payload_len_def)
    ultimately show ?thesis using reg res that by (simp add: loop_result_def)
  qed
  note valid = slots_valid[OF slots pay gens room]
  have counts: "unat (of_nat ?n :: u16) = ?n" "unat (of_nat ?dir :: u16) = ?dir" "unat (of_nat ?fin :: u16) = ?fin"
    by (rule unat_of_nat_u16; use room in \<open>simp add: U16_MAX_def\<close>)+
  have hdr: "header C p4 = Inr (rebuilt_header h rs)"
    unfolding rebuilt_header_def raw(2)[symmetric]
  proof (rule header_from_fields[OF wf4(1) fields])
    show "verify_checksum C p4 = Inr ()" unfolding p4_def by (rule refresh_props(3)[OF wf3(1)])
    show "valid_slots p4 (unat (of_nat ?n :: u16)) (of_nat ?fin)" unfolding counts by (rule valid(1))
  qed (unfold counts, use room small in simp_all)
  have "rebuild_slots C p4 = Inr rs"
    using rebuild_slots_valid[OF hdr wf4(1)] by (simp add: rebuilt_header_def counts(1) valid(2))
  moreover have "rebuild_records C p rs replacement = Inr p4"
  proof -
    have dir: "checked_mul ?n 8 = Some (8 * ?n)" "checked_add 28 (8 * ?n) = Some ?dir"
      using small by (simp_all add: checked_mul_def checked_add_def USIZE_MAX_def)
    have pay: "payload_size c 0 rs = Inr (used_bytes rs)" for c
      using payload_size_Inr[of 0 rs c] room by (simp add: USIZE_MAX_def)
    have cnt: "u16_try_from ?n = Some (of_nat ?n)" using small by (simp add: u16_try_from_def U16_MAX_def)
    show ?thesis
      using room run hdr
      by (simp add: rebuild_records_def h page_consts dir pay cnt p0_def[symmetric] write_u16_def p1_def[symmetric]
          p3_def[symmetric] p4_def[symmetric] Let_def del: of_nat_add of_nat_mult of_nat_diff)
  qed
  ultimately show ?thesis using wf4 hdr by blast
qed



section \<open>Operations on the slots\<close>

lemma records_of_nth:
  "i < n \<Longrightarrow> records_of p n ! i = \<lparr>rb_generation = slot_generation (slot_at p i),
     rb_payload = (if live_at p i then Some (region p (start_at p i) (end_at p i)) else None)\<rparr>"
  by (simp add: records_of_def)

lemma used_bytes_valid:
  assumes wf: "wf_page p" and v: "valid_slots p n fin" and fin: "unat fin \<le> 4096"
  shows "used_bytes (records_of p n) \<le> 4096 - unat fin"
proof -
  define I where "I i = (if live_at p i then {start_at p i..<end_at p i} else {})" for i
  have ok: "end_at p i \<le> 4096" "unat fin \<le> start_at p i" if "i < n" "live_at p i" for i
    using v that by (auto simp: valid_slots_def slot_ok_def)
  have "start_at p i \<le> end_at p i" for i by (simp add: start_at_def end_at_def)
  then have len: "payload_len (records_of p n ! i) = card (I i)" if "i < n" for i
    using that ok[of i] wf by (simp add: records_of_nth payload_len_def I_def wf_page_def)
  have "used_bytes (records_of p n) = (\<Sum>i < n. payload_len (records_of p n ! i))"
    by (simp add: used_bytes_def sum_list_sum_nth atLeast0LessThan)
  also have "\<dots> = (\<Sum>i < n. card (I i))" using len by simp
  also have "\<dots> = card (\<Union>i < n. I i)"
  proof (rule card_UN_disjoint[symmetric])
    have "I i \<inter> I j = {}" if "i < j" "j < n" for i j
      using v that by (auto simp: valid_slots_def apart_def I_def)
    then show "\<forall>i \<in> {..<n}. \<forall>j \<in> {..<n}. i \<noteq> j \<longrightarrow> I i \<inter> I j = {}"
      by (metis inf_commute lessThan_iff linorder_neqE_nat)
  qed (simp_all add: I_def)
  also have "\<dots> \<le> card {unat fin..<4096}"
  proof (rule card_mono[OF finite_atLeastLessThan])
    have "I i \<subseteq> {unat fin..<4096}" if "i < n" for i
      using ok[OF that] by (cases "live_at p i") (auto simp: I_def)
    then show "(\<Union>i < n. I i) \<subseteq> {unat fin..<4096}" by blast
  qed
  finally show ?thesis by simp
qed

lemma valid_page_room:
  assumes "header C p = Inr h" "wf_page p" "rebuild_slots C p = Inr rs"
  shows "rs = records_of p (unat (hdr_slot_count h))" "length rs = unat (hdr_slot_count h)" "length rs \<le> 508"
    "28 + 8 * length rs + used_bytes rs + free_space h \<le> 4096" "\<forall>r \<in> set rs. rb_generation r \<noteq> 0"
proof -
  show rs: "rs = records_of p (unat (hdr_slot_count h))" using rebuild_slots_valid[OF assms(1,2)] assms(3) by simp
  show len: "length rs = unat (hdr_slot_count h)" "length rs \<le> 508" using rs header_Inr(1)[OF assms(1)] by simp_all
  show "28 + 8 * length rs + used_bytes rs + free_space h \<le> 4096"
    using header_Inr(2,3,4)[OF assms(1)] used_bytes_valid[OF assms(2) header_Inr(5)[OF assms(1)] header_Inr(4)[OF assms(1)]] len rs
    by (simp add: free_space_def)
  show "\<forall>r \<in> set rs. rb_generation r \<noteq> 0"
    using header_Inr(5)[OF assms(1)] by (auto simp: rs records_of_def valid_slots_def slot_ok_def)
qed

text \<open>The slot an insertion reuses: the first deleted one whose generation can still grow.\<close>

definition first_free :: "rebuild_slot list \<Rightarrow> nat option" where
  "first_free rs = List.find (\<lambda>i. rb_payload (rs ! i) = None \<and> rb_generation (rs ! i) < 0xFFFFFFFF) [0..<length rs]"

lemma find_cong: "(\<And>x. x \<in> set xs \<Longrightarrow> P x = Q x) \<Longrightarrow> List.find P xs = List.find Q xs"
  by (induction xs) auto

lemma reusable_first_free:
  "List.find (reusable_slot p) [0..<n] = first_free (records_of p n)"
  unfolding first_free_def
  by (rule trans[OF find_cong]) (auto simp: reusable_slot_def records_of_nth live_at_def)

lemma first_free_Some:
  assumes "first_free rs = Some i"
  shows "i < length rs" "rb_payload (rs ! i) = None" "unat (rb_generation (rs ! i)) + 1 < 2 ^ 32"
proof -
  have "rb_generation (rs ! i) < 0xFFFFFFFF" and *: "i < length rs" "rb_payload (rs ! i) = None"
    using assms by (auto simp: first_free_def find_Some_iff)
  then show "i < length rs" "rb_payload (rs ! i) = None" "unat (rb_generation (rs ! i)) + 1 < 2 ^ 32"
    by (simp_all add: word_less_nat_alt)
qed

lemma used_bytes_update:
  "i < length rs \<Longrightarrow> used_bytes (rs[i := r]) + payload_len (rs ! i) = used_bytes rs + payload_len r"
  by (induction rs arbitrary: i) (auto simp: nth_Cons split: nat.splits)

lemma set_update_gens:
  "\<forall>r \<in> set rs. rb_generation r \<noteq> 0 \<Longrightarrow> rb_generation x \<noteq> 0 \<Longrightarrow> \<forall>r \<in> set (rs[i := x]). rb_generation r \<noteq> 0"
  using set_update_subset_insert by fastforce

text \<open>The records after an insertion, and the locator it returns.\<close>

definition inserted :: "rebuild_slot list \<Rightarrow> byte list \<Rightarrow> rebuild_slot list" where
  "inserted rs bs =
     (case first_free rs of
        Some i \<Rightarrow> rs[i := \<lparr>rb_generation = rb_generation (rs ! i) + 1, rb_payload = Some bs\<rparr>]
      | None \<Rightarrow> rs @ [\<lparr>rb_generation = 1, rb_payload = Some bs\<rparr>])"

definition inserted_ref :: "rebuild_slot list \<Rightarrow> slot_ref" where
  "inserted_ref rs =
     (case first_free rs of
        Some i \<Rightarrow> \<lparr>sref_slot = of_nat i, sref_generation = rb_generation (rs ! i) + 1\<rparr>
      | None \<Rightarrow> \<lparr>sref_slot = of_nat (length rs), sref_generation = 1\<rparr>)"

definition required_bytes :: "rebuild_slot list \<Rightarrow> byte list \<Rightarrow> usize" where
  "required_bytes rs bs = (case first_free rs of Some _ \<Rightarrow> length bs | None \<Rightarrow> 8 + length bs)"

lemma inserted_fits:
  assumes room: "28 + 8 * length rs + used_bytes rs + free \<le> 4096" and req: "required_bytes rs bs \<le> free"
    and gens: "\<forall>r \<in> set rs. rb_generation r \<noteq> 0"
  shows "28 + 8 * length (inserted rs bs) + used_bytes (inserted rs bs) \<le> 4096"
    "\<forall>r \<in> set (inserted rs bs). rb_generation r \<noteq> 0"
proof -
  show "28 + 8 * length (inserted rs bs) + used_bytes (inserted rs bs) \<le> 4096"
  proof (cases "first_free rs")
    case None
    then show ?thesis using room req by (simp add: inserted_def required_bytes_def)
  next
    case (Some i)
    note free = first_free_Some[OF Some]
    then have "payload_len (rs ! i) = 0" by (simp add: payload_len_def)
    then show ?thesis
      using used_bytes_update[OF free(1), of "\<lparr>rb_generation = rb_generation (rs ! i) + 1, rb_payload = Some bs\<rparr>"] Some room req
      by (simp add: inserted_def required_bytes_def)
  qed
  show "\<forall>r \<in> set (inserted rs bs). rb_generation r \<noteq> 0"
  proof (cases "first_free rs")
    case None
    then show ?thesis using gens by (auto simp: inserted_def)
  next
    case (Some i)
    have "rb_generation (rs ! i) + 1 \<noteq> 0"
    proof
      assume "rb_generation (rs ! i) + 1 = 0"
      then have "unat (rb_generation (rs ! i) + 1) = 0" by simp
      moreover have "unat (rb_generation (rs ! i) + 1) = unat (rb_generation (rs ! i)) + 1"
        using first_free_Some(3)[OF Some] by (simp add: unat_word_ariths)
      ultimately show False by simp
    qed
    then show ?thesis
      using set_update_gens[OF gens, of "\<lparr>rb_generation = rb_generation (rs ! i) + 1, rb_payload = Some bs\<rparr>" i] Some
      by (simp add: inserted_def)
  qed
qed

lemma checked_add_u32_free: "first_free rs = Some i \<Longrightarrow>
    checked_add_u32 (rb_generation (rs ! i)) 1 = Some (rb_generation (rs ! i) + 1)"
  using first_free_Some(3)[of rs i] by (simp add: checked_add_u32_def)

lemma insert_record_cases:
  assumes h: "header C p = Inr h" "wf_page p" "hdr_page_type h = HeapPage" "rebuild_slots C p = Inr rs"
  shows "length bs > 4060 \<Longrightarrow> insert_record C p bs = Inl (SePage (RecordTooLarge (length bs) 4060))"
    "length bs \<le> 4060 \<Longrightarrow> required_bytes rs bs > free_space h \<Longrightarrow>
       insert_record C p bs = Inl (SePage (PageFull (required_bytes rs bs) (free_space h)))"
    "length bs \<le> 4060 \<Longrightarrow> required_bytes rs bs \<le> free_space h \<Longrightarrow>
       insert_record C p bs = bindR (rebuild_records C p (inserted rs bs) None) (\<lambda>p'. Inr (inserted_ref rs, p'))"
proof -
  note rs = valid_page_room[OF h(1,2,4)]
  have reuse: "List.find (reusable_slot p) [0..<unat (hdr_slot_count h)] = first_free rs"
    using reusable_first_free rs(1) by simp
  have limit: "MAX_RECORD_SIZE = 4060" by (simp add: MAX_RECORD_SIZE_def page_consts)
  have expect: "expect_page_type C HeapPage p = Inr h" using h by (simp add: expect_page_type_def)
  show "insert_record C p bs = Inl (SePage (RecordTooLarge (length bs) 4060))" if "length bs > 4060"
    using that by (simp add: insert_record_def expect limit)
  have req: "(if first_free rs \<noteq> None then Inr (length bs)
      else ok_or (RecordTooLarge (length bs) 4060) (checked_add 8 (length bs))) = Inr (required_bytes rs bs)"
    if "length bs \<le> 4060"
    using that by (simp add: required_bytes_def checked_add_def USIZE_MAX_def split: option.splits)
  show "insert_record C p bs = Inl (SePage (PageFull (required_bytes rs bs) (free_space h)))"
    if "length bs \<le> 4060" "required_bytes rs bs > free_space h"
    using that req[OF that(1)]
    by (cases "first_free rs") (simp_all add: insert_record_def expect limit reuse SLOT_SIZE_def U16_MAX_def Let_def)
  have sc: "of_nat (length rs) = hdr_slot_count h" using rs(2) by simp
  show "insert_record C p bs = bindR (rebuild_records C p (inserted rs bs) None) (\<lambda>p'. Inr (inserted_ref rs, p'))"
    if "length bs \<le> 4060" "required_bytes rs bs \<le> free_space h"
    using that req[OF that(1)] h(4) checked_add_u32_free[of rs]
    by (cases "first_free rs")
       (simp_all add: insert_record_def expect limit reuse SLOT_SIZE_def U16_MAX_def Let_def inserted_def inserted_ref_def
         sc not_less[symmetric])
qed


text \<open>A page holds a list of records when it has the size of a page, validates, and reads back as that list.\<close>

definition holds :: "crc \<Rightarrow> page \<Rightarrow> page_header \<Rightarrow> rebuild_slot list \<Rightarrow> bool" where
  "holds C p h rs \<longleftrightarrow> wf_page p \<and> header C p = Inr h \<and> rebuild_slots C p = Inr rs"

definition empty_header :: "page_type \<Rightarrow> page_header" where
  "empty_header ty = \<lparr>hdr_page_type = ty, hdr_slot_count = 0, hdr_free_start = 28, hdr_free_end = 4096, hdr_page_lsn = None\<rparr>"

lemma holds_page_new: "holds C (page_new C i ty) (empty_header ty) []"
proof -
  note new = page_new_fields[of C i ty]
  have "header C (page_new C i ty) = Inr (empty_header ty)"
    using header_from_fields[OF new(1) new(3) new(4)] by (simp add: empty_header_def lsn_opt_def valid_slots_def)
  then show ?thesis
    using rebuild_slots_valid[of C "page_new C i ty" "empty_header ty"] new(1)
    by (simp add: holds_def empty_header_def records_of_def)
qed

lemma holds_room:
  assumes "holds C p h rs"
  shows "length rs = unat (hdr_slot_count h)" "length rs \<le> 508"
    "28 + 8 * length rs + used_bytes rs + free_space h \<le> 4096" "\<forall>r \<in> set rs. rb_generation r \<noteq> 0"
  using assms valid_page_room[of C p h rs] by (simp_all add: holds_def)

lemma holds_rebuild:
  assumes "holds C p h rs" "\<forall>r \<in> set rs'. rb_generation r \<noteq> 0" "28 + 8 * length rs' + used_bytes rs' \<le> 4096"
  obtains p' where "rebuild_records C p rs' replacement = Inr p'" "page_id p' = page_id p"
    "holds C p' (rebuilt_header h rs') rs'"
  using assms rebuild_records_ok[of C p h rs' replacement] by (auto simp: holds_def)

lemma rebuild_too_long:
  assumes p: "holds C p h rs" and n: "length rs' \<le> 508" and used: "used_bytes rs' \<le> 0x10000" "4096 < 28 + 8 * length rs' + used_bytes rs'"
  shows "rebuild_records C p rs' (Some (s, sz)) =
    Inl (SePage (UpdateWouldOverflowPage s sz (4096 - (28 + 8 * length rs') - (used_bytes rs' - sz))))"
proof -
  have dir: "checked_mul (length rs') 8 = Some (8 * length rs')" "checked_add 28 (8 * length rs') = Some (28 + 8 * length rs')"
    using n by (simp_all add: checked_mul_def checked_add_def USIZE_MAX_def)
  have pay: "payload_size c 0 rs' = Inr (used_bytes rs')" for c
    using payload_size_Inr[of 0 rs' c] used by (simp add: USIZE_MAX_def)
  have full: "\<not> used_bytes rs' \<le> 4096 - (28 + 8 * length rs')" using used n by linarith
  show ?thesis using p full by (simp add: holds_def rebuild_records_def page_consts dir pay Let_def not_less)
qed

text \<open>The replacement of one record, which exists only while the slot is live.\<close>

lemma live_target_exact:
  "live_target rs s =
     (if length rs \<le> unat s then Inl (InvalidSlot s)
      else case rb_payload (rs ! unat s) of None \<Rightarrow> Inl (SlotDeleted s) | Some _ \<Rightarrow> Inr (rs ! unat s))"
  by (auto simp: live_target_def get_at_def split: option.splits)

text \<open>What the operations leave of the header.\<close>

lemma rebuilt_header_simps [simp]:
  "hdr_page_type (rebuilt_header h rs) = hdr_page_type h" "hdr_page_lsn (rebuilt_header h rs) = hdr_page_lsn h"
  by (simp_all add: rebuilt_header_def)

lemma insert_record_ok:
  assumes p: "holds C p h rs" "hdr_page_type h = HeapPage" and fits: "length bs \<le> 4060" "required_bytes rs bs \<le> free_space h"
  obtains p' where "insert_record C p bs = Inr (inserted_ref rs, p')" "page_id p' = page_id p"
    "holds C p' (rebuilt_header h (inserted rs bs)) (inserted rs bs)"
proof -
  note room = holds_room[OF p(1)]
  obtain p' where p': "rebuild_records C p (inserted rs bs) None = Inr p'" "page_id p' = page_id p"
    "holds C p' (rebuilt_header h (inserted rs bs)) (inserted rs bs)"
    using holds_rebuild[OF p(1) inserted_fits(2,1)[OF room(3) fits(2) room(4)]] .
  moreover have "insert_record C p bs = Inr (inserted_ref rs, p')"
    using insert_record_cases(3)[of C p h rs bs] p fits p'(1) by (simp add: holds_def)
  ultimately show thesis using that by blast
qed

lemma delete_record_ok:
  assumes p: "holds C p h rs" "hdr_page_type h = HeapPage" and s: "unat s < length rs" "rb_payload (rs ! unat s) \<noteq> None"
  defines "rs' \<equiv> rs[unat s := (rs ! unat s)\<lparr>rb_payload := None\<rparr>]"
  obtains p' where "delete_record C p s = Inr p'" "page_id p' = page_id p" "holds C p' (rebuilt_header h rs') rs'"
proof -
  note room = holds_room[OF p(1)]
  have "used_bytes rs' + payload_len (rs ! unat s) = used_bytes rs + payload_len ((rs ! unat s)\<lparr>rb_payload := None\<rparr>)"
    unfolding rs'_def by (rule used_bytes_update[OF s(1)])
  then have "28 + 8 * length rs' + used_bytes rs' \<le> 4096"
    using room(3) by (simp add: payload_len_def rs'_def)
  moreover have "\<forall>r \<in> set rs'. rb_generation r \<noteq> 0"
    unfolding rs'_def by (rule set_update_gens[OF room(4)]) (use room(4) s(1) in simp)
  ultimately obtain p' where p': "rebuild_records C p rs' None = Inr p'" "page_id p' = page_id p"
    "holds C p' (rebuilt_header h rs') rs'"
    using holds_rebuild[OF p(1)] by metis
  moreover have "delete_record C p s = Inr p'"
    using p s p'(1) by (auto simp: holds_def delete_record_def expect_page_type_def live_target_exact rs'_def[symmetric])
  ultimately show thesis using that by blast
qed

lemma replace_record_run:
  assumes p: "holds C p h rs" "hdr_page_type h = HeapPage" and bs: "length bs \<le> 4060"
    and s: "unat s < length rs" "rb_payload (rs ! unat s) \<noteq> None"
  shows "replace_record C p s bs =
    rebuild_records C p (rs[unat s := (rs ! unat s)\<lparr>rb_payload := Some bs\<rparr>]) (Some (s, length bs))"
  using assms
  by (auto simp: holds_def replace_record_def expect_page_type_def live_target_exact MAX_RECORD_SIZE_def page_consts U16_MAX_def)

lemma read_record_exact:
  assumes "holds C p h rs"
  shows "read_record C p s =
    (if length rs \<le> unat s then Inl (SePage (InvalidSlot s))
     else case rb_payload (rs ! unat s) of None \<Rightarrow> Inl (SePage (SlotDeleted s)) | Some bs \<Rightarrow> Inr bs)"
proof (cases "unat s < unat (hdr_slot_count h)")
  case True
  have h: "header C p = Inr h" "wf_page p" and rs: "rs = records_of p (unat (hdr_slot_count h))"
    using assms valid_page_room(1)[of C p h rs] by (simp_all add: holds_def)
  have "live_at p (unat s) \<Longrightarrow> end_at p (unat s) \<le> 4096"
    using header_Inr(5)[OF h(1)] True by (auto simp: valid_slots_def slot_ok_def)
  then show ?thesis
    using True h slot_payload_valid[OF h(2), of "unat s"]
    by (auto simp: read_record_def page_slot_def slot_state_def word_le_nat_alt rs records_of_nth live_at_def Let_def)
next
  case False
  then show ?thesis
    using assms holds_room(1)[OF assms]
    by (simp add: holds_def read_record_def page_slot_def slot_state_def word_le_nat_alt)
qed


section \<open>Histories of a heap page\<close>

datatype page_op = InsertOp "byte list" | DeleteOp SlotId | ReplaceOp SlotId "byte list"

text \<open>A failing operation leaves the page as it was; a successful insertion hands out a locator.\<close>

fun run_page_op :: "crc \<Rightarrow> page_op \<Rightarrow> page \<times> slot_ref list \<Rightarrow> page \<times> slot_ref list" where
  "run_page_op C (InsertOp bs) (p, refs) =
     (case insert_record C p bs of Inl _ \<Rightarrow> (p, refs) | Inr (r, p') \<Rightarrow> (p', r # refs))"
| "run_page_op C (DeleteOp s) (p, refs) = (case delete_record C p s of Inl _ \<Rightarrow> (p, refs) | Inr p' \<Rightarrow> (p', refs))"
| "run_page_op C (ReplaceOp s bs) (p, refs) =
     (case replace_record C p s bs of Inl _ \<Rightarrow> (p, refs) | Inr p' \<Rightarrow> (p', refs))"

text \<open>No locator is ahead of the generation its slot has reached.\<close>

definition handed_out :: "rebuild_slot list \<Rightarrow> slot_ref \<Rightarrow> bool" where
  "handed_out rs r \<longleftrightarrow> unat (sref_slot r) < length rs \<and> sref_generation r \<le> rb_generation (rs ! unat (sref_slot r))"

definition page_history :: "crc \<Rightarrow> PageId \<Rightarrow> page \<times> slot_ref list \<Rightarrow> bool" where
  "page_history C i st \<longleftrightarrow>
     page_id (fst st) = i \<and> distinct (snd st) \<and>
     (\<exists>h rs. holds C (fst st) h rs \<and> hdr_page_type h = HeapPage \<and> (\<forall>r \<in> set (snd st). handed_out rs r))"

lemma handed_out_update:
  assumes "handed_out rs r" "rb_generation (rs ! i) \<le> rb_generation x"
  shows "handed_out (rs[i := x]) r"
  using assms by (cases "i = unat (sref_slot r)") (auto simp: handed_out_def)

lemma next_generation:
  assumes "first_free rs = Some i"
  shows "rb_generation (rs ! i) < rb_generation (rs ! i) + 1"
  using first_free_Some(3)[OF assms] by (simp add: word_less_nat_alt unat_word_ariths)

lemma inserted_handed_out:
  assumes "handed_out rs r"
  shows "handed_out (inserted rs bs) r"
proof (cases "first_free rs")
  case None
  then show ?thesis using assms by (auto simp: inserted_def handed_out_def nth_append)
next
  case (Some i)
  then show ?thesis using handed_out_update[OF assms, of i] next_generation[OF Some] by (simp add: inserted_def less_imp_le)
qed

lemma inserted_ref_fresh:
  assumes "length rs \<le> 508"
  shows "\<not> handed_out rs (inserted_ref rs)" "handed_out (inserted rs bs) (inserted_ref rs)"
proof -
  have small: "unat (of_nat k :: u16) = k" if "k \<le> 508" for k
    using that by (simp add: unat_of_nat_u16 U16_MAX_def)
  show "\<not> handed_out rs (inserted_ref rs)"
    using assms small first_free_Some(1)[of rs] next_generation[of rs]
    by (cases "first_free rs") (auto simp: handed_out_def inserted_ref_def not_le)
  show "handed_out (inserted rs bs) (inserted_ref rs)"
    using assms small first_free_Some(1)[of rs]
    by (cases "first_free rs") (auto simp: handed_out_def inserted_ref_def inserted_def)
qed

lemma delete_record_cases:
  assumes "holds C p h rs" "hdr_page_type h = HeapPage" "delete_record C p s = Inr p'"
  shows "unat s < length rs" "rb_payload (rs ! unat s) \<noteq> None"
  using assms by (auto simp: holds_def delete_record_def expect_page_type_def live_target_exact split: if_splits option.splits)

lemma replace_record_cases:
  assumes "holds C p h rs" "hdr_page_type h = HeapPage" "replace_record C p s bs = Inr p'"
  shows "length bs \<le> 4060" "unat s < length rs" "rb_payload (rs ! unat s) \<noteq> None"
  using assms
  by (auto simp: holds_def replace_record_def expect_page_type_def live_target_exact MAX_RECORD_SIZE_def page_consts
      split: if_splits option.splits)

text \<open>The list a replacement asks for.\<close>

definition replaced :: "rebuild_slot list \<Rightarrow> SlotId \<Rightarrow> byte list \<Rightarrow> rebuild_slot list" where
  "replaced rs s bs = rs[unat s := (rs ! unat s)\<lparr>rb_payload := Some bs\<rparr>]"

lemma length_replaced [simp]: "length (replaced rs s bs) = length rs"
  by (simp add: replaced_def)

lemma replaced_gens: "\<forall>r \<in> set rs. rb_generation r \<noteq> 0 \<Longrightarrow> unat s < length rs \<Longrightarrow> \<forall>r \<in> set (replaced rs s bs). rb_generation r \<noteq> 0"
  unfolding replaced_def by (rule set_update_gens) auto

lemma used_replaced_le: "unat s < length rs \<Longrightarrow> used_bytes (replaced rs s bs) \<le> used_bytes rs + length bs"
  using used_bytes_update[of "unat s" rs "(rs ! unat s)\<lparr>rb_payload := Some bs\<rparr>"]
  by (simp add: replaced_def payload_len_def)

lemma replace_record_ok:
  assumes p: "holds C p h rs" "hdr_page_type h = HeapPage" and bs: "length bs \<le> 4060"
    and s: "unat s < length rs" "rb_payload (rs ! unat s) \<noteq> None"
    and fits: "28 + 8 * length rs + used_bytes (replaced rs s bs) \<le> 4096"
  obtains p' where "replace_record C p s bs = Inr p'" "page_id p' = page_id p"
    "holds C p' (rebuilt_header h (replaced rs s bs)) (replaced rs s bs)"
  using holds_rebuild[OF p(1) replaced_gens[OF holds_room(4)[OF p(1)] s(1)], of bs "Some (s, length bs)"] fits
    replace_record_run[OF p bs s]
  by (auto simp: replaced_def)

lemma replace_record_full:
  assumes p: "holds C p h rs" "hdr_page_type h = HeapPage" and bs: "length bs \<le> 4060"
    and s: "unat s < length rs" "rb_payload (rs ! unat s) \<noteq> None"
    and full: "4096 < 28 + 8 * length rs + used_bytes (replaced rs s bs)"
  shows "replace_record C p s bs = Inl (SePage (UpdateWouldOverflowPage s (length bs)
    (4096 - (28 + 8 * length rs) - (used_bytes (replaced rs s bs) - length bs))))"
proof -
  note room = holds_room[OF p(1)]
  have "used_bytes (replaced rs s bs) \<le> 0x10000" using used_replaced_le[OF s(1), of bs] room(3) bs by linarith
  then show ?thesis
    using replace_record_run[OF p bs s] rebuild_too_long[OF p(1), of "replaced rs s bs"] room(2) full
    by (simp add: replaced_def)
qed

lemma page_history_update:
  assumes "page_history C i (p, refs)" "holds C p h rs" "holds C p' h' (rs[j := x])" "page_id p' = page_id p"
    "hdr_page_type h' = HeapPage" "rb_generation x = rb_generation (rs ! j)"
  shows "page_history C i (p', refs)"
proof -
  have "\<forall>r \<in> set refs. handed_out (rs[j := x]) r"
    using assms(1,2,6) handed_out_update[of rs _ j x] by (auto simp: page_history_def holds_def)
  then show ?thesis using assms by (auto simp: page_history_def)
qed

lemma page_history_step:
  assumes "page_history C i (p, refs)"
  shows "page_history C i (run_page_op C oper (p, refs))"
proof -
  obtain h rs where p: "holds C p h rs" "hdr_page_type h = HeapPage" and refs: "\<forall>r \<in> set refs. handed_out rs r"
    and hist: "page_id p = i" "distinct refs"
    using assms by (auto simp: page_history_def)
  show ?thesis
  proof (cases oper)
    case (InsertOp bs)
    consider "4060 < length bs" | "length bs \<le> 4060" "free_space h < required_bytes rs bs"
      | "length bs \<le> 4060" "required_bytes rs bs \<le> free_space h" by linarith
    then show ?thesis
    proof cases
      case 3
      obtain p' where p': "insert_record C p bs = Inr (inserted_ref rs, p')" "page_id p' = page_id p"
        "holds C p' (rebuilt_header h (inserted rs bs)) (inserted rs bs)"
        using insert_record_ok[OF p 3] .
      note fresh = inserted_ref_fresh[OF holds_room(2)[OF p(1)]]
      have "inserted_ref rs \<notin> set refs" using refs fresh(1) by blast
      then show ?thesis
        using InsertOp p' p(2) hist refs fresh(2) inserted_handed_out[of rs _ bs]
        by (auto simp: page_history_def intro!: exI[of _ "rebuilt_header h (inserted rs bs)"] exI[of _ "inserted rs bs"])
    qed (use InsertOp assms p insert_record_cases(1,2)[of C p h rs bs] in \<open>simp_all add: holds_def\<close>)
  next
    case (DeleteOp s)
    show ?thesis
    proof (cases "delete_record C p s")
      case (Inr q)
      note live = delete_record_cases[OF p Inr]
      obtain p' where "delete_record C p s = Inr p'" "page_id p' = page_id p"
        "holds C p' (rebuilt_header h (rs[unat s := (rs ! unat s)\<lparr>rb_payload := None\<rparr>])) (rs[unat s := (rs ! unat s)\<lparr>rb_payload := None\<rparr>])"
        using delete_record_ok[OF p live] .
      then show ?thesis
        using DeleteOp page_history_update[OF assms p(1)] p(2) by simp
    qed (use DeleteOp assms in simp)
  next
    case (ReplaceOp s bs)
    show ?thesis
    proof (cases "replace_record C p s bs")
      case (Inr q)
      note live = replace_record_cases[OF p Inr]
      have "\<not> 4096 < 28 + 8 * length rs + used_bytes (replaced rs s bs)"
        using replace_record_full[OF p live] Inr by auto
      then obtain p' where "replace_record C p s bs = Inr p'" "page_id p' = page_id p"
        "holds C p' (rebuilt_header h (replaced rs s bs)) (replaced rs s bs)"
        using replace_record_ok[OF p live] by (metis not_le)
      then show ?thesis
        using ReplaceOp page_history_update[OF assms p(1)] p(2) by (simp add: replaced_def)
    qed (use ReplaceOp assms in simp)
  qed
qed

lemma page_history_new: "page_history C i (page_new C i HeapPage, [])"
  using holds_page_new[of C i HeapPage] page_new_fields(2)[of C i HeapPage]
  by (auto simp: page_history_def empty_header_def)

lemma page_history_run: "page_history C i st \<Longrightarrow> page_history C i (fold (run_page_op C) ops st)"
proof (induction ops arbitrary: st)
  case (Cons oper ops)
  then show ?case using page_history_step[of C i "fst st" "snd st" oper] by simp
qed simp

section \<open>Single-payload pages\<close>

lemma single_payload_rebuilt:
  assumes "ty \<noteq> HeapPage" "holds C q (rebuilt_header h [\<lparr>rb_generation = 1, rb_payload = Some bs\<rparr>]) [\<lparr>rb_generation = 1, rb_payload = Some bs\<rparr>]"
    "hdr_page_type h = ty"
  shows "single_payload C q ty = Inr bs"
proof -
  let ?rs = "[\<lparr>rb_generation = 1, rb_payload = Some bs\<rparr>]"
  have h: "header C q = Inr (rebuilt_header h ?rs)" "wf_page q" using assms(2) by (simp_all add: holds_def)
  have "records_of q 1 = ?rs"
    using valid_page_room(1)[OF h, of ?rs] assms(2) by (simp add: holds_def rebuilt_header_def)
  then have "records_of q 1 ! 0 = ?rs ! 0" by simp
  then have "live_at q 0" "slot_generation (slot_at q 0) = 1" by (simp_all add: records_of_nth split: if_splits)
  moreover have "hdr_slot_count (rebuilt_header h ?rs) = 1" by (simp add: rebuilt_header_def)
  ultimately have "validate_single_payload C ty q = Inr ()"
    using h(1) assms(1,3) by (simp add: validate_single_payload_def expect_page_type_def slot_state_def live_at_def Let_def)
  then show ?thesis using read_record_exact[OF assms(2), of 0] by (simp add: single_payload_def)
qed

lemma single_rebuild:
  assumes "ty \<noteq> HeapPage" "holds C p h rs" "hdr_page_type h = ty" "length bs \<le> 4060"
  obtains q h' where "rebuild_records C p [\<lparr>rb_generation = 1, rb_payload = Some bs\<rparr>] replacement = Inr q"
    "single_payload C q ty = Inr bs" "holds C q h' [\<lparr>rb_generation = 1, rb_payload = Some bs\<rparr>]"
proof -
  obtain q where "rebuild_records C p [\<lparr>rb_generation = 1, rb_payload = Some bs\<rparr>] replacement = Inr q"
    "holds C q (rebuilt_header h [\<lparr>rb_generation = 1, rb_payload = Some bs\<rparr>]) [\<lparr>rb_generation = 1, rb_payload = Some bs\<rparr>]"
    by (rule holds_rebuild[OF assms(2), of "[\<lparr>rb_generation = 1, rb_payload = Some bs\<rparr>]" replacement])
       (use assms(4) in simp_all)
  then show thesis using that single_payload_rebuilt[OF assms(1) _ assms(3)] by blast
qed

lemma single_payload_init:
  assumes "ty \<noteq> HeapPage"
  shows "length bs \<le> 4060 \<Longrightarrow> \<exists>q. initialize_single_payload C (page_new C i ty) ty bs = Inr q \<and> single_payload C q ty = Inr bs"
    "4060 < length bs \<Longrightarrow> initialize_single_payload C (page_new C i ty) ty bs = Inl (SePage (RecordTooLarge (length bs) 4060))"
proof -
  note new = holds_page_new[of C i ty]
  have ty: "hdr_page_type (empty_header ty) = ty" "hdr_slot_count (empty_header ty) = 0" by (simp_all add: empty_header_def)
  have h: "header C (page_new C i ty) = Inr (empty_header ty)" using new by (simp add: holds_def)
  show "\<exists>q. initialize_single_payload C (page_new C i ty) ty bs = Inr q \<and> single_payload C q ty = Inr bs" if "length bs \<le> 4060"
    by (rule single_rebuild[OF assms new ty(1) that, of None], rule exI)
       (use that assms h ty in \<open>simp add: initialize_single_payload_def expect_page_type_def single_payload_capacity_def
          page_consts U16_MAX_def\<close>)
  show "initialize_single_payload C (page_new C i ty) ty bs = Inl (SePage (RecordTooLarge (length bs) 4060))" if "4060 < length bs"
    using that assms h ty
    by (simp add: initialize_single_payload_def expect_page_type_def single_payload_capacity_def page_consts)
qed

lemma single_payload_replace:
  assumes "ty \<noteq> HeapPage" "holds C p h rs" "single_payload C p ty = Inr old"
  shows "length bs \<le> 4060 \<Longrightarrow> \<exists>q h' rs'. replace_single_payload C p ty bs = Inr q \<and> single_payload C q ty = Inr bs \<and> holds C q h' rs'"
    "4060 < length bs \<Longrightarrow> replace_single_payload C p ty bs = Inl (SePage (RecordTooLarge (length bs) 4060))"
proof -
  have v: "validate_single_payload C ty p = Inr ()" using assms(3) by (auto simp: single_payload_def)
  then have ty: "hdr_page_type h = ty"
    using assms(2) by (auto simp: validate_single_payload_def expect_page_type_def holds_def)
  show "\<exists>q h' rs'. replace_single_payload C p ty bs = Inr q \<and> single_payload C q ty = Inr bs \<and> holds C q h' rs'"
    if "length bs \<le> 4060"
    by (rule single_rebuild[OF assms(1,2) ty that, of "Some (0, length bs)"], intro exI conjI)
       (use that v in \<open>simp_all add: replace_single_payload_def single_payload_capacity_def page_consts U16_MAX_def\<close>)
  show "replace_single_payload C p ty bs = Inl (SePage (RecordTooLarge (length bs) 4060))" if "4060 < length bs"
    using that v by (simp add: replace_single_payload_def single_payload_capacity_def page_consts)
qed


section \<open>Properties\<close>

text \<open>C19. Inserting into a valid heap page has one of three outcomes: a record longer than the largest one a page
  can hold is refused, a record that does not fit into the free space is refused with the bytes it needs, and
  otherwise the page afterwards validates and holds the old records with the new one in the first reusable deleted
  slot, its generation one higher, or in a new slot of generation one; page id, type and LSN are kept.\<close>

theorem insert_record_refines:
  assumes "holds C p h rs" "hdr_page_type h = HeapPage"
  shows "if 4060 < length bs then insert_record C p bs = Inl (SePage (RecordTooLarge (length bs) 4060))
    else if free_space h < required_bytes rs bs
    then insert_record C p bs = Inl (SePage (PageFull (required_bytes rs bs) (free_space h)))
    else \<exists>p'. insert_record C p bs = Inr (inserted_ref rs, p') \<and> page_id p' = page_id p \<and>
      holds C p' (rebuilt_header h (inserted rs bs)) (inserted rs bs)"
proof -
  have h: "header C p = Inr h" "wf_page p" "rebuild_slots C p = Inr rs" using assms(1) by (simp_all add: holds_def)
  note refused = insert_record_cases(1,2)[OF h(1,2) assms(2) h(3), of bs]
  show ?thesis
  proof (cases "4060 < length bs \<or> free_space h < required_bytes rs bs")
    case True
    then show ?thesis using refused by (cases "4060 < length bs") simp_all
  next
    case False
    then have "length bs \<le> 4060" "required_bytes rs bs \<le> free_space h" by simp_all
    from insert_record_ok[OF assms this] show ?thesis using False by (metis (no_types))
  qed
qed

text \<open>A checksum for witnesses; any two functions will do.\<close>

definition sample_crc :: crc where
  "sample_crc = \<lparr>crc32c = (\<lambda>bs. of_nat (length bs)), crc32c_append = (\<lambda>c bs. c + of_nat (length bs))\<rparr>"

theorem insert_record_refines_witness:
  "\<exists>p'. insert_record sample_crc (page_new sample_crc 7 HeapPage) [1, 2] = Inr (\<lparr>sref_slot = 0, sref_generation = 1\<rparr>, p') \<and>
     page_id p' = 7 \<and> rebuild_slots sample_crc p' = Inr [\<lparr>rb_generation = 1, rb_payload = Some [1, 2]\<rparr>]"
  using insert_record_refines[OF holds_page_new[of sample_crc 7 HeapPage], of "[1, 2]"] page_new_fields(2)[of sample_crc 7 HeapPage]
  by (auto simp: empty_header_def free_space_def required_bytes_def first_free_def inserted_def inserted_ref_def holds_def)

text \<open>C20. Replacing a record of a valid heap page keeps every other record and the replaced slot's generation; it
  fails exactly when the record is too long, the slot does not exist or is deleted, or the records no longer fit,
  and then the error reports the largest record that would have fitted in that slot.\<close>

theorem replace_record_refines:
  assumes "holds C p h rs" "hdr_page_type h = HeapPage"
  shows "if 4060 < length bs then replace_record C p s bs = Inl (SePage (RecordTooLarge (length bs) 4060))
    else if length rs \<le> unat s then replace_record C p s bs = Inl (SePage (InvalidSlot s))
    else if rb_payload (rs ! unat s) = None then replace_record C p s bs = Inl (SePage (SlotDeleted s))
    else if 4096 < 28 + 8 * length rs + used_bytes (replaced rs s bs)
    then replace_record C p s bs = Inl (SePage (UpdateWouldOverflowPage s (length bs)
      (4096 - (28 + 8 * length rs) - (used_bytes (replaced rs s bs) - length bs))))
    else \<exists>p'. replace_record C p s bs = Inr p' \<and> page_id p' = page_id p \<and>
      holds C p' (rebuilt_header h (replaced rs s bs)) (replaced rs s bs)"
proof -
  have early: "replace_record C p s bs = Inl (SePage (RecordTooLarge (length bs) 4060))" if "4060 < length bs"
    using that assms by (simp add: holds_def replace_record_def expect_page_type_def MAX_RECORD_SIZE_def page_consts)
  have target: "replace_record C p s bs = Inl (SePage e)" if "length bs \<le> 4060" "live_target rs s = Inl e" for e
    using that assms
    by (simp add: holds_def replace_record_def expect_page_type_def MAX_RECORD_SIZE_def page_consts U16_MAX_def)
  consider (long) "4060 < length bs" | (missing) "length bs \<le> 4060" "length rs \<le> unat s"
    | (deleted) "length bs \<le> 4060" "unat s < length rs" "rb_payload (rs ! unat s) = None"
    | (live) "length bs \<le> 4060" "unat s < length rs" "rb_payload (rs ! unat s) \<noteq> None"
    using not_le by blast
  then show ?thesis
  proof cases
    case live
    show ?thesis
    proof (cases "4096 < 28 + 8 * length rs + used_bytes (replaced rs s bs)")
      case True
      then show ?thesis using live replace_record_full[OF assms live True] by simp
    next
      case False
      then have "28 + 8 * length rs + used_bytes (replaced rs s bs) \<le> 4096" by simp
      then show ?thesis by (rule replace_record_ok[OF assms live]) (use live False in auto)
    qed
  qed (use early target live_target_exact[of rs s] in \<open>simp_all add: not_le\<close>)
qed

lemma sample_heap_page:
  obtains p where "holds sample_crc p (rebuilt_header (empty_header HeapPage) [\<lparr>rb_generation = 1, rb_payload = Some [1, 2]\<rparr>])
      [\<lparr>rb_generation = 1, rb_payload = Some [1, 2]\<rparr>]"
  by (rule holds_rebuild[OF holds_page_new, of "[\<lparr>rb_generation = 1, rb_payload = Some [1, 2]\<rparr>]" sample_crc 7 HeapPage None])
     (use that in simp_all)

theorem replace_record_refines_witness:
  "\<exists>p p' h'. rebuild_slots sample_crc p = Inr [\<lparr>rb_generation = 1, rb_payload = Some [1, 2]\<rparr>] \<and>
     replace_record sample_crc p 0 [9] = Inr p' \<and> holds sample_crc p' h' [\<lparr>rb_generation = 1, rb_payload = Some [9]\<rparr>]"
proof -
  obtain p where "holds sample_crc p (rebuilt_header (empty_header HeapPage) [\<lparr>rb_generation = 1, rb_payload = Some [1, 2]\<rparr>])
      [\<lparr>rb_generation = 1, rb_payload = Some [1, 2]\<rparr>]" by (rule sample_heap_page)
  moreover from replace_record_refines[OF this, of "[9]" 0] obtain p' where "replace_record sample_crc p 0 [9] = Inr p'"
    "holds sample_crc p' (rebuilt_header (rebuilt_header (empty_header HeapPage) [\<lparr>rb_generation = 1, rb_payload = Some [1, 2]\<rparr>])
      [\<lparr>rb_generation = 1, rb_payload = Some [9]\<rparr>]) [\<lparr>rb_generation = 1, rb_payload = Some [9]\<rparr>]"
    by (auto simp: empty_header_def replaced_def)
  ultimately show ?thesis by (auto simp: holds_def)
qed

text \<open>C21. Deleting a record of a valid heap page marks exactly that slot deleted, keeps its generation and every
  other record, and fails exactly when the slot does not exist or is deleted already.\<close>

theorem delete_record_refines:
  assumes "holds C p h rs" "hdr_page_type h = HeapPage"
  shows "if length rs \<le> unat s then delete_record C p s = Inl (SePage (InvalidSlot s))
    else if rb_payload (rs ! unat s) = None then delete_record C p s = Inl (SePage (SlotDeleted s))
    else let rs' = rs[unat s := (rs ! unat s)\<lparr>rb_payload := None\<rparr>]
      in \<exists>p'. delete_record C p s = Inr p' \<and> page_id p' = page_id p \<and> holds C p' (rebuilt_header h rs') rs'"
proof -
  have target: "delete_record C p s = Inl (SePage e)" if "live_target rs s = Inl e" for e
    using that assms by (simp add: holds_def delete_record_def expect_page_type_def)
  show ?thesis
  proof (cases "unat s < length rs \<and> rb_payload (rs ! unat s) \<noteq> None")
    case True
    then have live: "unat s < length rs" "rb_payload (rs ! unat s) \<noteq> None" by simp_all
    show ?thesis by (rule delete_record_ok[OF assms live]) (use live in \<open>auto simp: Let_def\<close>)
  next
    case False
    then show ?thesis using target live_target_exact[of rs s] by auto
  qed
qed

theorem delete_record_refines_witness:
  "\<exists>p p' h'. rebuild_slots sample_crc p = Inr [\<lparr>rb_generation = 1, rb_payload = Some [1, 2]\<rparr>] \<and>
     delete_record sample_crc p 0 = Inr p' \<and> holds sample_crc p' h' [\<lparr>rb_generation = 1, rb_payload = None\<rparr>]"
proof -
  obtain p where "holds sample_crc p (rebuilt_header (empty_header HeapPage) [\<lparr>rb_generation = 1, rb_payload = Some [1, 2]\<rparr>])
      [\<lparr>rb_generation = 1, rb_payload = Some [1, 2]\<rparr>]" by (rule sample_heap_page)
  moreover from delete_record_refines[OF this, of 0] obtain p' where "delete_record sample_crc p 0 = Inr p'"
    "holds sample_crc p' (rebuilt_header (rebuilt_header (empty_header HeapPage) [\<lparr>rb_generation = 1, rb_payload = Some [1, 2]\<rparr>])
      [\<lparr>rb_generation = 1, rb_payload = None\<rparr>]) [\<lparr>rb_generation = 1, rb_payload = None\<rparr>]"
    by (auto simp: empty_header_def Let_def)
  ultimately show ?thesis by (auto simp: holds_def)
qed

text \<open>
  Reading a slot of a valid page, of any type, returns the payload the page holds there, and reports a
  missing or a deleted slot as such; it never runs out of the page's bounds.\<close>

theorem read_record_refines:
  assumes "holds C p h rs"
  shows "read_record C p s =
    (if length rs \<le> unat s then Inl (SePage (InvalidSlot s))
     else case rb_payload (rs ! unat s) of None \<Rightarrow> Inl (SePage (SlotDeleted s)) | Some bs \<Rightarrow> Inr bs)"
  by (rule read_record_exact[OF assms])

theorem read_record_refines_witness:
  "\<exists>p. read_record sample_crc p 0 = Inr [1, 2] \<and> read_record sample_crc p 1 = Inl (SePage (InvalidSlot 1))"
proof -
  obtain p where "holds sample_crc p (rebuilt_header (empty_header HeapPage) [\<lparr>rb_generation = 1, rb_payload = Some [1, 2]\<rparr>])
      [\<lparr>rb_generation = 1, rb_payload = Some [1, 2]\<rparr>]" by (rule sample_heap_page)
  from read_record_refines[OF this] show ?thesis by (intro exI[of _ p]) simp
qed

text \<open>C4. Over any sequence of insertions, deletions and replacements on a new heap page, failing ones included,
  the page stays valid, and no locator (slot and generation) is ever handed out twice, so a locator that outlives its
  record cannot name a later one.\<close>

theorem slot_refs_unique:
  "distinct (snd (fold (run_page_op C) ops (page_new C i HeapPage, []))) \<and>
   (\<exists>h rs. holds C (fst (fold (run_page_op C) ops (page_new C i HeapPage, []))) h rs \<and> hdr_page_type h = HeapPage)"
  using page_history_run[OF page_history_new, of C i ops] by (auto simp: page_history_def)

text \<open>
  A fresh non-heap page initialised with a payload of at most 4060 bytes yields that payload, and any page
  whose single payload can be read can have it replaced and then yields the new one; longer payloads are refused
  by both operations.\<close>

theorem single_payload_roundtrip:
  assumes "ty \<noteq> HeapPage" "holds C p h rs" "single_payload C p ty = Inr old"
  shows "if length bs \<le> 4060
    then (\<exists>q. initialize_single_payload C (page_new C i ty) ty bs = Inr q \<and> single_payload C q ty = Inr bs) \<and>
      (\<exists>q h' rs'. replace_single_payload C p ty bs = Inr q \<and> single_payload C q ty = Inr bs \<and> holds C q h' rs')
    else initialize_single_payload C (page_new C i ty) ty bs = Inl (SePage (RecordTooLarge (length bs) 4060)) \<and>
      replace_single_payload C p ty bs = Inl (SePage (RecordTooLarge (length bs) 4060))"
  using single_payload_init[OF assms(1)] single_payload_replace[OF assms] by auto

theorem single_payload_roundtrip_witness:
  "\<exists>p. single_payload sample_crc p BTreeLeaf = Inr [1] \<and> (\<exists>q. replace_single_payload sample_crc p BTreeLeaf [2, 3] = Inr q \<and>
     single_payload sample_crc q BTreeLeaf = Inr [2, 3])"
proof -
  obtain p h where p: "single_payload sample_crc p BTreeLeaf = Inr [1]" "holds sample_crc p h [\<lparr>rb_generation = 1, rb_payload = Some [1]\<rparr>]"
    by (rule single_rebuild[OF _ holds_page_new, of BTreeLeaf BTreeLeaf "[1]" sample_crc 3 None])
       (simp_all add: empty_header_def)
  have "BTreeLeaf \<noteq> HeapPage" by simp
  from single_payload_roundtrip[OF this p(2,1), of "[2, 3]" 3] obtain q where
    "replace_single_payload sample_crc p BTreeLeaf [2, 3] = Inr q" "single_payload sample_crc q BTreeLeaf = Inr [2, 3]"
    by (simp split: if_splits) blast
  then show ?thesis using p(1) by blast
qed

end
