(* ===== verification/Txn_Status.thy ===== *)
theory Txn_Status
  imports Page Ordered_Map "HOL-Library.Multiset"
begin

text \<open>
  The transaction-status store of \<open>crates/netbadb-heap/src/txn_status.rs\<close>: the file format of one
  32-byte record per decided transaction, its reopening with the repair of a torn tail that the
  write-ahead log certifies, the recording of decisions under I/O failures, and the pinned snapshots.
  What the operating system answers is an argument of the operations.
\<close>

definition STATUS_MAGIC :: "byte list" where "STATUS_MAGIC = [0x4E, 0x42, 0x54, 0x53]"
definition STATUS_VERSION :: u16 where "STATUS_VERSION = 1"
definition STATUS_HEADER_SIZE :: usize where "STATUS_HEADER_SIZE = 16"
definition STATUS_RECORD_MAGIC :: "byte list" where "STATUS_RECORD_MAGIC = [0x54, 0x58, 0x53, 0x54]"
definition STATUS_RECORD_VERSION :: u16 where "STATUS_RECORD_VERSION = 1"
definition RECORD_SIZE :: usize where "RECORD_SIZE = 32"
definition COMMITTED_TAG :: u8 where "COMMITTED_TAG = 1"
definition ABORTED_TAG :: u8 where "ABORTED_TAG = 2"

lemmas status_consts = STATUS_MAGIC_def STATUS_VERSION_def STATUS_HEADER_SIZE_def STATUS_RECORD_MAGIC_def
  STATUS_RECORD_VERSION_def RECORD_SIZE_def COMMITTED_TAG_def ABORTED_TAG_def

section \<open>The file format\<close>

definition encode_status_header :: "crc \<Rightarrow> byte list" where
  "encode_status_header C =
     (let bytes = replicate STATUS_HEADER_SIZE 0;
          bytes = copy_at bytes 0 STATUS_MAGIC;
          bytes = copy_at bytes 4 (to_le_bytes STATUS_VERSION);
          bytes = copy_at bytes 6 (to_le_bytes (of_nat STATUS_HEADER_SIZE :: u16))
      in copy_at bytes 12 (to_le_bytes (crc32c C bytes)))"

definition validate_status_header :: "crc \<Rightarrow> byte list \<Rightarrow> (txn_status_error, unit) res" where
  "validate_status_header C bytes =
     bindR (ensure (\<not> length bytes < STATUS_HEADER_SIZE) TsTruncatedRecord) (\<lambda>_.
     bindR (ensure (slice bytes 0 4 = STATUS_MAGIC) TsInvalidMagic) (\<lambda>_.
     let version = from_le_bytes (slice bytes 4 6)
     in bindR (ensure (version = STATUS_VERSION) (TsUnsupportedVersion version)) (\<lambda>_.
     let size = from_le_bytes (slice bytes 6 8)
     in bindR (ensure (unat size = STATUS_HEADER_SIZE) (TsInvalidHeaderSize size)) (\<lambda>_.
     bindR (ensure (slice bytes 8 12 = replicate 4 0) TsInvalidReservedBytes) (\<lambda>_.
     let stored = from_le_bytes (slice bytes 12 16);
         computed = crc32c C (copy_at (take STATUS_HEADER_SIZE bytes) 12 (replicate 4 0))
     in ensure (stored = computed) (TsHeaderChecksumMismatch stored computed))))))"

definition status_tag :: "txn_status \<Rightarrow> (txn_status_error, u8 \<times> u64) res" where
  "status_tag status =
     (case status of
        Committed csn \<Rightarrow> if csn \<noteq> 0 then Inr (COMMITTED_TAG, csn) else Inl (InvalidCommitSeq 0)
      | Aborted \<Rightarrow> Inr (ABORTED_TAG, 0)
      | TxnActive \<Rightarrow> Inl (InvalidStatusTag 0 0))"

definition encode_record :: "crc \<Rightarrow> TxnId \<Rightarrow> txn_status \<Rightarrow> (txn_status_error, byte list) res" where
  "encode_record C txn status =
     bindR (ensure (txn \<noteq> 0) (InvalidTxnId 0)) (\<lambda>_.
     bindR (status_tag status) (\<lambda>(tag, commit_seq).
     let bytes = replicate RECORD_SIZE 0;
         bytes = copy_at bytes 0 STATUS_RECORD_MAGIC;
         bytes = copy_at bytes 4 (to_le_bytes STATUS_RECORD_VERSION);
         bytes = bytes[6 := tag];
         bytes = copy_at bytes 8 (to_le_bytes txn);
         bytes = copy_at bytes 16 (to_le_bytes commit_seq)
     in Inr (copy_at bytes 24 (to_le_bytes (crc32c C bytes)))))"

definition decode_status :: "u64 \<Rightarrow> u8 \<Rightarrow> u64 \<Rightarrow> (txn_status_error, txn_status) res" where
  "decode_status offset tag sequence =
     (if tag = COMMITTED_TAG then
        (if sequence \<noteq> 0 then Inr (Committed sequence) else Inl (InvalidCommitSeq offset))
      else if tag = ABORTED_TAG then
        (if sequence = 0 then Inr Aborted else Inl (InvalidCommitSeq offset))
      else Inl (InvalidStatusTag offset tag))"

definition decode_record :: "crc \<Rightarrow> byte list \<Rightarrow> u64 \<Rightarrow> (txn_status_error, TxnId \<times> txn_status) res" where
  "decode_record C bytes offset =
     bindR (ensure (length bytes = RECORD_SIZE) TsTruncatedRecord) (\<lambda>_.
     bindR (ensure (slice bytes 0 4 = STATUS_RECORD_MAGIC) (TsInvalidRecordMagic offset)) (\<lambda>_.
     let version = from_le_bytes (slice bytes 4 6)
     in bindR (ensure (version = STATUS_RECORD_VERSION) (TsUnsupportedRecordVersion offset version)) (\<lambda>_.
     bindR (ensure (\<not> (bytes ! 7 \<noteq> 0 \<or> slice bytes 28 32 \<noteq> replicate 4 0)) (InvalidRecordReserved offset)) (\<lambda>_.
     let stored = from_le_bytes (slice bytes 24 28);
         computed = crc32c C (copy_at bytes 24 (replicate 4 0))
     in bindR (ensure (stored = computed) (TsRecordChecksumMismatch offset stored computed)) (\<lambda>_.
     let txn = from_le_bytes (slice bytes 8 16)
     in bindR (ensure (txn \<noteq> 0) (InvalidTxnId offset)) (\<lambda>_.
     bindR (decode_status offset (bytes ! 6) (from_le_bytes (slice bytes 16 24))) (\<lambda>status.
     Inr (txn, status))))))))"

section \<open>The store\<close>

text \<open>
  \<open>ts_file\<close> is the content of the file. The two hash containers are a map and a set; the ordered map of
  pinned snapshots counts the views per commit sequence.
\<close>

record txn_status_store =
  ts_file :: "byte list"
  durable :: "TxnId \<rightharpoonup> txn_status"
  active :: "TxnId set"
  snapshots :: "(CommitSeq, u64) btree_map"
  maximum_commit_seq :: CommitSeq
  poisoned :: bool

definition status_create :: "crc \<Rightarrow> txn_status_store" where
  "status_create C =
     \<lparr>ts_file = encode_status_header C, durable = Map.empty, active = {}, snapshots = [],
      maximum_commit_seq = 0, poisoned = False\<rparr>"

definition insert_status :: "(TxnId \<rightharpoonup> txn_status) \<Rightarrow> TxnId \<Rightarrow> txn_status
    \<Rightarrow> (txn_status_error, TxnId \<rightharpoonup> txn_status) res" where
  "insert_status statuses txn status =
     (case statuses txn of
        None \<Rightarrow> Inr (statuses(txn \<mapsto> status))
      | Some existing \<Rightarrow>
          if existing = status then Inr (statuses(txn \<mapsto> status)) else Inl (ConflictingStatus txn))"

text \<open>\<open>slice::chunks_exact\<close>\<close>

fun chunks_exact :: "nat \<Rightarrow> 'a list \<Rightarrow> 'a list list" where
  "chunks_exact n xs = (if n = 0 \<or> length xs < n then [] else take n xs # chunks_exact n (drop n xs))"

declare chunks_exact.simps [simp del]

text \<open>The loop of \<open>open_for_recovery\<close> over the complete records.\<close>

fun scan_records :: "crc \<Rightarrow> nat \<Rightarrow> byte list list \<Rightarrow> (TxnId \<rightharpoonup> txn_status) \<times> CommitSeq
    \<Rightarrow> (txn_status_error, (TxnId \<rightharpoonup> txn_status) \<times> CommitSeq) res" where
  "scan_records C idx [] acc = Inr acc"
| "scan_records C idx (r # rs) (statuses, maximum) =
     bindR (decode_record C r (of_nat (STATUS_HEADER_SIZE + idx * RECORD_SIZE))) (\<lambda>(txn, status).
     bindR (insert_status statuses txn status) (\<lambda>statuses.
     scan_records C (Suc idx) rs
       (statuses, case status of Committed csn \<Rightarrow> max maximum csn | _ \<Rightarrow> maximum)))"

text \<open>Whether a torn tail is a prefix of a decision the log still holds.\<close>

definition decision_of :: "wal_record \<Rightarrow> txn_status option" where
  "decision_of r =
     (case rec_kind r of Commit \<Rightarrow> Some (Committed (rec_lsn r)) | RollbackComplete \<Rightarrow> Some Aborted | _ \<Rightarrow> None)"

definition certified :: "crc \<Rightarrow> (TxnId \<rightharpoonup> txn_status) \<Rightarrow> byte list \<Rightarrow> wal_record list \<Rightarrow> bool" where
  "certified C statuses tail records \<longleftrightarrow>
     list_ex (\<lambda>r.
       case decision_of r of
         None \<Rightarrow> False
       | Some status \<Rightarrow>
           (case statuses (rec_txn_id r) of None \<Rightarrow> True | Some existing \<Rightarrow> existing = status) \<and>
           (case encode_record C (rec_txn_id r) status of Inl _ \<Rightarrow> False | Inr bytes \<Rightarrow> take (length tail) bytes = tail))
       records"

text \<open>What the operating system answers while the file is opened.\<close>

datatype open_outcome = OpenDone | OpenFailed | SetLenFailed | SyncFailed

text \<open>The result comes with the file's content afterwards.\<close>

definition open_for_recovery :: "crc \<Rightarrow> open_outcome \<Rightarrow> wal_record list \<Rightarrow> byte list
    \<Rightarrow> (txn_status_error, txn_status_store) res \<times> byte list" where
  "open_for_recovery C io records bytes =
     (if io = OpenFailed then (Inl TsIo, bytes)
      else
        case bindR (validate_status_header C bytes) (\<lambda>_.
               scan_records C 0 (chunks_exact RECORD_SIZE (drop STATUS_HEADER_SIZE bytes)) (Map.empty, 0)) of
          Inl e \<Rightarrow> (Inl e, bytes)
        | Inr (statuses, maximum) \<Rightarrow>
            let tail_size = (length bytes - STATUS_HEADER_SIZE) mod RECORD_SIZE;
                valid_end = length bytes - tail_size
            in if tail_size \<noteq> 0 \<and> \<not> certified C statuses (drop valid_end bytes) records then
                 (Inl TsTruncatedRecord, bytes)
               else if tail_size \<noteq> 0 \<and> io = SetLenFailed then (Inl TsIo, bytes)
               else
                 let file = take valid_end bytes
                 in if io = SyncFailed then (Inl TsIo, file)
                    else (Inr \<lparr>ts_file = file, durable = statuses, active = {}, snapshots = [],
                               maximum_commit_seq = maximum, poisoned = False\<rparr>, file))"

definition mark_active :: "TxnId \<Rightarrow> txn_status_store \<Rightarrow> txn_status_store" where
  "mark_active txn st = st\<lparr>active := insert txn (active st)\<rparr>"

definition clear_active :: "TxnId \<Rightarrow> txn_status_store \<Rightarrow> txn_status_store" where
  "clear_active txn st = st\<lparr>active := active st - {txn}\<rparr>"

text \<open>
  What the operating system answers to an append: the seek fails; or the write or the sync fails after
  the first bytes reached the file, and the truncation that follows succeeds or not; or all goes well.
\<close>

datatype append_outcome = AppendDone | SeekFailed | AppendFailed usize bool

definition record_status :: "crc \<Rightarrow> append_outcome \<Rightarrow> TxnId \<Rightarrow> txn_status \<Rightarrow> txn_status_store
    \<Rightarrow> (txn_status_error, unit) res \<times> txn_status_store" where
  "record_status C io txn status st =
     (if poisoned st then (Inl RecoveryRequired, st)
      else
        case durable st txn of
          Some existing \<Rightarrow>
            if existing = status then (Inr (), clear_active txn st) else (Inl (ConflictingStatus txn), st)
        | None \<Rightarrow>
            (case encode_record C txn status of
               Inl e \<Rightarrow> (Inl e, st)
             | Inr bytes \<Rightarrow>
                 (case io of
                    SeekFailed \<Rightarrow> (Inl TsIo, st)
                  | AppendFailed written truncated \<Rightarrow>
                      let offset = length (ts_file st); file = ts_file st @ take written bytes
                      in if truncated then (Inl TsIo, st\<lparr>ts_file := take offset file\<rparr>)
                         else (Inl (TsAppendCleanup (of_nat offset)), st\<lparr>ts_file := file, poisoned := True\<rparr>)
                  | AppendDone \<Rightarrow>
                      (Inr (), st\<lparr>ts_file := ts_file st @ bytes, durable := (durable st)(txn \<mapsto> status),
                          active := active st - {txn},
                          maximum_commit_seq :=
                            (case status of Committed csn \<Rightarrow> max (maximum_commit_seq st) csn
                                          | _ \<Rightarrow> maximum_commit_seq st)\<rparr>))))"

definition record_committed :: "crc \<Rightarrow> append_outcome \<Rightarrow> TxnId \<Rightarrow> CommitSeq \<Rightarrow> txn_status_store
    \<Rightarrow> (txn_status_error, unit) res \<times> txn_status_store" where
  "record_committed C io txn csn st = record_status C io txn (Committed csn) st"

definition record_aborted :: "crc \<Rightarrow> append_outcome \<Rightarrow> TxnId \<Rightarrow> txn_status_store
    \<Rightarrow> (txn_status_error, unit) res \<times> txn_status_store" where
  "record_aborted C io txn st = record_status C io txn Aborted st"

definition status_of :: "txn_status_store \<Rightarrow> TxnId \<Rightarrow> (txn_status_error, txn_status) res" where
  "status_of st txn =
     (case durable st txn of
        Some status \<Rightarrow> Inr status
      | None \<Rightarrow> if txn \<in> active st then Inr TxnActive else Inl (UnknownTransaction txn))"

definition pin_snapshot :: "CommitSeq \<Rightarrow> txn_status_store \<Rightarrow> (txn_status_error, unit) res \<times> txn_status_store" where
  "pin_snapshot csn st =
     (let count = (case bt_get (snapshots st) csn of None \<Rightarrow> 0 | Some n \<Rightarrow> n)
      in case checked_add_u64 count 1 of
           None \<Rightarrow> (Inl SnapshotCountOverflow, st\<lparr>snapshots := bt_insert csn count (snapshots st)\<rparr>)
         | Some n \<Rightarrow> (Inr (), st\<lparr>snapshots := bt_insert csn n (snapshots st)\<rparr>))"

definition unpin_snapshot :: "CommitSeq \<Rightarrow> txn_status_store \<Rightarrow> txn_status_store" where
  "unpin_snapshot csn st =
     (case bt_get (snapshots st) csn of
        None \<Rightarrow> st
      | Some n \<Rightarrow>
          let n' = (if n = 0 then 0 else n - 1)
          in st\<lparr>snapshots := (if n' = 0 then bt_remove csn (snapshots st) else bt_insert csn n' (snapshots st))\<rparr>)"

definition oldest_snapshot :: "txn_status_store \<Rightarrow> CommitSeq option" where
  "oldest_snapshot st = map_option fst (bt_first (snapshots st))"

section \<open>The format round trip\<close>

definition record_bytes :: "crc \<Rightarrow> TxnId \<Rightarrow> u8 \<Rightarrow> u64 \<Rightarrow> byte list" where
  "record_bytes C txn tag csn =
     (let front = STATUS_RECORD_MAGIC @ to_le_bytes STATUS_RECORD_VERSION @ [tag, 0] @ to_le_bytes txn @ to_le_bytes csn
      in front @ to_le_bytes (crc32c C (front @ replicate 8 0)) @ replicate 4 0)"

lemma replicate_32: "replicate 32 (0::byte) = replicate 4 0 @ replicate 2 0 @ [0, 0] @ replicate 8 0 @ replicate 8 0 @ replicate 8 0"
  by (simp add: replicate_add[symmetric] eval_nat_numeral)

lemma encode_record_exact:
  "encode_record C txn status =
     (if txn = 0 then Inl (InvalidTxnId 0)
      else bindR (status_tag status) (\<lambda>(tag, csn). Inr (record_bytes C txn tag csn)))"
proof -
  have magic: "length STATUS_RECORD_MAGIC = 4" by (simp add: STATUS_RECORD_MAGIC_def)
  have "copy_at (copy_at ((copy_at (copy_at (replicate 32 0) 0 STATUS_RECORD_MAGIC) 4 (to_le_bytes STATUS_RECORD_VERSION))[6 := tag])
      8 (to_le_bytes txn)) 16 (to_le_bytes csn) =
      STATUS_RECORD_MAGIC @ to_le_bytes STATUS_RECORD_VERSION @ [tag, 0] @ to_le_bytes txn @ to_le_bytes csn @ replicate 8 0" for tag and csn :: u64
    unfolding replicate_32 by (simp add: copy_at_0 copy_at_skip copy_at_Cons magic list_update_append)
  then show ?thesis
    unfolding encode_record_def
    by (simp add: RECORD_SIZE_def bindR_def record_bytes_def Let_def copy_at_def magic split: sum.splits prod.splits)
qed

lemma length_record_bytes [simp]: "length (record_bytes C txn tag csn) = 32"
  by (simp add: record_bytes_def STATUS_RECORD_MAGIC_def Let_def)

lemma record_bytes_fields:
  "slice (record_bytes C txn tag csn) 0 4 = STATUS_RECORD_MAGIC"
  "slice (record_bytes C txn tag csn) 4 6 = to_le_bytes STATUS_RECORD_VERSION"
  "record_bytes C txn tag csn ! 6 = tag" "record_bytes C txn tag csn ! 7 = 0"
  "slice (record_bytes C txn tag csn) 8 16 = to_le_bytes txn"
  "slice (record_bytes C txn tag csn) 16 24 = to_le_bytes csn"
  "slice (record_bytes C txn tag csn) 28 32 = replicate 4 0"
  "slice (record_bytes C txn tag csn) 24 28 = to_le_bytes (crc32c C (copy_at (record_bytes C txn tag csn) 24 (replicate 4 0)))"
proof -
  let ?front = "STATUS_RECORD_MAGIC @ to_le_bytes STATUS_RECORD_VERSION @ [tag, 0] @ to_le_bytes txn @ to_le_bytes csn"
  have len: "length STATUS_RECORD_MAGIC = 4" by (simp add: STATUS_RECORD_MAGIC_def)
  have "copy_at (record_bytes C txn tag csn) 24 (replicate 4 0) = ?front @ replicate 8 0"
    by (simp add: record_bytes_def Let_def len copy_at_0 copy_at_skip copy_at_Cons replicate_add[symmetric])
  then show "slice (record_bytes C txn tag csn) 24 28 = to_le_bytes (crc32c C (copy_at (record_bytes C txn tag csn) 24 (replicate 4 0)))"
    by (simp add: record_bytes_def Let_def len slice_def)
qed (simp_all add: record_bytes_def Let_def slice_def STATUS_RECORD_MAGIC_def nth_append)

lemma decode_status_tag:
  "status_tag status = Inr (tag, csn) \<Longrightarrow> decode_status offset tag csn = Inr status"
  by (auto simp: status_tag_def decode_status_def COMMITTED_TAG_def ABORTED_TAG_def split: txn_status.splits if_splits)

lemma decode_encoded:
  assumes "encode_record C txn status = Inr bs"
  shows "decode_record C bs offset = Inr (txn, status)" "length bs = 32"
proof -
  obtain tag csn where st: "status_tag status = Inr (tag, csn)" and bs: "bs = record_bytes C txn tag csn" and txn: "txn \<noteq> 0"
    using assms by (auto simp: encode_record_exact split: if_splits)
  show "decode_record C bs offset = Inr (txn, status)"
    using txn decode_status_tag[OF st, of offset]
    by (simp add: bs decode_record_def RECORD_SIZE_def record_bytes_fields Let_def)
  show "length bs = 32" by (simp add: bs)
qed

lemma length_status_header [simp]: "length (encode_status_header C) = 16"
  by (simp add: encode_status_header_def STATUS_HEADER_SIZE_def STATUS_MAGIC_def Let_def)

lemma replicate_16: "replicate 16 (0::byte) = replicate 4 0 @ replicate 2 0 @ replicate 2 0 @ replicate 4 0 @ replicate 4 0"
  by (simp add: replicate_add[symmetric])

lemma validate_encoded_header: "validate_status_header C (encode_status_header C @ rest) = Inr ()"
proof -
  have magic: "length STATUS_MAGIC = 4" by (simp add: STATUS_MAGIC_def)
  define front where "front = STATUS_MAGIC @ to_le_bytes STATUS_VERSION @ to_le_bytes (16 :: u16) @ replicate 4 0"
  have front: "length front = 12" by (simp add: front_def magic)
  have h: "encode_status_header C = front @ to_le_bytes (crc32c C (front @ replicate 4 0))"
    unfolding encode_status_header_def STATUS_HEADER_SIZE_def replicate_16 front_def
    by (simp add: copy_at_0 copy_at_skip magic Let_def) (simp add: copy_at_def)
  have "copy_at (take 16 (encode_status_header C @ rest)) 12 (replicate 4 0) = front @ replicate 4 0"
    by (simp add: h front copy_at_def)
  moreover have "slice (encode_status_header C @ rest) 12 16 = to_le_bytes (crc32c C (front @ replicate 4 0))"
    unfolding h append_assoc by (rule slice_append_here) (simp_all add: front)
  moreover have "slice (encode_status_header C @ rest) 0 4 = STATUS_MAGIC"
    "slice (encode_status_header C @ rest) 4 6 = to_le_bytes STATUS_VERSION"
    "slice (encode_status_header C @ rest) 6 8 = to_le_bytes (16 :: u16)"
    "slice (encode_status_header C @ rest) 8 12 = replicate 4 0"
    by (simp_all add: h front_def magic slice_def)
  ultimately show ?thesis by (simp add: validate_status_header_def STATUS_HEADER_SIZE_def)
qed

section \<open>The file as a log\<close>

text \<open>A log entry is encodable; the file is the header and the encoded entries.\<close>

definition entry_bytes_of :: "crc \<Rightarrow> TxnId \<times> txn_status \<Rightarrow> byte list" where
  "entry_bytes_of C e = (case encode_record C (fst e) (snd e) of Inl _ \<Rightarrow> [] | Inr bs \<Rightarrow> bs)"

definition encodable_entry :: "crc \<Rightarrow> TxnId \<times> txn_status \<Rightarrow> bool" where
  "encodable_entry C e \<longleftrightarrow> is_ok (encode_record C (fst e) (snd e))"

lemma encodable_entry_iff: "encodable_entry C e \<longleftrightarrow> encode_record C (fst e) (snd e) = Inr (entry_bytes_of C e)"
  by (auto simp: encodable_entry_def entry_bytes_of_def is_ok_def split: sum.splits)

lemma length_entry: "encodable_entry C e \<Longrightarrow> length (entry_bytes_of C e) = 32"
  using decode_encoded(2) by (simp add: encodable_entry_iff)

lemma length_entries: "list_all (encodable_entry C) log \<Longrightarrow> length (concat (map (entry_bytes_of C) log)) = 32 * length log"
  by (induction log) (simp_all add: length_entry)

lemma chunks_entries:
  assumes "list_all (encodable_entry C) log" "length tail < 32"
  shows "chunks_exact 32 (concat (map (entry_bytes_of C) log) @ tail) = map (entry_bytes_of C) log"
  using assms
proof (induction log)
  case Nil
  then show ?case by (simp add: chunks_exact.simps)
next
  case (Cons e log)
  then show ?case by (simp add: chunks_exact.simps[of 32 "_ @ _ @ _"] length_entry)
qed

definition raise_csn :: "txn_status \<Rightarrow> CommitSeq \<Rightarrow> CommitSeq" where
  "raise_csn status m = (case status of Committed csn \<Rightarrow> max m csn | _ \<Rightarrow> m)"

lemma scan_entries:
  assumes "list_all (encodable_entry C) log" "distinct (map fst log)" "fst ` set log \<inter> dom statuses = {}"
  shows "scan_records C idx (map (entry_bytes_of C) log) (statuses, m) =
    Inr (statuses ++ map_of log, fold (raise_csn \<circ> snd) log m)"
  using assms
proof (induction log arbitrary: idx statuses m)
  case (Cons e log)
  obtain t s where e: "e = (t, s)" by (cases e)
  have "decode_record C (entry_bytes_of C e) off = Inr (t, s)" for off
    using decode_encoded(1)[of C t s "entry_bytes_of C e"] Cons.prems(1) encodable_entry_iff[of C e] by (simp add: e)
  moreover have "insert_status statuses t s = Inr (statuses(t \<mapsto> s))"
    using Cons.prems(3) by (auto simp: e insert_status_def split: option.splits)
  moreover have "fst ` set log \<inter> dom (statuses(t \<mapsto> s)) = {}" using Cons.prems(2,3) by (auto simp: e)
  moreover have "t \<notin> dom (map_of log)" using Cons.prems(2) by (simp add: e dom_map_of_conv_image_fst)
  moreover have "(case s of Committed csn \<Rightarrow> max m csn | _ \<Rightarrow> m) = raise_csn s m" by (simp add: raise_csn_def)
  ultimately show ?case
    using Cons.IH[of "statuses(t \<mapsto> s)" "Suc idx" "raise_csn s m"] Cons.prems(1,2)
    by (simp add: e map_add_upd_left del: fun_upd_apply)
qed simp


section \<open>Histories\<close>

datatype status_op =
    MarkActiveOp TxnId
  | ClearActiveOp TxnId
  | RecordCommittedOp TxnId CommitSeq append_outcome
  | RecordAbortedOp TxnId append_outcome
  | PinOp CommitSeq
  | UnpinOp CommitSeq

fun run_status_op :: "crc \<Rightarrow> status_op \<Rightarrow> txn_status_store \<Rightarrow> txn_status_store" where
  "run_status_op C (MarkActiveOp t) st = mark_active t st"
| "run_status_op C (ClearActiveOp t) st = clear_active t st"
| "run_status_op C (RecordCommittedOp t csn io) st = snd (record_committed C io t csn st)"
| "run_status_op C (RecordAbortedOp t io) st = snd (record_aborted C io t st)"
| "run_status_op C (PinOp csn) st = snd (pin_snapshot csn st)"
| "run_status_op C (UnpinOp csn) st = unpin_snapshot csn st"

abbreviation run_status :: "crc \<Rightarrow> status_op list \<Rightarrow> txn_status_store \<Rightarrow> txn_status_store" where
  "run_status C ops st \<equiv> fold (run_status_op C) ops st"

text \<open>The decided transactions in the order of their records, and the file that stores them.\<close>

definition log_ok :: "crc \<Rightarrow> (TxnId \<times> txn_status) list \<Rightarrow> bool" where
  "log_ok C log \<longleftrightarrow> list_all (encodable_entry C) log \<and> distinct (map fst log)"

definition log_file :: "crc \<Rightarrow> (TxnId \<times> txn_status) list \<Rightarrow> byte list" where
  "log_file C log = encode_status_header C @ concat (map (entry_bytes_of C) log)"

definition highest_csn :: "(TxnId \<times> txn_status) list \<Rightarrow> CommitSeq" where
  "highest_csn log = fold (raise_csn \<circ> snd) log 0"

definition stores :: "crc \<Rightarrow> (TxnId \<times> txn_status) list \<Rightarrow> txn_status_store \<Rightarrow> bool" where
  "stores C log st \<longleftrightarrow>
     log_ok C log \<and> durable st = map_of log \<and> maximum_commit_seq st = highest_csn log \<and>
     (\<not> poisoned st \<longrightarrow> ts_file st = log_file C log)"

lemma length_log_file: "log_ok C log \<Longrightarrow> length (log_file C log) = 16 + 32 * length log"
  by (simp add: log_file_def log_ok_def length_entries)

lemma open_log_file:
  assumes log: "log_ok C log" and tail: "length tail < 32"
  shows "open_for_recovery C OpenDone recs (log_file C log @ tail) =
    (if tail \<noteq> [] \<and> \<not> certified C (map_of log) tail recs then (Inl TsTruncatedRecord, log_file C log @ tail)
     else (Inr \<lparr>ts_file = log_file C log, durable = map_of log, active = {}, snapshots = [],
                maximum_commit_seq = highest_csn log, poisoned = False\<rparr>, log_file C log))"
proof -
  have scan: "scan_records C 0 (chunks_exact 32 (concat (map (entry_bytes_of C) log) @ tail)) (Map.empty, 0) =
      Inr (map_of log, highest_csn log)"
    using scan_entries[of C log Map.empty 0 0] log chunks_entries[of C log tail] tail
    by (simp add: log_ok_def highest_csn_def)
  have "(32 * length log + length tail) mod 32 = length tail" using tail by simp
  then have size: "(length (log_file C log @ tail) - 16) mod 32 = length tail"
    using length_log_file[OF log] by simp
  have valid: "validate_status_header C (log_file C log @ tail) = Inr ()"
    using validate_encoded_header[of C "concat (map (entry_bytes_of C) log) @ tail"] by (simp add: log_file_def)
  have dropped: "drop 16 (log_file C log @ tail) = concat (map (entry_bytes_of C) log) @ tail" by (simp add: log_file_def)
  show ?thesis
    unfolding open_for_recovery_def STATUS_HEADER_SIZE_def RECORD_SIZE_def
    by (simp only: valid dropped bindR_simps scan size Let_def open_outcome.distinct) auto
qed

lemma log_ok_snoc:
  assumes "log_ok C log" "map_of log t = None" "encode_record C t s = Inr bs"
  shows "log_ok C (log @ [(t, s)])" "log_file C (log @ [(t, s)]) = log_file C log @ bs"
    "map_of (log @ [(t, s)]) = (map_of log)(t \<mapsto> s)" "highest_csn (log @ [(t, s)]) = raise_csn s (highest_csn log)"
proof -
  have "t \<notin> dom (map_of log)" using assms(2) by (simp add: domIff)
  then show "map_of (log @ [(t, s)]) = (map_of log)(t \<mapsto> s)" by (simp add: map_add_upd_left)
qed (use assms in \<open>simp_all add: log_ok_def encodable_entry_def log_file_def entry_bytes_of_def map_of_eq_None_iff
    highest_csn_def\<close>)

lemma stores_record:
  assumes "stores C log st" "snd (record_status C io t s st) = st'"
  shows "\<exists>log'. stores C (log @ log') st'"
proof (cases "poisoned st \<or> durable st t \<noteq> None \<or> \<not> is_ok (encode_record C t s) \<or> io \<noteq> AppendDone")
  case True
  then have "stores C log st'"
    using assms by (auto simp: record_status_def stores_def clear_active_def Let_def split: option.splits sum.splits append_outcome.splits)
  then show ?thesis by (intro exI[of _ "[]"]) simp
next
  case False
  then obtain bs where bs: "encode_record C t s = Inr bs" by (auto simp: is_ok_def split: sum.splits)
  have "map_of log t = None" "log_ok C log" using assms(1) False by (simp_all add: stores_def)
  note snoc = log_ok_snoc[OF this(2,1) bs]
  have "stores C (log @ [(t, s)]) st'"
    using False assms bs snoc by (auto simp: record_status_def stores_def raise_csn_def split: txn_status.split)
  then show ?thesis by blast
qed

lemma stores_step:
  assumes "stores C log st"
  shows "\<exists>log'. stores C (log @ log') (run_status_op C oper st)"
proof -
  have keep: "stores C log st' \<Longrightarrow> \<exists>log'. stores C (log @ log') st'" for st' by (intro exI[of _ "[]"]) simp
  show ?thesis
  proof (cases oper)
    case (PinOp csn)
    then show ?thesis using assms keep by (auto simp: pin_snapshot_def stores_def Let_def split: option.splits)
  next
    case (UnpinOp csn)
    then show ?thesis using assms keep by (auto simp: unpin_snapshot_def stores_def Let_def split: option.splits)
  qed (use assms keep stores_record[OF assms] in
      \<open>auto simp: mark_active_def clear_active_def record_committed_def record_aborted_def stores_def\<close>)
qed

lemma stores_run: "stores C log st \<Longrightarrow> \<exists>log'. stores C (log @ log') (run_status C ops st)"
proof (induction ops arbitrary: log st)
  case Nil
  then show ?case by (intro exI[of _ "[]"]) simp
next
  case (Cons oper ops)
  then obtain l1 where "stores C (log @ l1) (run_status_op C oper st)" using stores_step by blast
  from Cons.IH[OF this] show ?case by auto
qed

lemma stores_create: "stores C [] (status_create C)"
  by (simp add: stores_def status_create_def log_ok_def log_file_def highest_csn_def)

lemma highest_csn_bound: "(t, Committed csn) \<in> set log \<Longrightarrow> csn \<le> highest_csn log"
proof (induction log rule: rev_induct)
  case (snoc e log)
  then show ?case by (auto simp: highest_csn_def raise_csn_def le_max_iff_disj split: txn_status.splits)
qed simp

section \<open>Pinned snapshots\<close>

fun pin_multiset :: "status_op \<Rightarrow> CommitSeq multiset \<Rightarrow> CommitSeq multiset" where
  "pin_multiset (PinOp csn) M = add_mset csn M"
| "pin_multiset (UnpinOp csn) M = M - {#csn#}"
| "pin_multiset _ M = M"

definition pins :: "CommitSeq multiset \<Rightarrow> txn_status_store \<Rightarrow> bool" where
  "pins M st \<longleftrightarrow>
     bt_sorted (snapshots st) \<and>
     (\<forall>c. bt_get (snapshots st) c = (if count M c = 0 then None else Some (of_nat (count M c))))"

lemma snapshots_record [simp]: "snapshots (snd (record_status C io t s st)) = snapshots st"
  by (simp add: record_status_def clear_active_def Let_def split: option.splits sum.splits append_outcome.splits)

lemma of_nat_u64_zero: "n < 2 ^ 64 \<Longrightarrow> (of_nat n :: u64) = 0 \<longleftrightarrow> n = 0"
  by (simp only: unat_eq_0[symmetric] unat_of_nat_u64)

lemma pins_pin:
  assumes "pins M st" "size M + 1 < 2 ^ 64"
  shows "pins (add_mset csn M) (snd (pin_snapshot csn st))"
proof -
  let ?n = "count M csn"
  have n: "?n + 1 < 2 ^ 64" using assms(2) count_le_size[of M csn] by simp
  have "(case bt_get (snapshots st) csn of None \<Rightarrow> 0 | Some n \<Rightarrow> n) = (of_nat ?n :: u64)"
    using assms(1) by (auto simp: pins_def)
  moreover have "checked_add_u64 (of_nat ?n) 1 = Some (of_nat (?n + 1))"
    using n unat_of_nat_u64[of ?n] by (simp add: checked_add_u64_def add.commute)
  ultimately have "snapshots (snd (pin_snapshot csn st)) = bt_insert csn (of_nat (?n + 1)) (snapshots st)"
    by (simp add: pin_snapshot_def)
  then show ?thesis using assms(1) by (auto simp: pins_def bt_get_insert count_eq_zero_iff)
qed

lemma pins_unpin:
  assumes "pins M st" "size M < 2 ^ 64"
  shows "pins (M - {#csn#}) (unpin_snapshot csn st)"
proof (cases "count M csn")
  case 0
  then show ?thesis using assms(1) by (auto simp: pins_def unpin_snapshot_def count_eq_zero_iff)
next
  case (Suc n)
  have n: "Suc n < 2 ^ 64" using assms(2) count_le_size[of M csn] Suc by simp
  have "bt_get (snapshots st) csn = Some (of_nat (Suc n))" using assms(1) Suc by (simp add: pins_def)
  moreover have "(of_nat (Suc n) :: u64) \<noteq> 0" using of_nat_u64_zero[OF n] by simp
  moreover have "(of_nat (Suc n) - 1 :: u64) = of_nat n" "(of_nat n :: u64) = 0 \<longleftrightarrow> n = 0"
    using of_nat_u64_zero[of n] n by simp_all
  ultimately have "snapshots (unpin_snapshot csn st) =
      (if n = 0 then bt_remove csn (snapshots st) else bt_insert csn (of_nat n) (snapshots st))"
    by (simp add: unpin_snapshot_def Let_def del: of_nat_Suc)
  then show ?thesis using assms(1) Suc by (auto simp: pins_def bt_get_insert bt_get_remove count_eq_zero_iff)
qed

lemma pins_run:
  assumes "pins M st" "size M + length ops < 2 ^ 64"
  shows "pins (fold pin_multiset ops M) (run_status C ops st)"
  using assms
proof (induction ops arbitrary: M st)
  case (Cons oper ops)
  have "size (pin_multiset oper M) \<le> Suc (size M)" by (cases oper) (auto intro: le_SucI size_Diff1_le)
  moreover have "pins (pin_multiset oper M) (run_status_op C oper st)"
    using Cons.prems pins_pin[of M st] pins_unpin[of M st]
    by (cases oper) (auto simp: pins_def mark_active_def clear_active_def record_committed_def record_aborted_def)
  ultimately show ?case using Cons.IH Cons.prems(2) by simp
qed simp

lemma oldest_pin:
  assumes "pins M st"
  shows "oldest_snapshot st = (if M = {#} then None else Some (Min (set_mset M)))"
proof (cases "bt_first (snapshots st)")
  case None
  then have "bt_get (snapshots st) c = None" for c using bt_first_None[of "snapshots st"] by simp
  then have "count M c = 0" for c using assms by (auto simp: pins_def split: if_splits)
  then have "M = {#}" by (simp add: multiset_eq_iff)
  then show ?thesis using None by (simp add: oldest_snapshot_def)
next
  case (Some e)
  obtain c n where e: "e = (c, n)" by (cases e)
  have first: "bt_get (snapshots st) c = Some n" "\<forall>a \<in> dom (bt_get (snapshots st)). c \<le> a"
    using bt_first_Some[of "snapshots st" c n] assms Some by (auto simp: e pins_def)
  have mem: "a \<in> dom (bt_get (snapshots st)) \<longleftrightarrow> a \<in># M" for a
    using assms by (auto simp: pins_def dom_def count_eq_zero_iff split: if_splits)
  have "c \<in># M" using first(1) mem by auto
  moreover have "\<forall>a \<in># M. c \<le> a" using first(2) mem by auto
  ultimately have "Min (set_mset M) = c" "M \<noteq> {#}" by (auto intro: Min_eqI)
  then show ?thesis using Some by (simp add: oldest_snapshot_def e)
qed

lemma pins_create: "pins {#} (status_create C)"
  by (simp add: pins_def status_create_def)

section \<open>Properties\<close>

text \<open>The store after a reopening: nothing is active or pinned and the writer works again.\<close>

definition reopened :: "txn_status_store \<Rightarrow> txn_status_store" where
  "reopened st = st\<lparr>active := {}, snapshots := [], poisoned := False\<rparr>"

lemma certified_by_decision:
  assumes "r \<in> set recs" "decision_of r = Some s" "rec_txn_id r = t" "statuses t = None" "encode_record C t s = Inr bs"
  shows "certified C statuses (take k bs) recs"
  using assms by (auto simp: certified_def list_ex_iff min_def intro!: bexI[of _ r])

text \<open>C22. Let a store have run any history of operations, I/O failures included, without being poisoned, and let a
  further decision for a still undecided transaction be cut off after its first k bytes, as a crash or a failed
  cleanup leaves it. Reopening the file restores exactly the recorded decisions and the highest commit sequence. A
  complete record counts as decided. A partial one is removed from the file when a decision in the log certifies it,
  which the log record of that very decision always does; otherwise the file is rejected and kept as it is.\<close>

theorem status_log_recovery:
  assumes st: "st = run_status C ops (status_create C)" "\<not> poisoned st"
    and undecided: "durable st t = None" and bytes: "encode_record C t s = Inr bs"
  shows "open_for_recovery C OpenDone recs (ts_file st @ take k bs) =
    (if 32 \<le> k then
       (Inr (reopened (snd (record_status C AppendDone t s st))), ts_file st @ bs)
     else if 0 < k \<and> \<not> certified C (durable st) (take k bs) recs then
       (Inl TsTruncatedRecord, ts_file st @ take k bs)
     else (Inr (reopened st), ts_file st)) \<and>
   (\<forall>r \<in> set recs. decision_of r = Some s \<and> rec_txn_id r = t \<longrightarrow> certified C (durable st) (take k bs) recs)"
proof -
  obtain log where log: "stores C log st" using stores_run[OF stores_create, of C ops] st(1) by auto
  have content: "ts_file st = log_file C log" "durable st = map_of log" "maximum_commit_seq st = highest_csn log" "log_ok C log"
    using log st(2) by (simp_all add: stores_def)
  have len: "length bs = 32" using decode_encoded(2)[OF bytes] .
  have cert: "\<forall>r \<in> set recs. decision_of r = Some s \<and> rec_txn_id r = t \<longrightarrow> certified C (durable st) (take k bs) recs"
    using certified_by_decision[where statuses = "durable st", OF _ _ _ undecided bytes] by blast
  show ?thesis
  proof (cases "32 \<le> k")
    case True
    have "map_of log t = None" using undecided content by simp
    note snoc = log_ok_snoc[OF content(4) this bytes]
    have "open_for_recovery C OpenDone recs (log_file C (log @ [(t, s)])) =
        (Inr \<lparr>ts_file = log_file C (log @ [(t, s)]), durable = map_of (log @ [(t, s)]), active = {}, snapshots = [],
          maximum_commit_seq = highest_csn (log @ [(t, s)]), poisoned = False\<rparr>, log_file C (log @ [(t, s)]))"
      using open_log_file[OF snoc(1), of "[]" recs] by simp
    then show ?thesis
      using True len st(2) undecided bytes cert snoc(2-)
      by (auto simp: reopened_def record_status_def content raise_csn_def split: txn_status.split)
  next
    case False
    then have "length (take k bs) < 32" by (simp add: len)
    from open_log_file[OF content(4) this, of recs] show ?thesis
      using False len cert st(2) by (auto simp: reopened_def content)
  qed
qed

definition sample_commit :: wal_record where
  "sample_commit = \<lparr>rec_lsn = 9, rec_txn_id = 5, rec_prev_lsn = Some 8, rec_kind = Commit\<rparr>"

lemma sample_status_encodes: "\<exists>bs. encode_record C 5 (Committed 9) = Inr bs"
  by (simp add: encode_record_exact status_tag_def)

theorem status_log_recovery_witness:
  "\<exists>bs. encode_record sample_crc 5 (Committed 9) = Inr bs \<and>
     fst (open_for_recovery sample_crc OpenDone [sample_commit]
       (ts_file (run_status sample_crc [MarkActiveOp 5, RecordAbortedOp 4 AppendDone] (status_create sample_crc)) @ take 17 bs)) =
     Inr (reopened (run_status sample_crc [MarkActiveOp 5, RecordAbortedOp 4 AppendDone] (status_create sample_crc)))"
proof -
  let ?st = "run_status sample_crc [MarkActiveOp 5, RecordAbortedOp 4 AppendDone] (status_create sample_crc)"
  obtain bs where bs: "encode_record sample_crc 5 (Committed 9) = Inr bs" using sample_status_encodes by blast
  have st: "\<not> poisoned ?st" "durable ?st 5 = None"
    by (simp_all add: status_create_def mark_active_def record_aborted_def record_status_def encode_record_exact status_tag_def)
  have "certified sample_crc (durable ?st) (take 17 bs) [sample_commit]"
    by (rule certified_by_decision[where r = sample_commit and statuses = "durable ?st", OF _ _ _ st(2) bs]) (simp_all add: sample_commit_def decision_of_def)
  with status_log_recovery[OF refl st bs, of "[sample_commit]" 17] bs show ?thesis by auto
qed

text \<open>C23. A recorded decision is final: whatever operations follow and whatever the operating system answers, the
  transaction keeps its status. The highest commit sequence bounds every recorded one, so the next snapshot sees
  every transaction recorded as committed. A recording that reports success has stored its decision.\<close>

theorem status_decisions_final:
  assumes "st = run_status C before (status_create C)"
  shows "(durable st t = Some s \<longrightarrow> status_of (run_status C later st) t = Inr s) \<and>
    (durable st t = Some (Committed csn) \<longrightarrow> csn \<le> maximum_commit_seq st) \<and>
    (record_status C io t s st = (Inr (), st') \<longrightarrow> durable st' t = Some s)"
proof -
  obtain log where log: "stores C log st" using stores_run[OF stores_create, of C before] assms by auto
  obtain log' where log': "stores C (log @ log') (run_status C later st)" using stores_run[OF log] by blast
  have "durable (run_status C later st) t = Some s" if "durable st t = Some s"
  proof -
    have "distinct (map fst (log @ log'))" using log' by (simp add: stores_def log_ok_def)
    moreover have "(t, s) \<in> set (log @ log')" using that log map_of_SomeD by (fastforce simp: stores_def)
    ultimately show ?thesis using log' by (simp only: stores_def map_of_is_SomeI)
  qed
  moreover have "csn \<le> maximum_commit_seq st" if "durable st t = Some (Committed csn)"
    using that log highest_csn_bound[of t csn log] by (auto simp: stores_def dest: map_of_SomeD)
  ultimately show ?thesis
    by (auto simp: status_of_def record_status_def clear_active_def Let_def
        split: option.splits sum.splits append_outcome.splits if_splits)
qed

theorem status_decisions_final_witness:
  "status_of (run_status sample_crc [RecordAbortedOp 5 AppendDone, ClearActiveOp 5, RecordCommittedOp 6 3 (AppendFailed 4 False)]
      (run_status sample_crc [RecordCommittedOp 5 9 AppendDone] (status_create sample_crc))) 5 = Inr (Committed 9)"
proof -
  have "durable (run_status sample_crc [RecordCommittedOp 5 9 AppendDone] (status_create sample_crc)) 5 = Some (Committed 9)"
    by (simp add: status_create_def record_committed_def record_status_def encode_record_exact status_tag_def)
  then show ?thesis
    using status_decisions_final[OF refl, of sample_crc "[RecordCommittedOp 5 9 AppendDone]" 5 "Committed 9"] by blast
qed

text \<open>C34. The oldest pinned snapshot is the smallest commit sequence that is pinned more often than unpinned over any
  history of fewer than 2 to the 64 operations, and there is one exactly when some snapshot is pinned. No pin is lost
  to a counter overflow.\<close>

theorem oldest_snapshot_exact:
  assumes "length ops < 2 ^ 64"
  shows "oldest_snapshot (run_status C ops (status_create C)) =
    (let pinned = fold pin_multiset ops {#} in if pinned = {#} then None else Some (Min (set_mset pinned)))"
  using oldest_pin[OF pins_run[OF pins_create, of ops C]] assms by (simp add: Let_def)

theorem oldest_snapshot_exact_witness:
  "oldest_snapshot (run_status sample_crc [PinOp 7, PinOp 4, PinOp 9, UnpinOp 4] (status_create sample_crc)) = Some 7"
proof -
  have "Min {7, 9 :: CommitSeq} = 7" by (simp add: min_def word_le_nat_alt)
  then show ?thesis using oldest_snapshot_exact[of "[PinOp 7, PinOp 4, PinOp 9, UnpinOp 4]" sample_crc] by simp
qed

end
