(* ===== verification/Mvcc.thy ===== *)
theory Mvcc
  imports Txn_Status
begin

text \<open>
  Multi-version tuples of \<open>crates/netbadb-heap/src/mvcc.rs\<close>: the 48-byte tuple header and its codec, the
  visibility of a version to a snapshot, and the test by which vacuum (\<open>heap.rs\<close>) reclaims versions.
\<close>

unbundle bit_operations_syntax

definition TUPLE_MAGIC :: "byte list" where "TUPLE_MAGIC = [0x4E, 0x42, 0x4D, 0x56]"
definition TUPLE_VERSION :: u16 where "TUPLE_VERSION = 1"
definition TUPLE_HEADER_SIZE :: usize where "TUPLE_HEADER_SIZE = 48"
definition HAS_XMAX :: u16 where "HAS_XMAX = 1"
definition HAS_CMAX :: u16 where "HAS_CMAX = 2"
definition HAS_NEXT_VERSION :: u16 where "HAS_NEXT_VERSION = 4"
definition KNOWN_FLAGS :: u16 where "KNOWN_FLAGS = HAS_XMAX OR HAS_CMAX OR HAS_NEXT_VERSION"

record tuple_header =
  xmin :: TxnId
  xmax :: "TxnId option"
  cmin :: CommandId
  cmax :: "CommandId option"
  next_version :: "row_id option"

text \<open>A read view is its snapshot; the shared store of statuses is passed along.\<close>

definition read_view_new :: "snapshot \<Rightarrow> txn_status_store \<Rightarrow> (storage_error, snapshot) res \<times> txn_status_store" where
  "read_view_new snap st =
     (case pin_snapshot (visible_csn snap) st of
        (Inl e, st) \<Rightarrow> (Inl (SeTxnStatus e), st)
      | (Inr _, st) \<Rightarrow> (Inr snap, st))"

definition read_view_drop :: "snapshot \<Rightarrow> txn_status_store \<Rightarrow> txn_status_store" where
  "read_view_drop snap st = unpin_snapshot (visible_csn snap) st"

definition inserted_by :: "TxnId \<Rightarrow> CommandId \<Rightarrow> tuple_header" where
  "inserted_by t c = \<lparr>xmin = t, xmax = None, cmin = c, cmax = None, next_version = None\<rparr>"

definition expire :: "TxnId \<Rightarrow> CommandId \<Rightarrow> row_id option \<Rightarrow> tuple_header \<Rightarrow> tuple_header" where
  "expire t c next_row h = h\<lparr>xmax := Some t, cmax := Some c, next_version := next_row\<rparr>"

section \<open>The tuple codec\<close>

definition tuple_flags :: "tuple_header \<Rightarrow> u16" where
  "tuple_flags h =
     (let flags = 0;
          flags = (if xmax h \<noteq> None then flags OR HAS_XMAX else flags);
          flags = (if cmax h \<noteq> None then flags OR HAS_CMAX else flags)
      in if next_version h \<noteq> None then flags OR HAS_NEXT_VERSION else flags)"

definition encode_tuple :: "tuple_header \<Rightarrow> byte list \<Rightarrow> byte list" where
  "encode_tuple h row_payload =
     (let bytes = replicate TUPLE_HEADER_SIZE 0;
          bytes = copy_at bytes 0 TUPLE_MAGIC;
          bytes = copy_at bytes 4 (to_le_bytes TUPLE_VERSION);
          bytes = copy_at bytes 6 (to_le_bytes (tuple_flags h));
          bytes = copy_at bytes 8 (to_le_bytes (xmin h));
          bytes = copy_at bytes 16 (to_le_bytes (case xmax h of None \<Rightarrow> 0 | Some t \<Rightarrow> t));
          bytes = copy_at bytes 24 (to_le_bytes (cmin h));
          bytes = copy_at bytes 28 (to_le_bytes (case cmax h of None \<Rightarrow> 0 | Some c \<Rightarrow> c));
          bytes = (case next_version h of
                     None \<Rightarrow> bytes
                   | Some r \<Rightarrow>
                       copy_at (copy_at (copy_at bytes 32 (to_le_bytes (row_page r)))
                         40 (to_le_bytes (ucast (row_slot r) :: u32))) 44 (to_le_bytes (row_generation r)))
      in bytes @ row_payload)"

definition tuple_read :: "string \<Rightarrow> byte list \<Rightarrow> usize \<Rightarrow> (storage_error, 'a::len word) res" where
  "tuple_read truncated bytes offset =
     bindR (ok_or (InvalidMvccHeader ''tuple offset overflow'') (checked_add offset (LENGTH('a) div 8))) (\<lambda>end.
     bindR (ok_or (InvalidMvccHeader ''tuple header is truncated'') (get_range bytes offset end)) (\<lambda>value.
     bindR (ensure (length value = LENGTH('a) div 8) (InvalidMvccHeader truncated)) (\<lambda>_.
     Inr (from_le_bytes value))))"

definition read_u64 :: "byte list \<Rightarrow> usize \<Rightarrow> (storage_error, u64) res" where
  "read_u64 bytes offset = tuple_read ''tuple u64 is truncated'' bytes offset"

definition read_u32 :: "byte list \<Rightarrow> usize \<Rightarrow> (storage_error, u32) res" where
  "read_u32 bytes offset = tuple_read ''tuple u32 is truncated'' bytes offset"

definition optional_txn :: "u16 \<Rightarrow> u64 \<Rightarrow> (storage_error, TxnId option) res" where
  "optional_txn flags raw =
     (if flags AND HAS_XMAX \<noteq> 0 then
        (if raw = 0 then Inl (InvalidMvccHeader ''present xmax is zero'') else Inr (Some raw))
      else if raw = 0 then Inr None
      else Inl (InvalidMvccHeader ''absent xmax contains data''))"

definition optional_command :: "u16 \<Rightarrow> u32 \<Rightarrow> (storage_error, CommandId option) res" where
  "optional_command flags raw =
     (if flags AND HAS_CMAX \<noteq> 0 then
        (if raw = 0 then Inl (InvalidMvccHeader ''present cmax is zero'') else Inr (Some raw))
      else if raw = 0 then Inr None
      else Inl (InvalidMvccHeader ''absent cmax contains data''))"

definition decode_next_version :: "u16 \<Rightarrow> u64 \<Rightarrow> u32 \<Rightarrow> u32 \<Rightarrow> (storage_error, row_id option) res" where
  "decode_next_version flags raw_page raw_slot raw_generation =
     (if flags AND HAS_NEXT_VERSION \<noteq> 0 then
        bindR (ok_or (InvalidMvccHeader ''version slot exceeds u16'') (u16_try_from (unat raw_slot))) (\<lambda>slot.
        bindR (ensure (\<not> (raw_page = 0 \<or> raw_generation = 0))
                 (InvalidMvccHeader ''version pointer contains a zero component'')) (\<lambda>_.
        Inr (Some \<lparr>row_page = raw_page, row_slot = slot, row_generation = raw_generation\<rparr>)))
      else
        bindR (ensure (\<not> (raw_page \<noteq> 0 \<or> raw_slot \<noteq> 0 \<or> raw_generation \<noteq> 0))
                 (InvalidMvccHeader ''absent version pointer contains data'')) (\<lambda>_. Inr None))"

definition decode_tuple :: "byte list \<Rightarrow> (storage_error, tuple_header \<times> byte list) res" where
  "decode_tuple payload =
     bindR (ensure (\<not> length payload < TUPLE_HEADER_SIZE) (InvalidMvccHeader ''tuple header is truncated'')) (\<lambda>_.
     bindR (ensure (slice payload 0 4 = TUPLE_MAGIC) (InvalidMvccHeader ''tuple magic does not match'')) (\<lambda>_.
     let version = from_le_bytes [payload ! 4, payload ! 5]
     in bindR (ensure (version = TUPLE_VERSION) (UnsupportedTupleVersion version)) (\<lambda>_.
     let flags = from_le_bytes [payload ! 6, payload ! 7]
     in bindR (ensure (flags AND NOT KNOWN_FLAGS = 0) (InvalidMvccHeader ''tuple flags are invalid'')) (\<lambda>_.
     bindR (read_u64 payload 8) (\<lambda>xmin.
     bindR (ensure (xmin \<noteq> 0) (InvalidMvccHeader ''tuple xmin is zero'')) (\<lambda>_.
     bindR (read_u64 payload 16) (\<lambda>raw_xmax.
     bindR (read_u32 payload 24) (\<lambda>cmin.
     bindR (ensure (cmin \<noteq> 0) (InvalidMvccHeader ''tuple cmin is zero'')) (\<lambda>_.
     bindR (read_u32 payload 28) (\<lambda>raw_cmax.
     bindR (read_u64 payload 32) (\<lambda>raw_next_page.
     bindR (read_u32 payload 40) (\<lambda>raw_next_slot.
     bindR (read_u32 payload 44) (\<lambda>raw_next_generation.
     bindR (optional_txn flags raw_xmax) (\<lambda>xmax.
     bindR (optional_command flags raw_cmax) (\<lambda>cmax.
     bindR (ensure ((xmax \<noteq> None) = (cmax \<noteq> None)) (InvalidMvccHeader ''tuple xmax and cmax presence differ'')) (\<lambda>_.
     bindR (decode_next_version flags raw_next_page raw_next_slot raw_next_generation) (\<lambda>next_version.
     Inr (\<lparr>xmin = xmin, xmax = xmax, cmin = cmin, cmax = cmax, next_version = next_version\<rparr>,
          drop TUPLE_HEADER_SIZE payload))))))))))))))))))"

section \<open>Visibility\<close>

definition inserted_visible :: "tuple_header \<Rightarrow> snapshot \<Rightarrow> txn_status_store \<Rightarrow> (storage_error, bool) res" where
  "inserted_visible h snap st =
     (if own_txn snap = Some (xmin h) then Inr (cmin h \<le> command_id snap)
      else
        bindR (map_err SeTxnStatus (status_of st (xmin h))) (\<lambda>status.
        Inr (case status of TxnActive \<Rightarrow> False | Aborted \<Rightarrow> False | Committed csn \<Rightarrow> csn \<le> visible_csn snap)))"

definition is_visible :: "tuple_header \<Rightarrow> snapshot \<Rightarrow> txn_status_store \<Rightarrow> (storage_error, bool) res" where
  "is_visible h snap st =
     bindR (inserted_visible h snap st) (\<lambda>inserted.
     if \<not> inserted then Inr False
     else
       case xmax h of
         None \<Rightarrow> Inr True
       | Some x \<Rightarrow>
           if own_txn snap = Some x then
             bindR (ok_or (InvalidMvccHeader ''xmax is missing cmax'') (cmax h)) (\<lambda>c. Inr (c > command_id snap))
           else
             bindR (map_err SeTxnStatus (status_of st x)) (\<lambda>status.
             Inr (case status of TxnActive \<Rightarrow> True | Aborted \<Rightarrow> True | Committed csn \<Rightarrow> csn > visible_csn snap)))"

definition is_dead_before :: "tuple_header \<Rightarrow> CommitSeq \<Rightarrow> txn_status_store \<Rightarrow> (txn_status_error, bool) res" where
  "is_dead_before h horizon st =
     bindR (status_of st (xmin h)) (\<lambda>status.
     case status of
       Aborted \<Rightarrow> Inr True
     | TxnActive \<Rightarrow> Inr False
     | Committed _ \<Rightarrow>
         (case xmax h of
            None \<Rightarrow> Inr False
          | Some x \<Rightarrow>
              bindR (status_of st x) (\<lambda>status.
              Inr (case status of Committed csn \<Rightarrow> csn \<le> horizon | TxnActive \<Rightarrow> False | Aborted \<Rightarrow> False))))"

text \<open>The horizon of \<open>vacuum\<close>.\<close>

definition vacuum_horizon :: "txn_status_store \<Rightarrow> CommitSeq" where
  "vacuum_horizon st = (case oldest_snapshot st of Some csn \<Rightarrow> csn | None \<Rightarrow> maximum_commit_seq st)"

section \<open>The codec is exact\<close>

definition wf_tuple_header :: "tuple_header \<Rightarrow> bool" where
  "wf_tuple_header h \<longleftrightarrow>
     xmin h \<noteq> 0 \<and> cmin h \<noteq> 0 \<and> xmax h \<noteq> Some 0 \<and> cmax h \<noteq> Some 0 \<and> (xmax h = None) = (cmax h = None) \<and>
     (case next_version h of None \<Rightarrow> True | Some r \<Rightarrow> row_page r \<noteq> 0 \<and> row_generation r \<noteq> 0)"

definition next_bytes :: "row_id option \<Rightarrow> byte list" where
  "next_bytes r =
     (case r of
        None \<Rightarrow> to_le_bytes (0 :: u64) @ to_le_bytes (0 :: u32) @ to_le_bytes (0 :: u32)
      | Some r \<Rightarrow> to_le_bytes (row_page r) @ to_le_bytes (ucast (row_slot r) :: u32) @ to_le_bytes (row_generation r))"

lemma replicate_48: "replicate 48 (0::byte) = replicate 4 0 @ replicate 2 0 @ replicate 2 0 @ replicate 8 0 @ replicate 8 0 @
    replicate 4 0 @ replicate 4 0 @ replicate 8 0 @ replicate 4 0 @ replicate 4 0"
  by (simp add: replicate_add[symmetric])

lemma encode_tuple_exact:
  "encode_tuple h rest =
     TUPLE_MAGIC @ to_le_bytes TUPLE_VERSION @ to_le_bytes (tuple_flags h) @ to_le_bytes (xmin h) @
     to_le_bytes (case xmax h of None \<Rightarrow> 0 | Some t \<Rightarrow> t) @ to_le_bytes (cmin h) @
     to_le_bytes (case cmax h of None \<Rightarrow> 0 | Some c \<Rightarrow> c) @ next_bytes (next_version h) @ rest"
proof -
  have magic: "length TUPLE_MAGIC = 4" by (simp add: TUPLE_MAGIC_def)
  show ?thesis
    unfolding encode_tuple_def TUPLE_HEADER_SIZE_def replicate_48
    by (cases "next_version h")
       (simp_all add: copy_at_0 copy_at_all copy_at_skip magic next_bytes_def to_le_bytes_zero Let_def del: append_replicate_commute)
qed

lemma known_flags: "KNOWN_FLAGS = 7"
  by (simp add: KNOWN_FLAGS_def HAS_XMAX_def HAS_CMAX_def HAS_NEXT_VERSION_def)

lemmas tuple_consts = HAS_XMAX_def HAS_CMAX_def HAS_NEXT_VERSION_def known_flags

lemma tuple_flags_bits:
  "tuple_flags h AND NOT KNOWN_FLAGS = 0"
  "tuple_flags h AND HAS_XMAX \<noteq> 0 \<longleftrightarrow> xmax h \<noteq> None"
  "tuple_flags h AND HAS_CMAX \<noteq> 0 \<longleftrightarrow> cmax h \<noteq> None"
  "tuple_flags h AND HAS_NEXT_VERSION \<noteq> 0 \<longleftrightarrow> next_version h \<noteq> None"
  by (simp_all add: tuple_flags_def tuple_consts Let_def)

lemma covered_mask: "(w :: u16) AND NOT m = 0 \<Longrightarrow> w AND m = w"
  by (auto simp: bit_eq_iff bit_simps)

lemma flags_determined:
  assumes "flags AND NOT KNOWN_FLAGS = 0"
    "flags AND HAS_XMAX \<noteq> 0 \<longleftrightarrow> xmax h \<noteq> None" "flags AND HAS_CMAX \<noteq> 0 \<longleftrightarrow> cmax h \<noteq> None"
    "flags AND HAS_NEXT_VERSION \<noteq> 0 \<longleftrightarrow> next_version h \<noteq> None"
  shows "flags = tuple_flags h"
proof -
  have "KNOWN_FLAGS = mask 3" by (simp add: known_flags mask_eq_exp_minus_1)
  then have "flags = take_bit 3 flags" using covered_mask[OF assms(1)] by (simp add: take_bit_eq_mask)
  then have "unat flags = take_bit 3 (unat flags)" by (metis unsigned_take_bit_eq)
  then have "unat flags < 8" using take_bit_nat_less_exp[of 3 "unat flags"] by simp
  then have "unat flags = 0 \<or> unat flags = 1 \<or> unat flags = 2 \<or> unat flags = 3 \<or> unat flags = 4 \<or> unat flags = 5 \<or>
    unat flags = 6 \<or> unat flags = 7" by arith
  then have "flags = 0 \<or> flags = 1 \<or> flags = 2 \<or> flags = 3 \<or> flags = 4 \<or> flags = 5 \<or> flags = 6 \<or> flags = 7"
    by (simp add: word_unat_eq_iff)
  then show ?thesis using assms(2-) by (auto simp: tuple_flags_def tuple_consts Let_def split: if_splits)
qed

lemma tuple_reads:
  "off + 8 \<le> length p \<Longrightarrow> off \<le> 100 \<Longrightarrow> read_u64 p off = Inr (from_le_bytes (slice p off (off + 8)))"
  "off + 4 \<le> length p \<Longrightarrow> off \<le> 100 \<Longrightarrow> read_u32 p off = Inr (from_le_bytes (slice p off (off + 4)))"
  by (simp_all add: read_u64_def read_u32_def tuple_read_def checked_add_def USIZE_MAX_def get_range_def)

lemma ucast_slot: "unat (ucast (w :: u16) :: u32) = unat w"
  using unat_u16_le[of w] by (simp add: unsigned_ucast_eq take_bit_nat_eq_self U16_MAX_def)

lemma decode_next_exact:
  "decode_next_version flags pg sl g = Inr r \<longleftrightarrow>
     ((flags AND HAS_NEXT_VERSION \<noteq> 0) = (r \<noteq> None)) \<and>
     (case r of None \<Rightarrow> pg = 0 \<and> sl = 0 \<and> g = 0
      | Some r \<Rightarrow> row_page r \<noteq> 0 \<and> row_generation r \<noteq> 0 \<and> pg = row_page r \<and> sl = ucast (row_slot r) \<and> g = row_generation r)"
proof -
  have slot: "u16_try_from (unat sl) = Some w \<longleftrightarrow> sl = ucast w" for w
  proof
    assume "u16_try_from (unat sl) = Some w"
    then have "unat sl \<le> 65535" "w = of_nat (unat sl)" by (auto simp: u16_try_from_Some_iff U16_MAX_def)
    then have "unat (ucast w :: u32) = unat sl" using ucast_slot[of w] unat_of_nat_u16[of "unat sl"] by (simp add: U16_MAX_def)
    then show "sl = ucast w" by (simp add: word_unat_eq_iff)
  next
    assume "sl = ucast w"
    then show "u16_try_from (unat sl) = Some w"
      using unat_u16_le[of w] by (simp add: u16_try_from_Some_iff ucast_slot)
  qed
  show ?thesis
    by (cases r) (auto simp: decode_next_version_def slot intro!: row_id.equality)
qed

lemma optional_txn_exact:
  "optional_txn flags raw = Inr x \<longleftrightarrow>
     ((flags AND HAS_XMAX \<noteq> 0) = (x \<noteq> None)) \<and> x \<noteq> Some 0 \<and> raw = (case x of None \<Rightarrow> 0 | Some t \<Rightarrow> t)"
  by (auto simp: optional_txn_def split: option.splits if_splits)

lemma optional_command_exact:
  "optional_command flags raw = Inr x \<longleftrightarrow>
     ((flags AND HAS_CMAX \<noteq> 0) = (x \<noteq> None)) \<and> x \<noteq> Some 0 \<and> raw = (case x of None \<Rightarrow> 0 | Some c \<Rightarrow> c)"
  by (auto simp: optional_command_def split: option.splits if_splits)

text \<open>The twelve fields of a payload that is long enough.\<close>

lemma tuple_slices:
  assumes "48 \<le> length p"
  shows "p = slice p 0 4 @ slice p 4 6 @ slice p 6 8 @ slice p 8 16 @ slice p 16 24 @ slice p 24 28 @ slice p 28 32 @
    slice p 32 40 @ slice p 40 44 @ slice p 44 48 @ drop 48 p"
proof -
  have glue: "slice p a b @ drop b p = drop a p" if "a \<le> b" for a b
    using that by (simp add: slice_def) (metis append_take_drop_id drop_drop le_add_diff_inverse2)
  show ?thesis by (simp add: glue)
qed

lemma decode_encoded_tuple:
  assumes "wf_tuple_header h"
  shows "decode_tuple (encode_tuple h rest) = Inr (h, rest)"
proof -
  let ?p = "encode_tuple h rest"
  have magic: "length TUPLE_MAGIC = 4" by (simp add: TUPLE_MAGIC_def)
  have next_len: "length (next_bytes r) = 16" for r by (simp add: next_bytes_def split: option.split)
  have len: "length ?p = 48 + length rest" by (simp add: encode_tuple_exact magic next_len)
  define np where "np = (case next_version h of None \<Rightarrow> 0 | Some r \<Rightarrow> row_page r)"
  define ns :: u32 where "ns = (case next_version h of None \<Rightarrow> 0 | Some r \<Rightarrow> ucast (row_slot r))"
  define ng where "ng = (case next_version h of None \<Rightarrow> 0 | Some r \<Rightarrow> row_generation r)"
  have nb: "next_bytes (next_version h) = to_le_bytes np @ to_le_bytes ns @ to_le_bytes ng"
    by (simp add: next_bytes_def np_def ns_def ng_def split: option.split)
  have fields: "slice ?p 0 4 = TUPLE_MAGIC" "slice ?p 4 6 = to_le_bytes TUPLE_VERSION" "slice ?p 6 8 = to_le_bytes (tuple_flags h)"
    "slice ?p 8 16 = to_le_bytes (xmin h)" "slice ?p 16 24 = to_le_bytes (case xmax h of None \<Rightarrow> 0 | Some t \<Rightarrow> t)"
    "slice ?p 24 28 = to_le_bytes (cmin h)" "slice ?p 28 32 = to_le_bytes (case cmax h of None \<Rightarrow> 0 | Some c \<Rightarrow> c)"
    "slice ?p 32 40 = to_le_bytes np" "slice ?p 40 44 = to_le_bytes ns" "slice ?p 44 48 = to_le_bytes ng" "drop 48 ?p = rest"
    by (simp_all add: encode_tuple_exact nb magic slice_def)
  have pairs: "[?p ! 4, ?p ! 5] = slice ?p 4 6" "[?p ! 6, ?p ! 7] = slice ?p 6 8"
    using slice_pair[of 4 ?p] slice_pair[of 6 ?p] len by simp_all
  have opt: "optional_txn (tuple_flags h) (case xmax h of None \<Rightarrow> 0 | Some t \<Rightarrow> t) = Inr (xmax h)"
    "optional_command (tuple_flags h) (case cmax h of None \<Rightarrow> 0 | Some c \<Rightarrow> c) = Inr (cmax h)"
    "decode_next_version (tuple_flags h) np ns ng = Inr (next_version h)"
    using assms
    by (auto simp: optional_txn_exact optional_command_exact decode_next_exact tuple_flags_bits wf_tuple_header_def
        np_def ns_def ng_def split: option.splits)
  show ?thesis
    using assms
    by (simp add: decode_tuple_def TUPLE_HEADER_SIZE_def len fields pairs tuple_flags_bits(1) tuple_reads opt Let_def
        wf_tuple_header_def del: not_None_eq)
qed

lemma decode_tuple_sound:
  assumes "decode_tuple p = Inr (h, rest)"
  shows "wf_tuple_header h" "p = encode_tuple h rest"
proof -
  have len: "48 \<le> length p" using assms by (auto simp: decode_tuple_def TUPLE_HEADER_SIZE_def Let_def)
  have pairs: "[p ! 4, p ! 5] = slice p 4 6" "[p ! 6, p ! 7] = slice p 6 8"
    using slice_pair[of 4 p] slice_pair[of 6 p] len by simp_all
  define flags where "flags = (from_le_bytes (slice p 6 8) :: u16)"
  have dec: "slice p 0 4 = TUPLE_MAGIC" "from_le_bytes (slice p 4 6) = TUPLE_VERSION" "flags AND NOT KNOWN_FLAGS = 0"
    "from_le_bytes (slice p 8 16) = xmin h" "xmin h \<noteq> 0" "from_le_bytes (slice p 24 28) = cmin h" "cmin h \<noteq> 0"
    "optional_txn flags (from_le_bytes (slice p 16 24)) = Inr (xmax h)"
    "optional_command flags (from_le_bytes (slice p 28 32)) = Inr (cmax h)" "(xmax h = None) = (cmax h = None)"
    "decode_next_version flags (from_le_bytes (slice p 32 40)) (from_le_bytes (slice p 40 44)) (from_le_bytes (slice p 44 48)) =
      Inr (next_version h)" "rest = drop 48 p"
    using assms len
    by (auto simp: decode_tuple_def TUPLE_HEADER_SIZE_def pairs tuple_reads flags_def Let_def)
  note exact = dec(8)[unfolded optional_txn_exact] dec(9)[unfolded optional_command_exact] dec(11)[unfolded decode_next_exact]
  show "wf_tuple_header h" using dec(5,7,10) exact by (auto simp: wf_tuple_header_def split: option.splits)
  have flags: "flags = tuple_flags h" by (rule flags_determined[OF dec(3)]) (use exact in auto)
  have raw: "slice p a b = to_le_bytes (w :: 'a::len word)"
    if "from_le_bytes (slice p a b) = w" "b - a = LENGTH('a) div 8" "8 dvd LENGTH('a)" "a \<le> b" "b \<le> 48" for a b and w :: "'a::len word"
    using that len to_le_bytes_from_le_bytes[of "slice p a b", where 'a = 'a] by simp
  have bytes: "slice p 4 6 = to_le_bytes TUPLE_VERSION" "slice p 6 8 = to_le_bytes (tuple_flags h)" "slice p 8 16 = to_le_bytes (xmin h)"
    "slice p 16 24 = to_le_bytes (case xmax h of None \<Rightarrow> 0 | Some t \<Rightarrow> t)" "slice p 24 28 = to_le_bytes (cmin h)"
    "slice p 28 32 = to_le_bytes (case cmax h of None \<Rightarrow> 0 | Some c \<Rightarrow> c)"
    using dec(2,4,6) exact(1,2) flags by (auto intro!: raw simp: flags_def)
  have "slice p 32 40 @ slice p 40 44 @ slice p 44 48 = next_bytes (next_version h)"
    using exact(3) raw[of 32 40 "from_le_bytes (slice p 32 40) :: u64"] raw[of 40 44 "from_le_bytes (slice p 40 44) :: u32"]
      raw[of 44 48 "from_le_bytes (slice p 44 48) :: u32"]
    by (auto simp: next_bytes_def split: option.splits)
  then have tail: "slice p 32 40 @ slice p 40 44 @ slice p 44 48 @ drop 48 p = next_bytes (next_version h) @ drop 48 p"
    by (metis append_assoc)
  then show "p = encode_tuple h rest"
    using tuple_slices[OF len] unfolding encode_tuple_exact bytes dec(1,12) by (simp only: tail)
qed

section \<open>Visibility over time\<close>

text \<open>Later decisions as a snapshot sees them: only what was active may have been aborted or committed after it.\<close>

definition status_evolves :: "CommitSeq \<Rightarrow> txn_status \<Rightarrow> txn_status \<Rightarrow> bool" where
  "status_evolves csn s s' \<longleftrightarrow> s' = s \<or> s = TxnActive \<and> (case s' of Committed c \<Rightarrow> csn < c | _ \<Rightarrow> True)"

definition later_op :: "CommitSeq \<Rightarrow> TxnId set \<Rightarrow> status_op \<Rightarrow> bool" where
  "later_op csn T oper \<longleftrightarrow>
     (case oper of
        RecordCommittedOp _ c _ \<Rightarrow> csn < c
      | ClearActiveOp t \<Rightarrow> t \<notin> T
      | _ \<Rightarrow> True)"

lemma evolves_trans: "status_evolves csn a b \<Longrightarrow> status_evolves csn b c \<Longrightarrow> status_evolves csn a c"
  by (auto simp: status_evolves_def split: txn_status.splits)

lemma record_evolves:
  assumes "status_of st t = Inr s" "case d of Committed c \<Rightarrow> csn < c | Aborted \<Rightarrow> True | TxnActive \<Rightarrow> False"
  shows "\<exists>s'. status_of (snd (record_status C io u d st)) t = Inr s' \<and> status_evolves csn s s'"
  using assms
  by (auto simp: status_of_def record_status_def clear_active_def status_evolves_def Let_def
      split: option.splits if_splits sum.splits append_outcome.splits txn_status.splits)

lemma step_evolves:
  assumes "status_of st t = Inr s" "later_op csn T oper" "t \<in> T"
  shows "\<exists>s'. status_of (run_status_op C oper st) t = Inr s' \<and> status_evolves csn s s'"
proof (cases oper)
  case (RecordCommittedOp u c io)
  then show ?thesis using record_evolves[OF assms(1), where d = "Committed c"] assms(2) by (simp add: record_committed_def later_op_def)
next
  case (RecordAbortedOp u io)
  then show ?thesis using record_evolves[OF assms(1), where d = Aborted] by (simp add: record_aborted_def)
qed (use assms in \<open>auto simp: status_of_def mark_active_def clear_active_def pin_snapshot_def unpin_snapshot_def later_op_def
    status_evolves_def Let_def split: option.splits if_splits\<close>)

lemma run_evolves:
  assumes "status_of st t = Inr s" "list_all (later_op csn T) ops" "t \<in> T"
  shows "\<exists>s'. status_of (run_status C ops st) t = Inr s' \<and> status_evolves csn s s'"
  using assms(1,2)
proof (induction ops arbitrary: st s)
  case Nil
  then show ?case by (simp add: status_evolves_def)
next
  case (Cons oper ops)
  obtain s1 where s1: "status_of (run_status_op C oper st) t = Inr s1" "status_evolves csn s s1"
    using step_evolves[OF Cons.prems(1) _ assms(3), of csn oper C] Cons.prems(2) by auto
  from Cons.IH[OF s1(1)] Cons.prems(2) obtain s2 where "status_of (run_status C (oper # ops) st) t = Inr s2" "status_evolves csn s1 s2"
    by auto
  then show ?case using evolves_trans[OF s1(2)] by blast
qed

lemma inserted_visible_evolves:
  assumes "inserted_visible h snap st = Inr b" "list_all (later_op (visible_csn snap) T) ops" "xmin h \<in> T"
  shows "inserted_visible h snap (run_status C ops st) = Inr b"
proof (cases "own_txn snap = Some (xmin h)")
  case False
  then obtain s where s: "status_of st (xmin h) = Inr s" and b: "b = (case s of Committed csn \<Rightarrow> csn \<le> visible_csn snap | _ \<Rightarrow> False)"
    using assms(1) by (auto simp: inserted_visible_def)
  obtain s' where "status_of (run_status C ops st) (xmin h) = Inr s'" "status_evolves (visible_csn snap) s s'"
    using run_evolves[OF s assms(2,3), of C] by blast
  then show ?thesis using False b by (auto simp: inserted_visible_def status_evolves_def split: txn_status.splits)
qed (use assms(1) in \<open>simp add: inserted_visible_def\<close>)

lemma is_visible_evolves:
  assumes vis: "is_visible h snap st = Inr b" and ops: "list_all (later_op (visible_csn snap) T) ops"
    and T: "xmin h \<in> T" "\<And>x. xmax h = Some x \<Longrightarrow> x \<in> T"
  shows "is_visible h snap (run_status C ops st) = Inr b"
proof -
  obtain i where i: "inserted_visible h snap st = Inr i" using vis by (auto simp: is_visible_def)
  note i' = inserted_visible_evolves[OF i ops T(1), of C]
  show ?thesis
  proof (cases "\<exists>x. i \<and> xmax h = Some x \<and> own_txn snap \<noteq> Some x")
    case True
    then obtain x where x: "i" "xmax h = Some x" "own_txn snap \<noteq> Some x" by blast
    obtain s where s: "status_of st x = Inr s" and b: "b = (case s of Committed csn \<Rightarrow> csn > visible_csn snap | _ \<Rightarrow> True)"
      using vis i x by (auto simp: is_visible_def)
    obtain s' where "status_of (run_status C ops st) x = Inr s'" "status_evolves (visible_csn snap) s s'"
      using run_evolves[OF s ops T(2)[OF x(2)], of C] by blast
    then show ?thesis using x i' b by (auto simp: is_visible_def status_evolves_def split: txn_status.splits)
  next
    case False
    then show ?thesis using vis i i' by (auto simp: is_visible_def split: option.splits if_splits)
  qed
qed

section \<open>Properties\<close>

text \<open>C33. Decoding a stored tuple succeeds exactly on the encodings of well-formed headers, and returns the header and
  the row bytes it was encoded from: nothing else is accepted, not even a stray bit in an absent field.\<close>

theorem tuple_codec_exact:
  "decode_tuple p = Inr (h, rest) \<longleftrightarrow> wf_tuple_header h \<and> p = encode_tuple h rest"
  using decode_encoded_tuple decode_tuple_sound by blast

text \<open>C5. A snapshot is stable. However the status store goes on, as long as commits after the snapshot carry a
  larger commit sequence and the tuple's own transactions are not forgotten, a tuple that was visible stays visible
  and one that was not stays invisible, whatever the operating system does to the recordings.\<close>

theorem snapshot_stable:
  assumes "is_visible h snap st = Inr b"
    and "list_all (later_op (visible_csn snap) ({xmin h} \<union> set_option (xmax h))) ops"
  shows "is_visible h snap (run_status C ops st) = Inr b"
  by (rule is_visible_evolves[OF assms]) auto

definition sample_snapshot :: snapshot where
  "sample_snapshot = \<lparr>visible_csn = 4, own_txn = Some 7, command_id = 2\<rparr>"

definition sample_statuses :: txn_status_store where
  "sample_statuses =
     \<lparr>ts_file = [], durable = [2 \<mapsto> Committed 3], active = {6, 7}, snapshots = [(4, 1)], maximum_commit_seq = 4, poisoned = False\<rparr>"

lemma sample_visible: "is_visible (expire 6 1 None (inserted_by 2 1)) sample_snapshot sample_statuses = Inr True"
  by (simp add: is_visible_def inserted_visible_def expire_def inserted_by_def sample_snapshot_def sample_statuses_def
      status_of_def word_le_nat_alt)

theorem snapshot_stable_witness:
  "is_visible (expire 6 1 None (inserted_by 2 1)) sample_snapshot
     (run_status sample_crc [RecordCommittedOp 6 5 AppendDone, RecordAbortedOp 9 SeekFailed] sample_statuses) = Inr True"
  using snapshot_stable[OF sample_visible, of "[RecordCommittedOp 6 5 AppendDone, RecordAbortedOp 9 SeekFailed]" sample_crc]
  by (simp add: later_op_def sample_snapshot_def expire_def inserted_by_def word_less_nat_alt)

text \<open>C24. An update is atomic to every reader. When a visible version is expired by a transaction and its successor
  is inserted by the same command of that transaction, every view whose statuses are known sees exactly one of the
  two: the old version before the update counts for it, the new one afterwards.\<close>

theorem update_shows_one_version:
  assumes "is_visible h snap st = Inr True" and "own_txn snap = Some t \<or> status_of st t = Inr s"
  shows "\<exists>old. is_visible (expire t c next_row h) snap st = Inr old \<and> is_visible (inserted_by t c) snap st = Inr (\<not> old)"
proof -
  have "inserted_visible (expire t c next_row h) snap st = Inr True"
    using assms(1) by (auto simp: is_visible_def inserted_visible_def expire_def split: if_splits)
  then show ?thesis
    using assms(2)
    by (cases s; cases "own_txn snap = Some t") (auto simp: is_visible_def inserted_visible_def expire_def inserted_by_def)
qed

lemma sample_committed: "is_visible (inserted_by 2 1) sample_snapshot sample_statuses = Inr True" "status_of sample_statuses 6 = Inr TxnActive"
  by (simp_all add: is_visible_def inserted_visible_def inserted_by_def sample_snapshot_def sample_statuses_def status_of_def
      word_le_nat_alt)

theorem update_shows_one_version_witness:
  "\<exists>old. is_visible (expire 6 1 None (inserted_by 2 1)) sample_snapshot sample_statuses = Inr old \<and>
     is_visible (inserted_by 6 1) sample_snapshot sample_statuses = Inr (\<not> old)"
  using update_shows_one_version[OF sample_committed(1) disjI2[OF sample_committed(2)]] .


definition sample_history :: "status_op list" where
  "sample_history = [RecordCommittedOp 2 3 AppendDone, RecordCommittedOp 5 4 AppendDone, MarkActiveOp 7, PinOp 4]"

lemma sample_history_store:
  "durable (run_status sample_crc sample_history (status_create sample_crc)) = [2 \<mapsto> Committed 3, 5 \<mapsto> Committed 4]"
  "active (run_status sample_crc sample_history (status_create sample_crc)) = {7}"
  "vacuum_horizon (run_status sample_crc sample_history (status_create sample_crc)) = 4"
  by (simp_all add: sample_history_def status_create_def record_committed_def record_status_def encode_record_exact status_tag_def
      mark_active_def pin_snapshot_def checked_add_u64_def vacuum_horizon_def oldest_snapshot_def bt_first_def Let_def)


end
