(* ===== verification/Allocation_Transition.thy ===== *)
theory Allocation_Transition
  imports Page "HOL-Library.Option_ord"
begin

text \<open>
  \<open>crates/netbadb-heap/src/allocation_transition.rs\<close>: the identity of a tree page's allocation, the
  boundary by which a page changes its incarnation, and what redo and undo do at it.
\<close>

definition page_valid_for :: "page_type \<Rightarrow> byte list \<Rightarrow> IndexId \<Rightarrow> physical_type \<Rightarrow> bool" where
  "page_valid_for kind payload owner physical =
     (let spec = \<lparr>spec_data_type = semantic_physical physical, spec_nullable = True\<rparr>
      in case kind of
           BTreeLeaf \<Rightarrow> is_ok (decode_leaf_owned spec payload (Some owner))
         | BTreeInternal \<Rightarrow> is_ok (decode_internal_owned spec payload (Some owner))
         | _ \<Rightarrow> False)"

definition identity :: "crc \<Rightarrow> page \<Rightarrow> (storage_error, page_ref \<times> IndexId) res" where
  "identity C page =
     bindR (header C page) (\<lambda>h.
     let kind = hdr_page_type h
     in bindR (index_res (ensure (kind = BTreeMeta \<or> kind = BTreeLeaf \<or> kind = BTreeInternal) InvalidNodeType)) (\<lambda>_.
        bindR (single_payload C page kind) (\<lambda>payload.
        bindR (index_res (bindR (btree_page_owner payload) (ok_or InvalidNodeType))) (\<lambda>owner.
        bindR (bindR (allocation_generation C page) (\<lambda>g. index_res (ok_or InvalidNodeType g))) (\<lambda>generation.
        let reference = \<lparr>ref_page_id = page_id page, ref_generation = generation\<rparr>
        in bindR (index_res (Index_Codec.retired_btree_page payload)) (\<lambda>marker.
           if marker \<noteq> None then Inr (reference, owner)
           else if kind = BTreeMeta then
             bindR (index_res (decode_meta payload)) (\<lambda>_. Inr (reference, owner))
           else if list_ex (page_valid_for kind payload owner)
                     [PBool, PInt64, PUInt64, PText]
             then Inr (reference, owner)
           else Inl (SeIndex InvalidNodeType)))))))"

definition is_retired :: "crc \<Rightarrow> page \<Rightarrow> (storage_error, bool) res" where
  "is_retired C page =
     bindR (identity C page) (\<lambda>_.
     bindR (header C page) (\<lambda>h.
     bindR (single_payload C page (hdr_page_type h)) (\<lambda>payload.
     bindR (index_res (Index_Codec.retired_btree_page payload)) (\<lambda>marker. Inr (marker \<noteq> None)))))"

definition validate_transition :: "crc \<Rightarrow> page \<Rightarrow> page \<Rightarrow> (storage_error, unit) res" where
  "validate_transition C before after =
     bindR (identity C before) (\<lambda>(old, old_owner).
     bindR (identity C after) (\<lambda>(new, new_owner).
     bindR (is_retired C before) (\<lambda>old_marker.
     bindR (if ref_page_id old \<noteq> ref_page_id new \<or> ref_generation old \<ge> ref_generation new \<or>
               (\<not> old_marker \<and> old_owner = new_owner)
            then Inr True else is_retired C after) (\<lambda>invalid.
     ensure (\<not> invalid) (SeInvalidFormat ''invalid BTree allocation transition identities'')))))"

definition redo :: "crc \<Rightarrow> page \<Rightarrow> page \<Rightarrow> page \<Rightarrow> Lsn \<Rightarrow> (storage_error, bool) res" where
  "redo C current before after lsn =
     bindR (validate_transition C before after) (\<lambda>_.
     bindR (identity C current) (\<lambda>actual.
     bindR (identity C before) (\<lambda>old.
     if actual = old then
       bindR (ensure (page_bytes current = page_bytes before)
                (SeInvalidFormat ''transition old allocation differs from before image'')) (\<lambda>_. Inr True)
     else
       bindR (identity C after) (\<lambda>new.
       bindR (ensure (actual = new) (SeInvalidFormat ''transition encountered unrelated allocation'')) (\<lambda>_.
       bindR (page_lsn C current) (\<lambda>current_lsn.
       bindR (ensure (\<not> (current_lsn < Some lsn \<or> (current_lsn = Some lsn \<and> page_bytes current \<noteq> page_bytes after)))
                (SeInvalidFormat ''transition new allocation has invalid pageLSN or image'')) (\<lambda>_. Inr False)))))))"

definition undo :: "crc \<Rightarrow> page \<Rightarrow> page \<Rightarrow> page \<Rightarrow> (storage_error, bool) res" where
  "undo C current before after =
     bindR (validate_transition C before after) (\<lambda>_.
     bindR (identity C current) (\<lambda>actual.
     bindR (identity C before) (\<lambda>old.
     if actual = old then
       bindR (ensure (page_bytes current = page_bytes before)
                (SeInvalidFormat ''undone transition differs from before image'')) (\<lambda>_. Inr False)
     else
       bindR (identity C after) (\<lambda>new.
       bindR (ensure (actual = new) (SeInvalidFormat ''transition undo encountered unrelated allocation'')) (\<lambda>_.
       Inr True)))))"

text \<open>A validated transition moves the page to a strictly later incarnation.\<close>

lemma validate_transition_Inr:
  assumes "validate_transition C before after = Inr u"
  obtains old oo new oo' where "identity C before = Inr (old, oo)" "identity C after = Inr (new, oo')"
    "ref_page_id old = ref_page_id new" "ref_generation old < ref_generation new"
  using assms by (auto simp: validate_transition_def not_le split: if_splits)

text \<open>What redo or undo does to the page it is called on.\<close>

definition redo_page :: "crc \<Rightarrow> page \<Rightarrow> page \<Rightarrow> page \<Rightarrow> Lsn \<Rightarrow> (storage_error, page) res" where
  "redo_page C current before after lsn =
     bindR (redo C current before after lsn) (\<lambda>install. Inr (if install then after else current))"

definition undo_page :: "crc \<Rightarrow> page \<Rightarrow> page \<Rightarrow> page \<Rightarrow> (storage_error, page) res" where
  "undo_page C current before after =
     bindR (undo C current before after) (\<lambda>restore. Inr (if restore then before else current))"


text \<open>A tree page with a given identity, payload and page LSN exists for every payload that fits.\<close>

lemma payload_page:
  assumes "ty \<noteq> HeapPage" "lsn \<noteq> Some 0" "length bs \<le> 4060"
  obtains q h where "page_id q = i" "header C q = Inr h" "hdr_page_type h = ty" "hdr_page_lsn h = lsn"
    "single_payload C q ty = Inr bs" "wf_page q"
proof -
  define p where "p = (case lsn of Some l \<Rightarrow> set_page_lsn C l (page_new C i ty) | None \<Rightarrow> page_new C i ty)"
  note fresh = fresh_fields[OF assms(2) p_def]
  from fresh(3) obtain raw where raw: "header_fields p ty 0 28 4096 raw" "lsn_opt raw = lsn" by blast
  let ?h = "\<lparr>hdr_page_type = ty, hdr_slot_count = 0, hdr_free_start = 28, hdr_free_end = 4096, hdr_page_lsn = lsn\<rparr>"
  have wf: "wf_page (put_bytes 16 (to_le_bytes (l :: u64)) (page_new C i ty))" for l
    using page_new_fields(1)[of C i ty] by simp
  have chk: "verify_checksum C p = Inr ()"
    using page_new_fields(4)[of C i ty] refresh_props(3)[OF wf, of C]
    by (simp add: p_def set_page_lsn_def page_consts split: option.splits)
  have "header C p = Inr ?h"
    using header_from_fields[OF fresh(1) raw(1) chk] raw(2) by (simp add: valid_slots_def)
  then have p: "holds C p ?h []"
    using rebuild_slots_valid[of C p ?h] fresh(1) by (simp add: holds_def records_of_def)
  let ?rs = "[\<lparr>rb_generation = 1, rb_payload = Some bs\<rparr>]"
  obtain q where q: "page_id q = page_id p" "holds C q (rebuilt_header ?h ?rs) ?rs"
    by (rule holds_rebuild[OF p, of ?rs None]) (use assms(3) in simp_all)
  then show thesis
    using that[of q "rebuilt_header ?h ?rs"] single_payload_rebuilt[OF assms(1) q(2)] fresh(2)
    by (simp add: holds_def rebuilt_header_def)
qed

lemma valid_page_nonzero:
  assumes "header C p = Inr h"
  shows "\<not> list_all (\<lambda>b. b = 0) (page_bytes p)"
proof
  assume "list_all (\<lambda>b. b = 0) (page_bytes p)"
  then have "\<forall>b \<in> set (slice (page_bytes p) 0 4). b = 0"
    by (auto simp: list_all_iff slice_def dest: in_set_takeD in_set_dropD)
  moreover have "slice (page_bytes p) 0 4 = PAGE_MAGIC"
    using assms by (simp add: header_def page_header_checked_def split: if_splits)
  ultimately show False by (simp add: PAGE_MAGIC_def)
qed

lemma allocation_of_tree_page:
  assumes "header C q = Inr h" "hdr_page_type h = ty" "ty \<in> {BTreeLeaf, BTreeInternal}" "single_payload C q ty = Inr bs"
    and "retired_btree_page bs = Inr marker" "\<And>m. marker = Some m \<Longrightarrow> ref_page_id (ret_page_ref m) = page_id q"
    and "btree_page_generation bs = Inr (Some g)"
  shows "allocation_generation C q = Inr (Some g)"
  using assms valid_page_nonzero[OF assms(1)] by (auto simp: allocation_generation_def Let_def split: option.splits)

text \<open>The identity of a retired page is the one its marker records, and it is reported as retired.\<close>

lemma identity_retired:
  assumes q: "header C q = Inr h" "hdr_page_type h = ty" "ty \<in> {BTreeLeaf, BTreeInternal}" "single_payload C q ty = Inr bs"
    and enc: "encode_retired_btree m = Inr bs" and id: "page_id q = ref_page_id (ret_page_ref m)"
  shows "identity C q = Inr (ret_page_ref m, ret_owner m)" "is_retired C q = Inr True"
proof -
  have "take 4 bs = RETIRED_MAGIC" using enc by (auto simp: encode_retired_Inr RETIRED_MAGIC_def)
  then have r: "retired_btree_page bs = Inr (Some m)"
    using decode_retired_encoded[OF enc] by (simp add: retired_btree_page_def)
  then have o: "btree_page_owner bs = Inr (Some (ret_owner m))"
    and g: "btree_page_generation bs = Inr (Some (ref_generation (ret_page_ref m)))"
    by (simp_all add: btree_page_owner_def btree_page_generation_def)
  show i: "identity C q = Inr (ret_page_ref m, ret_owner m)"
    using allocation_of_tree_page[OF q r _ g] q r o id by (auto simp: identity_def Let_def)
  show "is_retired C q = Inr True" using i q r by (simp add: is_retired_def)
qed

text \<open>What the header of a live leaf says of it.\<close>

lemma live_leaf_facts:
  assumes q: "header C q = Inr h" "hdr_page_type h = BTreeLeaf" "single_payload C q BTreeLeaf = Inr bs"
    and enc: "encode_leaf_generation spec node (Some owner) (Some g) = Inr bs" and fit: "fits (length bs)"
  shows "retired_btree_page bs = Inr None" "btree_page_owner bs = Inr (Some owner)"
    "allocation_generation C q = Inr (Some g)"
proof -
  have ok: "ok_header (Some owner) (Some g)" and "bs = leaf_bytes node (Some owner) (Some g)"
    using enc by (simp_all add: encode_leaf_generation_Inr)
  then obtain rest where bs: "bs = header_bytes LEAF_MAGIC (Some owner) (Some g) @ rest" by (simp add: leaf_bytes_def)
  show r: "retired_btree_page bs = Inr None"
    using retired_magic_other[of LEAF_MAGIC "Some owner" "Some g" rest]
    by (simp add: retired_btree_page_def bs LEAF_MAGIC_def RETIRED_MAGIC_def)
  show "btree_page_owner bs = Inr (Some owner)"
    using page_identity_of_header(1)[of LEAF_MAGIC "Some owner" "Some g" rest] ok fit by (simp add: bs)
  have "btree_page_generation bs = Inr (Some g)"
    using page_identity_of_header(2)[of LEAF_MAGIC "Some owner" "Some g" rest] ok fit by (simp add: bs)
  then show "allocation_generation C q = Inr (Some g)" using allocation_of_tree_page[OF q(1,2) _ q(3) r] by simp
qed

text \<open>
  The identity of a live leaf is its page, the generation in its header and its owner, provided its
  keys decode under one of the key types the check tries.
\<close>

lemma identity_live_leaf:
  assumes q: "header C q = Inr h" "hdr_page_type h = BTreeLeaf" "single_payload C q BTreeLeaf = Inr bs"
    and enc: "encode_leaf_generation spec node (Some owner) (Some g) = Inr bs" and fit: "fits (length bs)"
  shows "identity C q = (if list_ex (page_valid_for BTreeLeaf bs owner) [PBool, PInt64, PUInt64, PText]
    then Inr (\<lparr>ref_page_id = page_id q, ref_generation = g\<rparr>, owner) else Inl (SeIndex InvalidNodeType))"
  using live_leaf_facts[OF assms] q by (simp add: identity_def Let_def)

lemma identity_leaf:
  assumes q: "header C q = Inr h" "hdr_page_type h = BTreeLeaf" "single_payload C q BTreeLeaf = Inr bs"
    and enc: "encode_leaf_generation \<lparr>spec_data_type = semantic_physical physical, spec_nullable = True\<rparr> node
      (Some owner) (Some g) = Inr bs"
    and fit: "fits (length bs)" and wf: "\<forall>e \<in> set (leaf_entries node). wf_scalar (ie_key e)"
    and ty: "physical \<in> {PBool, PInt64, PUInt64, PText}"
  shows "identity C q = Inr (\<lparr>ref_page_id = page_id q, ref_generation = g\<rparr>, owner)" "is_retired C q = Inr False"
proof -
  have "page_valid_for BTreeLeaf bs owner physical"
    using decode_leaf_bytes[OF enc fit wf] by (simp add: page_valid_for_def)
  then have "list_ex (page_valid_for BTreeLeaf bs owner) [PBool, PInt64, PUInt64, PText]" using ty by auto
  then show i: "identity C q = Inr (\<lparr>ref_page_id = page_id q, ref_generation = g\<rparr>, owner)"
    using identity_live_leaf[OF q enc fit] by simp
  show "is_retired C q = Inr False" using i q live_leaf_facts(1)[OF q enc fit] by (simp add: is_retired_def)
qed

text \<open>
  C25. Crossing an allocation boundary is repeatable and reversible: redo of a validated transition
  installs the after image over the before image, and leaves alone both that image and any later page
  of the same incarnation. Undo restores the before image and leaves alone a page already restored.
  A page of any third incarnation is refused by both.
\<close>

theorem transition_redo_undo:
  assumes "validate_transition C before after = Inr ()" "page_lsn C after = Inr (Some lsn)"
  shows "redo_page C before before after lsn = Inr after \<and> redo_page C after before after lsn = Inr after \<and>
    undo_page C after before after = Inr before \<and> undo_page C before before after = Inr before \<and>
    (\<forall>current. identity C current = identity C after \<and> (\<exists>l > lsn. page_lsn C current = Inr (Some l)) \<longrightarrow>
       redo_page C current before after lsn = Inr current) \<and>
    (\<forall>current. identity C current \<noteq> identity C before \<and> identity C current \<noteq> identity C after \<longrightarrow>
       \<not> is_ok (redo_page C current before after lsn) \<and> \<not> is_ok (undo_page C current before after))"
proof -
  obtain old oo new oo' where i: "identity C before = Inr (old, oo)" "identity C after = Inr (new, oo')" "old \<noteq> new"
    using validate_transition_Inr[OF assms(1)] by (metis less_irrefl)
  have "\<not> is_ok (redo_page C current before after lsn) \<and> \<not> is_ok (undo_page C current before after)"
    if "identity C current \<noteq> identity C before \<and> identity C current \<noteq> identity C after" for current
    using that i assms by (cases "identity C current") (auto simp: redo_page_def undo_page_def redo_def undo_def)
  moreover have "redo_page C current before after lsn = Inr current"
    if "identity C current = identity C after" "l > lsn" "page_lsn C current = Inr (Some l)" for current l
    using that i assms by (auto simp: redo_page_def redo_def)
  moreover have "redo_page C before before after lsn = Inr after" "redo_page C after before after lsn = Inr after"
    "undo_page C after before after = Inr before" "undo_page C before before after = Inr before"
    using i assms by (simp_all add: redo_page_def undo_page_def redo_def undo_def)
  ultimately show ?thesis by blast
qed

definition sample_marker :: retired_btree_page where
  "sample_marker = \<lparr>ret_page_ref = \<lparr>ref_page_id = 3, ref_generation = 5\<rparr>, ret_owner = 6\<rparr>"

theorem transition_redo_undo_witness:
  "\<exists>before after. identity sample_crc before = Inr (\<lparr>ref_page_id = 3, ref_generation = 5\<rparr>, 6) \<and>
     identity sample_crc after = Inr (\<lparr>ref_page_id = 3, ref_generation = 8\<rparr>, 7) \<and>
     redo_page sample_crc before before after 40 = Inr after \<and> undo_page sample_crc after before after = Inr before"
proof -
  obtain bs where bs: "encode_retired_btree sample_marker = Inr bs" "length bs \<le> 4060"
    by (simp add: encode_retired_Inr sample_marker_def RETIRED_MAGIC_def)
  obtain before h where b: "page_id before = 3" "header sample_crc before = Inr h" "hdr_page_type h = BTreeLeaf"
    "single_payload sample_crc before BTreeLeaf = Inr bs"
    by (rule payload_page[of BTreeLeaf "Some 9" bs 3 sample_crc]) (use bs in simp_all)
  let ?node = "\<lparr>leaf_entries = [], leaf_next = None\<rparr>" and ?spec = "\<lparr>spec_data_type = semantic_physical PBool, spec_nullable = True\<rparr>"
  obtain cs where cs: "encode_leaf_generation ?spec ?node (Some 7) (Some 8) = Inr cs" "length cs \<le> 4060"
    by (simp add: eval_simps)
  obtain after h' where a: "page_id after = 3" "header sample_crc after = Inr h'" "hdr_page_type h' = BTreeLeaf"
    "hdr_page_lsn h' = Some 40" "single_payload sample_crc after BTreeLeaf = Inr cs"
    by (rule payload_page[of BTreeLeaf "Some 40" cs 3 sample_crc]) (use cs in simp_all)
  have i: "identity sample_crc before = Inr (\<lparr>ref_page_id = 3, ref_generation = 5\<rparr>, 6)" "is_retired sample_crc before = Inr True"
    using identity_retired[OF b(2,3) _ b(4) bs(1)] b(1) by (simp_all add: sample_marker_def)
  have j: "identity sample_crc after = Inr (\<lparr>ref_page_id = 3, ref_generation = 8\<rparr>, 7)" "is_retired sample_crc after = Inr False"
    using identity_leaf[OF a(2,3,5) cs(1)] cs(2) a(1) by (simp_all add: fits_def ISIZE_MAX_def)
  have "validate_transition sample_crc before after = Inr ()" "page_lsn sample_crc after = Inr (Some 40)"
    using i j a by (simp_all add: validate_transition_def page_lsn_def)
  then show ?thesis using transition_redo_undo[of sample_crc before after 40] i(1) j(1) by blast
qed


text \<open>Decoding under another key specification reads the same entries and only judges their keys differently.\<close>

lemma dec_entry_specs:
  assumes "dec_entry spec p o1 = Inr (e, o2)" "dec_entry spec' p o1 = Inr (e', o3)"
  shows "e' = e \<and> o3 = o2 \<and> validate_key spec' (ie_key e) = Inr ()"
  using assms by (auto simp: dec_entry_def Let_def split: prod.splits)

lemma repeat_decode_specs:
  assumes "repeat_decode (dec_entry spec p) n o1 = Inr (es, o2)" "repeat_decode (dec_entry spec' p) n o1 = Inr (es', o3)"
  shows "es' = es \<and> (\<forall>e \<in> set es. validate_key spec' (ie_key e) = Inr ())"
  using assms
proof (induction n arbitrary: o1 es es')
  case (Suc n)
  then show ?case
    by (fastforce dest: dec_entry_specs split: prod.splits)
qed simp

lemma decode_leaf_specs:
  assumes "decode_leaf_owned spec bs owner = Inr node" "decode_leaf_owned spec' bs owner = Inr node'"
  shows "\<forall>e \<in> set (leaf_entries node). validate_key spec' (ie_key e) = Inr ()"
  using assms by (auto simp: decode_leaf_owned_def Let_def dest: repeat_decode_specs split: prod.splits)

text \<open>
  C38. The identity check knows only four of the key types the index supports: a live leaf whose page,
  header and payload are valid for its own key type is refused as an invalid node as soon as one of
  its keys is neither null nor a boolean, a 64-bit integer or a text.
\<close>

theorem identity_refuses_other_key_types:
  assumes q: "header C q = Inr h" "hdr_page_type h = BTreeLeaf" "single_payload C q BTreeLeaf = Inr bs"
    and enc: "encode_leaf_generation spec node (Some owner) (Some g) = Inr bs" and fit: "fits (length bs)"
    and wf: "\<forall>e \<in> set (leaf_entries node). wf_scalar (ie_key e)"
    and e: "e \<in> set (leaf_entries node)" "scalar_physical_type (ie_key e) = Some ty" "ty \<notin> {PBool, PInt64, PUInt64, PText}"
  shows "decode_leaf_owned spec bs (Some owner) = Inr node \<and> identity C q = Inl (SeIndex InvalidNodeType)"
proof -
  note dec = decode_leaf_bytes[OF enc fit wf]
  have "\<not> page_valid_for BTreeLeaf bs owner physical" if "physical \<in> {PBool, PInt64, PUInt64, PText}" for physical
  proof
    assume "page_valid_for BTreeLeaf bs owner physical"
    then have "validate_key \<lparr>spec_data_type = semantic_physical physical, spec_nullable = True\<rparr> (ie_key e) = Inr ()"
      using decode_leaf_specs[OF dec] e(1) by (auto simp: page_valid_for_def is_ok_def split: sum.splits)
    then show False using e(2,3) that by (cases "ie_key e = Null") (auto simp: validate_key_def semantic_physical_def Let_def)
  qed
  then show ?thesis using identity_live_leaf[OF q enc fit] dec by simp
qed

theorem identity_refuses_other_key_types_witness:
  "\<exists>q bs. decode_leaf_owned sample_spec bs (Some 7) = Inr \<lparr>leaf_entries = [sample_entry (UInt16 5) 3], leaf_next = None\<rparr> \<and>
     identity sample_crc q = Inl (SeIndex InvalidNodeType)"
proof -
  let ?node = "\<lparr>leaf_entries = [sample_entry (UInt16 5) 3], leaf_next = None\<rparr>"
  obtain bs where bs: "encode_leaf_generation sample_spec ?node (Some 7) (Some 8) = Inr bs" "length bs \<le> 4060"
    by (simp add: eval_simps)
  obtain q h where q: "header sample_crc q = Inr h" "hdr_page_type h = BTreeLeaf" "single_payload sample_crc q BTreeLeaf = Inr bs"
    by (rule payload_page[of BTreeLeaf "Some 40" bs 3 sample_crc]) (use bs in simp_all)
  have "fits (length bs)" using bs(2) by (simp add: fits_def ISIZE_MAX_def)
  moreover have "\<forall>e \<in> set (leaf_entries ?node). wf_scalar (ie_key e)" by (simp add: sample_entry_def)
  ultimately show ?thesis
    using identity_refuses_other_key_types[OF q bs(1), of "sample_entry (UInt16 5) 3" PUInt16]
    by (auto simp: sample_entry_def)
qed

end
