(* ===== verification/Page_Manager.thy ===== *)
theory Page_Manager
  imports Allocation_Transition
begin

text \<open>
  \<open>PageManager\<close> of \<open>crates/netbadb-heap/src/page.rs\<close>: the file of fixed-size pages, with the answers of the
  device to the operations that change it, and the laws by which it is a map from page numbers to
  images. File locks and the identity of the opened file are not modelled, and the numbers in formatted
  error messages are left out.
\<close>

section \<open>The page file\<close>

definition FILE_MAGIC :: "byte list" where "FILE_MAGIC = [0x4E, 0x42, 0x50, 0x47]"

text \<open>
  What the device answers to one operation that changes the file: it succeeds, or it fails after some
  bytes have reached the file. The manager carries the answers to come; when they are used up every
  operation succeeds.
\<close>

datatype page_io = PageIoDone | PageIoFailed usize

record page_manager =
  pm_file :: "byte list"
  pm_count :: u64
  pm_io :: "page_io list"

definition next_io :: "page_manager \<Rightarrow> page_io \<times> page_manager" where
  "next_io m = (case pm_io m of [] \<Rightarrow> (PageIoDone, m) | io # rest \<Rightarrow> (io, m\<lparr>pm_io := rest\<rparr>))"

text \<open>\<open>File::set_len\<close>.\<close>

definition set_len :: "usize \<Rightarrow> byte list \<Rightarrow> byte list" where
  "set_len n f = take n f @ replicate (n - length f) 0"

definition pm_create :: page_manager where
  "pm_create = \<lparr>pm_file = FILE_MAGIC @ replicate (PAGE_SIZE - length FILE_MAGIC) 0, pm_count = 1, pm_io = []\<rparr>"

definition pm_open :: "byte list \<Rightarrow> (storage_error, page_manager) res" where
  "pm_open content =
     bindR (ensure (\<not> (length content < PAGE_SIZE \<or> length content mod PAGE_SIZE \<noteq> 0))
              (SeInvalidFormat ''file size is not a whole number of pages'')) (\<lambda>_.
     bindR (ensure (take (length FILE_MAGIC) content = FILE_MAGIC) (SeInvalidFormat ''page file magic does not match'')) (\<lambda>_.
     Inr \<lparr>pm_file = content, pm_count = of_nat (length content div PAGE_SIZE), pm_io = []\<rparr>))"

definition page_offset :: "PageId \<Rightarrow> (storage_error, usize) res" where
  "page_offset i = ok_or (PageOffsetOverflow i) (checked_mul (unat i) PAGE_SIZE)"

definition ensure_page_exists :: "page_manager \<Rightarrow> PageId \<Rightarrow> (storage_error, unit) res" where
  "ensure_page_exists m i = ensure (\<not> i \<ge> pm_count m) (SeInvalidFormat ''page is outside file'')"

definition allocate_page :: "page_manager \<Rightarrow> (storage_error, page) res \<times> page_manager" where
  "allocate_page m =
     (let i = pm_count m
      in case checked_add_u64 i 1 of
           None \<Rightarrow> (Inl (PageOffsetOverflow i), m)
         | Some next_count \<Rightarrow>
             (let page = page_zero i
              in case next_io m of
                   (PageIoDone, m) \<Rightarrow> (Inr page, m\<lparr>pm_file := pm_file m @ page_bytes page, pm_count := next_count\<rparr>)
                 | (PageIoFailed n, m) \<Rightarrow> (Inl SeIo, m\<lparr>pm_file := pm_file m @ take n (page_bytes page)\<rparr>)))"

definition validated_page_count :: "page_manager \<Rightarrow> (storage_error, u64) res" where
  "validated_page_count m =
     bindR (ensure (\<not> (length (pm_file m) mod PAGE_SIZE \<noteq> 0 \<or> length (pm_file m) div PAGE_SIZE \<noteq> unat (pm_count m)))
              (SeInvalidFormat ''file length disagrees with managed page count'')) (\<lambda>_.
     Inr (pm_count m))"

definition pm_sync :: "page_manager \<Rightarrow> (storage_error, unit) res \<times> page_manager" where
  "pm_sync m = (case next_io m of (PageIoDone, m) \<Rightarrow> (Inr (), m) | (PageIoFailed _, m) \<Rightarrow> (Inl SeIo, m))"

definition truncate_to_page_count :: "u64 \<Rightarrow> u64 \<Rightarrow> page_manager \<Rightarrow> (storage_error, unit) res \<times> page_manager" where
  "truncate_to_page_count expected_old new m =
     (case bindR (validated_page_count m) (\<lambda>count.
           bindR (ensure (\<not> (count \<noteq> expected_old \<or> new < 3 \<or> new \<ge> expected_old))
                    (SeInvalidFormat ''invalid expected tail truncation geometry'')) (\<lambda>_. page_offset new)) of
        Inl e \<Rightarrow> (Inl e, m)
      | Inr offset \<Rightarrow>
          (case next_io m of
             (PageIoFailed _, m) \<Rightarrow> (Inl SeIo, m)
           | (PageIoDone, m) \<Rightarrow> pm_sync (m\<lparr>pm_file := set_len offset (pm_file m), pm_count := new\<rparr>)))"

definition remove_trailing_page :: "PageId \<Rightarrow> page_manager \<Rightarrow> (storage_error, bool) res \<times> page_manager" where
  "remove_trailing_page i m =
     (case bindR (if i = pm_count m then Inr False
                  else bindR (ok_or (PageOffsetOverflow i) (checked_add_u64 i 1)) (\<lambda>expected_count.
                       bindR (ensure (\<not> (expected_count \<noteq> pm_count m \<or> i = 0))
                                (SeInvalidFormat ''page cannot be removed'')) (\<lambda>_. Inr True))) (\<lambda>removed.
           bindR (page_offset i) (\<lambda>offset. Inr (removed, offset))) of
        Inl e \<Rightarrow> (Inl e, m)
      | Inr (removed, offset) \<Rightarrow>
          (case next_io m of
             (PageIoFailed _, m) \<Rightarrow> (Inl SeIo, m)
           | (PageIoDone, m) \<Rightarrow>
               (Inr removed, m\<lparr>pm_file := set_len offset (pm_file m), pm_count := (if removed then i else pm_count m)\<rparr>)))"

definition read_page :: "page_manager \<Rightarrow> PageId \<Rightarrow> (storage_error, page) res" where
  "read_page m i =
     bindR (ensure_page_exists m i) (\<lambda>_.
     bindR (page_offset i) (\<lambda>offset.
     bindR (ok_or SeIo (get_range (pm_file m) offset (offset + PAGE_SIZE))) (\<lambda>bytes.
     Inr \<lparr>page_id = i, page_bytes = bytes\<rparr>)))"

definition write_page :: "page \<Rightarrow> page_manager \<Rightarrow> (storage_error, unit) res \<times> page_manager" where
  "write_page page m =
     (case bindR (ensure_page_exists m (page_id page)) (\<lambda>_. page_offset (page_id page)) of
        Inl e \<Rightarrow> (Inl e, m)
      | Inr offset \<Rightarrow>
          (case next_io m of
             (PageIoDone, m) \<Rightarrow> (Inr (), m\<lparr>pm_file := copy_at (pm_file m) offset (page_bytes page)\<rparr>)
           | (PageIoFailed n, m) \<Rightarrow> (Inl SeIo, m\<lparr>pm_file := copy_at (pm_file m) offset (take n (page_bytes page))\<rparr>)))"

section \<open>The file as a map of pages\<close>

definition page_img :: "page_manager \<Rightarrow> PageId \<rightharpoonup> byte list" where
  "page_img m i = (if i < pm_count m then Some (slice (pm_file m) (4096 * unat i) (4096 * unat i + 4096)) else None)"

definition wf_pages :: "page_manager \<Rightarrow> bool" where
  "wf_pages m \<longleftrightarrow> length (pm_file m) = 4096 * unat (pm_count m) \<and> pm_count m \<noteq> 0 \<and> length (pm_file m) \<le> USIZE_MAX"

text \<open>A device that writes a page completely or not at all.\<close>

definition atomic_io :: "page_manager \<Rightarrow> bool" where
  "atomic_io m \<longleftrightarrow> set (pm_io m) \<subseteq> {PageIoDone, PageIoFailed 0}"

lemma dom_page_img: "dom (page_img m) = {i. i < pm_count m}"
  by (auto simp: page_img_def split: if_splits)

lemma page_img_length:
  assumes "wf_pages m" "page_img m i = Some bs"
  shows "length bs = 4096"
proof -
  have "unat i < unat (pm_count m)" using assms(2) by (simp add: page_img_def word_less_nat_alt split: if_splits)
  then have "4096 * unat i + 4096 \<le> length (pm_file m)" using assms(1) by (simp add: wf_pages_def)
  then show ?thesis using assms(2) by (auto simp: page_img_def split: if_splits)
qed

lemma page_offset_ok: "wf_pages m \<Longrightarrow> i \<le> pm_count m \<Longrightarrow> page_offset i = Inr (4096 * unat i)"
proof -
  assume wf: "wf_pages m" and i: "i \<le> pm_count m"
  have "4096 * unat i \<le> 4096 * unat (pm_count m)" using i by (simp add: word_le_nat_alt)
  then have "4096 * unat i \<le> USIZE_MAX" using wf by (auto simp: wf_pages_def)
  then show ?thesis by (simp add: page_offset_def checked_mul_def PAGE_SIZE_def mult.commute)
qed

lemma next_io_cases:
  obtains (io) x m' where "next_io m = (x, m')" "pm_file m' = pm_file m" "pm_count m' = pm_count m"
    "wf_pages m' = wf_pages m" "page_img m' = page_img m" "atomic_io m \<Longrightarrow> atomic_io m' \<and> x \<in> {PageIoDone, PageIoFailed 0}"
    "pm_io m = [] \<Longrightarrow> x = PageIoDone \<and> pm_io m' = []"
  by (cases "pm_io m") (auto simp: next_io_def atomic_io_def wf_pages_def page_img_def fun_eq_iff)

lemma read_page_img:
  assumes "wf_pages m" "page_img m i = Some bs"
  shows "read_page m i = Inr \<lparr>page_id = i, page_bytes = bs\<rparr>"
proof -
  have lt: "i < pm_count m" using assms(2) by (simp add: page_img_def split: if_splits)
  then have "4096 * unat i + 4096 \<le> length (pm_file m)"
    using assms(1) by (simp add: wf_pages_def word_less_nat_alt)
  then show ?thesis
    using assms lt page_offset_ok[OF assms(1), of i]
    by (auto simp: read_page_def ensure_page_exists_def page_img_def get_range_def not_le PAGE_SIZE_def split: if_splits)
qed

lemma write_page_img:
  assumes wf: "wf_pages m" and io: "atomic_io m" and i: "page_img m (page_id p) \<noteq> None" and len: "length (page_bytes p) = 4096"
  obtains r m' where "write_page p m = (r, m')" "wf_pages m'" "atomic_io m'" "pm_count m' = pm_count m"
    "r = Inr () \<and> page_img m' = (page_img m)(page_id p \<mapsto> page_bytes p) \<or> r = Inl SeIo \<and> page_img m' = page_img m"
    "pm_io m = [] \<Longrightarrow> r = Inr () \<and> pm_io m' = []"
proof -
  let ?i = "page_id p"
  have lt: "?i < pm_count m" using i by (simp add: page_img_def split: if_splits)
  have le: "4096 * unat ?i + 4096 \<le> length (pm_file m)" using wf lt by (simp add: wf_pages_def word_less_nat_alt)
  obtain x m0 where m0: "next_io m = (x, m0)" "pm_file m0 = pm_file m" "pm_count m0 = pm_count m" "wf_pages m0 = wf_pages m"
    "page_img m0 = page_img m" "atomic_io m \<Longrightarrow> atomic_io m0 \<and> x \<in> {PageIoDone, PageIoFailed 0}"
    "pm_io m = [] \<Longrightarrow> x = PageIoDone \<and> pm_io m0 = []"
    by (rule next_io_cases[of m]) blast
  define m1 where "m1 = m0\<lparr>pm_file := copy_at (pm_file m0) (4096 * unat ?i) (page_bytes p)\<rparr>"
  have m1: "wf_pages m1" "pm_count m1 = pm_count m" "pm_io m1 = pm_io m0" using wf m0 le len by (auto simp: m1_def wf_pages_def)
  have img: "page_img m1 = (page_img m)(?i \<mapsto> page_bytes p)"
  proof
    fix j
    have "slice (copy_at (pm_file m) (4096 * unat ?i) (page_bytes p)) (4096 * unat j) (4096 * unat j + 4096) =
        slice (pm_file m) (4096 * unat j) (4096 * unat j + 4096)" if "j \<noteq> ?i" "j < pm_count m"
    proof (rule slice_copy_at_other)
      have "unat j \<noteq> unat ?i" using that(1) word_unat_eq_iff by blast
      then show "4096 * unat j + 4096 \<le> 4096 * unat ?i \<or> 4096 * unat ?i + length (page_bytes p) \<le> 4096 * unat j"
        using len by linarith
      show "4096 * unat j + 4096 \<le> length (pm_file m)" using that(2) wf by (simp add: wf_pages_def word_less_nat_alt)
    qed (use le len in simp)
    then show "page_img m1 j = ((page_img m)(?i \<mapsto> page_bytes p)) j"
      using le len lt m0 by (auto simp: page_img_def m1_def)
  qed
  have w: "write_page p m = (case x of PageIoDone \<Rightarrow> (Inr (), m1)
      | PageIoFailed n \<Rightarrow> (Inl SeIo, m0\<lparr>pm_file := copy_at (pm_file m0) (4096 * unat ?i) (take n (page_bytes p))\<rparr>))"
    using lt page_offset_ok[OF wf, of ?i] m0(1) by (simp add: write_page_def ensure_page_exists_def m1_def not_le split: page_io.splits)
  have zero: "m0\<lparr>pm_file := copy_at (pm_file m0) (4096 * unat ?i) (take 0 (page_bytes p))\<rparr> = m0"
    by (simp add: copy_at_def)
  from m0(6)[OF io] consider "x = PageIoDone" | "x = PageIoFailed 0" by blast
  then show thesis
  proof cases
    case 1
    then show thesis using that[of "Inr ()" m1] w m1 img m0 io by (simp add: atomic_io_def)
  next
    case 2
    then show thesis using that[of "Inl SeIo" m0] w zero m0 io wf by auto
  qed
qed

lemma allocate_page_img:
  assumes wf: "wf_pages m" and io: "atomic_io m" and fits: "4096 * (unat (pm_count m) + 1) \<le> USIZE_MAX"
  obtains r m' where "allocate_page m = (r, m')" "wf_pages m'" "atomic_io m'"
    "r = Inr (page_zero (pm_count m)) \<and> page_img m' = (page_img m)(pm_count m \<mapsto> replicate 4096 0) \<and> unat (pm_count m') = unat (pm_count m) + 1 \<or>
     r = Inl SeIo \<and> page_img m' = page_img m \<and> pm_count m' = pm_count m"
    "pm_io m = [] \<Longrightarrow> r = Inr (page_zero (pm_count m)) \<and> pm_io m' = []"
proof -
  let ?n = "pm_count m"
  have add: "checked_add_u64 ?n 1 = Some (?n + 1)" and n1: "unat (?n + 1) = unat ?n + 1"
    using fits by (simp_all add: checked_add_u64_def USIZE_MAX_def unat_word_ariths)
  obtain x m0 where m0: "next_io m = (x, m0)" "pm_file m0 = pm_file m" "pm_count m0 = pm_count m" "wf_pages m0 = wf_pages m"
    "page_img m0 = page_img m" "atomic_io m \<Longrightarrow> atomic_io m0 \<and> x \<in> {PageIoDone, PageIoFailed 0}"
    "pm_io m = [] \<Longrightarrow> x = PageIoDone \<and> pm_io m0 = []"
    by (rule next_io_cases[of m]) blast
  have zero: "page_bytes (page_zero ?n) = replicate 4096 0" by (simp add: page_zero_def PAGE_SIZE_def)
  define m1 where "m1 = m0\<lparr>pm_file := pm_file m0 @ replicate 4096 0, pm_count := ?n + 1\<rparr>"
  have len: "length (pm_file m) = 4096 * unat ?n" using wf by (simp add: wf_pages_def)
  have m1: "wf_pages m1" "pm_io m1 = pm_io m0" using wf m0 n1 fits by (auto simp: m1_def wf_pages_def)
  have img: "page_img m1 = (page_img m)(?n \<mapsto> replicate 4096 0)"
  proof
    fix j
    have "slice (pm_file m @ replicate 4096 0) (4096 * unat j) (4096 * unat j + 4096) =
        slice (pm_file m) (4096 * unat j) (4096 * unat j + 4096)" if "j < ?n"
      using that len by (simp add: slice_def word_less_nat_alt)
    moreover have "slice (pm_file m @ replicate 4096 0) (4096 * unat ?n) (4096 * unat ?n + 4096) = replicate 4096 0"
      using len by (simp add: slice_def)
    moreover have "j < ?n + 1 \<longleftrightarrow> j < ?n \<or> j = ?n" using n1 by (auto simp: word_less_nat_alt word_unat_eq_iff)
    ultimately show "page_img m1 j = ((page_img m)(?n \<mapsto> replicate 4096 0)) j"
      using m0 by (auto simp: page_img_def m1_def)
  qed
  have w: "allocate_page m = (case x of PageIoDone \<Rightarrow> (Inr (page_zero ?n), m1)
      | PageIoFailed n \<Rightarrow> (Inl SeIo, m0\<lparr>pm_file := pm_file m0 @ take n (page_bytes (page_zero ?n))\<rparr>))"
    using add m0(1,2) zero by (simp add: allocate_page_def m1_def Let_def split: page_io.splits)
  from m0(6)[OF io] consider "x = PageIoDone" | "x = PageIoFailed 0" by blast
  then show thesis
  proof cases
    case 1
    then show thesis using that[of "Inr (page_zero ?n)" m1] w m1 img m0 io n1 by (simp add: atomic_io_def m1_def)
  next
    case 2
    then show thesis using that[of "Inl SeIo" m0] w m0 io wf by auto
  qed
qed

lemma remove_trailing_page_img:
  assumes wf: "wf_pages m" and io: "atomic_io m" and i: "i \<noteq> 0" "i = pm_count m \<or> unat (pm_count m) = unat i + 1"
  obtains r m' where "remove_trailing_page i m = (r, m')" "wf_pages m'" "atomic_io m'"
    "r = Inr (i \<noteq> pm_count m) \<and> page_img m' = (page_img m)(i := None) \<and> pm_count m' = i \<or>
     r = Inl SeIo \<and> page_img m' = page_img m \<and> pm_count m' = pm_count m"
    "pm_io m = [] \<Longrightarrow> r = Inr (i \<noteq> pm_count m) \<and> pm_io m' = []"
proof -
  let ?n = "pm_count m"
  have le: "i \<le> ?n" using i(2) by (auto simp: word_le_nat_alt)
  obtain x m0 where m0: "next_io m = (x, m0)" "pm_file m0 = pm_file m" "pm_count m0 = pm_count m" "wf_pages m0 = wf_pages m"
    "page_img m0 = page_img m" "atomic_io m \<Longrightarrow> atomic_io m0 \<and> x \<in> {PageIoDone, PageIoFailed 0}"
    "pm_io m = [] \<Longrightarrow> x = PageIoDone \<and> pm_io m0 = []"
    by (rule next_io_cases[of m]) blast
  define m1 where "m1 = m0\<lparr>pm_file := take (4096 * unat i) (pm_file m), pm_count := i\<rparr>"
  have len: "length (pm_file m) = 4096 * unat ?n" using wf by (simp add: wf_pages_def)
  have cut: "set_len (4096 * unat i) (pm_file m) = take (4096 * unat i) (pm_file m)"
    using le len by (simp add: set_len_def word_le_nat_alt)
  have m1: "wf_pages m1" "pm_io m1 = pm_io m0" using wf m0 i(1) le len by (auto simp: m1_def wf_pages_def word_le_nat_alt)
  have img: "page_img m1 = (page_img m)(i := None)"
  proof
    fix j
    have "slice (take (4096 * unat i) (pm_file m)) (4096 * unat j) (4096 * unat j + 4096) =
        slice (pm_file m) (4096 * unat j) (4096 * unat j + 4096)" if "j < i"
      using that by (simp add: slice_def word_less_nat_alt drop_take min_def)
    moreover have "j < ?n \<longleftrightarrow> j < i \<or> j = i \<and> i \<noteq> ?n" using i(2) by (auto simp: word_less_nat_alt word_unat_eq_iff)
    ultimately show "page_img m1 j = ((page_img m)(i := None)) j"
      by (auto simp: page_img_def m1_def)
  qed
  have geometry: "(if i = ?n then Inr False
      else bindR (ok_or (PageOffsetOverflow i) (checked_add_u64 i 1)) (\<lambda>expected_count.
           bindR (ensure (\<not> (expected_count \<noteq> ?n \<or> i = 0)) (SeInvalidFormat ''page cannot be removed'')) (\<lambda>_. Inr True))) =
      Inr (i \<noteq> ?n)"
  proof (cases "i = ?n")
    case False
    then have n: "unat ?n = unat i + 1" using i(2) by simp
    then have "unat i + 1 < 2 ^ 64" using u64_bound[of ?n] by simp
    then have "checked_add_u64 i 1 = Some ?n" using n by (simp add: checked_add_u64_def word_unat_eq_iff unat_word_ariths)
    then show ?thesis using False i(1) by simp
  qed simp
  have w: "remove_trailing_page i m = (case x of PageIoDone \<Rightarrow> (Inr (i \<noteq> ?n), m1) | PageIoFailed n \<Rightarrow> (Inl SeIo, m0))"
    unfolding remove_trailing_page_def geometry using m0(1,2,3) page_offset_ok[OF wf le] cut
    by (auto simp: m1_def split: page_io.splits)
  from m0(6)[OF io] consider "x = PageIoDone" | "x = PageIoFailed 0" by blast
  then show thesis
  proof cases
    case 1
    then show thesis using that[of "Inr (i \<noteq> ?n)" m1] w m1 img m0 io by (simp add: atomic_io_def m1_def)
  next
    case 2
    then show thesis using that[of "Inl SeIo" m0] w m0 io wf by auto
  qed
qed

end
