(* ===== verification/Wal.thy ===== *)
theory Wal
  imports Allocation_Transition
begin

text \<open>
  The write-ahead log of \<open>crates/netbadb-heap/src/wal.rs\<close>: the header and record formats, the rules a
  transaction's records and their page images obey, the scan of a generation with its torn tail, the
  manager's append and flush, and the rotation between two generation files. A file is its content; what
  the operating system answers to a write is an argument. Reads are taken to succeed.
\<close>

definition WAL_MAGIC :: "byte list" where "WAL_MAGIC = [0x4E, 0x42, 0x57, 0x4C]"
definition RECORD_MAGIC :: "byte list" where "RECORD_MAGIC = [0x57, 0x52, 0x45, 0x43]"
definition RECORD_FORMAT_VERSION :: u16 where "RECORD_FORMAT_VERSION = 5"
definition RECORD_HEADER_SIZE :: usize where "RECORD_HEADER_SIZE = 40"
definition PAGE_UPDATE_PAYLOAD_SIZE :: usize where "PAGE_UPDATE_PAYLOAD_SIZE = 8 + PAGE_SIZE * 2"
definition PREPARE_PAYLOAD_SIZE :: usize where "PREPARE_PAYLOAD_SIZE = 8"
definition HEADER_CHECKSUM_OFFSET :: usize where "HEADER_CHECKSUM_OFFSET = 40"
definition HEADER_CHECKSUM_END :: usize where "HEADER_CHECKSUM_END = 44"
definition RECORD_CHECKSUM_OFFSET :: usize where "RECORD_CHECKSUM_OFFSET = 12"
definition RECORD_CHECKSUM_END :: usize where "RECORD_CHECKSUM_END = 16"
definition WAL_FORMAT_VERSION :: u16 where "WAL_FORMAT_VERSION = 4"
definition WAL_HEADER_SIZE :: usize where "WAL_HEADER_SIZE = 48"
definition WAL_MAX_RECORD_SIZE :: usize where "WAL_MAX_RECORD_SIZE = RECORD_HEADER_SIZE + PAGE_UPDATE_PAYLOAD_SIZE"
definition INITIAL_GENERATION :: u64 where "INITIAL_GENERATION = 1"
definition INITIAL_BASE_LSN :: Lsn where "INITIAL_BASE_LSN = 1"
definition INITIAL_NEXT_TXN_ID :: TxnId where "INITIAL_NEXT_TXN_ID = 1"

lemmas wal_consts = RECORD_FORMAT_VERSION_def RECORD_HEADER_SIZE_def PAGE_UPDATE_PAYLOAD_SIZE_def PREPARE_PAYLOAD_SIZE_def
  HEADER_CHECKSUM_OFFSET_def HEADER_CHECKSUM_END_def RECORD_CHECKSUM_OFFSET_def RECORD_CHECKSUM_END_def
  WAL_FORMAT_VERSION_def WAL_HEADER_SIZE_def WAL_MAX_RECORD_SIZE_def PAGE_SIZE_def

fun kind_tag :: "wal_record_kind \<Rightarrow> u8" where
  "kind_tag Begin = 1"
| "kind_tag PageGenerationReservation = 7"
| "kind_tag (PageUpdate _ _ _) = 2"
| "kind_tag (PageAllocationTransition _ _ _) = 8"
| "kind_tag Commit = 3"
| "kind_tag Abort = 4"
| "kind_tag RollbackComplete = 5"
| "kind_tag (Prepare _) = 6"

fun kind_payload_len :: "wal_record_kind \<Rightarrow> usize" where
  "kind_payload_len (PageUpdate _ _ _) = PAGE_UPDATE_PAYLOAD_SIZE"
| "kind_payload_len (PageAllocationTransition _ _ _) = PAGE_UPDATE_PAYLOAD_SIZE"
| "kind_payload_len (Prepare _) = PREPARE_PAYLOAD_SIZE"
| "kind_payload_len _ = 0"

definition encoded_record_len :: "wal_record_kind \<Rightarrow> usize" where
  "encoded_record_len kind = RECORD_HEADER_SIZE + kind_payload_len kind"

definition begin_record_write_bytes :: usize where
  "begin_record_write_bytes = encoded_record_len Begin"

definition page_image_record_write_bytes :: usize where
  "page_image_record_write_bytes = RECORD_HEADER_SIZE + PAGE_UPDATE_PAYLOAD_SIZE"

definition page_generation_reservation_record_write_bytes :: usize where
  "page_generation_reservation_record_write_bytes = encoded_record_len PageGenerationReservation"

definition prepare_record_write_bytes :: usize where
  "prepare_record_write_bytes = encoded_record_len (Prepare 1)"

definition commit_record_write_bytes :: usize where
  "commit_record_write_bytes = encoded_record_len Commit"

record wal_header =
  wh_generation :: u64
  wh_base_lsn :: Lsn
  wh_checkpoint_lsn :: "Lsn option"
  wh_next_txn_id :: TxnId

section \<open>The file header\<close>

definition validate_wal_header :: "wal_header \<Rightarrow> (wal_error, unit) res" where
  "validate_wal_header h =
     bindR (ensure (wh_generation h \<noteq> 0) (InvalidGeneration (wh_generation h))) (\<lambda>_.
     bindR (ensure (\<not> (wh_base_lsn h = 0 \<or>
                       (case wh_checkpoint_lsn h of None \<Rightarrow> False | Some c \<Rightarrow> c \<ge> wh_base_lsn h)))
              (InvalidBaseLsn (wh_base_lsn h) (wh_checkpoint_lsn h))) (\<lambda>_.
     ensure (wh_next_txn_id h \<noteq> 0) (InvalidNextTxnId 0)))"

definition lsn_or_zero :: "Lsn option \<Rightarrow> u64" where
  "lsn_or_zero l = (case l of None \<Rightarrow> 0 | Some lsn \<Rightarrow> lsn)"

definition nonzero_lsn :: "u64 \<Rightarrow> Lsn option" where
  "nonzero_lsn raw = (if raw \<noteq> 0 then Some raw else None)"

definition encode_wal_header :: "crc \<Rightarrow> wal_header \<Rightarrow> (wal_error, byte list) res" where
  "encode_wal_header C h =
     bindR (validate_wal_header h) (\<lambda>_.
     let bytes = replicate WAL_HEADER_SIZE 0;
         bytes = copy_at bytes 0 WAL_MAGIC;
         bytes = copy_at bytes 4 (to_le_bytes WAL_FORMAT_VERSION);
         bytes = copy_at bytes 6 (to_le_bytes (of_nat WAL_HEADER_SIZE :: u16));
         bytes = copy_at bytes 8 (to_le_bytes (wh_generation h));
         bytes = copy_at bytes 16 (to_le_bytes (wh_base_lsn h));
         bytes = copy_at bytes 24 (to_le_bytes (lsn_or_zero (wh_checkpoint_lsn h)));
         bytes = copy_at bytes 32 (to_le_bytes (wh_next_txn_id h))
     in Inr (copy_at bytes HEADER_CHECKSUM_OFFSET (to_le_bytes (crc32c C bytes))))"

text \<open>Unchecked little-endian reads; every use is within the buffer.\<close>

definition rd :: "byte list \<Rightarrow> usize \<Rightarrow> 'a::len word" where
  "rd bytes offset = from_le_bytes (slice bytes offset (offset + LENGTH('a) div 8))"

definition read_wal_header :: "crc \<Rightarrow> byte list \<Rightarrow> (wal_error, wal_header) res" where
  "read_wal_header C content =
     bindR (ensure (\<not> length content < WAL_HEADER_SIZE) TruncatedHeader) (\<lambda>_.
     let bytes = take WAL_HEADER_SIZE content
     in bindR (ensure (slice bytes 0 4 = WAL_MAGIC) WalInvalidMagic) (\<lambda>_.
        bindR (ensure (rd bytes 4 = WAL_FORMAT_VERSION) (WalUnsupportedVersion (rd bytes 4))) (\<lambda>_.
        bindR (ensure (unat (rd bytes 6 :: u16) = WAL_HEADER_SIZE) (WalInvalidHeaderSize (rd bytes 6))) (\<lambda>_.
        bindR (ensure (\<not> list_ex (\<lambda>b. b \<noteq> 0) (slice bytes HEADER_CHECKSUM_END WAL_HEADER_SIZE)) WalInvalidReservedBytes) (\<lambda>_.
        let stored = rd bytes HEADER_CHECKSUM_OFFSET;
            computed = crc32c C (copy_at bytes HEADER_CHECKSUM_OFFSET (replicate 4 0))
        in bindR (ensure (stored = computed) (HeaderChecksumMismatch stored computed)) (\<lambda>_.
           let h = \<lparr>wh_generation = rd bytes 8, wh_base_lsn = rd bytes 16,
                    wh_checkpoint_lsn = nonzero_lsn (rd bytes 24), wh_next_txn_id = rd bytes 32\<rparr>
           in bindR (validate_wal_header h) (\<lambda>_. Inr h)))))))"

definition logical_lsn :: "Lsn \<Rightarrow> usize \<Rightarrow> (wal_error, Lsn) res" where
  "logical_lsn base_lsn physical_offset =
     bindR (ok_or TruncatedHeader (checked_sub physical_offset WAL_HEADER_SIZE)) (\<lambda>relative.
     ok_or LsnOverflow (checked_add_u64 base_lsn (of_nat relative)))"

section \<open>The record codec\<close>

definition record_version :: "wal_record_kind \<Rightarrow> u16" where
  "record_version kind =
     (case kind of
        PageAllocationTransition _ _ _ \<Rightarrow> RECORD_FORMAT_VERSION
      | PageGenerationReservation \<Rightarrow> 4
      | _ \<Rightarrow> 3)"

definition encode_payload :: "wal_record \<Rightarrow> (wal_error, byte list) res" where
  "encode_payload r =
     (case rec_kind r of
        PageUpdate pg before after \<Rightarrow> Inr (to_le_bytes pg @ before @ after)
      | PageAllocationTransition pg before after \<Rightarrow> Inr (to_le_bytes pg @ before @ after)
      | Prepare db \<Rightarrow> if db = 0 then Inl (InvalidDatabaseTxnId (rec_lsn r)) else Inr (to_le_bytes db)
      | _ \<Rightarrow> Inr [])"

definition encode_wal_record :: "crc \<Rightarrow> wal_record \<Rightarrow> (wal_error, byte list) res" where
  "encode_wal_record C r =
     bindR (ok_or LsnOverflow (checked_add RECORD_HEADER_SIZE (kind_payload_len (rec_kind r)))) (\<lambda>total_len.
     let bytes = RECORD_MAGIC @ to_le_bytes (record_version (rec_kind r)) @ [kind_tag (rec_kind r), 0] @
                 to_le_bytes (of_nat total_len :: u32) @ to_le_bytes (0 :: u32) @ to_le_bytes (rec_lsn r) @
                 to_le_bytes (rec_txn_id r) @ to_le_bytes (lsn_or_zero (rec_prev_lsn r))
     in bindR (encode_payload r) (\<lambda>payload.
        let bytes = bytes @ payload
        in Inr (copy_at bytes RECORD_CHECKSUM_OFFSET (to_le_bytes (crc32c C bytes)))))"

definition expected_payload_for_tag :: "Lsn \<Rightarrow> u8 \<Rightarrow> (wal_error, u32) res" where
  "expected_payload_for_tag lsn tag =
     (if tag = 1 \<or> tag = 3 \<or> tag = 4 \<or> tag = 5 \<or> tag = 7 then Inr 0
      else if tag = 2 \<or> tag = 8 then Inr (of_nat PAGE_UPDATE_PAYLOAD_SIZE)
      else if tag = 6 then Inr (of_nat PREPARE_PAYLOAD_SIZE)
      else Inl (UnknownRecordType lsn tag))"

text \<open>The length field against the tag's payload, common to complete and partial headers.\<close>

definition validate_length :: "Lsn \<Rightarrow> u8 \<Rightarrow> u32 \<Rightarrow> (wal_error, unit) res" where
  "validate_length lsn tag total_len =
     bindR (ensure (\<not> total_len < of_nat RECORD_HEADER_SIZE) (InvalidRecordLength lsn total_len)) (\<lambda>_.
     bindR (ensure (\<not> unat total_len > WAL_MAX_RECORD_SIZE) (WalRecordTooLarge lsn total_len)) (\<lambda>_.
     bindR (expected_payload_for_tag lsn tag) (\<lambda>payload.
     bindR (ok_or LsnOverflow (checked_add_u32 (of_nat RECORD_HEADER_SIZE) payload)) (\<lambda>expected.
     ensure (total_len = expected) (UnexpectedRecordLength lsn expected total_len)))))"

definition validate_record_framing :: "Lsn \<Rightarrow> byte list \<Rightarrow> (wal_error, u8 \<times> u32) res" where
  "validate_record_framing lsn record_header =
     bindR (ensure (slice record_header 0 4 = RECORD_MAGIC) (InvalidRecordMagic lsn)) (\<lambda>_.
     let version = rd record_header 4
     in bindR (ensure (version = 3 \<or> version = 4 \<or> version = RECORD_FORMAT_VERSION)
                 (UnsupportedRecordVersion lsn version)) (\<lambda>_.
        bindR (ensure (record_header ! 7 = 0) WalInvalidReservedBytes) (\<lambda>_.
        let record_type = record_header ! 6
        in bindR (ensure (\<not> ((version < 4 \<and> record_type = 7) \<or> (version < 5 \<and> record_type = 8)))
                    (UnknownRecordType lsn record_type)) (\<lambda>_.
           bindR (expected_payload_for_tag lsn record_type) (\<lambda>_.
           let total_len = rd record_header 8
           in bindR (validate_length lsn record_type total_len) (\<lambda>_.
              Inr (record_type, total_len)))))))"

definition verify_record_checksum :: "crc \<Rightarrow> Lsn \<Rightarrow> byte list \<Rightarrow> (wal_error, unit) res" where
  "verify_record_checksum C lsn record_bytes =
     (let stored = rd record_bytes RECORD_CHECKSUM_OFFSET;
          computed = crc32c C (copy_at record_bytes RECORD_CHECKSUM_OFFSET (replicate 4 0))
      in ensure (stored = computed) (WalRecordChecksumMismatch lsn stored computed))"

definition validate_partial_record_header :: "Lsn \<Rightarrow> byte list \<Rightarrow> (wal_error, unit) res" where
  "validate_partial_record_header lsn bytes =
     (let magic_len = min (length bytes) (length RECORD_MAGIC)
      in bindR (ensure (take magic_len bytes = take magic_len RECORD_MAGIC) (InvalidRecordMagic lsn)) (\<lambda>_.
         bindR (if length bytes \<ge> 6 then
                  let version = rd bytes 4
                  in ensure (version = 3 \<or> version = 4 \<or> version = RECORD_FORMAT_VERSION)
                       (UnsupportedRecordVersion lsn version)
                else Inr ()) (\<lambda>_.
         bindR (if length bytes \<ge> 7 then
                  bindR (ensure (\<not> (((rd bytes 4 :: u16) < 4 \<and> bytes ! 6 = 7) \<or> ((rd bytes 4 :: u16) < 5 \<and> bytes ! 6 = 8)))
                           (UnknownRecordType lsn (bytes ! 6))) (\<lambda>_.
                  bindR (expected_payload_for_tag lsn (bytes ! 6)) (\<lambda>_. Inr ()))
                else Inr ()) (\<lambda>_.
         bindR (ensure (\<not> (length bytes \<ge> 8 \<and> bytes ! 7 \<noteq> 0)) WalInvalidReservedBytes) (\<lambda>_.
         if length bytes \<ge> 12 then validate_length lsn (bytes ! 6) (rd bytes 8) else Inr ())))))"

section \<open>Transaction sequences\<close>

datatype wal_txn_state = WalActive | WalPrepared | WalAborting | WalComplete

fun wal_state_after :: "wal_record_kind \<Rightarrow> wal_txn_state" where
  "wal_state_after Begin = WalActive"
| "wal_state_after (PageUpdate _ _ _) = WalActive"
| "wal_state_after (PageAllocationTransition _ _ _) = WalActive"
| "wal_state_after PageGenerationReservation = WalActive"
| "wal_state_after (Prepare _) = WalPrepared"
| "wal_state_after Abort = WalAborting"
| "wal_state_after Commit = WalComplete"
| "wal_state_after RollbackComplete = WalComplete"

definition validate_transaction_tag_sequence :: "Lsn \<Rightarrow> TxnId \<Rightarrow> wal_txn_state option \<Rightarrow> u8 \<Rightarrow> (wal_error, unit) res" where
  "validate_transaction_tag_sequence lsn txn state record_type =
     ensure
       (case state of
          None \<Rightarrow> record_type = 1
        | Some WalActive \<Rightarrow> 2 \<le> record_type \<and> record_type \<le> 4 \<or> 6 \<le> record_type \<and> record_type \<le> 8
        | Some WalPrepared \<Rightarrow> 3 \<le> record_type \<and> record_type \<le> 4
        | Some WalAborting \<Rightarrow> record_type = 5
        | Some WalComplete \<Rightarrow> False)
       (InvalidTransactionSequence lsn txn record_type)"

definition validate_transaction_sequence :: "Lsn \<Rightarrow> TxnId \<Rightarrow> wal_txn_state option \<Rightarrow> wal_record_kind \<Rightarrow> (wal_error, unit) res" where
  "validate_transaction_sequence lsn txn state kind = validate_transaction_tag_sequence lsn txn state (kind_tag kind)"

definition validate_transition_reservation :: "crc \<Rightarrow> Lsn \<Rightarrow> TxnId \<Rightarrow> wal_record_kind \<Rightarrow> (Lsn \<rightharpoonup> TxnId)
    \<Rightarrow> (wal_error, Lsn option) res" where
  "validate_transition_reservation C lsn txn kind reservations =
     (case kind of
        PageAllocationTransition pg before after \<Rightarrow>
          bindR (map_err (\<lambda>_. InvalidPageImage lsn ''transition generation'')
                   (allocation_generation C \<lparr>page_id = pg, page_bytes = after\<rparr>)) (\<lambda>g.
          bindR (ok_or (InvalidPageImage lsn ''transition generation'') g) (\<lambda>reservation.
          bindR (ensure (reservations reservation = Some txn)
                   (InvalidPageImage lsn ''transition reservation missing or foreign'')) (\<lambda>_.
          Inr (Some reservation))))
      | _ \<Rightarrow> Inr None)"

section \<open>Page images\<close>

definition image_err :: "Lsn \<Rightarrow> string \<Rightarrow> (storage_error, 'a) res \<Rightarrow> (wal_error, 'a) res" where
  "image_err lsn img r = map_err (\<lambda>_. InvalidPageImage lsn img) r"

definition validate_transition_images :: "crc \<Rightarrow> Lsn \<Rightarrow> page \<Rightarrow> page \<Rightarrow> (wal_error, unit) res" where
  "validate_transition_images C lsn before after =
     bindR (image_err lsn ''allocation transition'' (validate_transition C before after)) (\<lambda>_.
     bindR (image_err lsn ''before'' (page_lsn C before)) (\<lambda>before_lsn.
     bindR (if before_lsn \<ge> Some lsn then Inr True
            else bindR (image_err lsn ''after allocation'' (allocation_generation C after)) (\<lambda>g.
                 Inr (case g of None \<Rightarrow> False | Some g \<Rightarrow> g \<ge> lsn))) (\<lambda>late.
     bindR (ensure (\<not> late) (InvalidPageImage lsn ''transition chronology'')) (\<lambda>_.
     bindR (image_err lsn ''after'' (page_lsn C after)) (\<lambda>plsn.
     ensure (plsn = Some lsn) (InvalidPageLsn lsn plsn))))))"

text \<open>The closure that compares owners and retirement of two images of a tree page.\<close>

definition validate_ownership :: "crc \<Rightarrow> page \<Rightarrow> page_type \<Rightarrow> page \<Rightarrow> page_type \<Rightarrow> (storage_error, unit) res" where
  "validate_ownership C old old_kind after new_kind =
     bindR (single_payload C old old_kind) (\<lambda>old_payload.
     bindR (single_payload C after new_kind) (\<lambda>new_payload.
     bindR (index_res (btree_page_owner old_payload)) (\<lambda>old_owner.
     bindR (index_res (btree_page_owner new_payload)) (\<lambda>new_owner.
     bindR (index_res (validate_btree_owner old_owner new_owner)) (\<lambda>_.
     bindR (index_res (Index_Codec.retired_btree_page old_payload)) (\<lambda>old_marker.
     bindR (ensure (old_marker = None) (SeInvalidFormat ''retired allocation requires transition'')) (\<lambda>_.
     bindR (index_res (Index_Codec.retired_btree_page new_payload)) (\<lambda>new_marker.
     if new_marker \<noteq> None then bindR (identity C old) (\<lambda>_. Inr ()) else Inr ()))))))))"

definition validate_update_images :: "crc \<Rightarrow> Lsn \<Rightarrow> page \<Rightarrow> page \<Rightarrow> (wal_error, unit) res" where
  "validate_update_images C lsn before after =
     (let existing = list_ex (\<lambda>b. b \<noteq> 0) (page_bytes before)
      in bindR (if existing then
                  bindR (image_err lsn ''before'' (page_lsn C before)) (\<lambda>before_lsn.
                  ensure (\<not> (case before_lsn of None \<Rightarrow> False | Some l \<Rightarrow> l \<ge> lsn)) (InvalidPageImage lsn ''before''))
                else Inr ()) (\<lambda>_.
         bindR (image_err lsn ''after'' (page_lsn C after)) (\<lambda>plsn.
         bindR (image_err lsn ''after allocation'' (allocation_generation C after)) (\<lambda>generation.
         bindR (ensure (\<not> (case generation of None \<Rightarrow> False | Some g \<Rightarrow> g \<ge> lsn))
                  (InvalidPageImage lsn ''unreserved allocation'')) (\<lambda>_.
         bindR (if existing then
                  bindR (image_err lsn ''changed allocation'' (validate_allocation C before generation)) (\<lambda>_.
                  bindR (image_err lsn ''before kind'' (header C before)) (\<lambda>old_header.
                  bindR (image_err lsn ''after kind'' (header C after)) (\<lambda>new_header.
                  let old_kind = hdr_page_type old_header; new_kind = hdr_page_type new_header
                  in bindR (ensure (old_kind = new_kind) (InvalidPageImage lsn ''changed page kind'')) (\<lambda>_.
                     if new_kind = BTreeMeta \<or> new_kind = BTreeLeaf \<or> new_kind = BTreeInternal
                     then image_err lsn ''changed BTree ownership or retired state''
                            (validate_ownership C before old_kind after new_kind)
                     else Inr ()))))
                else Inr ()) (\<lambda>_.
         ensure (plsn = Some lsn) (InvalidPageLsn lsn plsn)))))))"

definition validate_page_images :: "crc \<Rightarrow> Lsn \<Rightarrow> wal_record_kind \<Rightarrow> (wal_error, unit) res" where
  "validate_page_images C lsn kind =
     (case kind of
        PageAllocationTransition pg before after \<Rightarrow>
          validate_transition_images C lsn \<lparr>page_id = pg, page_bytes = before\<rparr> \<lparr>page_id = pg, page_bytes = after\<rparr>
      | PageUpdate pg before after \<Rightarrow>
          validate_update_images C lsn \<lparr>page_id = pg, page_bytes = before\<rparr> \<lparr>page_id = pg, page_bytes = after\<rparr>
      | _ \<Rightarrow> Inr ())"

section \<open>Scanning a generation\<close>

datatype tail_policy = RejectTail | AllowIncompleteFinalRecord

record scan_result =
  scan_records_of :: "wal_record list"
  valid_end :: usize
  incomplete_tail :: bool

text \<open>The variables of the scan loop.\<close>

record scan_state =
  sc_records :: "wal_record list"
  sc_last :: "TxnId \<rightharpoonup> Lsn"
  sc_states :: "TxnId \<rightharpoonup> wal_txn_state"
  sc_reservations :: "Lsn \<rightharpoonup> TxnId"

definition decode_kind :: "Lsn \<Rightarrow> u8 \<Rightarrow> byte list \<Rightarrow> (wal_error, wal_record_kind) res" where
  "decode_kind lsn record_type payload =
     (if record_type = 1 then Inr Begin
      else if record_type = 2 \<or> record_type = 8 then
        let pg = rd payload 0; before = slice payload 8 (8 + PAGE_SIZE); after = drop (8 + PAGE_SIZE) payload
        in if record_type = 8 then Inr (PageAllocationTransition pg before after) else Inr (PageUpdate pg before after)
      else if record_type = 3 then Inr Commit
      else if record_type = 4 then Inr Abort
      else if record_type = 5 then Inr RollbackComplete
      else if record_type = 7 then Inr PageGenerationReservation
      else if record_type = 6 then
        let db = rd payload 0
        in if db = 0 then Inl (InvalidDatabaseTxnId lsn) else Inr (Prepare db)
      else Inl (UnknownRecordType lsn record_type))"

definition push_record :: "wal_record \<Rightarrow> scan_state \<Rightarrow> scan_state" where
  "push_record r s =
     s\<lparr>sc_records := sc_records s @ [r], sc_last := (sc_last s)(rec_txn_id r \<mapsto> rec_lsn r),
       sc_states := (sc_states s)(rec_txn_id r \<mapsto> wal_state_after (rec_kind r)),
       sc_reservations :=
         (if rec_kind r = PageGenerationReservation then (sc_reservations s)(rec_lsn r \<mapsto> rec_txn_id r)
          else sc_reservations s)\<rparr>"

text \<open>The body of the loop for one complete record.\<close>

definition scan_record :: "crc \<Rightarrow> Lsn \<Rightarrow> u8 \<Rightarrow> byte list \<Rightarrow> scan_state \<Rightarrow> (wal_error, scan_state) res" where
  "scan_record C lsn record_type record_bytes s =
     bindR (verify_record_checksum C lsn record_bytes) (\<lambda>_.
     let actual_lsn = rd record_bytes 16
     in bindR (ensure (actual_lsn = lsn) (InvalidRecordedLsn lsn actual_lsn)) (\<lambda>_.
        let txn = rd record_bytes 24; prev_lsn = nonzero_lsn (rd record_bytes 32)
        in bindR (ensure (prev_lsn = sc_last s txn) (InvalidPrevLsn lsn (sc_last s txn) prev_lsn)) (\<lambda>_.
           bindR (validate_transaction_tag_sequence lsn txn (sc_states s txn) record_type) (\<lambda>_.
           bindR (decode_kind lsn record_type (drop RECORD_HEADER_SIZE record_bytes)) (\<lambda>kind.
           bindR (validate_page_images C lsn kind) (\<lambda>_.
           bindR (validate_transition_reservation C lsn txn kind (sc_reservations s)) (\<lambda>_.
           Inr (push_record \<lparr>rec_lsn = lsn, rec_txn_id = txn, rec_prev_lsn = prev_lsn, rec_kind = kind\<rparr> s))))))))"

definition torn_tail :: "tail_policy \<Rightarrow> Lsn \<Rightarrow> usize \<Rightarrow> scan_state \<Rightarrow> (wal_error, scan_result) res" where
  "torn_tail policy lsn offset s =
     (if policy = AllowIncompleteFinalRecord
      then Inr \<lparr>scan_records_of = sc_records s, valid_end = offset, incomplete_tail = True\<rparr>
      else Inl (WalTruncatedRecord lsn))"

lemma validate_length_min: "validate_length lsn tag len = Inr u \<Longrightarrow> 40 \<le> unat len"
  by (auto simp: validate_length_def RECORD_HEADER_SIZE_def not_less word_le_nat_alt)

lemma framing_min: "validate_record_framing lsn bytes = Inr (tag, len) \<Longrightarrow> 40 \<le> unat len"
  using validate_length_min by (auto simp: validate_record_framing_def Let_def)

function scan_loop :: "crc \<Rightarrow> tail_policy \<Rightarrow> Lsn \<Rightarrow> byte list \<Rightarrow> usize \<Rightarrow> scan_state \<Rightarrow> (wal_error, scan_result) res" where
  "scan_loop C policy base content offset s =
     (if offset < length content then
        bindR (logical_lsn base offset) (\<lambda>lsn.
        let remaining = length content - offset
        in if remaining < RECORD_HEADER_SIZE then
             bindR (validate_partial_record_header lsn (drop offset content)) (\<lambda>_. torn_tail policy lsn offset s)
           else
             bindR (validate_record_framing lsn (slice content offset (offset + RECORD_HEADER_SIZE))) (\<lambda>(record_type, total_len).
             if unat total_len > remaining then torn_tail policy lsn offset s
             else
               bindR (scan_record C lsn record_type (slice content offset (offset + unat total_len)) s) (\<lambda>s.
               bindR (ok_or LsnOverflow (checked_add offset (unat total_len))) (\<lambda>offset.
               scan_loop C policy base content offset s))))
      else Inr \<lparr>scan_records_of = sc_records s, valid_end = offset, incomplete_tail = False\<rparr>)"
  by pat_completeness auto
termination
  by (relation "measure (\<lambda>(C, policy, base, content, offset, s). length content - offset)")
     (auto dest!: framing_min simp: checked_add_def split: if_splits)

declare scan_loop.simps [simp del]

definition empty_scan :: scan_state where
  "empty_scan = \<lparr>sc_records = [], sc_last = Map.empty, sc_states = Map.empty, sc_reservations = Map.empty\<rparr>"

definition scan_file :: "crc \<Rightarrow> tail_policy \<Rightarrow> byte list \<Rightarrow> (wal_error, scan_result) res" where
  "scan_file C policy content =
     bindR (read_wal_header C content) (\<lambda>h.
     scan_loop C policy (wh_base_lsn h) content WAL_HEADER_SIZE empty_scan)"

section \<open>The manager\<close>

text \<open>
  The open manager. \<open>wm_file\<close> is the content of the selected generation's file; the other path of the
  pair is passed along where it matters. Locks and paths of the ownership domain are not modelled: that
  they hold is one of the answers of the operating system.
\<close>

record wal_manager =
  wm_file :: "byte list"
  wm_generation :: u64
  wm_base_lsn :: Lsn
  wm_checkpoint_lsn :: "Lsn option"
  wm_next_txn_id :: TxnId
  wm_next_offset :: usize
  wm_next_lsn :: Lsn
  wm_written_lsn :: "Lsn option"
  wm_durable_lsn :: "Lsn option"
  wm_last_by_txn :: "TxnId \<rightharpoonup> Lsn"
  wm_txn_states :: "TxnId \<rightharpoonup> wal_txn_state"
  wm_reservations :: "Lsn \<rightharpoonup> TxnId"
  wm_poisoned :: bool

definition last_lsn :: "wal_record list \<Rightarrow> Lsn option" where
  "last_lsn records = (if records = [] then None else Some (rec_lsn (last records)))"

definition max_txn_id :: "wal_record list \<Rightarrow> TxnId option" where
  "max_txn_id records = (if records = [] then None else Some (Max (set (map rec_txn_id records))))"

definition from_scan :: "byte list \<Rightarrow> wal_header \<Rightarrow> wal_record list \<Rightarrow> usize \<Rightarrow> (wal_error, wal_manager) res" where
  "from_scan content h records file_len =
     bindR (logical_lsn (wh_base_lsn h) file_len) (\<lambda>next_lsn.
     bindR (case max_txn_id records of
              None \<Rightarrow> Inr (wh_next_txn_id h)
            | Some maximum \<Rightarrow> ok_or (InvalidNextTxnId maximum) (checked_add_u64 maximum 1)) (\<lambda>records_next_txn_id.
     Inr \<lparr>wm_file = content, wm_generation = wh_generation h, wm_base_lsn = wh_base_lsn h,
          wm_checkpoint_lsn = wh_checkpoint_lsn h, wm_next_txn_id = max (wh_next_txn_id h) records_next_txn_id,
          wm_next_offset = file_len, wm_next_lsn = next_lsn, wm_written_lsn = last_lsn records, wm_durable_lsn = None,
          wm_last_by_txn = fold (\<lambda>r f. f(rec_txn_id r \<mapsto> rec_lsn r)) records Map.empty,
          wm_txn_states = fold (\<lambda>r f. f(rec_txn_id r \<mapsto> wal_state_after (rec_kind r))) records Map.empty,
          wm_reservations =
            fold (\<lambda>r f. f(rec_lsn r \<mapsto> rec_txn_id r)) (filter (\<lambda>r. rec_kind r = PageGenerationReservation) records) Map.empty,
          wm_poisoned = False\<rparr>))"

text \<open>\<open>create\<close>, when the operating system lets it.\<close>

definition wal_create :: "crc \<Rightarrow> bool \<Rightarrow> (wal_error, wal_manager) res" where
  "wal_create C alternate_exists =
     bindR (ensure (\<not> alternate_exists) GenerationConflict) (\<lambda>_.
     let h = \<lparr>wh_generation = INITIAL_GENERATION, wh_base_lsn = INITIAL_BASE_LSN, wh_checkpoint_lsn = None,
               wh_next_txn_id = INITIAL_NEXT_TXN_ID\<rparr>
      in bindR (encode_wal_header C h) (\<lambda>bytes. from_scan bytes h [] WAL_HEADER_SIZE))"

text \<open>
  What the operating system answers to an append: a lock or a file identity is lost, the seek fails, the
  write fails after some bytes (and the file can be cut back, or cannot), or all goes well.
\<close>

datatype wal_append_io = WalAppendDone | WalUnverified | WalSeekFailed | WalWriteFailed usize bool

definition ensure_healthy :: "bool \<Rightarrow> wal_manager \<Rightarrow> (wal_error, unit) res" where
  "ensure_healthy verified m =
     bindR (ensure (\<not> wm_poisoned m) WalPoisoned) (\<lambda>_. ensure verified WalIo)"

definition begin_next_txn_id :: "TxnId \<Rightarrow> wal_record_kind \<Rightarrow> (wal_error, TxnId option) res" where
  "begin_next_txn_id txn kind =
     (if kind = Begin then bindR (ok_or (InvalidNextTxnId txn) (checked_add_u64 txn 1)) (\<lambda>n. Inr (Some n)) else Inr None)"

text \<open>Everything \<open>append\<close> checks before it touches the file: the record, its bytes and the next position.\<close>

definition prepare_append :: "crc \<Rightarrow> TxnId \<Rightarrow> Lsn option \<Rightarrow> wal_record_kind \<Rightarrow> wal_manager
    \<Rightarrow> (wal_error, wal_record \<times> byte list \<times> TxnId option \<times> Lsn \<times> usize) res" where
  "prepare_append C txn prev_lsn kind m =
     (let lsn = wm_next_lsn m; expected_prev = wm_last_by_txn m txn
      in bindR (ensure (prev_lsn = expected_prev) (InvalidPrevLsn lsn expected_prev prev_lsn)) (\<lambda>_.
         bindR (validate_transaction_sequence lsn txn (wm_txn_states m txn) kind) (\<lambda>_.
         bindR (validate_page_images C lsn kind) (\<lambda>_.
         bindR (validate_transition_reservation C lsn txn kind (wm_reservations m)) (\<lambda>reservation.
         bindR (case reservation of
                  None \<Rightarrow> Inr ()
                | Some r \<Rightarrow> ensure (\<not> wm_durable_lsn m < Some r) (InvalidPageImage lsn ''transition reservation not durable'')) (\<lambda>_.
         bindR (begin_next_txn_id txn kind) (\<lambda>begin_next.
         let r = \<lparr>rec_lsn = lsn, rec_txn_id = txn, rec_prev_lsn = prev_lsn, rec_kind = kind\<rparr>
         in bindR (encode_wal_record C r) (\<lambda>bytes.
            bindR (ok_or LsnOverflow (checked_add_u64 lsn (of_nat (length bytes)))) (\<lambda>next_lsn.
            bindR (ok_or LsnOverflow (checked_add (wm_next_offset m) (length bytes))) (\<lambda>next_offset.
            Inr (r, bytes, begin_next, next_lsn, next_offset)))))))))))"

text \<open>The state after a record has been written.\<close>

definition install_record :: "wal_record \<Rightarrow> byte list \<Rightarrow> TxnId option \<Rightarrow> Lsn \<Rightarrow> usize \<Rightarrow> wal_manager \<Rightarrow> wal_manager" where
  "install_record r bytes begin_next next_lsn next_offset m =
     m\<lparr>wm_file := take (wm_next_offset m) (wm_file m) @ bytes, wm_next_offset := next_offset, wm_next_lsn := next_lsn,
       wm_written_lsn := Some (rec_lsn r), wm_last_by_txn := (wm_last_by_txn m)(rec_txn_id r \<mapsto> rec_lsn r),
       wm_reservations :=
         (if rec_kind r = PageGenerationReservation then (wm_reservations m)(rec_lsn r \<mapsto> rec_txn_id r)
          else wm_reservations m),
       wm_txn_states := (wm_txn_states m)(rec_txn_id r \<mapsto> wal_state_after (rec_kind r)),
       wm_next_txn_id := (case begin_next of None \<Rightarrow> wm_next_txn_id m | Some n \<Rightarrow> max n (wm_next_txn_id m))\<rparr>"

definition wal_append :: "crc \<Rightarrow> wal_append_io \<Rightarrow> TxnId \<Rightarrow> Lsn option \<Rightarrow> wal_record_kind \<Rightarrow> wal_manager
    \<Rightarrow> (wal_error, Lsn) res \<times> wal_manager" where
  "wal_append C io txn prev_lsn kind m =
     (case bindR (ensure_healthy (io \<noteq> WalUnverified) m) (\<lambda>_. prepare_append C txn prev_lsn kind m) of
        Inl e \<Rightarrow> (Inl e, m)
      | Inr (r, bytes, begin_next, next_lsn, next_offset) \<Rightarrow>
          (case io of
             WalWriteFailed written cut_back \<Rightarrow>
               if cut_back then (Inl WalIo, m\<lparr>wm_file := take (wm_next_offset m) (wm_file m)\<rparr>)
               else (Inl WalIo, m\<lparr>wm_file := take (wm_next_offset m) (wm_file m) @ take written bytes, wm_poisoned := True\<rparr>)
           | WalAppendDone \<Rightarrow> (Inr (rec_lsn r), install_record r bytes begin_next next_lsn next_offset m)
           | _ \<Rightarrow> (Inl WalIo, m)))"

definition flush_through :: "bool \<Rightarrow> bool \<Rightarrow> Lsn \<Rightarrow> wal_manager \<Rightarrow> (wal_error, unit) res \<times> wal_manager" where
  "flush_through verified synced lsn m =
     (case ensure_healthy verified m of
        Inl e \<Rightarrow> (Inl e, m)
      | Inr _ \<Rightarrow>
          if (case wm_durable_lsn m of None \<Rightarrow> False | Some d \<Rightarrow> d \<ge> lsn) then (Inr (), m)
          else if \<not> (case wm_written_lsn m of None \<Rightarrow> False | Some w \<Rightarrow> w \<ge> lsn)
            then (Inl (FlushBeyondWritten lsn (wm_written_lsn m)), m)
          else if \<not> synced then (Inl WalIo, m)
          else (Inr (), m\<lparr>wm_durable_lsn := wm_written_lsn m\<rparr>))"

definition wal_scan :: "crc \<Rightarrow> bool \<Rightarrow> wal_manager \<Rightarrow> (wal_error, wal_record list) res" where
  "wal_scan C verified m =
     bindR (ensure_healthy verified m) (\<lambda>_.
     bindR (scan_file C RejectTail (wm_file m)) (\<lambda>scan. Inr (scan_records_of scan)))"

section \<open>Generations\<close>

text \<open>
  A rotation's steps in order; the outcome names the first one the operating system refuses. The file of
  the target path may have been created and partly written when \<open>CreateFailed\<close> strikes.
\<close>

datatype rotate_io =
    RotateDone
  | RotateUnverified
  | RotateFlushFailed
  | ProbeFailed
  | CreateFailed "usize option"
  | TargetSyncFailed
  | OldUnverified
  | RemoveFailed
  | OldSyncFailed

definition rotated_header :: "TxnId \<Rightarrow> wal_manager \<Rightarrow> (wal_error, wal_header) res" where
  "rotated_header next_txn m =
     bindR (ok_or (InvalidGeneration (wm_generation m)) (checked_add_u64 (wm_generation m) 1)) (\<lambda>generation.
     let h = \<lparr>wh_generation = generation, wh_base_lsn = wm_next_lsn m,
              wh_checkpoint_lsn = (case wm_written_lsn m of Some l \<Rightarrow> Some l | None \<Rightarrow> wm_checkpoint_lsn m),
              wh_next_txn_id = next_txn\<rparr>
     in bindR (validate_wal_header h) (\<lambda>_. Inr h))"

definition switch_generation :: "wal_header \<Rightarrow> byte list \<Rightarrow> wal_manager \<Rightarrow> wal_manager" where
  "switch_generation h bytes m =
     m\<lparr>wm_file := bytes, wm_generation := wh_generation h, wm_base_lsn := wh_base_lsn h,
       wm_checkpoint_lsn := wh_checkpoint_lsn h, wm_next_txn_id := wh_next_txn_id h, wm_next_offset := WAL_HEADER_SIZE,
       wm_next_lsn := wh_base_lsn h, wm_written_lsn := None, wm_durable_lsn := None, wm_last_by_txn := Map.empty,
       wm_txn_states := Map.empty, wm_reservations := Map.empty\<rparr>"

definition flush_written :: "rotate_io \<Rightarrow> wal_manager \<Rightarrow> (wal_error, unit) res \<times> wal_manager" where
  "flush_written io m =
     (case wm_written_lsn m of
        None \<Rightarrow> (Inr (), m)
      | Some written \<Rightarrow> flush_through True (io \<noteq> RotateFlushFailed) written m)"

text \<open>The third component is the content of the other path, before and after.\<close>

definition rotate_wal :: "crc \<Rightarrow> rotate_io \<Rightarrow> TxnId \<Rightarrow> wal_manager \<Rightarrow> byte list option
    \<Rightarrow> (wal_error, unit) res \<times> wal_manager \<times> byte list option" where
  "rotate_wal C io next_txn m other =
     (case bindR (ensure_healthy (io \<noteq> RotateUnverified) m) (\<lambda>_.
            ensure (\<not> (next_txn = 0 \<or> next_txn < wm_next_txn_id m)) (InvalidNextTxnId next_txn)) of
        Inl e \<Rightarrow> (Inl e, m, other)
      | Inr _ \<Rightarrow>
          (case flush_written io m of
             (Inl e, m) \<Rightarrow> (Inl e, m, other)
           | (Inr _, m) \<Rightarrow>
               (case bindR (rotated_header next_txn m) (\<lambda>h.
                     bindR (ensure (io \<noteq> ProbeFailed) WalIo) (\<lambda>_.
                     bindR (ensure (other = None) GenerationConflict) (\<lambda>_. Inr h))) of
                  Inl e \<Rightarrow> (Inl e, m, other)
                | Inr h \<Rightarrow>
                    (case encode_wal_header C h of
                       Inl e \<Rightarrow> (Inl e, m\<lparr>wm_poisoned := True\<rparr>, other)
                     | Inr bytes \<Rightarrow>
                         let old = wm_file m; switched = switch_generation h bytes m
                         in case io of
                              CreateFailed written \<Rightarrow>
                                (Inl WalIo, m\<lparr>wm_poisoned := True\<rparr>, map_option (\<lambda>n. take n bytes) written)
                            | TargetSyncFailed \<Rightarrow> (Inl WalIo, m\<lparr>wm_poisoned := True\<rparr>, Some bytes)
                            | OldUnverified \<Rightarrow> (Inl WalIo, switched\<lparr>wm_poisoned := True\<rparr>, Some old)
                            | RemoveFailed \<Rightarrow> (Inl WalIo, switched\<lparr>wm_poisoned := True\<rparr>, Some old)
                            | OldSyncFailed \<Rightarrow> (Inl WalIo, switched\<lparr>wm_poisoned := True\<rparr>, None)
                            | _ \<Rightarrow> (Inr (), switched, None)))))"

definition or_else :: "'a option \<Rightarrow> 'a option \<Rightarrow> 'a option" where
  "or_else a b = (case a of Some x \<Rightarrow> Some x | None \<Rightarrow> b)"

definition saturating_add_u64 :: "u64 \<Rightarrow> u64 \<Rightarrow> u64" where
  "saturating_add_u64 a b = (case checked_add_u64 a b of Some c \<Rightarrow> c | None \<Rightarrow> -1)"

type_synonym wal_candidate = "byte list \<times> wal_header \<times> scan_result"

definition validate_successor :: "wal_header \<Rightarrow> scan_result \<Rightarrow> wal_header \<Rightarrow> (wal_error, unit) res" where
  "validate_successor older scan newer =
     bindR (ensure (wh_generation newer \<noteq> wh_generation older) GenerationConflict) (\<lambda>_.
     bindR (ok_or (InvalidGeneration (wh_generation older)) (checked_add_u64 (wh_generation older) 1)) (\<lambda>expected.
     bindR (logical_lsn (wh_base_lsn older) (valid_end scan)) (\<lambda>older_end.
     let older_checkpoint = or_else (last_lsn (scan_records_of scan)) (wh_checkpoint_lsn older);
         older_next_txn_id =
           (case max_txn_id (scan_records_of scan) of
              None \<Rightarrow> wh_next_txn_id older
            | Some maximum \<Rightarrow> max (saturating_add_u64 maximum 1) (wh_next_txn_id older))
     in ensure (\<not> (wh_generation newer \<noteq> expected \<or> wh_base_lsn newer \<noteq> older_end \<or>
                    wh_checkpoint_lsn newer \<noteq> older_checkpoint \<or> wh_next_txn_id newer < older_next_txn_id))
          GenerationConflict)))"

definition validate_generation_candidates :: "wal_candidate list \<Rightarrow> (wal_error, unit) res" where
  "validate_generation_candidates candidates =
     (if length candidates < 2 then Inr ()
      else
        let (_, older, scan) = candidates ! (length candidates - 2);
            (_, newer, _) = candidates ! (length candidates - 1)
        in validate_successor older scan newer)"

text \<open>One path of the pair: nothing there, a candidate, or a failure with the generation it names, if any.\<close>

datatype slot_outcome = NoFile | Candidate wal_candidate | Failure "u64 option" wal_error

definition probe_slot :: "crc \<Rightarrow> tail_policy \<Rightarrow> byte list option \<Rightarrow> slot_outcome" where
  "probe_slot C policy slot_content =
     (case slot_content of
        None \<Rightarrow> NoFile
      | Some content \<Rightarrow>
          if length content < WAL_HEADER_SIZE then Failure None TruncatedHeader
          else
            case read_wal_header C content of
              Inl e \<Rightarrow> Failure None e
            | Inr h \<Rightarrow>
                (case scan_file C policy content of
                   Inr scan \<Rightarrow> Candidate (content, h, scan)
                 | Inl e \<Rightarrow> Failure (Some (wh_generation h)) e))"

definition slot_candidates :: "slot_outcome list \<Rightarrow> wal_candidate list" where
  "slot_candidates outcomes = concat (map (\<lambda>s. case s of Candidate c \<Rightarrow> [c] | _ \<Rightarrow> []) outcomes)"

definition slot_failures :: "slot_outcome list \<Rightarrow> (u64 option \<times> wal_error) list" where
  "slot_failures outcomes = concat (map (\<lambda>s. case s of Failure g e \<Rightarrow> [(g, e)] | _ \<Rightarrow> []) outcomes)"

definition blocks_open :: "u64 \<Rightarrow> u64 option \<times> wal_error \<Rightarrow> bool" where
  "blocks_open selected f =
     (case fst f of Some generation \<Rightarrow> generation \<ge> selected | None \<Rightarrow> snd f \<noteq> TruncatedHeader)"

text \<open>
  \<open>open_selected\<close> on the contents of the two paths, when the operating system answers every request: the
  manager, its records, whether a torn record was cut off, and with it the file of the selected generation.
\<close>

definition open_selected :: "crc \<Rightarrow> tail_policy \<Rightarrow> bool \<Rightarrow> byte list option \<Rightarrow> byte list option
    \<Rightarrow> (wal_error, wal_manager \<times> wal_record list \<times> bool) res" where
  "open_selected C policy allow_mutation root alternate =
     (let outcomes = map (probe_slot C policy) [root, alternate];
          candidates = sort_key (\<lambda>(_, h, _). wh_generation h) (slot_candidates outcomes);
          failures = slot_failures outcomes
      in if candidates = [] then Inl (case failures of [] \<Rightarrow> WalIo | (_, e) # _ \<Rightarrow> e)
         else
           bindR (validate_generation_candidates candidates) (\<lambda>_.
           let (content, h, scan) = last candidates
           in case List.find (blocks_open (wh_generation h)) failures of
                Some (_, e) \<Rightarrow> Inl e
              | None \<Rightarrow>
                  let content = (if incomplete_tail scan \<and> allow_mutation then take (valid_end scan) content else content)
                  in bindR (from_scan content h (scan_records_of scan) (valid_end scan)) (\<lambda>m.
                     Inr (m, scan_records_of scan, incomplete_tail scan))))"

end
