(* ===== verification/Wal_Log.thy ===== *)
theory Wal_Log
  imports Wal
begin

text \<open>
  The write-ahead log as a durable sequence: what a scan accepts, how a record survives its encoding,
  that appending, flushing, reopening and rotating a log preserve its records, and which of two
  generations a reopened database selects.
\<close>


section \<open>The record format\<close>

text \<open>Page images are arrays of \<open>PAGE_SIZE\<close> bytes and a prepare names a database transaction.\<close>

fun wf_kind :: "wal_record_kind \<Rightarrow> bool" where
  "wf_kind (PageUpdate _ before after) \<longleftrightarrow> length before = 4096 \<and> length after = 4096"
| "wf_kind (PageAllocationTransition _ before after) \<longleftrightarrow> length before = 4096 \<and> length after = 4096"
| "wf_kind (Prepare db) \<longleftrightarrow> db \<noteq> 0"
| "wf_kind _ \<longleftrightarrow> True"

definition payload_bytes :: "wal_record_kind \<Rightarrow> byte list" where
  "payload_bytes kind =
     (case kind of
        PageUpdate pg before after \<Rightarrow> to_le_bytes pg @ before @ after
      | PageAllocationTransition pg before after \<Rightarrow> to_le_bytes pg @ before @ after
      | Prepare db \<Rightarrow> to_le_bytes db
      | _ \<Rightarrow> [])"

definition record_len :: "wal_record \<Rightarrow> usize" where
  "record_len r = 40 + kind_payload_len (rec_kind r)"

text \<open>The first forty bytes with a given checksum.\<close>

definition record_front :: "wal_record \<Rightarrow> byte list" where
  "record_front r =
     RECORD_MAGIC @ to_le_bytes (record_version (rec_kind r)) @ [kind_tag (rec_kind r), 0] @ to_le_bytes (of_nat (record_len r) :: u32)"

definition record_head :: "wal_record \<Rightarrow> u32 \<Rightarrow> byte list" where
  "record_head r checksum =
     record_front r @ to_le_bytes checksum @ to_le_bytes (rec_lsn r) @ to_le_bytes (rec_txn_id r) @
     to_le_bytes (lsn_or_zero (rec_prev_lsn r))"

definition wal_bytes :: "crc \<Rightarrow> wal_record \<Rightarrow> byte list" where
  "wal_bytes C r = record_head r (crc32c C (record_head r 0 @ payload_bytes (rec_kind r))) @ payload_bytes (rec_kind r)"

lemma length_record_front [simp]: "length (record_front r) = 12"
  by (simp add: record_front_def RECORD_MAGIC_def)

lemma length_record_head [simp]: "length (record_head r c) = 40"
  by (simp add: record_head_def)

lemma length_payload: "wf_kind kind \<Longrightarrow> length (payload_bytes kind) = kind_payload_len kind"
  by (cases kind) (simp_all add: payload_bytes_def wal_consts)

lemma length_wal_bytes: "wf_kind (rec_kind r) \<Longrightarrow> length (wal_bytes C r) = record_len r"
  by (simp add: wal_bytes_def length_payload record_len_def)

lemma record_len_cases:
  "record_len r = 40 \<or> record_len r = 48 \<or> record_len r = 8240"
  by (cases "rec_kind r") (simp_all add: record_len_def wal_consts)

lemma encode_wal_record_exact:
  assumes "wf_kind (rec_kind r)"
  shows "encode_wal_record C r = Inr (wal_bytes C r)"
proof -
  have len: "checked_add RECORD_HEADER_SIZE (kind_payload_len (rec_kind r)) = Some (record_len r)"
    using record_len_cases[of r] by (auto simp: checked_add_def record_len_def RECORD_HEADER_SIZE_def USIZE_MAX_def)
  have pay: "encode_payload r = Inr (payload_bytes (rec_kind r))"
    using assms by (cases "rec_kind r") (simp_all add: encode_payload_def payload_bytes_def)
  have head: "RECORD_MAGIC @ to_le_bytes (record_version (rec_kind r)) @ [kind_tag (rec_kind r), 0] @
      to_le_bytes (of_nat (record_len r) :: u32) @ to_le_bytes (0 :: u32) @ to_le_bytes (rec_lsn r) @
      to_le_bytes (rec_txn_id r) @ to_le_bytes (lsn_or_zero (rec_prev_lsn r)) = record_head r 0"
    by (simp add: record_head_def record_front_def)
  have "copy_at (record_head r 0 @ p) 12 (to_le_bytes c) = record_head r c @ p" for c :: u32 and p
    by (simp add: record_head_def copy_at_skip copy_at_0)
  then show ?thesis
    unfolding encode_wal_record_def len pay ok_or_simps bindR_simps Let_def head
    by (simp add: RECORD_CHECKSUM_OFFSET_def wal_bytes_def)
qed

text \<open>Reading the fields of a record, or of enough of its first bytes.\<close>

lemma rd_prefix: "offset + LENGTH('a::len) div 8 \<le> k \<Longrightarrow> (rd (take k bs) offset :: 'a word) = rd bs offset"
  by (simp add: rd_def slice_def drop_take min_def)

lemma rd_append: "offset + LENGTH('a::len) div 8 \<le> length a \<Longrightarrow> (rd (a @ b) offset :: 'a word) = rd a offset"
  by (simp add: rd_def slice_def)

lemma record_head_fields:
  "take 4 (record_head r c) = RECORD_MAGIC" "rd (record_head r c) 4 = record_version (rec_kind r)"
  "record_head r c ! 6 = kind_tag (rec_kind r)" "record_head r c ! 7 = 0" "rd (record_head r c) 8 = (of_nat (record_len r) :: u32)"
  "rd (record_head r c) 12 = c" "rd (record_head r c) 16 = rec_lsn r" "rd (record_head r c) 24 = rec_txn_id r"
  "rd (record_head r c) 32 = lsn_or_zero (rec_prev_lsn r)"
  by (simp_all add: rd_def slice_def record_head_def record_front_def RECORD_MAGIC_def nth_append)

lemma kind_cases_valid:
  "\<not> (record_version kind < 4 \<and> kind_tag kind = 7 \<or> record_version kind < 5 \<and> kind_tag kind = 8)"
  "record_version kind = 3 \<or> record_version kind = 4 \<or> record_version kind = RECORD_FORMAT_VERSION"
  "expected_payload_for_tag lsn (kind_tag kind) = Inr (of_nat (kind_payload_len kind))"
  by (cases kind; simp add: record_version_def expected_payload_for_tag_def wal_consts word_less_nat_alt)+

lemma validate_length_valid: "validate_length lsn (kind_tag (rec_kind r)) (of_nat (record_len r)) = Inr ()"
  by (cases "rec_kind r")
     (simp_all add: validate_length_def expected_payload_for_tag_def record_len_def wal_consts checked_add_u32_def word_less_nat_alt)

lemma framing_valid:
  "validate_record_framing lsn (record_head r c) = Inr (kind_tag (rec_kind r), of_nat (record_len r))"
  using kind_cases_valid(1,2)[of "rec_kind r"] kind_cases_valid(3)[of lsn "rec_kind r"] validate_length_valid[of lsn r]
  by (simp add: validate_record_framing_def slice_def record_head_fields Let_def)

lemma partial_valid:
  assumes "k < 40"
  shows "validate_partial_record_header lsn (take k (record_head r c)) = Inr ()"
proof -
  let ?b = "take k (record_head r c)"
  have len: "length ?b = k" using assms by simp
  have "take (min k 4) ?b = take (min k 4) RECORD_MAGIC"
    using record_head_fields(1)[of r c] by (metis min.cobounded1 min.cobounded2 min_def take_take)
  moreover have "6 \<le> k \<Longrightarrow> (rd ?b 4 :: u16) = record_version (rec_kind r)"
    "12 \<le> k \<Longrightarrow> (rd ?b 8 :: u32) = of_nat (record_len r)"
    using record_head_fields(2,5)[of r c] by (simp_all add: rd_prefix)
  moreover have "7 \<le> k \<Longrightarrow> ?b ! 6 = kind_tag (rec_kind r)" "8 \<le> k \<Longrightarrow> ?b ! 7 = 0"
    using record_head_fields(3,4)[of r c] by simp_all
  moreover have "length RECORD_MAGIC = 4" by (simp add: RECORD_MAGIC_def)
  ultimately show ?thesis
    using record_head_fields(1)[of r c] kind_cases_valid(1,2)[of "rec_kind r"] kind_cases_valid(3)[of lsn "rec_kind r"] validate_length_valid[of lsn r]
    by (simp add: validate_partial_record_header_def len Let_def)
qed

lemma lsn_round_trip: "prev \<noteq> Some 0 \<Longrightarrow> nonzero_lsn (lsn_or_zero prev) = prev"
  by (cases prev) (auto simp: nonzero_lsn_def lsn_or_zero_def)

lemma decode_payload:
  assumes "wf_kind kind"
  shows "decode_kind lsn (kind_tag kind) (payload_bytes kind) = Inr kind"
  using assms
  by (cases kind) (simp_all add: decode_kind_def payload_bytes_def rd_def slice_def PAGE_SIZE_def Let_def)

section \<open>Accepted logs\<close>

text \<open>What a record must satisfy against the state of the scan, or of the manager, before it.\<close>

definition accepted :: "crc \<Rightarrow> scan_state \<Rightarrow> wal_record \<Rightarrow> bool" where
  "accepted C s r \<longleftrightarrow>
     rec_prev_lsn r = sc_last s (rec_txn_id r) \<and>
     validate_transaction_sequence (rec_lsn r) (rec_txn_id r) (sc_states s (rec_txn_id r)) (rec_kind r) = Inr () \<and>
     validate_page_images C (rec_lsn r) (rec_kind r) = Inr () \<and>
     is_ok (validate_transition_reservation C (rec_lsn r) (rec_txn_id r) (rec_kind r) (sc_reservations s))"

fun accepts :: "crc \<Rightarrow> Lsn \<Rightarrow> usize \<Rightarrow> scan_state \<Rightarrow> wal_record list \<Rightarrow> bool" where
  "accepts C base off s [] \<longleftrightarrow> True"
| "accepts C base off s (r # rs) \<longleftrightarrow>
     logical_lsn base off = Inr (rec_lsn r) \<and> wf_kind (rec_kind r) \<and> accepted C s r \<and>
     accepts C base (off + record_len r) (push_record r s) rs"

text \<open>No record has LSN zero, so that the absence of a predecessor can be stored as zero.\<close>

definition lsns_nonzero :: "scan_state \<Rightarrow> bool" where
  "lsns_nonzero s \<longleftrightarrow> (\<forall>t. sc_last s t \<noteq> Some 0)"

lemma scan_record_accepted:
  assumes "wf_kind (rec_kind r)" "accepted C s r" "lsns_nonzero s"
  shows "scan_record C (rec_lsn r) (kind_tag (rec_kind r)) (wal_bytes C r) s = Inr (push_record r s)"
proof -
  let ?p = "payload_bytes (rec_kind r)" and ?c = "crc32c C (record_head r 0 @ payload_bytes (rec_kind r))"
  have b: "wal_bytes C r = record_head r ?c @ ?p" by (simp add: wal_bytes_def)
  have "copy_at (record_head r ?c @ ?p) 12 (replicate 4 0) = record_head r 0 @ ?p"
    by (simp add: record_head_def copy_at_skip copy_at_0 to_le_bytes_zero)
  then have checksum: "verify_record_checksum C (rec_lsn r) (wal_bytes C r) = Inr ()"
    by (simp add: b verify_record_checksum_def RECORD_CHECKSUM_OFFSET_def rd_append record_head_fields)
  have prev: "nonzero_lsn (lsn_or_zero (rec_prev_lsn r)) = rec_prev_lsn r"
    by (rule lsn_round_trip) (use assms(2,3) in \<open>auto simp: accepted_def lsns_nonzero_def\<close>)
  obtain x where x: "validate_transition_reservation C (rec_lsn r) (rec_txn_id r) (rec_kind r) (sc_reservations s) = Inr x"
    using assms(2) by (auto simp: accepted_def is_ok_def split: sum.splits)
  have drop40: "drop 40 (record_head r ?c @ ?p) = ?p" by simp
  have eta: "\<lparr>rec_lsn = rec_lsn r, rec_txn_id = rec_txn_id r, rec_prev_lsn = sc_last s (rec_txn_id r), rec_kind = rec_kind r\<rparr> = r"
    using assms(2) by (cases r) (simp add: accepted_def)
  have "rec_prev_lsn r = sc_last s (rec_txn_id r)"
    "validate_transaction_tag_sequence (rec_lsn r) (rec_txn_id r) (sc_states s (rec_txn_id r)) (kind_tag (rec_kind r)) = Inr ()"
    "validate_page_images C (rec_lsn r) (rec_kind r) = Inr ()"
    using assms(2) by (simp_all add: accepted_def validate_transaction_sequence_def)
  then show ?thesis
    using checksum prev x decode_payload[OF assms(1), of "rec_lsn r"]
    by (simp add: scan_record_def b rd_append record_head_fields RECORD_HEADER_SIZE_def drop40 eta Let_def)
qed

lemma logical_lsn_Inr:
  assumes "logical_lsn base off = Inr lsn" "off \<le> USIZE_MAX"
  shows "48 \<le> off" "unat lsn = unat base + (off - 48)"
proof -
  have off: "48 \<le> off" and add: "checked_add_u64 base (of_nat (off - 48)) = Some lsn"
    using assms(1) by (auto simp: logical_lsn_def WAL_HEADER_SIZE_def checked_sub_def split: if_splits)
  have "unat (of_nat (off - 48) :: u64) = off - 48"
    using assms(2) by (intro unat_of_nat_u64) (simp add: USIZE_MAX_def)
  then show "48 \<le> off" "unat lsn = unat base + (off - 48)"
    using off add by (auto simp: checked_add_u64_def unat_word_ariths split: if_splits)
qed

lemma slice_middle: "length pre = off \<Longrightarrow> n \<le> length b \<Longrightarrow> slice (pre @ b @ post) off (off + n) = take n b"
  by (auto simp: slice_def)

lemma push_keeps_nonzero: "lsns_nonzero s \<Longrightarrow> rec_lsn r \<noteq> 0 \<Longrightarrow> lsns_nonzero (push_record r s)"
  by (simp add: lsns_nonzero_def push_record_def)

lemma unat_record_len: "unat (of_nat (record_len r) :: u32) = record_len r"
  using record_len_cases[of r] by auto

lemma scan_accepts:
  assumes "accepts C base (length pre) s rs" "lsns_nonzero s" "base \<noteq> 0"
    "length (pre @ concat (map (wal_bytes C) rs) @ tail) \<le> USIZE_MAX"
  shows "scan_loop C policy base (pre @ concat (map (wal_bytes C) rs) @ tail) (length pre) s =
    scan_loop C policy base (pre @ concat (map (wal_bytes C) rs) @ tail) (length (pre @ concat (map (wal_bytes C) rs)))
      (fold push_record rs s)"
  using assms
proof (induction rs arbitrary: pre s)
  case (Cons r rs)
  let ?content = "pre @ concat (map (wal_bytes C) (r # rs)) @ tail"
  have r: "logical_lsn base (length pre) = Inr (rec_lsn r)" "wf_kind (rec_kind r)" "accepted C s r"
    "accepts C base (length pre + record_len r) (push_record r s) rs"
    using Cons.prems(1) by simp_all
  have len: "length (wal_bytes C r) = record_len r" by (rule length_wal_bytes[OF r(2)])
  have content: "?content = pre @ wal_bytes C r @ (concat (map (wal_bytes C) rs) @ tail)" by simp
  have room: "length pre < length ?content" "\<not> length ?content - length pre < 40" "\<not> length ?content - length pre < record_len r"
    using len record_len_cases[of r] by auto
  have "take 40 (wal_bytes C r) = record_head r (crc32c C (record_head r 0 @ payload_bytes (rec_kind r)))"
    by (simp add: wal_bytes_def)
  then have head: "slice ?content (length pre) (length pre + 40) = record_head r (crc32c C (record_head r 0 @ payload_bytes (rec_kind r)))"
    unfolding content using len record_len_cases[of r] by (subst slice_middle) auto
  have whole: "slice ?content (length pre) (length pre + record_len r) = wal_bytes C r"
    unfolding content using len by (subst slice_middle) simp_all
  have add: "checked_add (length pre) (record_len r) = Some (length pre + record_len r)"
    using Cons.prems(4) len by (simp add: checked_add_def)
  have "scan_loop C policy base ?content (length pre) s =
      scan_loop C policy base ?content (length pre + record_len r) (push_record r s)"
    unfolding scan_loop.simps[of C policy base ?content "length pre" s]
    using room scan_record_accepted[OF r(2,3) Cons.prems(2)]
    by (simp only: if_True if_False r(1) bindR_simps RECORD_HEADER_SIZE_def Let_def head framing_valid whole unat_record_len
        add ok_or_simps case_prod_conv)
  moreover have "rec_lsn r \<noteq> 0"
    using logical_lsn_Inr(2)[OF r(1)] Cons.prems(3,4) by (auto simp: unat_eq_0)
  then have "lsns_nonzero (push_record r s)" by (rule push_keeps_nonzero[OF Cons.prems(2)])
  ultimately show ?case
    using Cons.IH[of "pre @ wal_bytes C r" "push_record r s"] r(4) Cons.prems(3,4) len by simp
qed simp


text \<open>A record cut off after its first bytes.\<close>

lemma scan_torn:
  assumes "wf_kind (rec_kind r)" "0 < k" "k < record_len r" "logical_lsn base (length pre) = Inr lsn"
  shows "scan_loop C policy base (pre @ take k (wal_bytes C r)) (length pre) s = torn_tail policy lsn (length pre) s"
proof -
  let ?content = "pre @ take k (wal_bytes C r)" and ?h = "record_head r (crc32c C (record_head r 0 @ payload_bytes (rec_kind r)))"
  have len: "length ?content - length pre = k" "length pre < length ?content"
    using assms length_wal_bytes[OF assms(1), of C] by simp_all
  show ?thesis
  proof (cases "k < 40")
    case True
    then have "take k (wal_bytes C r) = take k ?h" by (simp add: wal_bytes_def)
    then show ?thesis
      unfolding scan_loop.simps[of C policy base ?content "length pre" s]
      using True len assms(4) partial_valid[OF True, of lsn r] by (simp add: RECORD_HEADER_SIZE_def Let_def)
  next
    case False
    have "slice ?content (length pre) (length pre + 40) = take 40 (take k (wal_bytes C r))"
      using slice_middle[of pre "length pre" 40 "take k (wal_bytes C r)" "[]"] False assms(3) length_wal_bytes[OF assms(1), of C]
      by simp
    also have "\<dots> = ?h" using False by (simp add: wal_bytes_def min_def)
    finally have "slice ?content (length pre) (length pre + 40) = ?h" .
    then show ?thesis
      unfolding scan_loop.simps[of C policy base ?content "length pre" s]
      using False len assms(3,4) by (simp add: RECORD_HEADER_SIZE_def Let_def framing_valid unat_record_len)
  qed
qed

section \<open>The file header\<close>

definition wal_header_ok :: "wal_header \<Rightarrow> bool" where
  "wal_header_ok h \<longleftrightarrow> validate_wal_header h = Inr () \<and> wh_checkpoint_lsn h \<noteq> Some 0"

definition wal_header_front :: "wal_header \<Rightarrow> byte list" where
  "wal_header_front h =
     WAL_MAGIC @ to_le_bytes WAL_FORMAT_VERSION @ to_le_bytes (48 :: u16) @ to_le_bytes (wh_generation h) @
     to_le_bytes (wh_base_lsn h) @ to_le_bytes (lsn_or_zero (wh_checkpoint_lsn h)) @ to_le_bytes (wh_next_txn_id h)"

definition wal_header_bytes :: "crc \<Rightarrow> wal_header \<Rightarrow> byte list" where
  "wal_header_bytes C h = wal_header_front h @ to_le_bytes (crc32c C (wal_header_front h @ replicate 8 0)) @ replicate 4 0"

lemma length_wal_header_front [simp]: "length (wal_header_front h) = 40"
  by (simp add: wal_header_front_def WAL_MAGIC_def)

lemma length_wal_header_bytes [simp]: "length (wal_header_bytes C h) = 48"
  by (simp add: wal_header_bytes_def)

lemma replicate_48_wal: "replicate 48 (0::byte) = replicate 4 0 @ replicate 2 0 @ replicate 2 0 @ replicate 8 0 @ replicate 8 0 @
    replicate 8 0 @ replicate 8 0 @ replicate 8 0"
  by (simp add: replicate_add[symmetric])

lemma encode_wal_header_exact: "validate_wal_header h = Inr () \<Longrightarrow> encode_wal_header C h = Inr (wal_header_bytes C h)"
proof -
  assume valid: "validate_wal_header h = Inr ()"
  have magic: "length WAL_MAGIC = 4" by (simp add: WAL_MAGIC_def)
  have eight: "replicate 8 (0::byte) = replicate 4 0 @ replicate 4 0" by (simp add: replicate_add[symmetric])
  have "copy_at (copy_at (copy_at (copy_at (copy_at (copy_at (copy_at (replicate 48 0) 0 WAL_MAGIC) 4 (to_le_bytes WAL_FORMAT_VERSION))
      6 (to_le_bytes (48 :: u16))) 8 (to_le_bytes (wh_generation h))) 16 (to_le_bytes (wh_base_lsn h)))
      24 (to_le_bytes (lsn_or_zero (wh_checkpoint_lsn h)))) 32 (to_le_bytes (wh_next_txn_id h)) = wal_header_front h @ replicate 8 0"
    unfolding replicate_48_wal wal_header_front_def by (simp add: copy_at_0 copy_at_skip magic)
  moreover have "copy_at (wal_header_front h @ replicate 8 0) 40 (to_le_bytes c) = wal_header_front h @ to_le_bytes c @ replicate 4 0" for c :: u32
    by (simp add: eight copy_at_skip copy_at_0)
  ultimately show ?thesis
    by (simp add: encode_wal_header_def valid WAL_HEADER_SIZE_def HEADER_CHECKSUM_OFFSET_def wal_header_bytes_def Let_def)
qed

lemma wal_header_bytes_fields:
  "slice (wal_header_bytes C h) 0 4 = WAL_MAGIC" "rd (wal_header_bytes C h) 4 = WAL_FORMAT_VERSION" "rd (wal_header_bytes C h) 6 = (48 :: u16)"
  "rd (wal_header_bytes C h) 8 = wh_generation h" "rd (wal_header_bytes C h) 16 = wh_base_lsn h"
  "rd (wal_header_bytes C h) 24 = lsn_or_zero (wh_checkpoint_lsn h)" "rd (wal_header_bytes C h) 32 = wh_next_txn_id h"
  "rd (wal_header_bytes C h) 40 = crc32c C (wal_header_front h @ replicate 8 0)" "slice (wal_header_bytes C h) 44 48 = replicate 4 0"
  by (simp_all add: rd_def slice_def wal_header_bytes_def wal_header_front_def WAL_MAGIC_def)

lemma wal_header_eta: "\<lparr>wh_generation = wh_generation h, wh_base_lsn = wh_base_lsn h, wh_checkpoint_lsn = wh_checkpoint_lsn h,
    wh_next_txn_id = wh_next_txn_id h\<rparr> = h"
  by simp

lemma read_encoded_wal_header:
  assumes "wal_header_ok h"
  shows "read_wal_header C (wal_header_bytes C h @ rest) = Inr h"
proof -
  have "copy_at (wal_header_bytes C h) 40 (replicate 4 0) = wal_header_front h @ replicate 8 0"
    by (simp add: wal_header_bytes_def copy_at_skip copy_at_0 replicate_add[symmetric])
  moreover have "nonzero_lsn (lsn_or_zero (wh_checkpoint_lsn h)) = wh_checkpoint_lsn h"
    using assms by (intro lsn_round_trip) (simp add: wal_header_ok_def)
  ultimately show ?thesis
    using assms
    by (simp add: read_wal_header_def WAL_HEADER_SIZE_def HEADER_CHECKSUM_OFFSET_def HEADER_CHECKSUM_END_def wal_header_bytes_fields
        wal_header_ok_def list_ex_iff wal_header_eta Let_def)
qed

section \<open>The content of a generation\<close>

definition log_content :: "crc \<Rightarrow> wal_header \<Rightarrow> wal_record list \<Rightarrow> byte list" where
  "log_content C h rs = wal_header_bytes C h @ concat (map (wal_bytes C) rs)"

abbreviation scanned :: "wal_record list \<Rightarrow> scan_state" where
  "scanned rs \<equiv> fold push_record rs empty_scan"

definition log_accepted :: "crc \<Rightarrow> wal_header \<Rightarrow> wal_record list \<Rightarrow> bool" where
  "log_accepted C h rs \<longleftrightarrow>
     wal_header_ok h \<and> accepts C (wh_base_lsn h) 48 empty_scan rs \<and> length (log_content C h rs) \<le> USIZE_MAX"

lemma sc_records_empty [simp]: "sc_records empty_scan = []"
  by (simp add: empty_scan_def)

lemma sc_records_fold: "sc_records (fold push_record rs s) = sc_records s @ rs"
  by (induction rs arbitrary: s) (simp_all add: push_record_def)

lemma sc_maps_fold:
  "sc_last (fold push_record rs s) = fold (\<lambda>r f. f(rec_txn_id r \<mapsto> rec_lsn r)) rs (sc_last s)"
  "sc_states (fold push_record rs s) = fold (\<lambda>r f. f(rec_txn_id r \<mapsto> wal_state_after (rec_kind r))) rs (sc_states s)"
  "sc_reservations (fold push_record rs s) =
     fold (\<lambda>r f. f(rec_lsn r \<mapsto> rec_txn_id r)) (filter (\<lambda>r. rec_kind r = PageGenerationReservation) rs) (sc_reservations s)"
  by (induction rs arbitrary: s) (simp_all add: push_record_def)

lemma accepts_wf: "accepts C base off s rs \<Longrightarrow> r \<in> set rs \<Longrightarrow> wf_kind (rec_kind r)"
  by (induction C base off s rs rule: accepts.induct) auto

lemma length_log_content: "(\<And>r. r \<in> set rs \<Longrightarrow> wf_kind (rec_kind r)) \<Longrightarrow> length (log_content C h rs) = 48 + sum_list (map record_len rs)"
  by (induction rs) (simp_all add: log_content_def length_wal_bytes)

lemma accepts_append:
  "accepts C base off s (rs @ rs') \<longleftrightarrow>
     accepts C base off s rs \<and> accepts C base (off + sum_list (map record_len rs)) (fold push_record rs s) rs'"
  by (induction rs arbitrary: off s) (simp_all add: add.assoc conj_assoc)

lemma lsns_nonzero_empty: "lsns_nonzero empty_scan"
  by (simp add: lsns_nonzero_def empty_scan_def)

lemma log_accepted_len: "log_accepted C h rs \<Longrightarrow> length (log_content C h rs) = 48 + sum_list (map record_len rs)"
  using accepts_wf by (intro length_log_content) (auto simp: log_accepted_def)

lemma base_nonzero: "wal_header_ok h \<Longrightarrow> wh_base_lsn h \<noteq> 0"
  by (auto simp: wal_header_ok_def validate_wal_header_def)

lemma scan_content:
  assumes "log_accepted C h rs" "length (log_content C h rs @ tail) \<le> USIZE_MAX"
  shows "scan_file C policy (log_content C h rs @ tail) =
    scan_loop C policy (wh_base_lsn h) (log_content C h rs @ tail) (length (log_content C h rs)) (scanned rs)"
  using scan_accepts[of C "wh_base_lsn h" "wal_header_bytes C h" empty_scan rs tail policy] assms base_nonzero[of h] lsns_nonzero_empty
    read_encoded_wal_header[of h C "concat (map (wal_bytes C) rs) @ tail"]
  by (simp add: scan_file_def log_accepted_def log_content_def WAL_HEADER_SIZE_def)

lemma scan_clean:
  assumes "log_accepted C h rs"
  shows "scan_file C policy (log_content C h rs) =
    Inr \<lparr>scan_records_of = rs, valid_end = length (log_content C h rs), incomplete_tail = False\<rparr>"
  using scan_content[OF assms, of "[]" policy] assms
  by (simp add: log_accepted_def scan_loop.simps[of C policy "wh_base_lsn h" "log_content C h rs" "length (log_content C h rs)" "scanned rs"] sc_records_fold)

lemma scan_torn_content:
  assumes "log_accepted C h rs" "wf_kind (rec_kind r)" "0 < k" "k < record_len r"
    "length (log_content C h rs) + record_len r \<le> USIZE_MAX" "logical_lsn (wh_base_lsn h) (length (log_content C h rs)) = Inr lsn"
  shows "scan_file C policy (log_content C h rs @ take k (wal_bytes C r)) =
    torn_tail policy lsn (length (log_content C h rs)) (scanned rs)"
  using scan_content[OF assms(1), of "take k (wal_bytes C r)" policy] scan_torn[OF assms(2-4,6)] assms(4,5) length_wal_bytes[OF assms(2), of C]
  by simp


section \<open>The manager follows its file\<close>

text \<open>
  A healthy manager's file is an accepted log, and all it keeps in memory is what a scan of that file
  yields, but for the durable position.
\<close>

definition tracks :: "crc \<Rightarrow> wal_header \<Rightarrow> wal_record list \<Rightarrow> wal_manager \<Rightarrow> bool" where
  "tracks C h rs m \<longleftrightarrow>
     log_accepted C h rs \<and> wm_file m = log_content C h rs \<and>
     from_scan (log_content C h rs) h rs (length (log_content C h rs)) = Inr (m\<lparr>wm_durable_lsn := None\<rparr>)"

lemma tracks_fields:
  assumes "tracks C h rs m"
  shows "\<not> wm_poisoned m" "wm_generation m = wh_generation h" "wm_base_lsn m = wh_base_lsn h"
    "wm_checkpoint_lsn m = wh_checkpoint_lsn h" "wm_next_offset m = length (log_content C h rs)"
    "logical_lsn (wh_base_lsn h) (length (log_content C h rs)) = Inr (wm_next_lsn m)" "wm_written_lsn m = last_lsn rs"
    "wm_last_by_txn m = sc_last (scanned rs)" "wm_txn_states m = sc_states (scanned rs)"
    "wm_reservations m = sc_reservations (scanned rs)"
proof -
  obtain nl nt where *: "logical_lsn (wh_base_lsn h) (length (log_content C h rs)) = Inr nl"
    "m\<lparr>wm_durable_lsn := None\<rparr> =
      \<lparr>wm_file = log_content C h rs, wm_generation = wh_generation h, wm_base_lsn = wh_base_lsn h,
       wm_checkpoint_lsn = wh_checkpoint_lsn h, wm_next_txn_id = nt,
       wm_next_offset = length (log_content C h rs), wm_next_lsn = nl, wm_written_lsn = last_lsn rs, wm_durable_lsn = None,
       wm_last_by_txn = fold (\<lambda>r f. f(rec_txn_id r \<mapsto> rec_lsn r)) rs Map.empty,
       wm_txn_states = fold (\<lambda>r f. f(rec_txn_id r \<mapsto> wal_state_after (rec_kind r))) rs Map.empty,
       wm_reservations =
         fold (\<lambda>r f. f(rec_lsn r \<mapsto> rec_txn_id r)) (filter (\<lambda>r. rec_kind r = PageGenerationReservation) rs) Map.empty,
       wm_poisoned = False\<rparr>"
    using assms by (auto simp: tracks_def from_scan_def eq_commute[of "m\<lparr>wm_durable_lsn := None\<rparr>"])
  from *(2) show "\<not> wm_poisoned m" "wm_generation m = wh_generation h" "wm_base_lsn m = wh_base_lsn h"
    "wm_checkpoint_lsn m = wh_checkpoint_lsn h" "wm_next_offset m = length (log_content C h rs)"
    "logical_lsn (wh_base_lsn h) (length (log_content C h rs)) = Inr (wm_next_lsn m)" "wm_written_lsn m = last_lsn rs"
    "wm_last_by_txn m = sc_last (scanned rs)" "wm_txn_states m = sc_states (scanned rs)"
    "wm_reservations m = sc_reservations (scanned rs)"
    using *(1) by (cases m; simp add: sc_maps_fold empty_scan_def)+
qed

lemma states_dom: "sc_states (fold push_record rs s) t \<noteq> None \<longleftrightarrow> sc_states s t \<noteq> None \<or> t \<in> rec_txn_id ` set rs"
  by (induction rs arbitrary: s) (auto simp: push_record_def)

lemma begin_only_first:
  assumes "validate_transaction_sequence lsn t None kind = Inr u"
  shows "kind = Begin"
  using assms by (cases kind) (simp_all add: validate_transaction_sequence_def validate_transaction_tag_sequence_def)

text \<open>The transaction counter a scan computes.\<close>

definition scan_next_txn :: "TxnId \<Rightarrow> wal_record list \<Rightarrow> (wal_error, TxnId) res" where
  "scan_next_txn start records =
     (case max_txn_id records of
        None \<Rightarrow> Inr start
      | Some maximum \<Rightarrow> ok_or (InvalidNextTxnId maximum) (checked_add_u64 maximum 1))"

lemma checked_add_1_max:
  assumes "checked_add_u64 a 1 = Some a'" "checked_add_u64 b 1 = Some b'"
  shows "checked_add_u64 (max a b) 1 = Some (max a' b')"
proof -
  have "unat a + 1 < 2 ^ 64" "unat b + 1 < 2 ^ 64" and ab: "a' = a + 1" "b' = b + 1"
    using assms by (auto simp: checked_add_u64_def split: if_splits)
  then have "unat a' = unat a + 1" "unat b' = unat b + 1" by (simp_all add: unat_word_ariths)
  then have "a' \<le> b' \<longleftrightarrow> a \<le> b" by (simp add: word_le_nat_alt)
  then show ?thesis using assms by (simp add: max_def)
qed

lemma scan_next_txn_snoc:
  assumes old: "scan_next_txn start rs = Inr n" and begin_next: "begin_next_txn_id t kind = Inr b"
    and seen: "kind \<noteq> Begin \<Longrightarrow> t \<in> rec_txn_id ` set rs" and r: "rec_txn_id r = t"
  shows "\<exists>n'. scan_next_txn start (rs @ [r]) = Inr n' \<and>
    max start n' = (case b of None \<Rightarrow> max start n | Some x \<Rightarrow> max x (max start n))"
proof (cases "kind = Begin")
  case True
  then obtain x where x: "checked_add_u64 t 1 = Some x" "b = Some x" using begin_next by (auto simp: begin_next_txn_id_def)
  show ?thesis
  proof (cases "rs = []")
    case True
    then show ?thesis using x old r by (simp add: scan_next_txn_def max_txn_id_def max.commute)
  next
    case False
    then have mx: "checked_add_u64 (Max (rec_txn_id ` set rs)) 1 = Some n" using old by (simp add: scan_next_txn_def max_txn_id_def)
    have "Max (rec_txn_id ` set (rs @ [r])) = max t (Max (rec_txn_id ` set rs))" using False r by simp
    then have "scan_next_txn start (rs @ [r]) = Inr (max x n)"
      using checked_add_1_max[OF x(1) mx] by (simp add: scan_next_txn_def max_txn_id_def)
    then show ?thesis using x(2) by (simp add: max.left_commute)
  qed
next
  case False
  then have b: "b = None" and mem: "t \<in> rec_txn_id ` set rs" using begin_next seen by (auto simp: begin_next_txn_id_def)
  then have "insert t (rec_txn_id ` set rs) = rec_txn_id ` set rs" "rs \<noteq> []" by auto
  then have "max_txn_id (rs @ [r]) = max_txn_id rs" using r by (simp add: max_txn_id_def)
  then show ?thesis using old b by (simp add: scan_next_txn_def)
qed

lemma from_scan_exact:
  "from_scan content h rs n =
     bindR (logical_lsn (wh_base_lsn h) n) (\<lambda>next_lsn.
     bindR (scan_next_txn (wh_next_txn_id h) rs) (\<lambda>next_txn.
     Inr \<lparr>wm_file = content, wm_generation = wh_generation h, wm_base_lsn = wh_base_lsn h,
          wm_checkpoint_lsn = wh_checkpoint_lsn h, wm_next_txn_id = max (wh_next_txn_id h) next_txn,
          wm_next_offset = n, wm_next_lsn = next_lsn, wm_written_lsn = last_lsn rs, wm_durable_lsn = None,
          wm_last_by_txn = sc_last (scanned rs), wm_txn_states = sc_states (scanned rs),
          wm_reservations = sc_reservations (scanned rs), wm_poisoned = False\<rparr>))"
  by (simp add: from_scan_def scan_next_txn_def sc_maps_fold empty_scan_def)

lemma logical_lsn_next:
  assumes "logical_lsn base off = Inr lsn" "checked_add_u64 lsn (of_nat n) = Some lsn'" "checked_add off n = Some off'"
  shows "logical_lsn base off' = Inr lsn'"
proof -
  have off: "off + n \<le> USIZE_MAX" "off' = off + n" using assms(3) by (simp_all add: checked_add_Some_iff)
  note l = logical_lsn_Inr[OF assms(1)]
  have n: "unat (of_nat n :: u64) = n" "unat (of_nat (off' - 48) :: u64) = off' - 48"
    using off by (auto intro!: unat_of_nat_u64 simp: USIZE_MAX_def)
  have lsn': "unat lsn + n < 2 ^ 64" "lsn' = lsn + of_nat n" using assms(2) n by (auto simp: checked_add_u64_def split: if_splits)
  have "lsn = base + of_nat (off - 48)"
    using assms(1) by (auto simp: logical_lsn_def WAL_HEADER_SIZE_def checked_sub_def checked_add_u64_def split: if_splits)
  then have "lsn' = base + of_nat (off' - 48)" using l off lsn' by (simp add: of_nat_diff)
  moreover have "unat base + (off' - 48) < 2 ^ 64" using l lsn'(1) off by simp
  ultimately show ?thesis using l off n(2) by (simp add: logical_lsn_def WAL_HEADER_SIZE_def checked_sub_def checked_add_u64_def)
qed

lemma prepare_append_Inr:
  assumes m: "tracks C h rs m" and kind: "wf_kind kind"
    and prep: "prepare_append C t prev kind m = Inr (r, bytes, b, next_lsn, next_offset)"
  shows "r = \<lparr>rec_lsn = wm_next_lsn m, rec_txn_id = t, rec_prev_lsn = prev, rec_kind = kind\<rparr>" "bytes = wal_bytes C r"
    "length (log_content C h rs) + record_len r \<le> USIZE_MAX" "log_accepted C h (rs @ [r])"
    "log_content C h (rs @ [r]) = log_content C h rs @ bytes"
    "tracks C h (rs @ [r]) (install_record r bytes b next_lsn next_offset m)"
proof -
  note f = tracks_fields[OF m]
  have lsn: "lsn_or_zero None = 0" by (simp add: lsn_or_zero_def)
  show r: "r = \<lparr>rec_lsn = wm_next_lsn m, rec_txn_id = t, rec_prev_lsn = prev, rec_kind = kind\<rparr>"
    using prep by (auto simp: prepare_append_def Let_def)
  then have rk: "rec_kind r = kind" "rec_txn_id r = t" "rec_lsn r = wm_next_lsn m" "rec_prev_lsn r = prev" by simp_all
  show bytes: "bytes = wal_bytes C r"
    using prep encode_wal_record_exact[of r C] kind rk(1) by (auto simp: prepare_append_def Let_def r)
  have len: "length bytes = record_len r" using length_wal_bytes[of r C] kind rk(1) bytes by simp
  have p: "prev = wm_last_by_txn m t" "validate_transaction_sequence (wm_next_lsn m) t (wm_txn_states m t) kind = Inr ()"
    "validate_page_images C (wm_next_lsn m) kind = Inr ()"
    "is_ok (validate_transition_reservation C (wm_next_lsn m) t kind (wm_reservations m))" "begin_next_txn_id t kind = Inr b"
    "checked_add_u64 (wm_next_lsn m) (of_nat (length bytes)) = Some next_lsn"
    "checked_add (wm_next_offset m) (length bytes) = Some next_offset"
    using prep by (auto simp: prepare_append_def Let_def)
  show fits: "length (log_content C h rs) + record_len r \<le> USIZE_MAX"
    using p(7) f(5) len by (simp add: checked_add_Some_iff)
  have acc: "accepted C (scanned rs) r" using p(1-4) f(8-10) rk by (simp add: accepted_def)
  have old: "log_accepted C h rs" using m by (simp add: tracks_def)
  show content: "log_content C h (rs @ [r]) = log_content C h rs @ bytes" by (simp add: log_content_def bytes)
  show log: "log_accepted C h (rs @ [r])"
    using old log_accepted_len[OF old] f(6) acc kind rk fits len content
    by (simp add: log_accepted_def accepts_append)
  obtain n where n: "scan_next_txn (wh_next_txn_id h) rs = Inr n" and nm: "wm_next_txn_id m = max (wh_next_txn_id h) n"
  proof -
    have "\<exists>n. scan_next_txn (wh_next_txn_id h) rs = Inr n \<and> wm_next_txn_id m = max (wh_next_txn_id h) n"
      using m by (cases m) (auto simp: tracks_def from_scan_exact)
    then show thesis using that by blast
  qed
  have seen: "t \<in> rec_txn_id ` set rs" if "kind \<noteq> Begin"
  proof -
    have "sc_states (scanned rs) t \<noteq> None"
    proof
      assume "sc_states (scanned rs) t = None"
      then have "kind = Begin" using p(2) f(9) begin_only_first[of "wm_next_lsn m" t kind "()"] by simp
      then show False using that by simp
    qed
    then show ?thesis using states_dom[of rs empty_scan t] by (simp add: empty_scan_def)
  qed
  obtain n' where n': "scan_next_txn (wh_next_txn_id h) (rs @ [r]) = Inr n'"
    "max (wh_next_txn_id h) n' = (case b of None \<Rightarrow> wm_next_txn_id m | Some x \<Rightarrow> max x (wm_next_txn_id m))"
    using scan_next_txn_snoc[OF n p(5) seen rk(2)] unfolding nm by blast
  have next_l: "logical_lsn (wh_base_lsn h) (length (log_content C h (rs @ [r]))) = Inr next_lsn"
    using logical_lsn_next[OF f(6) p(6)] p(7) f(5) content by (simp add: checked_add_Some_iff)
  have "wm_file m = log_content C h rs" using m by (simp add: tracks_def)
  then show "tracks C h (rs @ [r]) (install_record r bytes b next_lsn next_offset m)"
    using log content next_l n' f p(7) rk
    by (simp add: tracks_def from_scan_exact install_record_def checked_add_Some_iff push_record_def last_lsn_def)
qed


lemma checked_add_u64_Some: "checked_add_u64 a b = Some c \<Longrightarrow> unat c = unat a + unat b"
  by (auto simp: checked_add_u64_def unat_word_ariths split: if_splits)

section \<open>Reopening\<close>

lemma open_single:
  assumes "scan_file C policy content = Inr scan" "read_wal_header C content = Inr h" "48 \<le> length content"
  shows "open_selected C policy True (Some content) None =
    bindR (from_scan (if incomplete_tail scan then take (valid_end scan) content else content) h (scan_records_of scan) (valid_end scan))
      (\<lambda>m. Inr (m, scan_records_of scan, incomplete_tail scan))"
    "open_selected C policy True None (Some content) = open_selected C policy True (Some content) None"
  using assms
  by (simp_all add: open_selected_def probe_slot_def slot_candidates_def slot_failures_def WAL_HEADER_SIZE_def
      validate_generation_candidates_def Let_def)

text \<open>The other path holds less than a header, as an interrupted rotation leaves it.\<close>

lemma open_single_truncated:
  assumes "scan_file C policy content = Inr scan" "read_wal_header C content = Inr h" "48 \<le> length content" "length junk < 48"
  shows "open_selected C policy True (Some content) (Some junk) = open_selected C policy True (Some content) None"
    "open_selected C policy True (Some junk) (Some content) = open_selected C policy True (Some content) None"
  using assms
  by (simp_all add: open_selected_def probe_slot_def slot_candidates_def slot_failures_def WAL_HEADER_SIZE_def
      validate_generation_candidates_def blocks_open_def Let_def)

lemma open_pair:
  assumes old: "scan_file C policy a = Inr scan" "read_wal_header C a = Inr h" "48 \<le> length a"
    and new: "scan_file C policy b = Inr scan'" "read_wal_header C b = Inr h'" "48 \<le> length b"
    and succ: "wh_generation h < wh_generation h'" "validate_successor h scan h' = Inr ()"
  shows "open_selected C policy True (Some a) (Some b) = open_selected C policy True (Some b) None"
    "open_selected C policy True (Some b) (Some a) = open_selected C policy True (Some b) None"
proof -
  have "wh_generation h \<le> wh_generation h'" "\<not> wh_generation h' \<le> wh_generation h" using succ(1) by simp_all
  then show "open_selected C policy True (Some a) (Some b) = open_selected C policy True (Some b) None"
    "open_selected C policy True (Some b) (Some a) = open_selected C policy True (Some b) None"
    using assms
    by (simp_all add: open_selected_def probe_slot_def slot_candidates_def slot_failures_def WAL_HEADER_SIZE_def
        validate_generation_candidates_def Let_def)
qed

lemma read_content: "log_accepted C h rs \<Longrightarrow> read_wal_header C (log_content C h rs @ tail) = Inr h"
  using read_encoded_wal_header[of h C "concat (map (wal_bytes C) rs) @ tail"] by (simp add: log_accepted_def log_content_def)

lemma reopen_clean:
  assumes "tracks C h rs m"
  shows "open_selected C policy True (Some (wm_file m)) None = Inr (m\<lparr>wm_durable_lsn := None\<rparr>, rs, False)"
proof -
  have "log_accepted C h rs" "wm_file m = log_content C h rs" using assms by (simp_all add: tracks_def)
  then show ?thesis
    using open_single(1)[OF scan_clean[of C h rs policy]] read_content[of C h rs "[]"] log_accepted_len[of C h rs] assms
    by (simp add: tracks_def)
qed

lemma reopen_torn:
  assumes m: "tracks C h rs m" and r: "wf_kind (rec_kind r)" "0 < k" "k < record_len r"
    "length (log_content C h rs) + record_len r \<le> USIZE_MAX"
  shows "open_selected C AllowIncompleteFinalRecord True (Some (wm_file m @ take k (wal_bytes C r))) None =
      Inr (m\<lparr>wm_durable_lsn := None\<rparr>, rs, True)"
    "open_selected C RejectTail True (Some (wm_file m @ take k (wal_bytes C r))) None = Inl (WalTruncatedRecord (wm_next_lsn m))"
proof -
  have log: "log_accepted C h rs" "wm_file m = log_content C h rs" using m by (simp_all add: tracks_def)
  note scan = scan_torn_content[OF log(1) r tracks_fields(6)[OF m]]
  have rec: "sc_records (scanned rs) = rs" by (simp add: sc_records_fold)
  show "open_selected C AllowIncompleteFinalRecord True (Some (wm_file m @ take k (wal_bytes C r))) None =
      Inr (m\<lparr>wm_durable_lsn := None\<rparr>, rs, True)"
    using open_single(1)[OF _ read_content[OF log(1)], of AllowIncompleteFinalRecord "take k (wal_bytes C r)"]
      scan[of AllowIncompleteFinalRecord] log_accepted_len[OF log(1)] m
    by (simp add: log(2) torn_tail_def rec tracks_def)
  show "open_selected C RejectTail True (Some (wm_file m @ take k (wal_bytes C r))) None = Inl (WalTruncatedRecord (wm_next_lsn m))"
    using scan[of RejectTail] log_accepted_len[OF log(1)] read_content[OF log(1), of "take k (wal_bytes C r)"]
    by (simp add: open_selected_def probe_slot_def slot_candidates_def slot_failures_def WAL_HEADER_SIZE_def log(2) torn_tail_def)
qed

section \<open>Rotation\<close>

lemma last_lsn_nonzero:
  assumes "log_accepted C h rs" "rs \<noteq> []"
  shows "rec_lsn (last rs) \<noteq> 0"
proof -
  obtain rs' r where rs: "rs = rs' @ [r]" using assms(2) by (cases rs rule: rev_cases) auto
  then have "logical_lsn (wh_base_lsn h) (48 + sum_list (map record_len rs')) = Inr (rec_lsn r)"
    using assms(1) by (simp add: log_accepted_def accepts_append)
  moreover have "48 + sum_list (map record_len rs') \<le> USIZE_MAX"
    using log_accepted_len[OF assms(1)] assms(1) rs by (simp add: log_accepted_def)
  moreover have "wh_base_lsn h \<noteq> 0" using assms(1) base_nonzero by (simp add: log_accepted_def)
  ultimately show ?thesis using logical_lsn_Inr(2) rs by (force simp: unat_eq_0)
qed

lemma rotated_header_ok:
  assumes m: "tracks C h rs m" and rot: "rotated_header next_txn m = Inr h'" and next_ok: "\<not> (next_txn = 0 \<or> next_txn < wm_next_txn_id m)"
  shows "wal_header_ok h'" "wh_generation h < wh_generation h'" "wh_base_lsn h' = wm_next_lsn m" "wh_next_txn_id h' = next_txn"
    "validate_successor h \<lparr>scan_records_of = rs, valid_end = length (log_content C h rs), incomplete_tail = False\<rparr> h' = Inr ()"
    "wh_checkpoint_lsn h' = or_else (last_lsn rs) (wh_checkpoint_lsn h)" "unat (wh_generation h') = unat (wh_generation h) + 1"
proof -
  note f = tracks_fields[OF m]
  have log: "log_accepted C h rs" using m by (simp add: tracks_def)
  have gen: "checked_add_u64 (wh_generation h) 1 = Some (wh_generation h')" and h': "validate_wal_header h' = Inr ()"
    "wh_base_lsn h' = wm_next_lsn m" "wh_next_txn_id h' = next_txn"
    "wh_checkpoint_lsn h' = or_else (last_lsn rs) (wh_checkpoint_lsn h)"
    using rot f(2,4,7) by (auto simp: rotated_header_def or_else_def Let_def split: option.splits)
  show base: "wh_base_lsn h' = wm_next_lsn m" "wh_next_txn_id h' = next_txn" by (fact h'(2,3))+
  show "wh_checkpoint_lsn h' = or_else (last_lsn rs) (wh_checkpoint_lsn h)" by (fact h'(4))
  have "wh_checkpoint_lsn h' \<noteq> Some 0"
    using h'(4) last_lsn_nonzero[OF log] log by (auto simp: or_else_def last_lsn_def log_accepted_def wal_header_ok_def split: if_splits)
  then show "wal_header_ok h'" using h'(1) by (simp add: wal_header_ok_def)
  show less: "unat (wh_generation h') = unat (wh_generation h) + 1"
    using checked_add_u64_Some[OF gen] by simp
  then show "wh_generation h < wh_generation h'" by (simp add: word_less_nat_alt)
  obtain n where n: "scan_next_txn (wh_next_txn_id h) rs = Inr n" "wm_next_txn_id m = max (wh_next_txn_id h) n"
    using m by (cases m) (auto simp: tracks_def from_scan_exact)
  have "\<not> next_txn < (case max_txn_id rs of None \<Rightarrow> wh_next_txn_id h | Some x \<Rightarrow> max (saturating_add_u64 x 1) (wh_next_txn_id h))"
    using next_ok n by (auto simp: scan_next_txn_def saturating_add_u64_def max.commute split: option.splits)
  then show "validate_successor h \<lparr>scan_records_of = rs, valid_end = length (log_content C h rs), incomplete_tail = False\<rparr> h' = Inr ()"
    using less gen h'(3,4) base f(6) by (auto simp: validate_successor_def Let_def)
qed

text \<open>The manager of a fresh generation.\<close>

lemma tracks_fresh:
  assumes "wal_header_ok h"
  obtains m where "from_scan (wal_header_bytes C h) h [] 48 = Inr m" "tracks C h [] m" "\<And>d. tracks C h [] (m\<lparr>wm_durable_lsn := d\<rparr>)"
proof -
  have content: "log_content C h [] = wal_header_bytes C h" by (simp add: log_content_def)
  have "logical_lsn (wh_base_lsn h) 48 = Inr (wh_base_lsn h)"
    using u64_bound[of "wh_base_lsn h"] by (simp add: logical_lsn_def WAL_HEADER_SIZE_def checked_sub_def checked_add_u64_def)
  then obtain m where m: "from_scan (wal_header_bytes C h) h [] 48 = Inr m" "wm_durable_lsn m = None" "wm_file m = wal_header_bytes C h"
    by (simp add: from_scan_exact scan_next_txn_def max_txn_id_def)
  have "log_accepted C h []" using assms by (simp add: log_accepted_def content USIZE_MAX_def)
  moreover have "m\<lparr>wm_durable_lsn := None\<rparr> = m" using m(2) by simp
  ultimately show thesis using that m by (simp add: tracks_def content)
qed

lemma tracks_switched:
  assumes m: "tracks C h rs m" and rot: "rotated_header next_txn m = Inr h'" and next_ok: "\<not> (next_txn = 0 \<or> next_txn < wm_next_txn_id m)"
  shows "tracks C h' [] (switch_generation h' (wal_header_bytes C h') m)"
proof -
  note h' = rotated_header_ok[OF m rot next_ok]
  obtain f where f: "from_scan (wal_header_bytes C h') h' [] 48 = Inr f" "tracks C h' [] f" using tracks_fresh[OF h'(1)] by metis
  have "f = (switch_generation h' (wal_header_bytes C h') m)\<lparr>wm_durable_lsn := None\<rparr>"
    using f(1) tracks_fields(1)[OF m]
    by (cases m) (auto simp: from_scan_exact switch_generation_def scan_next_txn_def max_txn_id_def last_lsn_def empty_scan_def
        logical_lsn_def WAL_HEADER_SIZE_def checked_sub_def checked_add_u64_def split: if_splits)
  then show ?thesis using f by (simp add: tracks_def log_content_def switch_generation_def)
qed


section \<open>Histories\<close>

datatype wal_op =
    WalAppendOp TxnId "Lsn option" wal_record_kind wal_append_io
  | WalFlushOp Lsn bool bool
  | WalRotateOp TxnId

text \<open>The manager and the records of its generation, those whose append has succeeded.\<close>

fun run_wal_op :: "crc \<Rightarrow> wal_op \<Rightarrow> wal_manager \<times> wal_record list \<Rightarrow> wal_manager \<times> wal_record list" where
  "run_wal_op C (WalAppendOp t prev kind io) (m, rs) =
     (case wal_append C io t prev kind m of
        (Inl _, m') \<Rightarrow> (m', rs)
      | (Inr lsn, m') \<Rightarrow> (m', rs @ [\<lparr>rec_lsn = lsn, rec_txn_id = t, rec_prev_lsn = prev, rec_kind = kind\<rparr>]))"
| "run_wal_op C (WalFlushOp lsn verified synced) (m, rs) = (snd (flush_through verified synced lsn m), rs)"
| "run_wal_op C (WalRotateOp next_txn) (m, rs) =
     (case rotate_wal C RotateDone next_txn m None of
        (Inl _, m', _) \<Rightarrow> (m', rs)
      | (Inr _, m', _) \<Rightarrow> (m', []))"

fun wf_wal_op :: "wal_op \<Rightarrow> bool" where
  "wf_wal_op (WalAppendOp _ _ kind _) \<longleftrightarrow> wf_kind kind"
| "wf_wal_op _ \<longleftrightarrow> True"

definition wal_history :: "crc \<Rightarrow> wal_manager \<times> wal_record list \<Rightarrow> bool" where
  "wal_history C st \<longleftrightarrow> wm_poisoned (fst st) \<or> (\<exists>h. tracks C h (snd st) (fst st))"

lemma tracks_durable: "tracks C h rs m \<Longrightarrow> tracks C h rs (m\<lparr>wm_durable_lsn := d\<rparr>)"
  by (simp add: tracks_def)

lemma history_append:
  assumes "tracks C h rs m" "wf_kind kind"
  shows "wal_history C (run_wal_op C (WalAppendOp t prev kind io) (m, rs))"
proof (cases "bindR (ensure_healthy (io \<noteq> WalUnverified) m) (\<lambda>_. prepare_append C t prev kind m)")
  case (Inl e)
  then show ?thesis using assms(1) by (auto simp: wal_history_def wal_append_def)
next
  case (Inr x)
  obtain r bytes b nl no where x: "x = (r, bytes, b, nl, no)" by (cases x)
  then have prep: "prepare_append C t prev kind m = Inr (r, bytes, b, nl, no)" using Inr by simp
  note p = prepare_append_Inr[OF assms prep]
  have "take (wm_next_offset m) (wm_file m) = wm_file m" using tracks_fields(5)[OF assms(1)] assms(1) by (simp add: tracks_def)
  then have cut: "m\<lparr>wm_file := take (wm_next_offset m) (wm_file m)\<rparr> = m" by simp
  show ?thesis
  proof (cases io)
    case WalAppendDone
    then show ?thesis using Inr x p(1,6) by (auto simp: wal_history_def wal_append_def)
  next
    case (WalWriteFailed n cut_back)
    then show ?thesis using Inr x cut assms(1) by (auto simp: wal_history_def wal_append_def)
  qed (use Inr x assms(1) in \<open>auto simp: wal_history_def wal_append_def\<close>)
qed

lemma flush_tracks: "tracks C h rs m \<Longrightarrow> tracks C h rs (snd (flush_through verified synced lsn m))"
  by (auto simp: flush_through_def tracks_durable split: sum.splits)

lemma flush_written_tracks:
  "tracks C h rs m \<Longrightarrow> flush_written io m = (x, m') \<Longrightarrow> tracks C h rs m'"
  using flush_tracks[of C h rs m] by (auto simp: flush_written_def split: option.splits) (metis snd_conv)

lemma durable_self: "\<exists>d. m = m\<lparr>wm_durable_lsn := d\<rparr>"
  by (rule exI[of _ "wm_durable_lsn m"]) simp

lemma flush_keeps: "flush_written io m = (x, m') \<Longrightarrow> \<exists>d. m' = m\<lparr>wm_durable_lsn := d\<rparr>"
  using durable_self
  by (auto simp: flush_written_def flush_through_def split: option.splits sum.splits if_splits)

text \<open>Where a rotation that gets as far as writing the new file stands.\<close>

lemma rotate_cases:
  assumes m: "tracks C h rs m" and rot: "rotate_wal C io next_txn m None = (res, m', other)"
  obtains (early) e where "res = Inl e" "tracks C h rs m'" "other = None"
    | (begun) m1 h' where "tracks C h rs m1" "\<exists>d. m1 = m\<lparr>wm_durable_lsn := d\<rparr>" "rotated_header next_txn m1 = Inr h'"
        "\<not> (next_txn = 0 \<or> next_txn < wm_next_txn_id m1)"
        "(res, m', other) =
          (case io of
             CreateFailed written \<Rightarrow> (Inl WalIo, m1\<lparr>wm_poisoned := True\<rparr>, map_option (\<lambda>n. take n (wal_header_bytes C h')) written)
           | TargetSyncFailed \<Rightarrow> (Inl WalIo, m1\<lparr>wm_poisoned := True\<rparr>, Some (wal_header_bytes C h'))
           | OldUnverified \<Rightarrow> (Inl WalIo, (switch_generation h' (wal_header_bytes C h') m1)\<lparr>wm_poisoned := True\<rparr>, Some (wm_file m1))
           | RemoveFailed \<Rightarrow> (Inl WalIo, (switch_generation h' (wal_header_bytes C h') m1)\<lparr>wm_poisoned := True\<rparr>, Some (wm_file m1))
           | OldSyncFailed \<Rightarrow> (Inl WalIo, (switch_generation h' (wal_header_bytes C h') m1)\<lparr>wm_poisoned := True\<rparr>, None)
           | _ \<Rightarrow> (Inr (), switch_generation h' (wal_header_bytes C h') m1, None))"
proof (cases "bindR (ensure_healthy (io \<noteq> RotateUnverified) m) (\<lambda>_.
    ensure (\<not> (next_txn = 0 \<or> next_txn < wm_next_txn_id m)) (InvalidNextTxnId next_txn))")
  case (Inl e)
  show thesis by (rule early[of e]) (use rot m Inl in \<open>auto simp: rotate_wal_def\<close>)
next
  case (Inr u)
  obtain x m1 where fl: "flush_written io m = (x, m1)" by (cases "flush_written io m")
  note t1 = flush_written_tracks[OF m fl] and d1 = flush_keeps[OF fl]
  have next_ok: "\<not> (next_txn = 0 \<or> next_txn < wm_next_txn_id m1)" using Inr d1 by auto
  show thesis
  proof (cases x)
    case (Inl e)
    then show thesis using rot Inr fl t1 early \<open>bindR _ _ = Inr u\<close> by (auto simp: rotate_wal_def)
  next
    case (Inr v)
    note start = \<open>bindR (ensure_healthy _ m) _ = Inr u\<close>
    show thesis
    proof (cases "bindR (rotated_header next_txn m1) (\<lambda>h. bindR (ensure (io \<noteq> ProbeFailed) WalIo) (\<lambda>_. Inr h))")
      case (Inl e)
      have "bindR (rotated_header next_txn m1) (\<lambda>h. bindR (ensure (io \<noteq> ProbeFailed) WalIo) (\<lambda>_.
          bindR (ensure ((None :: byte list option) = None) GenerationConflict) (\<lambda>_. Inr h))) = Inl e" using Inl by simp
      then show thesis using rot start fl Inr t1 early by (auto simp: rotate_wal_def)
    next
      case (Inr h')
      then have rh: "rotated_header next_txn m1 = Inr h'" "io \<noteq> ProbeFailed" by auto
      have enc: "encode_wal_header C h' = Inr (wal_header_bytes C h')"
        using encode_wal_header_exact rotated_header_ok(1)[OF t1 rh(1) next_ok] by (simp add: wal_header_ok_def)
      show thesis
      proof (rule begun[OF t1 d1 rh(1) next_ok])
        show "(res, m', other) = (case io of
             CreateFailed written \<Rightarrow> (Inl WalIo, m1\<lparr>wm_poisoned := True\<rparr>, map_option (\<lambda>n. take n (wal_header_bytes C h')) written)
           | TargetSyncFailed \<Rightarrow> (Inl WalIo, m1\<lparr>wm_poisoned := True\<rparr>, Some (wal_header_bytes C h'))
           | OldUnverified \<Rightarrow> (Inl WalIo, (switch_generation h' (wal_header_bytes C h') m1)\<lparr>wm_poisoned := True\<rparr>, Some (wm_file m1))
           | RemoveFailed \<Rightarrow> (Inl WalIo, (switch_generation h' (wal_header_bytes C h') m1)\<lparr>wm_poisoned := True\<rparr>, Some (wm_file m1))
           | OldSyncFailed \<Rightarrow> (Inl WalIo, (switch_generation h' (wal_header_bytes C h') m1)\<lparr>wm_poisoned := True\<rparr>, None)
           | _ \<Rightarrow> (Inr (), switch_generation h' (wal_header_bytes C h') m1, None))"
          using rot start fl \<open>x = Inr v\<close> rh enc by (simp add: rotate_wal_def Let_def split: rotate_io.split)
      qed
    qed
  qed
qed

lemma history_step:
  assumes "wal_history C (m, rs)" "wf_wal_op oper"
  shows "wal_history C (run_wal_op C oper (m, rs))"
proof (cases "wm_poisoned m")
  case True
  then show ?thesis
    by (cases oper) (auto simp: wal_history_def wal_append_def flush_through_def rotate_wal_def ensure_healthy_def)
next
  case False
  then obtain h where m: "tracks C h rs m" using assms(1) by (auto simp: wal_history_def)
  show ?thesis
  proof (cases oper)
    case (WalAppendOp t prev kind io)
    then show ?thesis using history_append[OF m] assms(2) by simp
  next
    case (WalFlushOp lsn verified synced)
    then show ?thesis using flush_tracks[OF m] by (auto simp: wal_history_def)
  next
    case (WalRotateOp next_txn)
    obtain res m' other where rot: "rotate_wal C RotateDone next_txn m None = (res, m', other)"
      using prod_cases3 by blast
    from m rot show ?thesis
    proof (cases rule: rotate_cases)
      case (early e)
      then show ?thesis using WalRotateOp rot by (auto simp: wal_history_def)
    next
      case (begun m1 h')
      then show ?thesis using WalRotateOp rot tracks_switched[OF begun(1,3,4)] by (auto simp: wal_history_def)
    qed
  qed
qed

lemma history_run: "wal_history C st \<Longrightarrow> list_all wf_wal_op ops \<Longrightarrow> wal_history C (fold (run_wal_op C) ops st)"
proof (induction ops arbitrary: st)
  case (Cons oper ops)
  then show ?case using history_step[of C "fst st" "snd st" oper] by simp
qed simp

lemma history_create:
  assumes "wal_create C alternate_exists = Inr m"
  shows "wal_history C (m, [])"
proof -
  let ?h = "\<lparr>wh_generation = INITIAL_GENERATION, wh_base_lsn = INITIAL_BASE_LSN, wh_checkpoint_lsn = None, wh_next_txn_id = INITIAL_NEXT_TXN_ID\<rparr>"
  have ok: "wal_header_ok ?h"
    by (simp add: wal_header_ok_def validate_wal_header_def INITIAL_GENERATION_def INITIAL_BASE_LSN_def INITIAL_NEXT_TXN_ID_def)
  then have "encode_wal_header C ?h = Inr (wal_header_bytes C ?h)" by (intro encode_wal_header_exact) (simp add: wal_header_ok_def)
  then have "from_scan (wal_header_bytes C ?h) ?h [] 48 = Inr m" using assms by (auto simp: wal_create_def WAL_HEADER_SIZE_def Let_def)
  then have "tracks C ?h [] m" using tracks_fresh[OF ok, of C] by force
  then show ?thesis by (auto simp: wal_history_def)
qed

lemma wal_create_ok: "\<exists>m. wal_create C False = Inr m \<and> \<not> wm_poisoned m"
  by (simp add: wal_create_def encode_wal_header_def validate_wal_header_def INITIAL_GENERATION_def INITIAL_BASE_LSN_def
      INITIAL_NEXT_TXN_ID_def from_scan_def max_txn_id_def logical_lsn_def checked_sub_def checked_add_u64_def Let_def)


section \<open>What a scan accepts\<close>

lemma decode_kind_Inr:
  assumes "decode_kind lsn tag payload = Inr kind" "expected_payload_for_tag lsn tag = Inr n" "length payload = unat n"
  shows "kind_tag kind = tag" "wf_kind kind" "kind_payload_len kind = unat n"
  using assms
  by (auto simp: decode_kind_def expected_payload_for_tag_def wal_consts Let_def split: if_splits)

lemma framing_Inr:
  assumes "validate_record_framing lsn bytes = Inr (tag, len)"
  obtains n where "expected_payload_for_tag lsn tag = Inr n" "unat len = 40 + unat n"
proof -
  obtain n where n: "expected_payload_for_tag lsn tag = Inr n" "checked_add_u32 (of_nat RECORD_HEADER_SIZE) n = Some len"
    using assms by (auto simp: validate_record_framing_def validate_length_def Let_def)
  then have "unat len = unat (of_nat RECORD_HEADER_SIZE :: u32) + unat n"
    by (auto simp: checked_add_u32_def unat_word_ariths split: if_splits)
  then show thesis using that n(1) by (simp add: RECORD_HEADER_SIZE_def)
qed

lemma scan_record_Inr:
  assumes "scan_record C lsn tag bytes s = Inr s'" "expected_payload_for_tag lsn tag = Inr n" "length bytes = 40 + unat n"
  obtains r where "s' = push_record r s" "rec_lsn r = lsn" "wf_kind (rec_kind r)" "accepted C s r" "record_len r = 40 + unat n"
proof -
  obtain kind where kind: "decode_kind lsn tag (drop 40 bytes) = Inr kind"
    using assms(1) by (auto simp: scan_record_def RECORD_HEADER_SIZE_def Let_def)
  note d = decode_kind_Inr[OF kind assms(2)]
  define r where "r = \<lparr>rec_lsn = lsn, rec_txn_id = rd bytes 24, rec_prev_lsn = nonzero_lsn (rd bytes 32), rec_kind = kind\<rparr>"
  have "s' = push_record r s" "accepted C s r"
    using assms(1) kind d assms(3)
    by (auto simp: scan_record_def RECORD_HEADER_SIZE_def r_def accepted_def validate_transaction_sequence_def is_ok_def Let_def)
  then show thesis using that[of r] d assms(3) by (simp add: r_def record_len_def)
qed

lemma scan_loop_sound:
  assumes "scan_loop C policy base content off s = Inr res" "length content \<le> USIZE_MAX"
  shows "\<exists>rs. scan_records_of res = sc_records s @ rs \<and> accepts C base off s rs \<and>
    valid_end res = off + sum_list (map record_len rs) \<and> (off \<le> length content \<longrightarrow> valid_end res \<le> length content)"
  using assms(1)
proof (induction C policy base content off s arbitrary: res rule: scan_loop.induct)
  case (1 C policy base content off s)
  show ?case
  proof (cases "off < length content")
    case False
    then show ?thesis using 1(2) by (intro exI[of _ "[]"]) (auto simp: scan_loop.simps[of C policy base content off s])
  next
    case True
    obtain lsn where lsn: "logical_lsn base off = Inr lsn"
      using 1(2) True by (auto simp: scan_loop.simps[of C policy base content off s])
    have torn: ?thesis if "torn_tail policy lsn off s = Inr res"
      using that by (intro exI[of _ "[]"]) (auto simp: torn_tail_def split: if_splits)
    show ?thesis
    proof (cases "length content - off < 40")
      case short: True
      then show ?thesis using 1(2) True lsn torn by (auto simp: scan_loop.simps[of C policy base content off s] RECORD_HEADER_SIZE_def)
    next
      case False
      obtain tag len where fr: "validate_record_framing lsn (slice content off (off + 40)) = Inr (tag, len)"
        using 1(2) True lsn False by (auto simp: scan_loop.simps[of C policy base content off s] RECORD_HEADER_SIZE_def Let_def)
      obtain n where n: "expected_payload_for_tag lsn tag = Inr n" "unat len = 40 + unat n" by (rule framing_Inr[OF fr])
      show ?thesis
      proof (cases "unat len > length content - off")
        case long: True
        then show ?thesis
          using 1(2) True lsn False fr torn by (auto simp: scan_loop.simps[of C policy base content off s] RECORD_HEADER_SIZE_def Let_def)
      next
        case fits: False
        obtain s' off' where s': "scan_record C lsn tag (slice content off (off + unat len)) s = Inr s'"
          and off': "checked_add off (unat len) = Some off'" and rec: "scan_loop C policy base content off' s' = Inr res"
          using 1(2) True lsn False fr fits
          by (auto simp: scan_loop.simps[of C policy base content off s] RECORD_HEADER_SIZE_def Let_def)
        have "length (slice content off (off + unat len)) = 40 + unat n" using fits True n(2) by (subst length_slice) auto
        then obtain r where r: "s' = push_record r s" "rec_lsn r = lsn" "wf_kind (rec_kind r)" "accepted C s r" "record_len r = 40 + unat n"
          using scan_record_Inr[OF s' n(1)] by metis
        have o: "off' = off + record_len r" using off' n(2) r(5) by (simp add: checked_add_Some_iff)
        have next_off: "ok_or LsnOverflow (checked_add off (unat len)) = Inr off'" using off' by simp
        have "\<exists>rs. scan_records_of res = sc_records s' @ rs \<and> accepts C base off' s' rs \<and>
            valid_end res = off' + sum_list (map record_len rs) \<and> (off' \<le> length content \<longrightarrow> valid_end res \<le> length content)"
          using 1(1)[OF True lsn refl _ _ refl _ s' next_off rec] False fr fits by (simp add: RECORD_HEADER_SIZE_def)
        then obtain rs where "scan_records_of res = sc_records s' @ rs" "accepts C base off' s' rs" "valid_end res = off' + sum_list (map record_len rs)"
          "off' \<le> length content \<longrightarrow> valid_end res \<le> length content"
          by blast
        then show ?thesis using r o lsn fits True n(2) by (intro exI[of _ "r # rs"]) (auto simp: push_record_def)
      qed
    qed
  qed
qed

text \<open>What an accepted log guarantees about its records.\<close>

definition last_before :: "wal_record list \<Rightarrow> TxnId \<Rightarrow> Lsn option" where
  "last_before rs t = last_lsn (filter (\<lambda>r. rec_txn_id r = t) rs)"

definition may_follow :: "wal_record_kind \<Rightarrow> wal_record_kind \<Rightarrow> bool" where
  "may_follow first second \<longleftrightarrow>
     (case wal_state_after first of
        WalActive \<Rightarrow> second \<noteq> Begin \<and> second \<noteq> RollbackComplete
      | WalPrepared \<Rightarrow> second = Commit \<or> second = Abort
      | WalAborting \<Rightarrow> second = RollbackComplete
      | WalComplete \<Rightarrow> False)"

lemma sequence_follows:
  "validate_transaction_sequence lsn t (Some (wal_state_after k)) k' = Inr u \<longleftrightarrow> may_follow k k'"
  by (cases k; cases k') (simp_all add: validate_transaction_sequence_def validate_transaction_tag_sequence_def may_follow_def
      word_le_nat_alt)

lemma sc_last_before: "sc_last (scanned rs) t = last_before rs t"
  by (induction rs rule: rev_induct) (auto simp: last_before_def last_lsn_def push_record_def empty_scan_def)

lemma sc_state_before:
  "sc_states (scanned rs) t =
     (let own = filter (\<lambda>r. rec_txn_id r = t) rs in if own = [] then None else Some (wal_state_after (rec_kind (last own))))"
  by (induction rs rule: rev_induct) (auto simp: push_record_def empty_scan_def Let_def)

lemma accepts_nth:
  assumes "accepts C base off empty_scan rs" "i < length rs"
  shows "logical_lsn base (off + sum_list (map record_len (take i rs))) = Inr (rec_lsn (rs ! i))"
    "accepted C (scanned (take i rs)) (rs ! i)" "wf_kind (rec_kind (rs ! i))"
proof -
  have "rs = take i rs @ rs ! i # drop (Suc i) rs" using assms(2) by (simp add: id_take_nth_drop)
  then have "accepts C base off empty_scan (take i rs @ rs ! i # drop (Suc i) rs)" using assms(1) by simp
  then show "logical_lsn base (off + sum_list (map record_len (take i rs))) = Inr (rec_lsn (rs ! i))"
    "accepted C (scanned (take i rs)) (rs ! i)" "wf_kind (rec_kind (rs ! i))"
    by (simp_all add: accepts_append)
qed


section \<open>Properties\<close>

text \<open>C7. Let a new log have run any history of appends, flushes and rotations, I/O failures included, that left the
  manager healthy, and let the next record be written in full, in part or not at all before a crash. Reopening
  restores exactly the manager's state, its durable position apart, and exactly the records whose append had
  succeeded. A partly written record is cut off in recovery and refused otherwise. A completely written one counts.\<close>

theorem wal_reopen_recovers:
  assumes create: "wal_create C False = Inr m0" and ops: "list_all wf_wal_op ops"
    and run: "fold (run_wal_op C) ops (m0, []) = (m, rs)" and healthy: "\<not> wm_poisoned m"
    and next_rec: "wf_kind kind" "prepare_append C t prev kind m = Inr (r, bytes, b, next_lsn, next_offset)"
  shows "open_selected C policy True (Some (wm_file m)) None = Inr (m\<lparr>wm_durable_lsn := None\<rparr>, rs, False) \<and>
    (0 < k \<and> k < length bytes \<longrightarrow>
       open_selected C AllowIncompleteFinalRecord True (Some (wm_file m @ take k bytes)) None =
         Inr (m\<lparr>wm_durable_lsn := None\<rparr>, rs, True) \<and>
       open_selected C RejectTail True (Some (wm_file m @ take k bytes)) None = Inl (WalTruncatedRecord (wm_next_lsn m))) \<and>
    open_selected C policy True (Some (wm_file m @ bytes)) None =
      Inr ((install_record r bytes b next_lsn next_offset m)\<lparr>wm_durable_lsn := None\<rparr>, rs @ [r], False)"
proof -
  have "wal_history C (m, rs)" using history_run[OF history_create[OF create] ops] run by simp
  then obtain h where m: "tracks C h rs m" using healthy by (auto simp: wal_history_def)
  note p = prepare_append_Inr[OF m next_rec]
  have kind: "wf_kind (rec_kind r)" using p(1) next_rec(1) by simp
  have len: "length bytes = record_len r" using p(2) length_wal_bytes[OF kind] by simp
  have "wm_file (install_record r bytes b next_lsn next_offset m) = wm_file m @ bytes"
    using p(5,6) m by (simp add: tracks_def)
  then show ?thesis
    using reopen_clean[OF m] reopen_torn[OF m kind _ _ p(3), of k] reopen_clean[OF p(6)] len p(2) by simp
qed

theorem wal_reopen_recovers_witness:
  "\<exists>m bytes. wal_create sample_crc False = Inr m \<and> length bytes = 40 \<and>
     open_selected sample_crc AllowIncompleteFinalRecord True (Some (wm_file m @ take 17 bytes)) None =
       Inr (m\<lparr>wm_durable_lsn := None\<rparr>, [], True)"
proof -
  obtain m where m: "wal_create sample_crc False = Inr m" "\<not> wm_poisoned m" using wal_create_ok by blast
  then obtain h where t: "tracks sample_crc h [] m" using history_create[OF m(1)] by (auto simp: wal_history_def)
  have new: "wm_last_by_txn m = Map.empty" "wm_txn_states m = Map.empty" "wm_next_lsn m = 1" "wm_next_offset m = 48"
    using m(1) by (auto simp: wal_create_def encode_wal_header_def validate_wal_header_def INITIAL_GENERATION_def
        INITIAL_BASE_LSN_def INITIAL_NEXT_TXN_ID_def from_scan_def max_txn_id_def logical_lsn_def checked_sub_def
        checked_add_u64_def WAL_HEADER_SIZE_def Let_def)
  let ?r = "\<lparr>rec_lsn = 1, rec_txn_id = 1, rec_prev_lsn = None, rec_kind = Begin\<rparr>"
  have len: "length (wal_bytes sample_crc ?r) = 40" by (subst length_wal_bytes) (simp_all add: record_len_def)
  have "prepare_append sample_crc 1 None Begin m = Inr (?r, wal_bytes sample_crc ?r, Some 2, 41, 88)"
    using encode_wal_record_exact[of ?r sample_crc] len
    by (simp add: prepare_append_def new validate_transaction_sequence_def validate_transaction_tag_sequence_def
        validate_page_images_def validate_transition_reservation_def begin_next_txn_id_def checked_add_u64_def checked_add_def
        USIZE_MAX_def Let_def)
  from wal_reopen_recovers[OF m(1) _ _ m(2) _ this, of "[]" "[]" AllowIncompleteFinalRecord 17] m len show ?thesis
    by (intro exI[of _ m] exI[of _ "wal_bytes sample_crc ?r"]) simp
qed

text \<open>C8. A rotation is atomic. Wherever the operating system fails it, and in whichever of the two paths the files lie,
  reopening what is on disk yields either the old generation with all its records or an empty new one that continues
  where the old one ended: the next LSN, the checkpoint, the transaction counter and the generation number follow.
  After a rotation that reports success it is the new one.\<close>

theorem wal_rotation_atomic:
  assumes create: "wal_create C False = Inr m0" and ops: "list_all wf_wal_op ops"
    and run: "fold (run_wal_op C) ops (m0, []) = (m, rs)" and healthy: "\<not> wm_poisoned m"
    and rot: "rotate_wal C io next_txn m None = (res, m', other)"
  shows "\<exists>m2 rs2. open_selected C policy True (Some (wm_file m')) other = Inr (m2, rs2, False) \<and>
    open_selected C policy True other (Some (wm_file m')) = Inr (m2, rs2, False) \<and>
    (res \<noteq> Inr () \<and> rs2 = rs \<and> m2 = m\<lparr>wm_durable_lsn := None\<rparr> \<or>
     rs2 = [] \<and> wm_next_lsn m2 = wm_next_lsn m \<and> wm_next_txn_id m2 = next_txn \<and> unat (wm_generation m2) = unat (wm_generation m) + 1 \<and>
     wm_checkpoint_lsn m2 = or_else (wm_written_lsn m) (wm_checkpoint_lsn m))"
proof -
  have "wal_history C (m, rs)" using history_run[OF history_create[OF create] ops] run by simp
  then obtain h where m: "tracks C h rs m" using healthy by (auto simp: wal_history_def)
  have log: "log_accepted C h rs" "wm_file m = log_content C h rs" using m by (simp_all add: tracks_def)
  note old = scan_clean[OF log(1), of policy] read_content[OF log(1), of "[]", simplified] log_accepted_len[OF log(1)]
  have old_open: "open_selected C policy True (Some (log_content C h rs)) None = Inr (m\<lparr>wm_durable_lsn := None\<rparr>, rs, False)"
    "open_selected C policy True None (Some (log_content C h rs)) = Inr (m\<lparr>wm_durable_lsn := None\<rparr>, rs, False)"
    using reopen_clean[OF m, of policy] open_single(2)[OF old(1,2)] old(3) log(2) by simp_all
  from m rot show ?thesis
  proof (cases rule: rotate_cases)
    case (early e)
    then have f: "wm_file m' = log_content C h rs" by (simp add: tracks_def)
    show ?thesis unfolding early(3) f using old_open early(1) by auto
  next
    case (begun m1 h')
    obtain d where d: "m1 = m\<lparr>wm_durable_lsn := d\<rparr>" using begun(2) by blast
    note h' = rotated_header_ok[OF begun(1,3,4)]
    note sw = tracks_switched[OF begun(1,3,4)]
    have fresh: "log_accepted C h' []" "log_content C h' [] = wal_header_bytes C h'" using sw by (simp_all add: tracks_def log_content_def)
    note new = scan_clean[OF fresh(1), of policy, unfolded fresh(2)] read_content[OF fresh(1), of "[]", unfolded fresh(2), simplified]
    let ?m2 = "(switch_generation h' (wal_header_bytes C h') m1)\<lparr>wm_durable_lsn := None\<rparr>"
    have file1: "wm_file m1 = log_content C h rs" using begun(1) by (simp add: tracks_def)
    have new_open: "open_selected C policy True (Some (wal_header_bytes C h')) None = Inr (?m2, [], False)"
      using reopen_clean[OF sw, of policy] by (simp add: switch_generation_def)
    have new_open': "open_selected C policy True None (Some (wal_header_bytes C h')) = Inr (?m2, [], False)"
      using open_single(2)[OF new] new_open by simp
    note pair = open_pair[OF old(1,2) _ new _ h'(2,5)]
    have both: "open_selected C policy True (Some (log_content C h rs)) (Some (wal_header_bytes C h')) = Inr (?m2, [], False)"
      "open_selected C policy True (Some (wal_header_bytes C h')) (Some (log_content C h rs)) = Inr (?m2, [], False)"
      using pair old(3) new_open by simp_all
    have cont: "wm_next_lsn ?m2 = wm_next_lsn m" "wm_next_txn_id ?m2 = next_txn" "unat (wm_generation ?m2) = unat (wm_generation m) + 1"
      "wm_checkpoint_lsn ?m2 = or_else (wm_written_lsn m) (wm_checkpoint_lsn m)"
      using h'(3,4,6,7) tracks_fields(2,4,7)[OF m] by (simp_all add: d switch_generation_def)
    show ?thesis
    proof (cases io)
      case (CreateFailed written)
      show ?thesis
      proof (cases written)
        case None
        then show ?thesis using begun(5) CreateFailed old_open file1 by auto
      next
        case (Some n)
        show ?thesis
        proof (cases "n < 48")
          case True
          then show ?thesis
            using begun(5) CreateFailed Some old_open(1) file1 open_single_truncated[OF old(1,2), of "take n (wal_header_bytes C h')"] old(3)
            by auto
        next
          case False
          then show ?thesis using begun(5) CreateFailed Some both cont file1 by auto
        qed
      qed
    qed (use begun(5) both cont file1 new_open new_open' in \<open>auto simp: switch_generation_def\<close>)
  qed
qed

lemma sample_rotation: "\<exists>m. wal_create sample_crc False = Inr m \<and> \<not> wm_poisoned m \<and>
   (\<exists>m' other. rotate_wal sample_crc (CreateFailed (Some 20)) 1 m None = (Inl WalIo, m', other))"
  by (simp add: wal_create_def encode_wal_header_def validate_wal_header_def INITIAL_GENERATION_def INITIAL_BASE_LSN_def
      INITIAL_NEXT_TXN_ID_def from_scan_def max_txn_id_def logical_lsn_def checked_sub_def checked_add_u64_def rotate_wal_def
      ensure_healthy_def flush_written_def last_lsn_def rotated_header_def Let_def)

theorem wal_rotation_atomic_witness:
  "\<exists>m m' other m2 rs2. wal_create sample_crc False = Inr m \<and>
     rotate_wal sample_crc (CreateFailed (Some 20)) 1 m None = (Inl WalIo, m', other) \<and>
     open_selected sample_crc RejectTail True (Some (wm_file m')) other = Inr (m2, rs2, False)"
proof -
  obtain m m' other where m: "wal_create sample_crc False = Inr m" "\<not> wm_poisoned m"
    "rotate_wal sample_crc (CreateFailed (Some 20)) 1 m None = (Inl WalIo, m', other)"
    using sample_rotation by blast
  have "list_all wf_wal_op []" "fold (run_wal_op sample_crc) [] (m, []) = (m, [])" by simp_all
  from wal_rotation_atomic[OF m(1) this m(2,3), of RejectTail] m show ?thesis by blast
qed

lemma accepts_sorted:
  assumes acc: "accepts C base 48 empty_scan rs" and valid: "48 + sum_list (map record_len rs) \<le> USIZE_MAX"
  shows "sorted_wrt (<) (map rec_lsn rs)"
proof -
  let ?off = "\<lambda>i. 48 + sum_list (map record_len (take i rs))"
  note at = accepts_nth[OF acc]
  have step: "sum_list (map record_len (take j rs)) = sum_list (map record_len (take i rs)) + sum_list (map record_len (drop i (take j rs)))"
    if "i \<le> j" for i j
    using that by (metis append_take_drop_id map_append min_def sum_list_append take_take)
  have "unat (rec_lsn (rs ! i)) < unat (rec_lsn (rs ! j))" if "i < j" "j < length rs" for i j
  proof -
    have "drop i (take j rs) = rs ! i # drop (Suc i) (take j rs)" using that by (simp add: Cons_nth_drop_Suc[symmetric])
    then have less: "?off i < ?off j" using step[of i j] that(1) record_len_cases[of "rs ! i"] by auto
    have "?off j \<le> USIZE_MAX" using step[of j "length rs"] that(2) valid by simp
    then show ?thesis using logical_lsn_Inr[OF at(1)[of i]] logical_lsn_Inr[OF at(1)[of j]] that less by simp
  qed
  then show ?thesis by (auto simp: sorted_wrt_iff_nth_less word_less_nat_alt)
qed



end
