(* ===== verification/Recovery.thy ===== *)
theory Recovery
  imports Page_Manager Wal_Log "HOL-Library.AList" "HOL-Library.Product_Lexorder"
begin

text \<open>
  \<open>crates/netbadb-heap/src/recovery.rs\<close>: the synchronous recovery of a heap from its write-ahead log.
  Analysis of the log, resolution of prepared transactions, the checks made before any page changes,
  redo, undo along the backward chains of the losers, and the records that complete them.
\<close>

section \<open>Data\<close>

datatype (plugins only: code) recovery_error =
    RcWal wal_error
  | RcStorage storage_error
  | MetadataPageUpdate Lsn
  | PageGap PageId u64
  | NonTrailingPageRemoval PageId u64
  | CommittedUpdateDependsOnLoser PageId TxnId Lsn TxnId Lsn
  | MissingRecord TxnId Lsn
  | WrongTransaction TxnId TxnId Lsn
  | PreparedTransactionRequiresResolution DatabaseTxnId TxnId
  | DuplicatePreparedResolution TxnId
  | PreparedResolutionMismatch TxnId DatabaseTxnId DatabaseTxnId
  | UnknownPreparedResolution DatabaseTxnId TxnId
  | PreparedResolutionConflictsWithTerminalState DatabaseTxnId TxnId prepared_transaction_state prepared_decision
  | PreparedCommitAfterAbort DatabaseTxnId TxnId

record recovery_report =
  rr_records_scanned :: usize
  rr_committed_transactions :: usize
  rr_undone_transactions :: usize
  rr_pages_redone :: usize
  rr_pages_undone :: usize
  rr_truncated_wal_tail :: bool

record transaction_analysis =
  ta_last_lsn :: Lsn
  ta_committed :: bool
  ta_aborting :: bool
  ta_rolled_back :: bool
  ta_prepared :: "DatabaseTxnId option"

text \<open>
  The hash map of transactions, as an association list in the order of first insertion. Iterating over
  the hash map visits the entries in an unspecified order; only the choice among several errors depends
  on it.
\<close>

type_synonym transactions = "(TxnId \<times> transaction_analysis) list"

abbreviation wal_res :: "(wal_error, 'a) res \<Rightarrow> (recovery_error, 'a) res" where
  "wal_res \<equiv> map_err RcWal"

abbreviation storage_res :: "(storage_error, 'a) res \<Rightarrow> (recovery_error, 'a) res" where
  "storage_res \<equiv> map_err RcStorage"

section \<open>Prepared transactions of a log\<close>

definition inspect_record :: "wal_record \<Rightarrow> (TxnId \<times> prepared_transaction) list \<Rightarrow> (TxnId \<times> prepared_transaction) list" where
  "inspect_record r ts =
     (case rec_kind r of
        Prepare db \<Rightarrow>
          AList.update (rec_txn_id r)
            \<lparr>pt_database_txn_id = db, pt_physical_txn_id = rec_txn_id r, pt_prepare_order = rec_lsn r, pt_state = StPrepared\<rparr> ts
      | Commit \<Rightarrow> AList.map_entry (rec_txn_id r) (\<lambda>t. t\<lparr>pt_state := StCommitted\<rparr>) ts
      | RollbackComplete \<Rightarrow> AList.map_entry (rec_txn_id r) (\<lambda>t. t\<lparr>pt_state := StRolledBack\<rparr>) ts
      | _ \<Rightarrow> ts)"

definition inspect_prepared_transactions :: "wal_record list \<Rightarrow> prepared_transaction list" where
  "inspect_prepared_transactions records = sort_key pt_prepare_order (map snd (fold inspect_record records []))"

section \<open>Analysis\<close>

definition analyze_record :: "wal_record \<Rightarrow> transactions \<Rightarrow> transactions" where
  "analyze_record r ts =
     (let t = (case map_of ts (rec_txn_id r) of
                 Some t \<Rightarrow> t
               | None \<Rightarrow> \<lparr>ta_last_lsn = rec_lsn r, ta_committed = False, ta_aborting = False, ta_rolled_back = False,
                         ta_prepared = None\<rparr>)\<lparr>ta_last_lsn := rec_lsn r\<rparr>
      in AList.update (rec_txn_id r)
           (case rec_kind r of
              Commit \<Rightarrow> t\<lparr>ta_committed := True\<rparr>
            | RollbackComplete \<Rightarrow> t\<lparr>ta_rolled_back := True, ta_aborting := False\<rparr>
            | Abort \<Rightarrow> t\<lparr>ta_aborting := True\<rparr>
            | Prepare db \<Rightarrow> t\<lparr>ta_prepared := Some db\<rparr>
            | _ \<Rightarrow> t) ts)"

definition analyze :: "wal_record list \<Rightarrow> transactions" where
  "analyze records = fold analyze_record records []"

definition record_by_lsn :: "wal_record list \<Rightarrow> Lsn \<Rightarrow> wal_record option" where
  "record_by_lsn records lsn = List.find (\<lambda>r. rec_lsn r = lsn) (rev records)"

definition rolled_back_in :: "transactions \<Rightarrow> TxnId \<Rightarrow> bool" where
  "rolled_back_in ts t = (case map_of ts t of Some a \<Rightarrow> ta_rolled_back a | None \<Rightarrow> False)"

definition losers_of :: "transactions \<Rightarrow> (TxnId \<times> Lsn) list" where
  "losers_of ts =
     sort_key (\<lambda>(t, l). (l, t))
       (map (\<lambda>(t, a). (t, ta_last_lsn a)) (filter (\<lambda>(_, a). \<not> ta_committed a \<and> \<not> ta_rolled_back a) ts))"

text \<open>The page and the images of a record that changes a page.\<close>

fun page_change :: "wal_record_kind \<Rightarrow> (PageId \<times> byte list \<times> byte list) option" where
  "page_change (PageUpdate i before after) = Some (i, before, after)"
| "page_change (PageAllocationTransition i before after) = Some (i, before, after)"
| "page_change _ = None"

fun is_transition :: "wal_record_kind \<Rightarrow> bool" where
  "is_transition (PageAllocationTransition _ _ _) = True"
| "is_transition _ = False"

definition all_zero_bytes :: "byte list \<Rightarrow> bool" where
  "all_zero_bytes bytes = list_all (\<lambda>b. b = 0) bytes"

section \<open>Validation before any change\<close>

definition reject_metadata_page :: "PageId \<Rightarrow> Lsn \<Rightarrow> (recovery_error, unit) res" where
  "reject_metadata_page i lsn = ensure (i \<noteq> 0) (MetadataPageUpdate lsn)"

fun no_winner_after :: "transactions \<Rightarrow> (PageId \<rightharpoonup> TxnId \<times> Lsn) \<Rightarrow> wal_record list \<Rightarrow> (recovery_error, unit) res" where
  "no_winner_after ts latest [] = Inr ()"
| "no_winner_after ts latest (r # rs) =
     (case (page_change (rec_kind r), map_of ts (rec_txn_id r)) of
        (Some (i, _, _), Some t) \<Rightarrow>
          if ta_committed t then
            (case latest i of
               Some (loser_txn, loser_lsn) \<Rightarrow>
                 Inl (CommittedUpdateDependsOnLoser i loser_txn loser_lsn (rec_txn_id r) (rec_lsn r))
             | None \<Rightarrow> no_winner_after ts latest rs)
          else if \<not> ta_rolled_back t then no_winner_after ts (latest(i \<mapsto> (rec_txn_id r, rec_lsn r))) rs
          else no_winner_after ts latest rs
      | _ \<Rightarrow> no_winner_after ts latest rs)"

definition validate_no_winner_depends_on_loser :: "wal_record list \<Rightarrow> transactions \<Rightarrow> (recovery_error, unit) res" where
  "validate_no_winner_depends_on_loser records ts = no_winner_after ts Map.empty records"

fun rolled_back_topology :: "transactions \<Rightarrow> u64 \<Rightarrow> (TxnId \<rightharpoonup> u64 \<times> u64) \<Rightarrow> wal_record list \<Rightarrow> (recovery_error, unit) res" where
  "rolled_back_topology ts initial ranges [] = Inr ()"
| "rolled_back_topology ts initial ranges (r # rs) =
     (if \<not> rolled_back_in ts (rec_txn_id r) then rolled_back_topology ts initial ranges rs
      else case rec_kind r of
        PageUpdate i before _ \<Rightarrow>
          bindR (reject_metadata_page i (rec_lsn r)) (\<lambda>_.
          if all_zero_bytes before then
            (let rng = (case ranges (rec_txn_id r) of Some rng \<Rightarrow> rng | None \<Rightarrow> (i, i))
             in bindR (ensure (\<not> (fst rng = snd rng \<and> i > initial)) (PageGap i initial)) (\<lambda>_.
                bindR (ensure (i = snd rng) (PageGap i (snd rng))) (\<lambda>_.
                bindR (ok_or (PageGap i (snd rng)) (checked_add_u64 (snd rng) 1)) (\<lambda>upper.
                rolled_back_topology ts initial (ranges(rec_txn_id r \<mapsto> (fst rng, upper))) rs))))
          else
            bindR (ensure (\<not> (i \<ge> initial \<and>
                     \<not> (case ranges (rec_txn_id r) of Some (start, upper) \<Rightarrow> i \<ge> start \<and> i < upper | None \<Rightarrow> False)))
                     (PageGap i initial)) (\<lambda>_.
            rolled_back_topology ts initial ranges rs))
      | _ \<Rightarrow> rolled_back_topology ts initial ranges rs)"

fun redo_topology :: "transactions \<Rightarrow> wal_record list \<Rightarrow> u64 \<Rightarrow> (recovery_error, u64) res" where
  "redo_topology ts [] count = Inr count"
| "redo_topology ts (r # rs) count =
     (if rolled_back_in ts (rec_txn_id r) then redo_topology ts rs count
      else case page_change (rec_kind r) of
        None \<Rightarrow> redo_topology ts rs count
      | Some (i, _, _) \<Rightarrow>
          bindR (reject_metadata_page i (rec_lsn r)) (\<lambda>_.
          bindR (ensure (\<not> (i > count \<or> (i = count \<and> is_transition (rec_kind r)))) (PageGap i count)) (\<lambda>_.
          bindR (if i = count then ok_or (PageGap i count) (checked_add_u64 count 1) else Inr count) (\<lambda>count.
          redo_topology ts rs count))))"

text \<open>
  The binary heap of the undo phase, as the ascending list of its entries: the greatest LSN is popped
  first.
\<close>

type_synonym undo_heap = "(u64 \<times> u64) list"

definition undo_heap_of :: "(TxnId \<times> Lsn) list \<Rightarrow> undo_heap" where
  "undo_heap_of losers = fold (\<lambda>(t, l). insort (l, t)) losers []"

definition undo_target :: "wal_record list \<Rightarrow> u64 \<times> u64 \<Rightarrow> (recovery_error, wal_record) res" where
  "undo_target records entry =
     (case entry of (lsn, txn) \<Rightarrow>
        bindR (ok_or (MissingRecord txn lsn) (record_by_lsn records lsn)) (\<lambda>r.
        bindR (ensure (rec_txn_id r = txn) (WrongTransaction txn (rec_txn_id r) lsn)) (\<lambda>_. Inr r)))"

definition push_previous :: "wal_record \<Rightarrow> undo_heap \<Rightarrow> undo_heap" where
  "push_previous r heap = (case rec_prev_lsn r of Some prev \<Rightarrow> insort (prev, rec_txn_id r) heap | None \<Rightarrow> heap)"

text \<open>
  The loop of the undo phase, run twice: first to simulate the number of pages, then for the pages
  themselves. It follows the backward chain of every loser, always taking the record with the greatest
  LSN next. On a log whose chains do not lead backwards it would not end.
\<close>

partial_function (option) undo_walk :: "(wal_record \<Rightarrow> 's \<Rightarrow> (recovery_error, unit) res \<times> 's) \<Rightarrow> wal_record list \<Rightarrow> undo_heap \<Rightarrow> 's
    \<Rightarrow> ((recovery_error, unit) res \<times> 's) option" where
  "undo_walk step records heap s =
     (if heap = [] then Some (Inr (), s)
      else case undo_target records (last heap) of
             Inl e \<Rightarrow> Some (Inl e, s)
           | Inr r \<Rightarrow>
               (case step r s of
                  (Inl e, s) \<Rightarrow> Some (Inl e, s)
                | (Inr _, s) \<Rightarrow> undo_walk step records (push_previous r (butlast heap)) s))"

definition undo_count :: "wal_record \<Rightarrow> u64 \<Rightarrow> (recovery_error, unit) res \<times> u64" where
  "undo_count r count =
     (case rec_kind r of
        PageUpdate i before _ \<Rightarrow>
          if all_zero_bytes before then
            (if checked_add_u64 i 1 = Some count then (Inr (), i) else (Inl (NonTrailingPageRemoval i count), count))
          else (Inr (), count)
      | _ \<Rightarrow> (Inr (), count))"

definition validate_page_topology :: "wal_record list \<Rightarrow> transactions \<Rightarrow> (TxnId \<times> Lsn) list \<Rightarrow> u64
    \<Rightarrow> (recovery_error, unit) res option" where
  "validate_page_topology records ts losers initial =
     (case bindR (rolled_back_topology ts initial Map.empty records) (\<lambda>_. redo_topology ts records initial) of
        Inl e \<Rightarrow> Some (Inl e)
      | Inr count \<Rightarrow> map_option fst (undo_walk undo_count records (undo_heap_of losers) count))"

section \<open>Transition lineages\<close>

definition page_at :: "PageId \<Rightarrow> byte list \<Rightarrow> page" where
  "page_at i bytes = \<lparr>page_id = i, page_bytes = bytes\<rparr>"

definition change_history :: "transactions \<Rightarrow> wal_record list \<Rightarrow> PageId \<Rightarrow> wal_record list" where
  "change_history ts records i =
     filter (\<lambda>r. \<not> rolled_back_in ts (rec_txn_id r) \<and>
       (case page_change (rec_kind r) of Some (j, _, _) \<Rightarrow> j = i | None \<Rightarrow> False)) records"

definition transitioned_pages :: "transactions \<Rightarrow> wal_record list \<Rightarrow> PageId list" where
  "transitioned_pages ts records =
     remdups (List.map_filter (\<lambda>r. if is_transition (rec_kind r) \<and> \<not> rolled_back_in ts (rec_txn_id r)
        then map_option fst (page_change (rec_kind r)) else None) records)"

fun certify_history :: "crc \<Rightarrow> page \<Rightarrow> page_ref \<times> IndexId \<Rightarrow> byte list option \<Rightarrow> Lsn option \<times> bool \<Rightarrow> wal_record list
    \<Rightarrow> (storage_error, Lsn option \<times> bool) res" where
  "certify_history C current actual previous acc [] = Inr acc"
| "certify_history C current actual previous (start, recognized) (r # rs) =
     (case page_change (rec_kind r) of
        None \<Rightarrow> certify_history C current actual previous (start, recognized) rs
      | Some (i, before, after) \<Rightarrow>
          bindR (ensure (\<not> (case previous of Some bytes \<Rightarrow> bytes \<noteq> before | None \<Rightarrow> False))
                   (SeInvalidFormat ''discontinuous WAL allocation image lineage'')) (\<lambda>_.
          if is_transition (rec_kind r) then
            bindR (identity C (page_at i before)) (\<lambda>old.
            bindR (identity C (page_at i after)) (\<lambda>new.
            bindR (if actual = new then bindR (redo C current (page_at i before) (page_at i after) (rec_lsn r)) (\<lambda>_.
                     Inr (Some (rec_lsn r), True))
                   else Inr (start, recognized \<or> actual = old)) (\<lambda>acc.
            certify_history C current actual (Some after) acc rs)))
          else certify_history C current actual (Some after) (start, recognized) rs))"

definition certify_page :: "crc \<Rightarrow> page_manager \<Rightarrow> transactions \<Rightarrow> wal_record list \<Rightarrow> PageId \<Rightarrow> (storage_error, Lsn option) res" where
  "certify_page C m ts records i =
     bindR (read_page m i) (\<lambda>current.
     bindR (identity C current) (\<lambda>actual.
     bindR (certify_history C current actual None (None, False) (change_history ts records i)) (\<lambda>(start, recognized).
     bindR (ensure recognized (SeInvalidFormat ''disk allocation is outside retained transition lineage'')) (\<lambda>_.
     Inr start))))"

fun certify_pages :: "crc \<Rightarrow> page_manager \<Rightarrow> transactions \<Rightarrow> wal_record list \<Rightarrow> PageId list \<Rightarrow> (PageId \<rightharpoonup> Lsn)
    \<Rightarrow> (storage_error, PageId \<rightharpoonup> Lsn) res" where
  "certify_pages C m ts records [] starts = Inr starts"
| "certify_pages C m ts records (i # is) starts =
     bindR (certify_page C m ts records i) (\<lambda>start.
     certify_pages C m ts records is (case start of Some lsn \<Rightarrow> starts(i \<mapsto> lsn) | None \<Rightarrow> starts))"

definition transition_redo_starts :: "crc \<Rightarrow> page_manager \<Rightarrow> wal_record list \<Rightarrow> transactions
    \<Rightarrow> (recovery_error, PageId \<rightharpoonup> Lsn) res" where
  "transition_redo_starts C m records ts =
     storage_res (certify_pages C m ts records (transitioned_pages ts records) Map.empty)"

section \<open>Redo and undo of one record\<close>

definition install_page :: "page \<Rightarrow> page_manager \<Rightarrow> (recovery_error, bool) res \<times> page_manager" where
  "install_page page m = (case write_page page m of (Inl e, m) \<Rightarrow> (Inl (RcStorage e), m) | (Inr _, m) \<Rightarrow> (Inr True, m))"

text \<open>The page LSN the redo decision rests on: none for a page that is new or was never written.\<close>

definition current_page_lsn :: "crc \<Rightarrow> PageId \<Rightarrow> PageGeneration option \<Rightarrow> page_manager
    \<Rightarrow> (recovery_error, Lsn option) res \<times> page_manager" where
  "current_page_lsn C i generation m =
     (if i = pm_count m then
        (case allocate_page m of (Inl e, m) \<Rightarrow> (Inl (RcStorage e), m) | (Inr _, m) \<Rightarrow> (Inr None, m))
      else
        (storage_res (bindR (read_page m i) (\<lambda>current.
           if all_zero_bytes (page_bytes current) then Inr None
           else bindR (validate_allocation C current generation) (\<lambda>_. page_lsn C current))), m))"

definition redo_update :: "crc \<Rightarrow> PageId \<Rightarrow> byte list \<Rightarrow> Lsn \<Rightarrow> page_manager \<Rightarrow> (recovery_error, bool) res \<times> page_manager" where
  "redo_update C i after lsn m =
     (case storage_res (allocation_generation C (page_at i after)) of
        Inl e \<Rightarrow> (Inl e, m)
      | Inr generation \<Rightarrow>
          (case current_page_lsn C i generation m of
             (Inl e, m) \<Rightarrow> (Inl e, m)
           | (Inr current_lsn, m) \<Rightarrow>
               if (case current_lsn of Some l \<Rightarrow> l \<ge> lsn | None \<Rightarrow> False) then (Inr False, m)
               else install_page (page_at i after) m))"

definition redo_transition :: "crc \<Rightarrow> PageId \<Rightarrow> byte list \<Rightarrow> byte list \<Rightarrow> Lsn \<Rightarrow> page_manager
    \<Rightarrow> (recovery_error, bool) res \<times> page_manager" where
  "redo_transition C i before after lsn m =
     (case storage_res (bindR (read_page m i) (\<lambda>current. redo C current (page_at i before) (page_at i after) lsn)) of
        Inl e \<Rightarrow> (Inl e, m)
      | Inr needed \<Rightarrow> if needed then install_page (page_at i after) m else (Inr False, m))"

definition redo_record :: "crc \<Rightarrow> transactions \<Rightarrow> (PageId \<rightharpoonup> Lsn) \<Rightarrow> wal_record \<Rightarrow> page_manager
    \<Rightarrow> (recovery_error, bool) res \<times> page_manager" where
  "redo_record C ts starts r m =
     (if rolled_back_in ts (rec_txn_id r) then (Inr False, m)
      else case page_change (rec_kind r) of
        None \<Rightarrow> (Inr False, m)
      | Some (i, before, after) \<Rightarrow>
          if (case starts i of Some start \<Rightarrow> rec_lsn r < start | None \<Rightarrow> False) then (Inr False, m)
          else case bindR (reject_metadata_page i (rec_lsn r)) (\<lambda>_. ensure (\<not> i > pm_count m) (PageGap i (pm_count m))) of
            Inl e \<Rightarrow> (Inl e, m)
          | Inr _ \<Rightarrow>
              if is_transition (rec_kind r) then redo_transition C i before after (rec_lsn r) m
              else redo_update C i after (rec_lsn r) m)"

fun redo_records :: "crc \<Rightarrow> transactions \<Rightarrow> (PageId \<rightharpoonup> Lsn) \<Rightarrow> wal_record list \<Rightarrow> usize \<Rightarrow> page_manager
    \<Rightarrow> (recovery_error, usize) res \<times> page_manager" where
  "redo_records C ts starts [] n m = (Inr n, m)"
| "redo_records C ts starts (r # rs) n m =
     (case redo_record C ts starts r m of
        (Inl e, m) \<Rightarrow> (Inl e, m)
      | (Inr changed, m) \<Rightarrow> redo_records C ts starts rs (if changed then n + 1 else n) m)"

definition undo_transition :: "crc \<Rightarrow> PageId \<Rightarrow> byte list \<Rightarrow> byte list \<Rightarrow> page_manager \<Rightarrow> (recovery_error, bool) res \<times> page_manager" where
  "undo_transition C i before after m =
     (case storage_res (bindR (read_page m i) (\<lambda>current. undo C current (page_at i before) (page_at i after))) of
        Inl e \<Rightarrow> (Inl e, m)
      | Inr needed \<Rightarrow> if needed then install_page (page_at i before) m else (Inr False, m))"

text \<open>What is checked of the page on disk before an ordinary update is undone.\<close>

definition check_undo_page :: "crc \<Rightarrow> PageId \<Rightarrow> byte list \<Rightarrow> page_manager \<Rightarrow> (storage_error, unit) res" where
  "check_undo_page C i after m =
     (if i < pm_count m then
        bindR (read_page m i) (\<lambda>current.
        if all_zero_bytes (page_bytes current) then Inr ()
        else bindR (allocation_generation C (page_at i after)) (\<lambda>generation. validate_allocation C current generation))
      else Inr ())"

definition undo_update :: "crc \<Rightarrow> Lsn \<Rightarrow> PageId \<Rightarrow> byte list \<Rightarrow> byte list \<Rightarrow> page_manager
    \<Rightarrow> (recovery_error, bool) res \<times> page_manager" where
  "undo_update C lsn i before after m =
     (case bindR (reject_metadata_page i lsn) (\<lambda>_.
           storage_res (bindR (check_undo_page C i after m) (\<lambda>_. validate_before_image C i before))) of
        Inl e \<Rightarrow> (Inl e, m)
      | Inr NewPage \<Rightarrow>
          if i > pm_count m then (Inl (PageGap i (pm_count m)), m)
          else (case remove_trailing_page i m of (Inl e, m) \<Rightarrow> (Inl (RcStorage e), m) | (Inr removed, m) \<Rightarrow> (Inr removed, m))
      | Inr (Existing before_page) \<Rightarrow>
          if i \<ge> pm_count m then (Inl (PageGap i (pm_count m)), m) else install_page before_page m)"

definition undo_record :: "crc \<Rightarrow> wal_record \<Rightarrow> page_manager \<Rightarrow> (recovery_error, bool) res \<times> page_manager" where
  "undo_record C r m =
     (case rec_kind r of
        PageAllocationTransition i before after \<Rightarrow> undo_transition C i before after m
      | PageUpdate i before after \<Rightarrow> undo_update C (rec_lsn r) i before after m
      | _ \<Rightarrow> (Inr False, m))"

definition undo_counted :: "crc \<Rightarrow> wal_record \<Rightarrow> usize \<times> page_manager \<Rightarrow> (recovery_error, unit) res \<times> usize \<times> page_manager" where
  "undo_counted C r s =
     (case undo_record C r (snd s) of
        (Inl e, m) \<Rightarrow> (Inl e, fst s, m)
      | (Inr changed, m) \<Rightarrow> (Inr (), (if changed then fst s + 1 else fst s), m))"

section \<open>The log during recovery\<close>

text \<open>The log and the answers of the operating system to the appends and flushes to come.\<close>

record recovery_log =
  rl_wal :: wal_manager
  rl_appends :: "wal_append_io list"
  rl_flushes :: "(bool \<times> bool) list"

definition log_append :: "crc \<Rightarrow> TxnId \<Rightarrow> Lsn option \<Rightarrow> wal_record_kind \<Rightarrow> recovery_log \<Rightarrow> (recovery_error, Lsn) res \<times> recovery_log" where
  "log_append C t prev kind l =
     (let io = (case rl_appends l of [] \<Rightarrow> WalAppendDone | io # _ \<Rightarrow> io);
          (r, w) = wal_append C io t prev kind (rl_wal l)
      in (wal_res r, l\<lparr>rl_wal := w, rl_appends := tl (rl_appends l)\<rparr>))"

definition log_flush :: "Lsn \<Rightarrow> recovery_log \<Rightarrow> (recovery_error, unit) res \<times> recovery_log" where
  "log_flush lsn l =
     (let (verified, synced) = (case rl_flushes l of [] \<Rightarrow> (True, True) | io # _ \<Rightarrow> io);
          (r, w) = flush_through verified synced lsn (rl_wal l)
      in (wal_res r, l\<lparr>rl_wal := w, rl_flushes := tl (rl_flushes l)\<rparr>))"

definition flush_last :: "Lsn option \<Rightarrow> recovery_log \<Rightarrow> (recovery_error, unit) res \<times> recovery_log" where
  "flush_last lsn l = (case lsn of Some lsn \<Rightarrow> log_flush lsn l | None \<Rightarrow> (Inr (), l))"

section \<open>Prepared transactions\<close>

fun index_resolutions :: "prepared_txn_resolution list \<Rightarrow> (TxnId \<times> prepared_txn_resolution) list
    \<Rightarrow> (recovery_error, (TxnId \<times> prepared_txn_resolution) list) res" where
  "index_resolutions [] acc = Inr acc"
| "index_resolutions (x # xs) acc =
     bindR (ensure (map_of acc (res_physical_txn_id x) = None) (DuplicatePreparedResolution (res_physical_txn_id x))) (\<lambda>_.
     index_resolutions xs (acc @ [(res_physical_txn_id x, x)]))"

definition resolve_one :: "TxnId \<Rightarrow> transaction_analysis \<Rightarrow> (TxnId \<times> prepared_txn_resolution) list
    \<Rightarrow> (recovery_error, (TxnId \<times> prepared_txn_resolution) list \<times> (Lsn \<times> TxnId) list) res" where
  "resolve_one t a by_physical =
     (case ta_prepared a of
        None \<Rightarrow> Inr (by_physical, [])
      | Some db \<Rightarrow>
          (let terminal = (if ta_committed a then Some StCommitted else if ta_rolled_back a then Some StRolledBack else None)
           in case map_of by_physical t of
                None \<Rightarrow>
                  bindR (ensure (terminal \<noteq> None) (PreparedTransactionRequiresResolution db t)) (\<lambda>_. Inr (by_physical, []))
              | Some x \<Rightarrow>
                  bindR (ensure (res_database_txn_id x = db) (PreparedResolutionMismatch t db (res_database_txn_id x))) (\<lambda>_.
                  let rest = AList.delete t by_physical
                  in case terminal of
                       Some state \<Rightarrow>
                         bindR (ensure ((state, res_decision x) = (StCommitted, DecideCommit) \<or>
                                        (state, res_decision x) = (StRolledBack, DecideAbort))
                                  (PreparedResolutionConflictsWithTerminalState db t state (res_decision x))) (\<lambda>_.
                         Inr (rest, []))
                     | None \<Rightarrow>
                         if res_decision x = DecideCommit then
                           bindR (ensure (\<not> ta_aborting a) (PreparedCommitAfterAbort db t)) (\<lambda>_.
                           Inr (rest, [(ta_last_lsn a, t)]))
                         else Inr (rest, []))))"

fun resolve_all :: "transactions \<Rightarrow> (TxnId \<times> prepared_txn_resolution) list \<Rightarrow> (Lsn \<times> TxnId) list
    \<Rightarrow> (recovery_error, (Lsn \<times> TxnId) list) res" where
  "resolve_all [] by_physical commits =
     (case by_physical of
        [] \<Rightarrow> Inr commits
      | (_, x) # _ \<Rightarrow> Inl (UnknownPreparedResolution (res_database_txn_id x) (res_physical_txn_id x)))"
| "resolve_all ((t, a) # ts) by_physical commits =
     bindR (resolve_one t a by_physical) (\<lambda>(by_physical, new). resolve_all ts by_physical (commits @ new))"

fun append_commits :: "crc \<Rightarrow> (Lsn \<times> TxnId) list \<Rightarrow> transactions \<Rightarrow> Lsn option \<Rightarrow> recovery_log
    \<Rightarrow> (recovery_error, transactions \<times> Lsn option) res \<times> recovery_log" where
  "append_commits C [] ts last_commit l = (Inr (ts, last_commit), l)"
| "append_commits C ((previous, t) # rest) ts last_commit l =
     (case log_append C t (Some previous) Commit l of
        (Inl e, l) \<Rightarrow> (Inl e, l)
      | (Inr lsn, l) \<Rightarrow>
          append_commits C rest (AList.map_entry t (\<lambda>a. a\<lparr>ta_last_lsn := lsn, ta_committed := True\<rparr>) ts) (Some lsn) l)"

definition apply_prepared_resolutions :: "crc \<Rightarrow> transactions \<Rightarrow> prepared_txn_resolution list option \<Rightarrow> recovery_log
    \<Rightarrow> (recovery_error, transactions) res \<times> recovery_log" where
  "apply_prepared_resolutions C ts resolutions l =
     (case bindR (index_resolutions (case resolutions of Some xs \<Rightarrow> xs | None \<Rightarrow> []) []) (\<lambda>by_physical. resolve_all ts by_physical []) of
        Inl e \<Rightarrow> (Inl e, l)
      | Inr commits \<Rightarrow>
          (case append_commits C (sort commits) ts None l of
             (Inl e, l) \<Rightarrow> (Inl e, l)
           | (Inr (ts, last_commit), l) \<Rightarrow>
               (case flush_last last_commit l of (Inl e, l) \<Rightarrow> (Inl e, l) | (Inr _, l) \<Rightarrow> (Inr ts, l))))"

section \<open>Completion and the whole\<close>

fun complete_losers :: "crc \<Rightarrow> wal_record list \<Rightarrow> (TxnId \<times> Lsn) list \<Rightarrow> Lsn option \<Rightarrow> recovery_log
    \<Rightarrow> (recovery_error, Lsn option) res \<times> recovery_log" where
  "complete_losers C records [] completion l = (Inr completion, l)"
| "complete_losers C records ((t, final) # losers) completion l =
     (case record_by_lsn records final of
        None \<Rightarrow> (Inl (MissingRecord t final), l)
      | Some r \<Rightarrow>
          (case (if rec_kind r = Abort then (Inr final, l) else log_append C t (Some final) Abort l) of
             (Inl e, l) \<Rightarrow> (Inl e, l)
           | (Inr abort_lsn, l) \<Rightarrow>
               (case log_append C t (Some abort_lsn) RollbackComplete l of
                  (Inl e, l) \<Rightarrow> (Inl e, l)
                | (Inr lsn, l) \<Rightarrow> complete_losers C records losers (Some lsn) l)))"

text \<open>The checks of \<open>recover_inner\<close> between the resolution of prepared transactions and the first page change.\<close>

definition validate_recovery :: "crc \<Rightarrow> wal_record list \<Rightarrow> transactions \<Rightarrow> page_manager
    \<Rightarrow> (recovery_error, PageId \<rightharpoonup> Lsn) res option" where
  "validate_recovery C records ts m =
     (case validate_no_winner_depends_on_loser records ts of
        Inl e \<Rightarrow> Some (Inl e)
      | Inr _ \<Rightarrow>
          Option.bind (validate_page_topology records ts (losers_of ts) (pm_count m)) (\<lambda>topology.
          Some (bindR topology (\<lambda>_. transition_redo_starts C m records ts))))"

text \<open>The page changes of \<open>recover_inner\<close>: redo, undo and the barrier, with the numbers of pages changed.\<close>

definition repair_pages :: "crc \<Rightarrow> wal_record list \<Rightarrow> transactions \<Rightarrow> (PageId \<rightharpoonup> Lsn) \<Rightarrow> page_manager
    \<Rightarrow> ((recovery_error, usize \<times> usize) res \<times> page_manager) option" where
  "repair_pages C records ts starts m =
     (case redo_records C ts starts records 0 m of
        (Inl e, m) \<Rightarrow> Some (Inl e, m)
      | (Inr redone, m) \<Rightarrow>
          Option.bind (undo_walk (undo_counted C) records (undo_heap_of (losers_of ts)) (0, m)) (\<lambda>(undone, n, m).
          Some (case undone of
                  Inl e \<Rightarrow> (Inl e, m)
                | Inr _ \<Rightarrow> (case pm_sync m of (Inl e, m) \<Rightarrow> (Inl (RcStorage e), m) | (Inr _, m) \<Rightarrow> (Inr (redone, n), m)))))"

definition finish_recovery :: "crc \<Rightarrow> wal_record list \<Rightarrow> transactions \<Rightarrow> recovery_log \<Rightarrow> (recovery_error, unit) res \<times> recovery_log" where
  "finish_recovery C records ts l =
     (case complete_losers C records (losers_of ts) None l of
        (Inl e, l) \<Rightarrow> (Inl e, l)
      | (Inr completion, l) \<Rightarrow> flush_last completion l)"

definition recover_inner :: "crc \<Rightarrow> page_manager \<Rightarrow> recovery_log \<Rightarrow> wal_record list \<Rightarrow> bool \<Rightarrow> prepared_txn_resolution list option
    \<Rightarrow> ((recovery_error, recovery_report) res \<times> page_manager \<times> recovery_log) option" where
  "recover_inner C m l records truncated resolutions =
     (case apply_prepared_resolutions C (analyze records) resolutions l of
        (Inl e, l) \<Rightarrow> Some (Inl e, m, l)
      | (Inr ts, l) \<Rightarrow>
          Option.bind (validate_recovery C records ts m) (\<lambda>validated.
          case validated of
            Inl e \<Rightarrow> Some (Inl e, m, l)
          | Inr starts \<Rightarrow>
              (case flush_last (last_lsn records) l of
                 (Inl e, l) \<Rightarrow> Some (Inl e, m, l)
               | (Inr _, l) \<Rightarrow>
                   Option.bind (repair_pages C records ts starts m) (\<lambda>(repaired, m).
                   case repaired of
                     Inl e \<Rightarrow> Some (Inl e, m, l)
                   | Inr (redone, undone) \<Rightarrow>
                       (case finish_recovery C records ts l of
                          (Inl e, l) \<Rightarrow> Some (Inl e, m, l)
                        | (Inr _, l) \<Rightarrow>
                            Some (Inr \<lparr>rr_records_scanned = length records,
                                       rr_committed_transactions = length (filter (\<lambda>(_, a). ta_committed a) ts),
                                       rr_undone_transactions = length (losers_of ts),
                                       rr_pages_redone = redone, rr_pages_undone = undone,
                                       rr_truncated_wal_tail = truncated\<rparr>, m, l))))))"

end
