(* ===== verification/Buffer.thy ===== *)
theory Buffer
  imports Recovery
begin

text \<open>
  \<open>crates/netbadb-heap/src/buffer.rs\<close>: the buffer pool, a bounded set of page frames with pins, exclusive
  write access and eviction, over the page file and the write-ahead log. \<open>Rc\<close> and \<open>RefCell\<close> are state
  passing; a guard that goes out of scope is the release operation it runs.
\<close>

section \<open>State\<close>

record buffer_frame =
  bf_page_id :: PageId
  bf_page :: page
  bf_pin_count :: u32
  bf_writer :: bool
  bf_dirty :: bool

record buffer_state =
  bs_disk :: page_manager
  bs_frames :: "buffer_frame list"
  bs_capacity :: usize
  bs_next_victim :: usize
  bs_reuse_inventory_invalid :: bool
  bs_wal :: "recovery_log option"

text \<open>The \<open>?\<close> operator on a result with a state.\<close>

fun bindS :: "('e, 'a) res \<times> 's \<Rightarrow> ('a \<Rightarrow> 's \<Rightarrow> ('e, 'b) res \<times> 's) \<Rightarrow> ('e, 'b) res \<times> 's" where
  "bindS (Inl e, s) f = (Inl e, s)"
| "bindS (Inr x, s) f = f x s"

definition on_disk :: "('a \<times> page_manager) \<Rightarrow> buffer_state \<Rightarrow> 'a \<times> buffer_state" where
  "on_disk rm s = (fst rm, s\<lparr>bs_disk := snd rm\<rparr>)"

abbreviation buf_err :: "buffer_error \<Rightarrow> (storage_error, 'a) res" where
  "buf_err e \<equiv> Inl (SeBuffer e)"

section \<open>Frames\<close>

definition remove_frame :: "usize \<Rightarrow> buffer_state \<Rightarrow> buffer_state" where
  "remove_frame index s =
     (let frames = take index (bs_frames s) @ drop (Suc index) (bs_frames s)
      in s\<lparr>bs_frames := frames, bs_next_victim := min (bs_next_victim s) (length frames - 1)\<rparr>)"

fun clean_suffix :: "u64 \<Rightarrow> buffer_frame list \<Rightarrow> (storage_error, unit) res" where
  "clean_suffix start [] = Inr ()"
| "clean_suffix start (f # fs) =
     (if bf_page_id f \<ge> start then
        if bf_pin_count f \<noteq> 0 \<or> bf_writer f then buf_err (BufPagePinned (bf_page_id f))
        else if bf_dirty f then buf_err (BufPageDirty (bf_page_id f))
        else clean_suffix start fs
      else clean_suffix start fs)"

definition ensure_clean_suffix :: "u64 \<Rightarrow> buffer_state \<Rightarrow> (storage_error, unit) res" where
  "ensure_clean_suffix start s = clean_suffix start (bs_frames s)"

fun frame_position :: "PageId \<Rightarrow> buffer_frame list \<Rightarrow> usize option" where
  "frame_position i [] = None"
| "frame_position i (f # fs) = (if bf_page_id f = i then Some 0 else map_option Suc (frame_position i fs))"

definition find_frame :: "PageId \<Rightarrow> buffer_state \<Rightarrow> usize option" where
  "find_frame i s = frame_position i (bs_frames s)"

definition update_frame :: "usize \<Rightarrow> (buffer_frame \<Rightarrow> buffer_frame) \<Rightarrow> buffer_state \<Rightarrow> buffer_state" where
  "update_frame index f s = s\<lparr>bs_frames := (bs_frames s)[index := f (bs_frames s ! index)]\<rparr>"

text \<open>\<open>flush_through\<close> of the shared log, with the answers of the operating system it carries.\<close>

definition wal_flush :: "Lsn \<Rightarrow> recovery_log \<Rightarrow> (storage_error, unit) res \<times> recovery_log" where
  "wal_flush lsn l =
     (let (verified, synced) = (case rl_flushes l of [] \<Rightarrow> (True, True) | io # _ \<Rightarrow> io);
          (r, w) = flush_through verified synced lsn (rl_wal l)
      in (map_err SeWal r, l\<lparr>rl_wal := w, rl_flushes := tl (rl_flushes l)\<rparr>))"

text \<open>The part of \<open>flush_frame\<close> that makes the log durable up to the page LSN of the frame.\<close>

definition flush_log_for :: "crc \<Rightarrow> buffer_frame \<Rightarrow> buffer_state \<Rightarrow> (storage_error, unit) res \<times> buffer_state" where
  "flush_log_for C f s =
     (if bf_page_id f = 0 then (Inr (), s)
      else case page_lsn C (bf_page f) of
        Inl e \<Rightarrow> (Inl e, s)
      | Inr None \<Rightarrow> (Inr (), s)
      | Inr (Some lsn) \<Rightarrow>
          (case bs_wal s of
             None \<Rightarrow> (buf_err (BufWalUnavailable (bf_page_id f) lsn), s)
           | Some w \<Rightarrow> (case wal_flush lsn w of (r, w) \<Rightarrow> (r, s\<lparr>bs_wal := Some w\<rparr>))))"

definition flush_frame :: "crc \<Rightarrow> usize \<Rightarrow> buffer_state \<Rightarrow> (storage_error, unit) res \<times> buffer_state" where
  "flush_frame C index s =
     (if index \<ge> length (bs_frames s) then (buf_err (BufExhausted (bs_capacity s)), s)
      else
        let f = bs_frames s ! index
        in if bf_writer f then (buf_err (BufPagePinned (bf_page_id f)), s)
           else if bf_dirty f then
             bindS (flush_log_for C f s) (\<lambda>_ s.
             bindS (on_disk (write_page (bf_page f) (bs_disk s)) s) (\<lambda>_ s.
             (Inr (), update_frame index (\<lambda>f. f\<lparr>bf_dirty := False\<rparr>) s)))
           else (Inr (), s))"

fun first_unpinned :: "buffer_frame list \<Rightarrow> usize \<Rightarrow> usize list \<Rightarrow> usize option" where
  "first_unpinned frames start [] = None"
| "first_unpinned frames start (offset # offsets) =
     (let index = (start + offset) mod length frames
      in if bf_pin_count (frames ! index) = 0 then Some index else first_unpinned frames start offsets)"

definition prepare_frame :: "crc \<Rightarrow> buffer_state \<Rightarrow> (storage_error, usize) res \<times> buffer_state" where
  "prepare_frame C s =
     (if length (bs_frames s) < bs_capacity s then (Inr (length (bs_frames s)), s)
      else case first_unpinned (bs_frames s) (bs_next_victim s) [0..<length (bs_frames s)] of
        None \<Rightarrow> (buf_err (BufExhausted (bs_capacity s)), s)
      | Some index \<Rightarrow>
          bindS (flush_frame C index s) (\<lambda>_ s.
          (Inr index, s\<lparr>bs_next_victim := (index + 1) mod length (bs_frames s)\<rparr>)))"

definition install_frame :: "usize \<Rightarrow> page \<Rightarrow> bool \<Rightarrow> buffer_state \<Rightarrow> buffer_state" where
  "install_frame index page writer s =
     (let f = \<lparr>bf_page_id = page_id page, bf_page = page, bf_pin_count = 1, bf_writer = writer, bf_dirty = False\<rparr>
      in s\<lparr>bs_frames := (if index = length (bs_frames s) then bs_frames s @ [f] else (bs_frames s)[index := f])\<rparr>)"

section \<open>Pinning\<close>

text \<open>What \<open>pin_read\<close> and \<open>pin_write\<close> do for a page that is not cached.\<close>

definition load_page :: "crc \<Rightarrow> PageId \<Rightarrow> bool \<Rightarrow> buffer_state \<Rightarrow> (storage_error, page) res \<times> buffer_state" where
  "load_page C i writer s =
     bindS (Page_Manager.read_page (bs_disk s) i, s) (\<lambda>page s.
     bindS (prepare_frame C s) (\<lambda>index s.
     (Inr page, install_frame index page writer s)))"

definition pin_read :: "crc \<Rightarrow> PageId \<Rightarrow> buffer_state \<Rightarrow> (storage_error, page) res \<times> buffer_state" where
  "pin_read C i s =
     (case find_frame i s of
        Some index \<Rightarrow>
          (let f = bs_frames s ! index
           in if bf_writer f then (buf_err (BufPagePinned i), s)
              else if bf_pin_count f = -1 then (buf_err (BufPinCountOverflow i), s)
              else (Inr (bf_page f), update_frame index (\<lambda>f. f\<lparr>bf_pin_count := bf_pin_count f + 1\<rparr>) s))
      | None \<Rightarrow> load_page C i False s)"

definition validate_btree_frame :: "crc \<Rightarrow> btree_page_ref \<Rightarrow> buffer_state \<Rightarrow> (storage_error, unit) res" where
  "validate_btree_frame C reference s =
     (case find_frame (ref_id reference) s of
        Some index \<Rightarrow>
          (let f = bs_frames s ! index
           in bindR (allocation_generation C (bf_page f)) (\<lambda>actual.
              bindR (ensure (\<not> (actual \<noteq> ref_gen reference \<and> bf_pin_count f \<noteq> 0)) (SeBuffer (BufPagePinned (bf_page_id f)))) (\<lambda>_.
              validate_allocation C (bf_page f) (ref_gen reference))))
      | None \<Rightarrow> Inr ())"

definition pin_write :: "crc \<Rightarrow> PageId \<Rightarrow> buffer_state \<Rightarrow> (storage_error, page) res \<times> buffer_state" where
  "pin_write C i s =
     (case find_frame i s of
        Some index \<Rightarrow>
          (let f = bs_frames s ! index
           in if bf_pin_count f \<noteq> 0 then (buf_err (BufPagePinned i), s)
              else (Inr (bf_page f), update_frame index (\<lambda>f. f\<lparr>bf_pin_count := 1, bf_writer := True\<rparr>) s))
      | None \<Rightarrow> load_page C i True s)"

definition buf_allocate_page :: "crc \<Rightarrow> buffer_state \<Rightarrow> (storage_error, page) res \<times> buffer_state" where
  "buf_allocate_page C s =
     bindS (prepare_frame C s) (\<lambda>index s.
     bindS (on_disk (Page_Manager.allocate_page (bs_disk s)) s) (\<lambda>page s.
     (Inr page, install_frame index page True s)))"

definition release_read :: "PageId \<Rightarrow> buffer_state \<Rightarrow> buffer_state" where
  "release_read i s =
     (case find_frame i s of
        Some index \<Rightarrow>
          update_frame index (\<lambda>f. if bf_pin_count f > 0 then f\<lparr>bf_pin_count := bf_pin_count f - 1\<rparr> else f) s
      | None \<Rightarrow> s)"

definition release_write :: "PageId \<Rightarrow> page \<Rightarrow> bool \<Rightarrow> buffer_state \<Rightarrow> buffer_state" where
  "release_write i page dirty s =
     (case find_frame i s of
        Some index \<Rightarrow>
          update_frame index (\<lambda>f. f\<lparr>bf_page := page\<lparr>page_id := i\<rparr>, bf_dirty := bf_dirty f \<or> dirty, bf_writer := False,
            bf_pin_count := (if bf_pin_count f > 0 then bf_pin_count f - 1 else bf_pin_count f)\<rparr>) s
      | None \<Rightarrow> s)"

section \<open>Flushing\<close>

definition flush_page :: "crc \<Rightarrow> PageId \<Rightarrow> buffer_state \<Rightarrow> (storage_error, unit) res \<times> buffer_state" where
  "flush_page C i s =
     (case find_frame i s of
        None \<Rightarrow> (buf_err (BufPageNotCached i), s)
      | Some index \<Rightarrow> bindS (flush_frame C index s) (\<lambda>_ s. on_disk (pm_sync (bs_disk s)) s))"

fun flush_frames :: "crc \<Rightarrow> usize list \<Rightarrow> buffer_state \<Rightarrow> (storage_error, unit) res \<times> buffer_state" where
  "flush_frames C [] s = (Inr (), s)"
| "flush_frames C (index # rest) s = bindS (flush_frame C index s) (\<lambda>_ s. flush_frames C rest s)"

definition flush_all :: "crc \<Rightarrow> buffer_state \<Rightarrow> (storage_error, unit) res \<times> buffer_state" where
  "flush_all C s =
     (case List.find bf_writer (bs_frames s) of
        Some f \<Rightarrow> (buf_err (BufPagePinned (bf_page_id f)), s)
      | None \<Rightarrow>
          bindS (flush_frames C [0..<length (bs_frames s)] s) (\<lambda>_ s. on_disk (pm_sync (bs_disk s)) s))"

section \<open>Rollback\<close>

text \<open>What \<open>undo_page_update\<close> checks of the present page.\<close>

definition check_current :: "crc \<Rightarrow> PageId \<Rightarrow> PageGeneration option \<Rightarrow> buffer_state \<Rightarrow> (storage_error, unit) res" where
  "check_current C i expected s =
     (if i < pm_count (bs_disk s) then
        bindR (case find_frame i s of
                 Some index \<Rightarrow>
                   (let f = bs_frames s ! index
                    in bindR (ensure (bf_pin_count f = 0) (SeBuffer (BufPagePinned i))) (\<lambda>_. Inr (bf_page f)))
               | None \<Rightarrow> Page_Manager.read_page (bs_disk s) i) (\<lambda>current.
        if list_ex (\<lambda>b. b \<noteq> 0) (page_bytes current) then validate_allocation C current expected else Inr ())
      else Inr ())"

text \<open>The frame that is to hold the restored page.\<close>

definition restore_frame :: "crc \<Rightarrow> page \<Rightarrow> buffer_state \<Rightarrow> (storage_error, usize) res \<times> buffer_state" where
  "restore_frame C page s =
     (case find_frame (page_id page) s of
        Some index \<Rightarrow>
          if bf_pin_count (bs_frames s ! index) \<noteq> 0 then (buf_err (BufPagePinned (page_id page)), s)
          else (Inr index, update_frame index (\<lambda>f. f\<lparr>bf_page := page, bf_dirty := True\<rparr>) s)
      | None \<Rightarrow>
          bindS (prepare_frame C s) (\<lambda>index s.
          (Inr index, update_frame index (\<lambda>f. f\<lparr>bf_pin_count := 0, bf_dirty := True\<rparr>) (install_frame index page False s))))"

definition remove_new_page :: "PageId \<Rightarrow> buffer_state \<Rightarrow> (storage_error, unit) res \<times> buffer_state" where
  "remove_new_page i s =
     (if i > pm_count (bs_disk s) then (Inr (), s)
      else if i = pm_count (bs_disk s) then
        bindS (on_disk (remove_trailing_page i (bs_disk s)) s) (\<lambda>_ s. on_disk (pm_sync (bs_disk s)) s)
      else
        bindS (case find_frame i s of
                 Some index \<Rightarrow>
                   if bf_pin_count (bs_frames s ! index) \<noteq> 0 then (buf_err (BufPagePinned i), s)
                   else (Inr (), remove_frame index s)
               | None \<Rightarrow> (Inr (), s)) (\<lambda>_ s.
        bindS (on_disk (remove_trailing_page i (bs_disk s)) s) (\<lambda>_ s. on_disk (pm_sync (bs_disk s)) s)))"

definition undo_page_update :: "crc \<Rightarrow> PageId \<Rightarrow> byte list \<Rightarrow> PageGeneration option \<Rightarrow> buffer_state
    \<Rightarrow> (storage_error, unit) res \<times> buffer_state" where
  "undo_page_update C i before expected s =
     (case bindR (check_current C i expected s) (\<lambda>_. validate_before_image C i before) of
        Inl e \<Rightarrow> (Inl e, s)
      | Inr (Existing page) \<Rightarrow>
          if i \<ge> pm_count (bs_disk s) then (Inl (SeInvalidFormat ''rollback page is outside the data file''), s)
          else
            bindS (restore_frame C page s) (\<lambda>index s.
            bindS (flush_frame C index s) (\<lambda>_ s. on_disk (pm_sync (bs_disk s)) s))
      | Inr NewPage \<Rightarrow> remove_new_page i s)"

section \<open>The pool\<close>

definition validate_capacity :: "usize \<Rightarrow> (storage_error, unit) res" where
  "validate_capacity capacity = ensure (capacity \<noteq> 0) (SeBuffer BufInvalidCapacity)"

definition pool_new :: "page_manager \<Rightarrow> usize \<Rightarrow> recovery_log option \<Rightarrow> (storage_error, buffer_state) res" where
  "pool_new m capacity wal =
     bindR (validate_capacity capacity) (\<lambda>_.
     Inr \<lparr>bs_disk = m, bs_frames = [], bs_capacity = capacity, bs_next_victim = 0, bs_reuse_inventory_invalid = True, bs_wal = wal\<rparr>)"

definition invalidate_suffix :: "u64 \<Rightarrow> buffer_state \<Rightarrow> (storage_error, unit) res \<times> buffer_state" where
  "invalidate_suffix start s =
     (case ensure_clean_suffix start s of
        Inl e \<Rightarrow> (Inl e, s)
      | Inr _ \<Rightarrow>
          (Inr (), fold (\<lambda>index s. if bf_page_id (bs_frames s ! index) \<ge> start then remove_frame index s else s)
             (rev [0..<length (bs_frames s)]) s))"

definition buf_truncate_to_page_count :: "u64 \<Rightarrow> u64 \<Rightarrow> buffer_state \<Rightarrow> (storage_error, unit) res \<times> buffer_state" where
  "buf_truncate_to_page_count old new s =
     (if list_ex (\<lambda>f. bf_page_id f \<ge> new) (bs_frames s)
      then (Inl (SeInvalidFormat ''tail frames remain before truncate''), s)
      else on_disk (Page_Manager.truncate_to_page_count old new (bs_disk s)) s)"

subsection \<open>Guards\<close>

record read_guard =
  rg_page_id :: PageId
  rg_page :: page

record write_guard =
  wg_page_id :: PageId
  wg_page :: page
  wg_dirty :: bool

definition buf_read_page :: "crc \<Rightarrow> PageId \<Rightarrow> buffer_state \<Rightarrow> (storage_error, read_guard) res \<times> buffer_state" where
  "buf_read_page C i s =
     bindS (pin_read C i s) (\<lambda>page s.
     (Inr \<lparr>rg_page_id = i, rg_page = page\<rparr>, s))"

definition buf_write_page :: "crc \<Rightarrow> PageId \<Rightarrow> buffer_state \<Rightarrow> (storage_error, write_guard) res \<times> buffer_state" where
  "buf_write_page C i s =
     bindS (pin_write C i s) (\<lambda>page s.
     (Inr \<lparr>wg_page_id = i, wg_page = page, wg_dirty = False\<rparr>, s))"

definition new_page :: "crc \<Rightarrow> buffer_state \<Rightarrow> (storage_error, write_guard) res \<times> buffer_state" where
  "new_page C s =
     bindS (buf_allocate_page C s) (\<lambda>page s.
     (Inr \<lparr>wg_page_id = page_id page, wg_page = page, wg_dirty = False\<rparr>, s))"

text \<open>\<open>page_mut\<close> hands out the page of the guard; what the caller writes through it is the argument.\<close>

definition page_mut :: "page \<Rightarrow> write_guard \<Rightarrow> write_guard" where
  "page_mut page g = g\<lparr>wg_page := page, wg_dirty := True\<rparr>"

definition drop_read :: "read_guard \<Rightarrow> buffer_state \<Rightarrow> buffer_state" where
  "drop_read g s = release_read (rg_page_id g) s"

definition drop_write :: "write_guard \<Rightarrow> buffer_state \<Rightarrow> buffer_state" where
  "drop_write g s = release_write (wg_page_id g) (wg_page g) (wg_dirty g) s"

text \<open>A guard whose page is not the expected allocation is dropped at once.\<close>

definition read_btree_page :: "crc \<Rightarrow> btree_page_ref \<Rightarrow> buffer_state \<Rightarrow> (storage_error, read_guard) res \<times> buffer_state" where
  "read_btree_page C reference s =
     bindS (validate_btree_frame C reference s, s) (\<lambda>_ s.
     bindS (buf_read_page C (ref_id reference) s) (\<lambda>guard s.
     case validate_allocation C (rg_page guard) (ref_gen reference) of
       Inl e \<Rightarrow> (Inl e, drop_read guard s)
     | Inr _ \<Rightarrow> (Inr guard, s)))"

definition write_btree_page :: "crc \<Rightarrow> btree_page_ref \<Rightarrow> buffer_state \<Rightarrow> (storage_error, write_guard) res \<times> buffer_state" where
  "write_btree_page C reference s =
     bindS (validate_btree_frame C reference s, s) (\<lambda>_ s.
     bindS (buf_write_page C (ref_id reference) s) (\<lambda>guard s.
     case validate_allocation C (wg_page guard) (ref_gen reference) of
       Inl e \<Rightarrow> (Inl e, drop_write guard s)
     | Inr _ \<Rightarrow> (Inr guard, s)))"

subsection \<open>Snapshots and transitions\<close>

definition ensure_unpinned :: "buffer_state \<Rightarrow> (storage_error, unit) res" where
  "ensure_unpinned s =
     (case List.find (\<lambda>f. bf_pin_count f \<noteq> 0) (bs_frames s) of
        Some f \<Rightarrow> buf_err (BufPagePinned (bf_page_id f))
      | None \<Rightarrow> Inr ())"

definition allocation_snapshot :: "PageId \<Rightarrow> buffer_state \<Rightarrow> (storage_error, page) res" where
  "allocation_snapshot i s =
     (case find_frame i s of
        Some index \<Rightarrow>
          if bf_pin_count (bs_frames s ! index) \<noteq> 0 then buf_err (BufPagePinned i) else Inr (bf_page (bs_frames s ! index))
      | None \<Rightarrow> Page_Manager.read_page (bs_disk s) i)"

definition reusable_page_snapshot :: "PageId \<Rightarrow> buffer_state \<Rightarrow> (storage_error, page option) res" where
  "reusable_page_snapshot i s =
     (if (case find_frame i s of
            Some index \<Rightarrow> (let f = bs_frames s ! index in bf_pin_count f \<noteq> 0 \<or> bf_writer f \<or> bf_dirty f)
          | None \<Rightarrow> False)
      then Inr None
      else bindR (Page_Manager.read_page (bs_disk s) i) (\<lambda>page. Inr (Some page)))"

definition maintenance_page_snapshot :: "PageId \<Rightarrow> buffer_state \<Rightarrow> (storage_error, page) res" where
  "maintenance_page_snapshot i s =
     bindR (case find_frame i s of
              Some index \<Rightarrow>
                (let f = bs_frames s ! index
                 in bindR (ensure (\<not> (bf_pin_count f \<noteq> 0 \<or> bf_writer f)) (SeBuffer (BufPagePinned i))) (\<lambda>_.
                    ensure (\<not> bf_dirty f) (SeBuffer (BufPageDirty i))))
            | None \<Rightarrow> Inr ()) (\<lambda>_.
     bindR (Page_Manager.read_page (bs_disk s) i) (\<lambda>disk.
     bindR (case find_frame i s of
              Some index \<Rightarrow> ensure (page_bytes (bf_page (bs_frames s ! index)) = page_bytes disk)
                              (SeInvalidFormat ''maintenance frame differs from disk'')
            | None \<Rightarrow> Inr ()) (\<lambda>_.
     Inr disk)))"

definition publish_page_transition :: "crc \<Rightarrow> page \<Rightarrow> page \<Rightarrow> buffer_state \<Rightarrow> (storage_error, unit) res \<times> buffer_state" where
  "publish_page_transition C before after s =
     bindS (bindR (validate_transition C before after) (\<lambda>_.
            bindR (reusable_page_snapshot (page_id before) s) (\<lambda>snapshot.
            bindR (ok_or (SeBuffer (BufPageDirty (page_id before))) snapshot) (\<lambda>current.
            ensure (page_bytes current = page_bytes before) (SeInvalidFormat ''transition candidate changed before publication'')))), s) (\<lambda>_ s.
     let s = (case find_frame (page_id before) s of Some index \<Rightarrow> remove_frame index s | None \<Rightarrow> s)
     in bindS (prepare_frame C s) (\<lambda>index s.
        (Inr (), update_frame index (\<lambda>f. f\<lparr>bf_pin_count := 0, bf_dirty := True\<rparr>) (install_frame index after False s))))"

definition undo_page_transition :: "crc \<Rightarrow> page \<Rightarrow> page \<Rightarrow> buffer_state \<Rightarrow> (storage_error, unit) res \<times> buffer_state" where
  "undo_page_transition C before after s =
     bindS (bindR (allocation_snapshot (page_id before) s) (\<lambda>current. undo C current before after), s) (\<lambda>needed s.
     if \<not> needed then (Inr (), s)
     else
       let s = (case find_frame (page_id before) s of Some index \<Rightarrow> remove_frame index s | None \<Rightarrow> s)
       in bindS (on_disk (write_page before (bs_disk s)) s) (\<lambda>_ s. on_disk (pm_sync (bs_disk s)) s))"

definition invalidate_reuse_inventory :: "buffer_state \<Rightarrow> buffer_state" where
  "invalidate_reuse_inventory s = s\<lparr>bs_reuse_inventory_invalid := True\<rparr>"

definition take_reuse_invalidation :: "buffer_state \<Rightarrow> bool \<times> buffer_state" where
  "take_reuse_invalidation s = (bs_reuse_inventory_invalid s, s\<lparr>bs_reuse_inventory_invalid := False\<rparr>)"

end
