(* ===== verification/Recovery_Correct.thy ===== *)
theory Recovery_Correct
  imports Recovery
begin

text \<open>
  Correctness of crash recovery: the undo loop ends and takes the losers' records backwards, and redo
  followed by undo leaves every page at the image of its last committed record.
\<close>


section \<open>The order of undo\<close>

text \<open>
  What recovery uses of a log that a scan has accepted: increasing LSNs, backward chains, and page
  images that passed validation.
\<close>

definition chained :: "wal_record list \<Rightarrow> bool" where
  "chained rs \<longleftrightarrow> sorted_wrt (<) (map rec_lsn rs) \<and>
     (\<forall>pre r post. rs = pre @ r # post \<longrightarrow> rec_prev_lsn r = sc_last (scanned pre) (rec_txn_id r))"

lemma accepted_chained:
  assumes "log_accepted C h rs"
  shows "chained rs"
proof -
  have acc: "accepts C (wh_base_lsn h) 48 empty_scan rs" using assms by (simp add: log_accepted_def)
  have "48 + sum_list (map record_len rs) \<le> USIZE_MAX"
    using assms log_accepted_len[OF assms] by (simp add: log_accepted_def)
  then have "sorted_wrt (<) (map rec_lsn rs)" by (rule accepts_sorted[OF acc])
  moreover have "rec_prev_lsn r = sc_last (scanned pre) (rec_txn_id r)" if "rs = pre @ r # post" for pre r post
    using acc that by (simp add: accepts_append accepted_def)
  ultimately show ?thesis by (simp add: chained_def)
qed

lemma chained_prefix: "chained (pre @ post) \<Longrightarrow> chained pre"
  by (fastforce simp: chained_def sorted_wrt_append)

text \<open>The heap when the records of \<open>pre\<close> are still to be undone for the transactions \<open>T\<close>.\<close>

definition chain_ends :: "TxnId set \<Rightarrow> wal_record list \<Rightarrow> (u64 \<times> u64) set" where
  "chain_ends T pre = {(l, t). t \<in> T \<and> sc_last (scanned pre) t = Some l}"

lemma sc_last_snoc:
  "sc_last (scanned (pre @ [r])) = (sc_last (scanned pre))(rec_txn_id r \<mapsto> rec_lsn r)"
  by (simp add: push_record_def)

lemma sc_last_in: "sc_last (scanned pre) t = Some l \<Longrightarrow> \<exists>r \<in> set pre. rec_lsn r = l \<and> rec_txn_id r = t"
proof (induction pre rule: rev_induct)
  case Nil
  then show ?case by (simp add: empty_scan_def)
next
  case (snoc r pre)
  then show ?case unfolding sc_last_snoc by (auto split: if_splits)
qed

lemma finite_chain_ends [simp]: "finite (chain_ends T pre)"
proof (rule finite_subset)
  show "chain_ends T pre \<subseteq> (\<lambda>r. (rec_lsn r, rec_txn_id r)) ` set pre"
    using sc_last_in by (fastforce simp: chain_ends_def)
qed simp

lemma chain_ends_snoc:
  "chain_ends T (pre @ [r]) =
     (if rec_txn_id r \<in> T then insert (rec_lsn r, rec_txn_id r) {(l, t) \<in> chain_ends T pre. t \<noteq> rec_txn_id r}
      else chain_ends T pre)"
  unfolding chain_ends_def sc_last_snoc by auto

lemma chain_ends_below:
  assumes "chained (pre @ [r])" "x \<in> chain_ends T pre"
  shows "fst x < rec_lsn r"
  using assms sc_last_in by (fastforce simp: chain_ends_def chained_def sorted_wrt_append)

lemma sorted_list_insert_max:
  assumes "finite A" "\<And>y. y \<in> A \<Longrightarrow> y < x"
  shows "sorted_list_of_set (insert x A) = sorted_list_of_set A @ [x]"
proof -
  have "sorted (sorted_list_of_set A @ [x])" using assms by (auto simp: sorted_append less_imp_le)
  moreover have "distinct (sorted_list_of_set A @ [x])" using assms by auto
  moreover have "set (sorted_list_of_set A @ [x]) = insert x A" using assms(1) by simp
  ultimately show ?thesis using sorted_list_of_set.idem_if_sorted_distinct by metis
qed

text \<open>Following the chains visits the records of the losers from the end of the log to its beginning.\<close>

fun undo_list :: "(wal_record \<Rightarrow> 's \<Rightarrow> (recovery_error, unit) res \<times> 's) \<Rightarrow> wal_record list \<Rightarrow> 's \<Rightarrow> (recovery_error, unit) res \<times> 's" where
  "undo_list step [] s = (Inr (), s)"
| "undo_list step (r # rs) s = (case step r s of (Inl e, s) \<Rightarrow> (Inl e, s) | (Inr _, s) \<Rightarrow> undo_list step rs s)"

lemma find_append: "List.find P (xs @ ys) = (case List.find P xs of None \<Rightarrow> List.find P ys | Some x \<Rightarrow> Some x)"
  by (induction xs) simp_all

lemma record_by_lsn_split:
  assumes "chained (pre @ r # post)"
  shows "record_by_lsn (pre @ r # post) (rec_lsn r) = Some r"
proof -
  have "\<forall>q \<in> set post. rec_lsn q \<noteq> rec_lsn r" using assms by (auto simp: chained_def sorted_wrt_append)
  then have "List.find (\<lambda>q. rec_lsn q = rec_lsn r) (rev post) = None" by (auto simp: find_None_iff)
  then show ?thesis by (simp add: record_by_lsn_def find_append)
qed

lemma undo_walk_reverse:
  assumes "chained (pre @ post)"
  shows "undo_walk step (pre @ post) (sorted_list_of_set (chain_ends T pre)) s =
    Some (undo_list step (rev (filter (\<lambda>r. rec_txn_id r \<in> T) pre)) s)"
  using assms
proof (induction pre arbitrary: post s rule: rev_induct)
  case Nil
  have "chain_ends T [] = {}" by (simp add: chain_ends_def empty_scan_def)
  then show ?case by (simp add: undo_walk.simps[of step post "[]" s])
next
  case (snoc r pre)
  show ?case
  proof (cases "rec_txn_id r \<in> T")
    case False
    then show ?thesis using snoc.IH[of "r # post" s] snoc.prems by (simp add: chain_ends_snoc)
  next
    case True
    let ?x = "(rec_lsn r, rec_txn_id r)" and ?rest = "{(l, t) \<in> chain_ends T pre. t \<noteq> rec_txn_id r}"
    have ch: "chained (pre @ r # post)" "chained (pre @ [r])" using snoc.prems chained_prefix[of "pre @ [r]" post] by simp_all
    have fin: "finite ?rest" by (rule finite_subset[OF _ finite_chain_ends[of T pre]]) auto
    have below: "y < ?x" if "y \<in> ?rest" for y
      using chain_ends_below[OF ch(2)] that by (auto simp: less_prod_def')
    have heap: "sorted_list_of_set (chain_ends T (pre @ [r])) = sorted_list_of_set ?rest @ [?x]"
      using sorted_list_insert_max[OF fin below] True by (simp add: chain_ends_snoc)
    have target: "undo_target (pre @ r # post) ?x = Inr r"
      using record_by_lsn_split[OF ch(1)] by (simp add: undo_target_def)
    have prev: "rec_prev_lsn r = sc_last (scanned pre) (rec_txn_id r)" using ch(1) by (simp add: chained_def)
    have push: "push_previous r (sorted_list_of_set ?rest) = sorted_list_of_set (chain_ends T pre)"
    proof (cases "rec_prev_lsn r")
      case None
      then have "?rest = chain_ends T pre" using prev by (auto simp: chain_ends_def)
      then show ?thesis using None by (simp add: push_previous_def)
    next
      case (Some p)
      then have "chain_ends T pre = insert (p, rec_txn_id r) ?rest" and notin: "(p, rec_txn_id r) \<notin> ?rest"
        using prev True by (auto simp: chain_ends_def)
      then have "sorted_list_of_set (chain_ends T pre) = sorted_list_of_set (insert (p, rec_txn_id r) ?rest)" by simp
      also have "\<dots> = insort (p, rec_txn_id r) (sorted_list_of_set ?rest)"
        by (rule sorted_list_of_set.fold_insort_key.insert[OF fin notin])
      finally show ?thesis using Some by (simp add: push_previous_def)
    qed
    show ?thesis
      using snoc.IH[of "r # post"] ch(1) True heap target push
      by (simp add: undo_walk.simps[of step "pre @ r # post" "sorted_list_of_set ?rest @ [?x]" s] split: prod.splits sum.splits)
  qed
qed


section \<open>Analysis\<close>

definition loser_set :: "transactions \<Rightarrow> TxnId set" where
  "loser_set ts = {t. \<exists>a. map_of ts t = Some a \<and> \<not> ta_committed a \<and> \<not> ta_rolled_back a}"

text \<open>The table of transactions knows the last record of each one that has not committed.\<close>

definition analyzed :: "wal_record list \<Rightarrow> transactions \<Rightarrow> bool" where
  "analyzed records ts \<longleftrightarrow> distinct (map fst ts) \<and>
     (\<forall>t a. map_of ts t = Some a \<and> \<not> ta_committed a \<longrightarrow> sc_last (scanned records) t = Some (ta_last_lsn a))"

lemma analyze_last:
  "distinct (map fst (analyze rs)) \<and> (\<forall>t. map_option ta_last_lsn (map_of (analyze rs) t) = sc_last (scanned rs) t)"
proof (induction rs rule: rev_induct)
  case Nil
  then show ?case by (simp add: analyze_def empty_scan_def)
next
  case (snoc r rs)
  have "analyze (rs @ [r]) = analyze_record r (analyze rs)" by (simp add: analyze_def)
  then show ?case
    using snoc unfolding sc_last_snoc
    by (auto simp: analyze_record_def Let_def update_conv' distinct_update split: wal_record_kind.splits option.splits)
qed

lemma analyzed_analyze: "analyzed rs (analyze rs)"
proof -
  have "sc_last (scanned rs) t = Some (ta_last_lsn a)" if "map_of (analyze rs) t = Some a" for t a
    using analyze_last[of rs] that by (metis option.simps(9))
  then show ?thesis using analyze_last[of rs] by (simp add: analyzed_def)
qed

lemma analyzed_commit: "analyzed rs ts \<Longrightarrow> analyzed rs (AList.map_entry t (\<lambda>a. a\<lparr>ta_last_lsn := l, ta_committed := True\<rparr>) ts)"
  by (auto simp: analyzed_def map_of_map_entry distinct_map_entry simp del: map_of_eq_Some_iff split: if_splits option.splits)

lemma append_commits_analyzed:
  assumes "append_commits C cs ts done l = (Inr (ts', done'), l')" "analyzed rs ts"
  shows "analyzed rs ts'"
  using assms
proof (induction C cs ts "done" l rule: append_commits.induct)
  case (2 C previous t rest ts last_commit l)
  then show ?case using analyzed_commit by (auto split: prod.splits sum.splits)
qed simp

lemma resolutions_analyzed:
  assumes "apply_prepared_resolutions C ts resolutions l = (Inr ts', l')" "analyzed rs ts"
  shows "analyzed rs ts'"
  using assms append_commits_analyzed by (auto simp: apply_prepared_resolutions_def split: prod.splits sum.splits)

lemma fold_insort_pairs:
  "sorted h \<Longrightarrow> distinct (map (\<lambda>(t, l). (l, t)) xs @ h) \<Longrightarrow>
     sorted (fold (\<lambda>(t, l). insort (l, t)) xs h) \<and> distinct (fold (\<lambda>(t, l). insort (l, t)) xs h) \<and>
     set (fold (\<lambda>(t, l). insort (l, t)) xs h) = set (map (\<lambda>(t, l). (l, t)) xs @ h)"
proof (induction xs arbitrary: h)
  case (Cons x xs)
  obtain t l where x: "x = (t, l)" by (cases x)
  have "sorted (insort (l, t) h)" "distinct (map (\<lambda>(t, l). (l, t)) xs @ insort (l, t) h)"
    using Cons.prems x by (auto simp: sorted_insort distinct_insort set_insort_key)
  from Cons.IH[OF this] show ?case by (auto simp: x set_insort_key)
qed simp

lemma set_losers_of:
  assumes "distinct (map fst ts)"
  shows "set (losers_of ts) = {(t, l). t \<in> loser_set ts \<and> (\<exists>a. map_of ts t = Some a \<and> ta_last_lsn a = l)}"
proof (intro set_eqI iffI)
  fix x assume "x \<in> set (losers_of ts)"
  then show "x \<in> {(t, l). t \<in> loser_set ts \<and> (\<exists>a. map_of ts t = Some a \<and> ta_last_lsn a = l)}"
    using assms by (auto simp: losers_of_def loser_set_def)
next
  fix x assume "x \<in> {(t, l). t \<in> loser_set ts \<and> (\<exists>a. map_of ts t = Some a \<and> ta_last_lsn a = l)}"
  then obtain t a where "x = (t, ta_last_lsn a)" "map_of ts t = Some a" "\<not> ta_committed a \<and> \<not> ta_rolled_back a"
    by (auto simp: loser_set_def)
  then show "x \<in> set (losers_of ts)" using map_of_SomeD[of ts t a] by (force simp: losers_of_def)
qed

lemma distinct_losers_of:
  assumes "distinct (map fst ts)"
  shows "distinct (map fst (losers_of ts))"
proof -
  let ?ls = "map (\<lambda>(t, a). (t, ta_last_lsn a)) (filter (\<lambda>(_, a). \<not> ta_committed a \<and> \<not> ta_rolled_back a) ts)"
  have "map fst ?ls = map fst (filter (\<lambda>(_, a). \<not> ta_committed a \<and> \<not> ta_rolled_back a) ts)" by (simp add: split_def comp_def)
  then have "distinct (map fst ?ls)" using distinct_map_filter[OF assms] by (simp only:)
  then have "inj_on fst (set ?ls)" "distinct ?ls" by (simp_all only: distinct_map)
  then show ?thesis by (simp only: losers_of_def distinct_map set_sort distinct_sort simp_thms)
qed

lemma undo_heap_of_losers:
  assumes "analyzed records ts"
  shows "undo_heap_of (losers_of ts) = sorted_list_of_set (chain_ends (loser_set ts) records)"
proof -
  have d: "distinct (map fst ts)" using assms by (simp add: analyzed_def)
  have "distinct (map snd (map (\<lambda>(t, l). (l, t)) (losers_of ts)))"
    using distinct_losers_of[OF d] by (simp add: split_def comp_def)
  then have "distinct (map (\<lambda>(t, l). (l, t)) (losers_of ts))" by (simp only: distinct_map)
  then have heap: "sorted (undo_heap_of (losers_of ts))" "distinct (undo_heap_of (losers_of ts))"
    "set (undo_heap_of (losers_of ts)) = (\<lambda>(t, l). (l, t)) ` set (losers_of ts)"
    using fold_insort_pairs[of "[]" "losers_of ts"] by (simp_all add: undo_heap_of_def)
  have "sc_last (scanned records) t = Some (ta_last_lsn a)" if "t \<in> loser_set ts" "map_of ts t = Some a" for t a
    using assms that by (auto simp: analyzed_def loser_set_def simp del: map_of_eq_Some_iff)
  then have "(\<lambda>(t, l). (l, t)) ` set (losers_of ts) = chain_ends (loser_set ts) records"
    unfolding set_losers_of[OF d] by (force simp: chain_ends_def loser_set_def)
  then show ?thesis using heap sorted_list_of_set.idem_if_sorted_distinct by metis
qed

text \<open>The undo loop of a log that a scan has accepted ends, and takes the losers' records backwards.\<close>

lemma undo_walk_losers:
  assumes "chained records" "analyzed records ts"
  shows "undo_walk step records (undo_heap_of (losers_of ts)) s =
    Some (undo_list step (rev (filter (\<lambda>r. rec_txn_id r \<in> loser_set ts) records)) s)"
  using undo_walk_reverse[of records "[]"] assms undo_heap_of_losers by simp


section \<open>The versions of a page\<close>

definition before_image :: "wal_record \<Rightarrow> byte list" where
  "before_image r = (case page_change (rec_kind r) of Some (_, before, _) \<Rightarrow> before | None \<Rightarrow> [])"

definition after_image :: "wal_record \<Rightarrow> byte list" where
  "after_image r = (case page_change (rec_kind r) of Some (_, _, after) \<Rightarrow> after | None \<Rightarrow> [])"

text \<open>The images a page goes through: the one before its first record, and one after each record.\<close>

definition versions :: "byte list \<Rightarrow> wal_record list \<Rightarrow> byte list list" where
  "versions b H = b # map after_image H"

text \<open>The page shows its \<open>k\<close>-th version. A page that the log creates may be missing from the file before.\<close>

definition at_version :: "byte list \<Rightarrow> wal_record list \<Rightarrow> nat \<Rightarrow> byte list option \<Rightarrow> bool" where
  "at_version b H k v \<longleftrightarrow> k \<le> length H \<and> (v = Some (versions b H ! k) \<or> k = 0 \<and> all_zero_bytes b \<and> v = None)"

text \<open>
  The records of a page fit together: ordinary updates with validated images, in the order of their
  LSNs, each starting from the image its predecessor left.
\<close>

definition page_log :: "crc \<Rightarrow> PageId \<Rightarrow> byte list \<Rightarrow> wal_record list \<Rightarrow> bool" where
  "page_log C i b H \<longleftrightarrow> sorted_wrt (<) (map rec_lsn H) \<and>
     (\<forall>r \<in> set H. (\<exists>before after. rec_kind r = PageUpdate i before after) \<and> wf_kind (rec_kind r) \<and>
        validate_page_images C (rec_lsn r) (rec_kind r) = Inr ()) \<and>
     (\<forall>j < length H. before_image (H ! j) = versions b H ! j)"

lemma zero_image: "length b = 4096 \<Longrightarrow> all_zero_bytes b \<longleftrightarrow> b = replicate 4096 0"
  by (auto simp: all_zero_bytes_def list_all_iff intro: replicate_eqI)

lemma validate_allocation_Inr:
  "validate_allocation C p g = Inr u \<longleftrightarrow> allocation_generation C p = Inr g"
  by (auto simp: validate_allocation_def validate_btree_generation_def)

lemma update_images:
  assumes "validate_page_images C lsn (PageUpdate i before after) = Inr ()"
  shows "page_lsn C (page_at i after) = Inr (Some lsn)" "\<exists>g. allocation_generation C (page_at i after) = Inr g"
    "\<not> all_zero_bytes after"
    "\<not> all_zero_bytes before \<Longrightarrow> \<exists>x. page_lsn C (page_at i before) = Inr x \<and> (\<forall>l. x = Some l \<longrightarrow> l < lsn)"
    "\<not> all_zero_bytes before \<Longrightarrow> allocation_generation C (page_at i before) = allocation_generation C (page_at i after)"
proof -
  have ex: "list_ex (\<lambda>b. b \<noteq> 0) before \<longleftrightarrow> \<not> all_zero_bytes before"
    by (simp add: all_zero_bytes_def list_ex_iff list_all_iff)
  show l: "page_lsn C (page_at i after) = Inr (Some lsn)" and "\<exists>g. allocation_generation C (page_at i after) = Inr g"
    using assms by (auto simp: validate_page_images_def validate_update_images_def image_err_def page_at_def Let_def)
  obtain h where "header C (page_at i after) = Inr h" using l by (auto simp: page_lsn_def)
  from valid_page_nonzero[OF this] show "\<not> all_zero_bytes after" by (simp add: all_zero_bytes_def page_at_def)
  show "\<exists>x. page_lsn C (page_at i before) = Inr x \<and> (\<forall>l. x = Some l \<longrightarrow> l < lsn)" if "\<not> all_zero_bytes before"
    using assms that ex
    by (auto simp: validate_page_images_def validate_update_images_def image_err_def page_at_def Let_def not_le
        split: option.splits)
  show "allocation_generation C (page_at i before) = allocation_generation C (page_at i after)" if "\<not> all_zero_bytes before"
    using assms that ex
    by (auto simp: validate_page_images_def validate_update_images_def image_err_def page_at_def Let_def validate_allocation_Inr)
qed

lemma page_log_nth:
  assumes "page_log C i b H" "j < length H"
  obtains before after where "rec_kind (H ! j) = PageUpdate i before after" "length before = 4096" "length after = 4096"
    "validate_page_images C (rec_lsn (H ! j)) (PageUpdate i before after) = Inr ()"
    "before = versions b H ! j" "after = versions b H ! Suc j"
proof -
  obtain before after where k: "rec_kind (H ! j) = PageUpdate i before after"
    and v: "wf_kind (rec_kind (H ! j))" "validate_page_images C (rec_lsn (H ! j)) (rec_kind (H ! j)) = Inr ()"
    using assms nth_mem[OF assms(2)] unfolding page_log_def by blast
  have "before_image (H ! j) = versions b H ! j" using assms by (simp add: page_log_def)
  then have "before = versions b H ! j" "after = versions b H ! Suc j"
    using k assms(2) by (simp_all add: before_image_def versions_def after_image_def)
  then show thesis using that k v by simp
qed

lemma version_step:
  assumes "page_log C i b H" "j < length H"
  shows "length (versions b H ! j) = 4096" "length (versions b H ! Suc j) = 4096" "\<not> all_zero_bytes (versions b H ! Suc j)"
    "page_lsn C (page_at i (versions b H ! Suc j)) = Inr (Some (rec_lsn (H ! j)))"
    "\<exists>g. allocation_generation C (page_at i (versions b H ! Suc j)) = Inr g"
    "\<not> all_zero_bytes (versions b H ! j) \<Longrightarrow>
       \<exists>x. page_lsn C (page_at i (versions b H ! j)) = Inr x \<and> (\<forall>l. x = Some l \<longrightarrow> l < rec_lsn (H ! j))"
    "\<not> all_zero_bytes (versions b H ! j) \<Longrightarrow>
       allocation_generation C (page_at i (versions b H ! j)) = allocation_generation C (page_at i (versions b H ! Suc j))"
proof -
  obtain before after where "length before = 4096" "length after = 4096"
    and v: "validate_page_images C (rec_lsn (H ! j)) (PageUpdate i before after) = Inr ()"
    and eq: "before = versions b H ! j" "after = versions b H ! Suc j"
    by (rule page_log_nth[OF assms])
  then show "length (versions b H ! j) = 4096" "length (versions b H ! Suc j) = 4096" by simp_all
  note update_images[OF v, unfolded eq]
  then show "\<not> all_zero_bytes (versions b H ! Suc j)"
    "page_lsn C (page_at i (versions b H ! Suc j)) = Inr (Some (rec_lsn (H ! j)))"
    "\<exists>g. allocation_generation C (page_at i (versions b H ! Suc j)) = Inr g"
    "\<not> all_zero_bytes (versions b H ! j) \<Longrightarrow>
       \<exists>x. page_lsn C (page_at i (versions b H ! j)) = Inr x \<and> (\<forall>l. x = Some l \<longrightarrow> l < rec_lsn (H ! j))"
    "\<not> all_zero_bytes (versions b H ! j) \<Longrightarrow>
       allocation_generation C (page_at i (versions b H ! j)) = allocation_generation C (page_at i (versions b H ! Suc j))"
    by blast+
qed

text \<open>All versions that are not empty carry the same allocation generation.\<close>

lemma version_generation:
  assumes "page_log C i b H" "j \<le> k" "k \<le> length H" "\<not> all_zero_bytes (versions b H ! j)"
  shows "allocation_generation C (page_at i (versions b H ! k)) = allocation_generation C (page_at i (versions b H ! j))"
  using assms(2,3)
proof (induction k)
  case (Suc k)
  show ?case
  proof (cases "j = Suc k")
    case False
    then have le: "j \<le> k" using Suc.prems by simp
    have "\<not> all_zero_bytes (versions b H ! k)"
    proof (cases "j = k")
      case False
      then obtain l where "k = Suc l" using le by (cases k) auto
      then show ?thesis using version_step(3)[OF assms(1), of l] Suc.prems by simp
    qed (use assms(4) in simp)
    then show ?thesis using version_step(7)[OF assms(1), of k] Suc le by simp
  qed simp
qed simp

text \<open>Which version a page shows is visible in its page LSN.\<close>

lemma version_lsn:
  assumes log: "page_log C i b H" and k: "k \<le> length H" and j: "j < length H"
    and nz: "\<not> all_zero_bytes (versions b H ! k)"
  obtains x where "page_lsn C (page_at i (versions b H ! k)) = Inr x"
    "(case x of Some l \<Rightarrow> l \<ge> rec_lsn (H ! j) | None \<Rightarrow> False) \<longleftrightarrow> j < k"
proof (cases k)
  case 0
  have zero: "0 < length H" using j by linarith
  obtain x where x: "page_lsn C (page_at i (versions b H ! 0)) = Inr x" "\<forall>l. x = Some l \<longrightarrow> l < rec_lsn (H ! 0)"
    using version_step(6)[OF log zero] nz 0 by auto
  have "rec_lsn (H ! 0) \<le> rec_lsn (H ! j)"
    using log j by (cases "j = 0") (auto simp: page_log_def sorted_wrt_iff_nth_less less_imp_le)
  then have "l < rec_lsn (H ! j)" if "x = Some l" for l using x(2) that by force
  then show thesis using that[of x] x(1) 0 by (auto simp: not_le split: option.splits)
next
  case (Suc n)
  then have n: "n < length H" using k by simp
  have "rec_lsn (H ! j) \<le> rec_lsn (H ! n) \<longleftrightarrow> j \<le> n"
  proof
    assume "j \<le> n"
    then show "rec_lsn (H ! j) \<le> rec_lsn (H ! n)"
      using log n by (cases "j = n") (auto simp: page_log_def sorted_wrt_iff_nth_less less_imp_le)
  next
    assume "rec_lsn (H ! j) \<le> rec_lsn (H ! n)"
    then show "j \<le> n" using log j by (auto simp: page_log_def sorted_wrt_iff_nth_less not_le[symmetric])
  qed
  then show thesis using that[of "Some (rec_lsn (H ! n))"] version_step(4)[OF log n] Suc by (simp add: less_Suc_eq_le)
qed


section \<open>Redo and undo of one page\<close>

text \<open>What one page operation of recovery may do to the file: change one page, or fail in the device.\<close>

definition page_effect :: "PageId \<Rightarrow> page_manager \<Rightarrow> (recovery_error, bool) res \<Rightarrow> page_manager \<Rightarrow> bool" where
  "page_effect i m r m' \<longleftrightarrow> wf_pages m' \<and> atomic_io m' \<and> (\<forall>j. j \<noteq> i \<longrightarrow> page_img m' j = page_img m j) \<and>
     (is_ok r \<or> r = Inl (RcStorage SeIo)) \<and> (pm_io m = [] \<longrightarrow> is_ok r \<and> pm_io m' = [])"

lemma install_page_effect:
  assumes "wf_pages m" "atomic_io m" "page_img m i \<noteq> None" "length bs = 4096"
  obtains r m' where "install_page (page_at i bs) m = (r, m')" "page_effect i m r m'" "pm_count m' = pm_count m"
    "is_ok r \<Longrightarrow> r = Inr True \<and> page_img m' i = Some bs" "\<not> is_ok r \<Longrightarrow> page_img m' i = page_img m i"
proof -
  obtain r m' where w: "write_page (page_at i bs) m = (r, m')" "wf_pages m'" "atomic_io m'" "pm_count m' = pm_count m"
    "r = Inr () \<and> page_img m' = (page_img m)(i \<mapsto> bs) \<or> r = Inl SeIo \<and> page_img m' = page_img m"
    "pm_io m = [] \<Longrightarrow> r = Inr () \<and> pm_io m' = []"
    by (rule write_page_img[OF assms(1,2), of "page_at i bs"]) (use assms in \<open>auto simp: page_at_def\<close>)
  show thesis
  proof (cases r)
    case (Inl e)
    then show thesis using that[of "Inl (RcStorage SeIo)" m'] w by (auto simp: install_page_def page_effect_def is_ok_def)
  next
    case (Inr u)
    then show thesis using that[of "Inr True" m'] w by (auto simp: install_page_def page_effect_def is_ok_def)
  qed
qed

text \<open>What redo of the \<open>j\<close>-th record of a page leaves.\<close>

definition redo_done :: "PageId \<Rightarrow> byte list \<Rightarrow> wal_record list \<Rightarrow> nat \<Rightarrow> page_manager \<Rightarrow> (recovery_error, bool) res \<Rightarrow> page_manager \<Rightarrow> bool" where
  "redo_done i b H j m r m' \<longleftrightarrow> page_effect i m r m' \<and> (\<exists>k'. at_version b H k' (page_img m' i)) \<and>
     (is_ok r \<longrightarrow> (\<exists>k' > j. at_version b H k' (page_img m' i)) \<and> unat (pm_count m') = (if i = pm_count m then unat i + 1 else unat (pm_count m)))"

lemma redo_update_new:
  assumes wf: "wf_pages m" "atomic_io m" and log: "page_log C i b H" and j: "j < length H" "j \<le> k"
    and at: "at_version b H k (page_img m i)" and i: "i = pm_count m" "4096 * (unat i + 1) \<le> USIZE_MAX"
  shows "\<exists>r m'. redo_update C i (versions b H ! Suc j) (rec_lsn (H ! j)) m = (r, m') \<and> redo_done i b H j m r m'"
proof -
  let ?after = "versions b H ! Suc j"
  note step = version_step[OF log j(1)]
  obtain g where g: "allocation_generation C (page_at i ?after) = Inr g" using step(5) by blast
  have "page_img m i = None" using i(1) by (simp add: page_img_def)
  then have new: "k = 0" "all_zero_bytes b" "j = 0" using at j(2) by (auto simp: at_version_def)
  then have b: "b = replicate 4096 0" using step(1) zero_image[of b] by (simp add: versions_def)
  obtain r m1 where a: "allocate_page m = (r, m1)" "wf_pages m1" "atomic_io m1"
    "r = Inr (page_zero (pm_count m)) \<and> page_img m1 = (page_img m)(pm_count m \<mapsto> replicate 4096 0) \<and> unat (pm_count m1) = unat (pm_count m) + 1 \<or>
     r = Inl SeIo \<and> page_img m1 = page_img m \<and> pm_count m1 = pm_count m"
    "pm_io m = [] \<Longrightarrow> r = Inr (page_zero (pm_count m)) \<and> pm_io m1 = []"
    by (rule allocate_page_img[OF wf]) (use i in auto)
  show ?thesis
  proof (cases r)
    case (Inl e)
    then have "redo_update C i ?after (rec_lsn (H ! j)) m = (Inl (RcStorage SeIo), m1)"
      using i(1) g a by (auto simp: redo_update_def current_page_lsn_def)
    moreover have "redo_done i b H j m (Inl (RcStorage SeIo)) m1"
      using a Inl at by (auto simp: redo_done_def page_effect_def is_ok_def)
    ultimately show ?thesis by blast
  next
    case (Inr p)
    then have img: "page_img m1 = (page_img m)(i \<mapsto> replicate 4096 0)" "unat (pm_count m1) = unat i + 1" using a(4) i(1) by auto
    then obtain r' m' where w: "install_page (page_at i ?after) m1 = (r', m')" "page_effect i m1 r' m'" "pm_count m' = pm_count m1"
      "is_ok r' \<Longrightarrow> r' = Inr True \<and> page_img m' i = Some ?after" "\<not> is_ok r' \<Longrightarrow> page_img m' i = page_img m1 i"
      using install_page_effect[OF a(2,3), of i ?after] step(2) by auto
    have "redo_update C i ?after (rec_lsn (H ! j)) m = (r', m')"
      using i(1) g a(1) Inr w(1) by (simp add: redo_update_def current_page_lsn_def)
    moreover have "page_effect i m r' m'" using w(2) img a(5) by (auto simp: page_effect_def)
    moreover have "at_version b H (if is_ok r' then Suc j else 0) (page_img m' i)"
      using w(4,5) img j(1) new b by (auto simp: at_version_def versions_def Suc_le_eq)
    ultimately show ?thesis using w(3) img(2) i(1) by (auto simp: redo_done_def split: if_splits)
  qed
qed

text \<open>The test by which redo decides whether a page already has an update.\<close>

lemma redo_update_old:
  assumes wf: "wf_pages m" "atomic_io m" and log: "page_log C i b H" and j: "j < length H" "j \<le> k"
    and at: "at_version b H k (page_img m i)" and i: "i < pm_count m"
  shows "\<exists>r m'. redo_update C i (versions b H ! Suc j) (rec_lsn (H ! j)) m = (r, m') \<and> redo_done i b H j m r m'"
proof -
  let ?after = "versions b H ! Suc j"
  note step = version_step[OF log j(1)]
  obtain g where g: "allocation_generation C (page_at i ?after) = Inr g" using step(5) by blast
  have k: "k \<le> length H" using at by (simp add: at_version_def)
  have pres: "page_img m i \<noteq> None" and ne: "i \<noteq> pm_count m" using i by (auto simp: page_img_def)
  then have img: "page_img m i = Some (versions b H ! k)" using at by (auto simp: at_version_def)
  have read: "read_page m i = Inr (page_at i (versions b H ! k))" using read_page_img[OF wf(1) img] by (simp add: page_at_def)
  obtain r' m' where w: "install_page (page_at i ?after) m = (r', m')" "page_effect i m r' m'" "pm_count m' = pm_count m"
    "is_ok r' \<Longrightarrow> r' = Inr True \<and> page_img m' i = Some ?after" "\<not> is_ok r' \<Longrightarrow> page_img m' i = page_img m i"
    using install_page_effect[OF wf pres, of ?after] step(2) by auto
  have "at_version b H (if is_ok r' then Suc j else k) (page_img m' i)"
    using w(4,5) img j(1) k by (auto simp: at_version_def)
  then have written: "redo_done i b H j m r' m'" using w i by (auto simp: redo_done_def split: if_splits)
  have kept: "redo_done i b H j m (Inr False) m" if "j < k" using that wf at i by (auto simp: redo_done_def page_effect_def is_ok_def)
  show ?thesis
  proof (cases "all_zero_bytes (versions b H ! k)")
    case True
    then show ?thesis using written g read w(1) ne by (simp add: redo_update_def current_page_lsn_def page_at_def)
  next
    case nz: False
    have "allocation_generation C (page_at i (versions b H ! k)) = Inr g"
      using version_generation[OF log, of k "Suc j"] version_generation[OF log, of "Suc j" k] nz step(3) j(1) k g by (cases "k \<le> Suc j") simp_all
    then have gen: "validate_allocation C (page_at i (versions b H ! k)) g = Inr ()" by (simp add: validate_allocation_Inr)
    obtain x where x: "page_lsn C (page_at i (versions b H ! k)) = Inr x"
      "(case x of Some l \<Rightarrow> l \<ge> rec_lsn (H ! j) | None \<Rightarrow> False) \<longleftrightarrow> j < k"
      by (rule version_lsn[OF log k j(1) nz])
    have "redo_update C i ?after (rec_lsn (H ! j)) m = (if j < k then (Inr False, m) else (r', m'))"
      using g read gen x nz w(1) ne by (simp add: redo_update_def current_page_lsn_def page_at_def)
    then show ?thesis using written kept by (cases "j < k") simp_all
  qed
qed

lemma redo_update_effect:
  assumes wf: "wf_pages m" "atomic_io m" and log: "page_log C i b H" and j: "j < length H" "j \<le> k"
    and at: "at_version b H k (page_img m i)" and i: "i \<le> pm_count m" "4096 * (unat i + 1) \<le> USIZE_MAX"
  obtains r m' where "redo_update C i (versions b H ! Suc j) (rec_lsn (H ! j)) m = (r, m')" "page_effect i m r m'"
    "is_ok r \<Longrightarrow> \<exists>k' > j. at_version b H k' (page_img m' i)" "\<exists>k'. at_version b H k' (page_img m' i)"
    "is_ok r \<Longrightarrow> unat (pm_count m') = (if i = pm_count m then unat i + 1 else unat (pm_count m))"
proof -
  have "\<exists>r m'. redo_update C i (versions b H ! Suc j) (rec_lsn (H ! j)) m = (r, m') \<and> redo_done i b H j m r m'"
    using redo_update_new[OF wf log j at _ i(2)] redo_update_old[OF wf log j at] i(1) by (meson order.order_iff_strict)
  then show thesis using that unfolding redo_done_def by blast
qed

lemma undo_update_effect:
  assumes wf: "wf_pages m" "atomic_io m" and log: "page_log C i b H" and j: "j < length H"
    and img: "page_img m i = Some (versions b H ! Suc j)" and i: "i \<noteq> 0"
    and trailing: "all_zero_bytes (versions b H ! j) \<Longrightarrow> unat (pm_count m) = unat i + 1"
  obtains r m' where "undo_update C lsn i (versions b H ! j) (versions b H ! Suc j) m = (r, m')" "page_effect i m r m'"
    "is_ok r \<Longrightarrow> at_version b H j (page_img m' i)" "\<exists>k'. at_version b H k' (page_img m' i)"
    "is_ok r \<Longrightarrow> pm_count m' = (if all_zero_bytes (versions b H ! j) then i else pm_count m)"
proof -
  let ?before = "versions b H ! j" and ?after = "versions b H ! Suc j"
  note step = version_step[OF log j]
  have lt: "i < pm_count m" using img by (simp add: page_img_def split: if_splits)
  have read: "read_page m i = Inr (page_at i ?after)" using read_page_img[OF wf(1) img] by (simp add: page_at_def)
  obtain g where g: "allocation_generation C (page_at i ?after) = Inr g" using step(5) by blast
  then have check: "check_undo_page C i ?after m = Inr ()"
    using lt read by (simp add: check_undo_page_def validate_allocation_Inr)
  have stay: "at_version b H (Suc j) (page_img m i)" using img j by (simp add: at_version_def)
  show thesis
  proof (cases "all_zero_bytes ?before")
    case True
    have "j = 0"
    proof (rule ccontr)
      assume "j \<noteq> 0"
      then obtain l where "j = Suc l" by (cases j) auto
      then show False using version_step(3)[OF log, of l] j True by simp
    qed
    obtain r m' where d: "remove_trailing_page i m = (r, m')" "wf_pages m'" "atomic_io m'"
      "r = Inr (i \<noteq> pm_count m) \<and> page_img m' = (page_img m)(i := None) \<and> pm_count m' = i \<or>
       r = Inl SeIo \<and> page_img m' = page_img m \<and> pm_count m' = pm_count m"
      "pm_io m = [] \<Longrightarrow> r = Inr (i \<noteq> pm_count m) \<and> pm_io m' = []"
      by (rule remove_trailing_page_img[OF wf i]) (use trailing[OF True] in auto)
    have "undo_update C lsn i ?before ?after m = (case r of Inl e \<Rightarrow> Inl (RcStorage e) | Inr x \<Rightarrow> Inr x, m')"
      using check True d(1) lt i
      by (auto simp: undo_update_def reject_metadata_page_def validate_before_image_def all_zero_bytes_def split: sum.splits)
    moreover have at: "at_version b H j (page_img m' i)" if "is_ok r"
      using that d(4) True \<open>j = 0\<close> by (auto simp: is_ok_def at_version_def versions_def)
    moreover have "\<exists>k'. at_version b H k' (page_img m' i)"
      using at stay d(4) by (cases r) (auto simp: is_ok_def)
    ultimately show thesis
      using that[of "case r of Inl e \<Rightarrow> Inl (RcStorage e) | Inr x \<Rightarrow> Inr x" m'] d True stay
      by (auto simp: page_effect_def is_ok_def)
  next
    case False
    obtain h where h: "header C (page_at i ?before) = Inr h" using step(6)[OF False] by (auto simp: page_lsn_def)
    obtain r m' where w: "install_page (page_at i ?before) m = (r, m')" "page_effect i m r m'" "pm_count m' = pm_count m"
      "is_ok r \<Longrightarrow> r = Inr True \<and> page_img m' i = Some ?before" "\<not> is_ok r \<Longrightarrow> page_img m' i = page_img m i"
      using install_page_effect[OF wf, of i ?before] img step(1) by auto
    have "undo_update C lsn i ?before ?after m = (r, m')"
      using check False h lt[unfolded not_le[symmetric]] i w(1)
      by (simp add: undo_update_def reject_metadata_page_def validate_before_image_def all_zero_bytes_def page_at_def)
    moreover have "at_version b H (if is_ok r then j else Suc j) (page_img m' i)"
      using w(4,5) stay j by (auto simp: at_version_def)
    ultimately show thesis using that[of r m'] w False by (auto split: if_splits)
  qed
qed


section \<open>The whole of redo\<close>

text \<open>Every page with a history shows one of its versions, from a given one on; the other pages are as in \<open>f\<close>.\<close>

definition shows_versions :: "(PageId \<Rightarrow> byte list) \<Rightarrow> (PageId \<Rightarrow> wal_record list) \<Rightarrow> (PageId \<rightharpoonup> byte list) \<Rightarrow> (PageId \<Rightarrow> nat) \<Rightarrow> page_manager \<Rightarrow> bool" where
  "shows_versions base hist f low m \<longleftrightarrow> wf_pages m \<and> atomic_io m \<and>
     (\<forall>i. hist i \<noteq> [] \<longrightarrow> (\<exists>k \<ge> low i. at_version (base i) (hist i) k (page_img m i))) \<and>
     (\<forall>i. hist i = [] \<longrightarrow> page_img m i = f i)"

text \<open>A phase of recovery over the pages ends well, or the device fails it.\<close>

definition phase_ok :: "page_manager \<Rightarrow> (recovery_error, 'a) res \<Rightarrow> page_manager \<Rightarrow> bool" where
  "phase_ok m r m' \<longleftrightarrow> (is_ok r \<or> r = Inl (RcStorage SeIo)) \<and> (pm_io m = [] \<longrightarrow> is_ok r \<and> pm_io m' = [])"

definition page_fits :: "PageId \<Rightarrow> bool" where
  "page_fits i \<longleftrightarrow> 4096 * (unat i + 1) \<le> USIZE_MAX"

lemma change_history_append: "change_history ts (pre @ post) i = change_history ts pre i @ change_history ts post i"
  by (simp add: change_history_def)

lemma change_history_Cons:
  "change_history ts (r # post) i =
     (if \<not> rolled_back_in ts (rec_txn_id r) \<and> (\<exists>before after. page_change (rec_kind r) = Some (i, before, after))
      then r # change_history ts post i else change_history ts post i)"
  by (auto simp: change_history_def split: option.splits)

lemma redo_record_skip:
  assumes "rolled_back_in ts (rec_txn_id r) \<or> page_change (rec_kind r) = None"
  shows "redo_record C ts starts r m = (Inr False, m)" "redo_topology ts (r # post) count = redo_topology ts post count"
    "change_history ts (r # post) i = change_history ts post i"
  using assms by (auto simp: redo_record_def change_history_Cons)

lemma shows_versions_effect:
  assumes "shows_versions base hist f low m" "page_effect i m r m'" "hist i \<noteq> []" "\<exists>k \<ge> n. at_version (base i) (hist i) k (page_img m' i)"
  shows "shows_versions base hist f (low(i := n)) m'"
  using assms by (auto simp: shows_versions_def page_effect_def)

lemma shows_versions_low:
  assumes "shows_versions base hist f low m" "\<And>i. low' i \<le> low i"
  shows "shows_versions base hist f low' m"
  using assms by (auto simp: shows_versions_def) (meson order_trans)

lemma redo_step_versions:
  fixes base :: "PageId \<Rightarrow> byte list"
  assumes log: "\<And>i. page_log C i (base i) (hist i)" and hist: "hist = change_history ts (pre @ r # post)" and fits: "\<And>i. hist i \<noteq> [] \<Longrightarrow> page_fits i"
    and sh: "shows_versions base hist f (\<lambda>i. length (change_history ts pre i)) m" and topo: "redo_topology ts (r # post) (pm_count m) = Inr c"
    and ch: "page_change (rec_kind r) = Some (i, before, after)" and rb: "\<not> rolled_back_in ts (rec_txn_id r)"
  obtains (failed) e m1 where "redo_record C ts Map.empty r m = (Inl e, m1)" "page_effect i m (Inl e) m1" "shows_versions base hist f (\<lambda>_. 0) m1"
  | (redone) changed m1 where "redo_record C ts Map.empty r m = (Inr changed, m1)" "page_effect i m (Inr changed) m1"
      "shows_versions base hist f (\<lambda>l. length (change_history ts (pre @ [r]) l)) m1" "redo_topology ts post (pm_count m1) = Inr c"
proof -
  let ?H = "hist i" and ?j = "length (change_history ts pre i)"
  have "?H = change_history ts pre i @ r # change_history ts post i" using ch rb hist by (simp add: change_history_append change_history_Cons)
  then have j: "?j < length ?H" "?H ! ?j = r" "?H \<noteq> []" by auto
  obtain b a where upd: "rec_kind r = PageUpdate i b a" "a = versions (base i) ?H ! Suc ?j"
    by (rule page_log_nth[OF log j(1)]) (use j(2) in auto)
  have after: "after = versions (base i) ?H ! Suc ?j" using upd ch by simp
  from topo have nz: "i \<noteq> 0" "\<not> i > pm_count m"
    and c: "redo_topology ts post (if i = pm_count m then i + 1 else pm_count m) = Inr c"
    using ch rb upd by (auto simp: reject_metadata_page_def checked_add_u64_def split: if_splits)
  obtain k where k: "?j \<le> k" "at_version (base i) ?H k (page_img m i)" using sh j(3) by (auto simp: shows_versions_def)
  have wf: "wf_pages m" "atomic_io m" and le: "i \<le> pm_count m" using sh nz by (auto simp: shows_versions_def)
  have fit: "4096 * (unat i + 1) \<le> USIZE_MAX" using fits[OF j(3)] by (simp add: page_fits_def)
  obtain res m1 where red: "redo_update C i (versions (base i) ?H ! Suc ?j) (rec_lsn (?H ! ?j)) m = (res, m1)" "page_effect i m res m1"
    "is_ok res \<Longrightarrow> \<exists>k' > ?j. at_version (base i) ?H k' (page_img m1 i)" "\<exists>k'. at_version (base i) ?H k' (page_img m1 i)"
    "is_ok res \<Longrightarrow> unat (pm_count m1) = (if i = pm_count m then unat i + 1 else unat (pm_count m))"
    by (rule redo_update_effect[OF wf log j(1) k le fit]) blast
  have rec: "redo_record C ts Map.empty r m = (res, m1)"
    using red(1) rb ch nz after j(2) upd by (simp add: redo_record_def reject_metadata_page_def)
  show thesis
  proof (cases res)
    case (Inl e)
    have "shows_versions base hist f (\<lambda>_. 0) m1"
      using shows_versions_low[OF shows_versions_effect[OF sh red(2) j(3), of 0]] red(4) by auto
    then show thesis using failed rec red(2) Inl by simp
  next
    case (Inr changed)
    then have ok: "is_ok res" by (simp add: is_ok_def)
    have "unat (i + 1) = unat i + 1" using fit by (simp add: USIZE_MAX_def unat_word_ariths)
    then have "pm_count m1 = (if i = pm_count m then i + 1 else pm_count m)" using red(5)[OF ok] by (auto simp: word_unat_eq_iff)
    then have cnt: "redo_topology ts post (pm_count m1) = Inr c" using c by simp
    have snoc: "(\<lambda>l. length (change_history ts (pre @ [r]) l)) = (\<lambda>l. length (change_history ts pre l))(i := Suc ?j)"
      using ch rb by (auto simp: change_history_append change_history_Cons fun_eq_iff change_history_def[of ts "[]"])
    have "shows_versions base hist f (\<lambda>l. length (change_history ts (pre @ [r]) l)) m1"
      unfolding snoc using shows_versions_effect[OF sh red(2) j(3), of "Suc ?j"] red(3)[OF ok] by (auto simp: Suc_le_eq)
    then show thesis using redone rec red(2) cnt Inr by simp
  qed
qed

lemma redo_records_versions:
  fixes base :: "PageId \<Rightarrow> byte list"
  assumes "\<And>i. page_log C i (base i) (hist i)" "hist = change_history ts (pre @ post)" "\<And>i. hist i \<noteq> [] \<Longrightarrow> page_fits i"
    and "shows_versions base hist f (\<lambda>i. length (change_history ts pre i)) m" "redo_topology ts post (pm_count m) = Inr c"
  shows "\<exists>r m'. redo_records C ts Map.empty post n m = (r, m') \<and> phase_ok m r m' \<and> shows_versions base hist f (\<lambda>_. 0) m' \<and>
    (is_ok r \<longrightarrow> pm_count m' = c \<and> shows_versions base hist f (\<lambda>i. length (hist i)) m')"
  using assms
proof (induction post arbitrary: pre m n)
  case Nil
  then show ?case using shows_versions_low[OF Nil.prems(4), of "\<lambda>_. 0"] by (auto simp: phase_ok_def is_ok_def)
next
  case (Cons r post)
  show ?case
  proof (cases "rolled_back_in ts (rec_txn_id r) \<or> page_change (rec_kind r) = None")
    case True
    note skip = redo_record_skip[OF True]
    have "change_history ts (pre @ [r]) i = change_history ts pre i" for i
      using skip(3)[of "[]" i] by (simp add: change_history_append change_history_def[of ts "[]"])
    then show ?thesis
      using Cons.IH[of "pre @ [r]" m n] Cons.prems skip(1)[of C Map.empty m] skip(2)[of post "pm_count m"] by simp
  next
    case False
    then obtain i before after where ch: "page_change (rec_kind r) = Some (i, before, after)"
      and rb: "\<not> rolled_back_in ts (rec_txn_id r)" by (auto simp: not_None_eq)
    show ?thesis
    proof (rule redo_step_versions[OF Cons.prems(1-5) ch rb])
      fix e m1
      assume "redo_record C ts Map.empty r m = (Inl e, m1)" "page_effect i m (Inl e) m1" "shows_versions base hist f (\<lambda>_. 0) m1"
      then show ?thesis by (auto simp: page_effect_def phase_ok_def is_ok_def)
    next
      fix changed m1
      assume u: "redo_record C ts Map.empty r m = (Inr changed, m1)" "page_effect i m (Inr changed) m1"
        "shows_versions base hist f (\<lambda>l. length (change_history ts (pre @ [r]) l)) m1" "redo_topology ts post (pm_count m1) = Inr c"
      then obtain r' m' where "redo_records C ts Map.empty post (if changed then n + 1 else n) m1 = (r', m')" "phase_ok m1 r' m'"
        "shows_versions base hist f (\<lambda>_. 0) m'" "is_ok r' \<longrightarrow> pm_count m' = c \<and> shows_versions base hist f (\<lambda>i. length (hist i)) m'"
        using Cons.IH[of "pre @ [r]" m1 "if changed then n + 1 else n"] Cons.prems(1,2,3) by auto
      then show ?thesis using u(1,2) by (auto simp: phase_ok_def page_effect_def)
    qed
  qed
qed


section \<open>The whole of undo\<close>

definition version_image :: "byte list \<Rightarrow> wal_record list \<Rightarrow> nat \<Rightarrow> byte list option" where
  "version_image b H k = (if k = 0 \<and> all_zero_bytes b then None else Some (versions b H ! k))"

definition shows_exactly :: "(PageId \<Rightarrow> byte list) \<Rightarrow> (PageId \<Rightarrow> wal_record list) \<Rightarrow> (PageId \<rightharpoonup> byte list) \<Rightarrow> (PageId \<Rightarrow> nat) \<Rightarrow> page_manager \<Rightarrow> bool" where
  "shows_exactly base hist f level m \<longleftrightarrow> wf_pages m \<and> atomic_io m \<and>
     (\<forall>i. if hist i = [] then page_img m i = f i
          else level i \<le> length (hist i) \<and> page_img m i = version_image (base i) (hist i) (level i))"

lemma version_image_at: "k \<le> length H \<Longrightarrow> at_version b H k (version_image b H k)"
  by (auto simp: at_version_def version_image_def)

lemma shows_exactly_versions: "shows_exactly base hist f level m \<Longrightarrow> shows_versions base hist f (\<lambda>_. 0) m"
  unfolding shows_exactly_def shows_versions_def using version_image_at by (metis le0)

lemma shows_last: "shows_versions base hist f (\<lambda>i. length (hist i)) m \<Longrightarrow> shows_exactly base hist f (\<lambda>i. length (hist i)) m"
  by (auto simp: shows_exactly_def shows_versions_def at_version_def version_image_def)

lemma shows_exactly_effect:
  assumes "shows_exactly base hist f level m" "page_effect i m r m'" "hist i \<noteq> []" "n \<le> length (hist i)"
    and "page_img m' i = version_image (base i) (hist i) n"
  shows "shows_exactly base hist f (level(i := n)) m'"
  using assms by (auto simp: shows_exactly_def page_effect_def)

text \<open>The version a page is left at when the losers' records of the rest of the log have been undone.\<close>

definition undo_level :: "transactions \<Rightarrow> wal_record list \<Rightarrow> wal_record list \<Rightarrow> PageId \<Rightarrow> nat" where
  "undo_level ts pre post i =
     length (change_history ts pre i) + length (filter (\<lambda>r. rec_txn_id r \<notin> loser_set ts) (change_history ts post i))"

text \<open>On every page the losers' records come last.\<close>

definition losers_last :: "transactions \<Rightarrow> wal_record list \<Rightarrow> bool" where
  "losers_last ts records \<longleftrightarrow>
     (\<forall>pre r post i before after. records = pre @ r # post \<and> rec_txn_id r \<in> loser_set ts \<and>
        page_change (rec_kind r) = Some (i, before, after) \<longrightarrow>
        filter (\<lambda>r. rec_txn_id r \<notin> loser_set ts) (change_history ts post i) = [])"

lemma loser_not_rolled_back: "t \<in> loser_set ts \<Longrightarrow> \<not> rolled_back_in ts t"
  by (auto simp: loser_set_def rolled_back_in_def)

lemma undo_level_snoc:
  "undo_level ts (pre @ [r]) post i =
     (if rec_txn_id r \<in> loser_set ts \<and> (\<exists>before after. page_change (rec_kind r) = Some (i, before, after))
      then Suc (undo_level ts pre (r # post) i) else undo_level ts pre (r # post) i)"
  using loser_not_rolled_back[of "rec_txn_id r" ts]
  by (auto simp: undo_level_def change_history_append change_history_Cons change_history_def[of ts "[]"])

lemma version_nonzero:
  assumes "page_log C i b H" "j \<le> length H" "all_zero_bytes (versions b H ! j)"
  shows "j = 0"
  using version_step(3)[OF assms(1), of "j - 1"] assms(2,3) by (cases j) auto

text \<open>Where the record of a loser stands in the history of its page, and the levels around it.\<close>

lemma loser_record_level:
  fixes base :: "PageId \<Rightarrow> byte list"
  assumes log: "page_log C i (base i) (hist i)" and hist: "hist = change_history ts (pre @ r # post)" "losers_last ts (pre @ r # post)"
    and loser: "rec_txn_id r \<in> loser_set ts" and ch: "page_change (rec_kind r) = Some (i, before, after)" and j: "j = length (change_history ts pre i)"
  shows "j < length (hist i)" "hist i ! j = r" "hist i \<noteq> []" "undo_level ts pre (r # post) i = j" "undo_level ts (pre @ [r]) post i = Suc j"
    "rec_kind r = PageUpdate i (versions (base i) (hist i) ! j) (versions (base i) (hist i) ! Suc j)"
proof -
  have H: "hist i = change_history ts pre i @ r # change_history ts post i"
    using ch loser_not_rolled_back[OF loser] hist(1) by (simp add: change_history_append change_history_Cons)
  then show jl: "j < length (hist i)" "hist i ! j = r" "hist i \<noteq> []" using j by auto
  show "rec_kind r = PageUpdate i (versions (base i) (hist i) ! j) (versions (base i) (hist i) ! Suc j)"
    by (rule page_log_nth[OF log jl(1)]) (use jl(2) in auto)
  have "filter (\<lambda>r. rec_txn_id r \<notin> loser_set ts) (change_history ts post i) = []"
    using hist(2) loser ch unfolding losers_last_def by (metis append_Cons append_assoc append_Nil)
  then show "undo_level ts pre (r # post) i = j" "undo_level ts (pre @ [r]) post i = Suc j"
    using ch loser loser_not_rolled_back[OF loser] j
    by (simp_all add: undo_level_def change_history_append change_history_Cons change_history_def[of ts "[]"])
qed

text \<open>What undoing one record of a loser does: the page steps back one version, or the file fails.\<close>

lemma undo_step_versions:
  fixes base :: "PageId \<Rightarrow> byte list"
  assumes log: "\<And>i. page_log C i (base i) (hist i)" and nz: "\<And>i. hist i \<noteq> [] \<Longrightarrow> i \<noteq> 0"
    and hist: "hist = change_history ts (pre @ r # post)" "losers_last ts (pre @ r # post)" and loser: "rec_txn_id r \<in> loser_set ts"
    and ch: "page_change (rec_kind r) = Some (i, before, after)"
    and sh: "shows_exactly base hist f (undo_level ts (pre @ [r]) post) m" and cnt: "undo_count r (pm_count m) = (Inr (), c1)"
  obtains (failed) e m1 where "undo_counted C r (n, m) = (Inl e, n, m1)" "page_effect i m (Inl e) m1" "shows_versions base hist f (\<lambda>_. 0) m1"
  | (undone) changed n1 m1 where "undo_counted C r (n, m) = (Inr (), n1, m1)" "page_effect i m (Inr changed) m1"
      "shows_exactly base hist f (undo_level ts pre (r # post)) m1" "pm_count m1 = c1"
proof -
  let ?H = "hist i" and ?j = "length (change_history ts pre i)"
  note l = loser_record_level[where base = base, OF log[of i] hist loser ch refl]
  let ?b = "versions (base i) ?H ! ?j" and ?a = "versions (base i) ?H ! Suc ?j"
  have img: "page_img m i = Some ?a" and wf: "wf_pages m" "atomic_io m"
    using sh l(3,5) by (auto simp: shows_exactly_def version_image_def dest: spec[of _ i] split: if_splits)
  have trail: "unat (pm_count m) = unat i + 1" and c1: "c1 = i" if "all_zero_bytes ?b"
  proof -
    have "pm_count m = i + 1" "unat i + 1 < 2 ^ 64" "c1 = i"
      using that l(6) cnt by (auto simp: undo_count_def checked_add_u64_def split: if_splits)
    then show "unat (pm_count m) = unat i + 1" "c1 = i" by (simp_all add: unat_word_ariths)
  qed
  have c1': "c1 = (if all_zero_bytes ?b then i else pm_count m)"
    using cnt l(6) c1 by (auto simp: undo_count_def split: if_splits)
  obtain res m1 where und: "undo_update C (rec_lsn r) i ?b ?a m = (res, m1)"
    "page_effect i m res m1" "is_ok res \<Longrightarrow> at_version (base i) ?H ?j (page_img m1 i)" "\<exists>k'. at_version (base i) ?H k' (page_img m1 i)"
    "is_ok res \<Longrightarrow> pm_count m1 = (if all_zero_bytes ?b then i else pm_count m)"
    by (rule undo_update_effect[OF wf log l(1) img nz[OF l(3)] trail, where lsn = "rec_lsn r"]) blast+
  have rec: "undo_record C r m = (res, m1)" using l(6) und(1) by (simp add: undo_record_def)
  show thesis
  proof (cases res)
    case (Inl e)
    have "shows_versions base hist f (\<lambda>_. 0) m1"
      using shows_versions_low[OF shows_versions_effect[OF shows_exactly_versions[OF sh] und(2) l(3), of 0]] und(4) by auto
    then show thesis using failed[of e m1] rec und(2) Inl by (simp add: undo_counted_def)
  next
    case (Inr changed)
    then have ok: "is_ok res" by (simp add: is_ok_def)
    have img': "page_img m1 i = version_image (base i) ?H ?j"
    proof (cases "all_zero_bytes ?b")
      case True
      then have "page_img m1 i = None" using und(5)[OF ok] by (simp add: page_img_def)
      moreover have "?j = 0" by (rule version_nonzero[OF log _ True]) (use l(1) in simp)
      ultimately show ?thesis using True by (simp add: version_image_def versions_def)
    next
      case False
      then show ?thesis using und(3)[OF ok] by (auto simp: at_version_def version_image_def versions_def)
    qed
    have "undo_level ts pre (r # post) = (undo_level ts (pre @ [r]) post)(i := ?j)"
      using l(4) ch loser by (auto simp: fun_eq_iff undo_level_snoc)
    then have "shows_exactly base hist f (undo_level ts pre (r # post)) m1"
      using shows_exactly_effect[OF sh und(2) l(3) _ img'] l(1) by simp
    then show thesis
      using undone[of "if changed then n + 1 else n" m1 changed] rec und(2) und(5)[OF ok] c1' Inr by (simp add: undo_counted_def)
  qed
qed

lemma undo_list_versions:
  fixes base :: "PageId \<Rightarrow> byte list"
  assumes log: "\<And>i. page_log C i (base i) (hist i)" and nz: "\<And>i. hist i \<noteq> [] \<Longrightarrow> i \<noteq> 0"
    and "hist = change_history ts (pre @ post)" "losers_last ts (pre @ post)"
    and "shows_exactly base hist f (undo_level ts pre post) m"
    and "undo_list undo_count (rev (filter (\<lambda>r. rec_txn_id r \<in> loser_set ts) pre)) (pm_count m) = (Inr (), c)"
  shows "\<exists>r n' m'. undo_list (undo_counted C) (rev (filter (\<lambda>r. rec_txn_id r \<in> loser_set ts) pre)) (n, m) = (r, n', m') \<and> phase_ok m r m' \<and>
    shows_versions base hist f (\<lambda>_. 0) m' \<and> (is_ok r \<longrightarrow> shows_exactly base hist f (undo_level ts [] (pre @ post)) m')"
  using assms(3-)
proof (induction pre arbitrary: post m n rule: rev_induct)
  case Nil
  then show ?case using shows_exactly_versions by (auto simp: phase_ok_def is_ok_def)
next
  case (snoc r pre)
  have IH: "\<exists>r' n' m'. undo_list (undo_counted C) (rev (filter (\<lambda>r. rec_txn_id r \<in> loser_set ts) pre)) (n, m) = (r', n', m') \<and> phase_ok m r' m' \<and>
      shows_versions base hist f (\<lambda>_. 0) m' \<and> (is_ok r' \<longrightarrow> shows_exactly base hist f (undo_level ts [] (pre @ r # post)) m')"
    if "shows_exactly base hist f (undo_level ts pre (r # post)) m"
      "undo_list undo_count (rev (filter (\<lambda>r. rec_txn_id r \<in> loser_set ts) pre)) (pm_count m) = (Inr (), c)" for n m
    using snoc.IH[of "r # post" m n] snoc.prems(1,2) that by simp
  have hist: "hist = change_history ts (pre @ r # post)" "losers_last ts (pre @ r # post)" using snoc.prems(1,2) by simp_all
  consider "rec_txn_id r \<notin> loser_set ts" | "rec_txn_id r \<in> loser_set ts" "page_change (rec_kind r) = None"
    | i before after where "rec_txn_id r \<in> loser_set ts" "page_change (rec_kind r) = Some (i, before, after)" by (metis option.exhaust prod_cases3)
  then show ?case
  proof cases
    case 1
    then have "undo_level ts (pre @ [r]) post = undo_level ts pre (r # post)" by (simp add: fun_eq_iff undo_level_snoc)
    then show ?thesis using IH[of m n] snoc.prems(3,4) 1 by simp
  next
    case 2
    then have "undo_level ts (pre @ [r]) post = undo_level ts pre (r # post)" by (simp add: fun_eq_iff undo_level_snoc)
    moreover have "undo_counted C r (n, m) = (Inr (), n, m)" "undo_count r (pm_count m) = (Inr (), pm_count m)"
      using 2 by (cases "rec_kind r"; simp add: undo_counted_def undo_record_def undo_count_def)+
    ultimately show ?thesis using IH[of m n] snoc.prems(3,4) 2 by simp
  next
    case (3 i before after)
    from snoc.prems(4) 3(1) obtain c1 where cnt: "undo_count r (pm_count m) = (Inr (), c1)"
      "undo_list undo_count (rev (filter (\<lambda>r. rec_txn_id r \<in> loser_set ts) pre)) c1 = (Inr (), c)"
      by (auto split: prod.splits sum.splits)
    show ?thesis
    proof (rule undo_step_versions[OF log nz hist 3 snoc.prems(3) cnt(1), of n])
      fix e m1
      assume "undo_counted C r (n, m) = (Inl e, n, m1)" "page_effect i m (Inl e) m1" "shows_versions base hist f (\<lambda>_. 0) m1"
      then show ?thesis using 3(1) by (auto simp: page_effect_def phase_ok_def is_ok_def)
    next
      fix changed n1 m1
      assume u: "undo_counted C r (n, m) = (Inr (), n1, m1)" "page_effect i m (Inr changed) m1"
        "shows_exactly base hist f (undo_level ts pre (r # post)) m1" "pm_count m1 = c1"
      obtain r' n' m' where "undo_list (undo_counted C) (rev (filter (\<lambda>r. rec_txn_id r \<in> loser_set ts) pre)) (n1, m1) = (r', n', m')"
        "phase_ok m1 r' m'" "shows_versions base hist f (\<lambda>_. 0) m'" "is_ok r' \<longrightarrow> shows_exactly base hist f (undo_level ts [] (pre @ r # post)) m'"
        using IH[of m1 n1] u(3,4) cnt(2) by auto
      then show ?thesis using u(1,2) 3(1) by (auto simp: phase_ok_def page_effect_def)
    qed
  qed
qed

section \<open>What the checks before redo establish\<close>

definition covers :: "transactions \<Rightarrow> wal_record list \<Rightarrow> bool" where
  "covers ts records \<longleftrightarrow> (\<forall>r \<in> set records. map_of ts (rec_txn_id r) \<noteq> None)"

lemma history_of_latest:
  assumes "no_winner_after ts latest rs = Inr ()" "covers ts rs" "latest i \<noteq> None"
  shows "filter (\<lambda>r. rec_txn_id r \<notin> loser_set ts) (change_history ts rs i) = []"
  using assms
proof (induction rs arbitrary: latest)
  case (Cons r rs)
  have cov: "covers ts rs" using Cons.prems(2) by (simp add: covers_def)
  obtain a where a: "map_of ts (rec_txn_id r) = Some a" using Cons.prems(2) by (auto simp: covers_def)
  show ?case
  proof (cases "page_change (rec_kind r)")
    case None
    then show ?thesis using Cons cov by (simp add: change_history_Cons)
  next
    case (Some ch)
    then obtain l b b' where ch: "page_change (rec_kind r) = Some (l, b, b')" by (cases ch) auto
    let ?latest = "if \<not> ta_committed a \<and> \<not> ta_rolled_back a then latest(l \<mapsto> (rec_txn_id r, rec_lsn r)) else latest"
    have rest: "no_winner_after ts ?latest rs = Inr ()" "ta_committed a \<Longrightarrow> latest l = None"
      using Cons.prems(1) a ch by (auto split: if_splits option.splits)
    have "?latest i \<noteq> None" using Cons.prems(3) by simp
    from Cons.IH[OF rest(1) cov this] show ?thesis
      using rest(2) a ch Cons.prems(3) by (auto simp: change_history_Cons rolled_back_in_def loser_set_def)
  qed
qed (simp add: change_history_def)

lemma no_winner_losers_last:
  assumes "no_winner_after ts latest rs = Inr ()" "covers ts rs"
  shows "losers_last ts rs"
  unfolding losers_last_def
proof (intro allI impI, elim conjE)
  fix pre r post i before after
  assume rs: "rs = pre @ r # post" and loser: "rec_txn_id r \<in> loser_set ts" and ch: "page_change (rec_kind r) = Some (i, before, after)"
  show "filter (\<lambda>r. rec_txn_id r \<notin> loser_set ts) (change_history ts post i) = []"
    using assms rs
  proof (induction pre arbitrary: rs latest)
    case Nil
    have "no_winner_after ts (latest(i \<mapsto> (rec_txn_id r, rec_lsn r))) post = Inr ()"
      using Nil loser ch by (auto simp: loser_set_def)
    from history_of_latest[OF this, of i] show ?case using Nil by (simp add: covers_def)
  next
    case (Cons q pre)
    then have cov: "covers ts (pre @ r # post)" by (simp add: covers_def)
    have "\<exists>latest'. no_winner_after ts latest' (pre @ r # post) = Inr ()"
      using Cons.prems(1,3) by (auto split: option.splits prod.splits if_splits)
    then show ?case using Cons.IH[OF _ cov] by blast
  qed
qed

lemma topology_nonzero:
  "redo_topology ts rs count = Inr c \<Longrightarrow> change_history ts rs i \<noteq> [] \<Longrightarrow> i \<noteq> 0"
proof (induction rs arbitrary: count)
  case (Cons r rs)
  show ?case
  proof (cases "rolled_back_in ts (rec_txn_id r) \<or> page_change (rec_kind r) = None")
    case True
    then show ?thesis using Cons redo_record_skip(2,3)[OF True] by simp
  next
    case False
    then obtain l b b' where ch: "page_change (rec_kind r) = Some (l, b, b')" by (auto simp: not_None_eq)
    then have "l \<noteq> 0" "\<exists>count'. redo_topology ts rs count' = Inr c"
      using Cons.prems(1) False by (auto simp: reject_metadata_page_def split: if_splits)
    then show ?thesis using Cons.IH Cons.prems(2) ch by (cases "i = l") (auto simp: change_history_Cons split: if_splits)
  qed
qed (simp add: change_history_def)

lemma covers_analyze: "covers (analyze rs) rs"
proof -
  have "map_of (analyze rs) (rec_txn_id r) \<noteq> None" if "r \<in> set rs" for r
  proof -
    have "sc_last (scanned rs) (rec_txn_id r) \<noteq> None" using that
    proof (induction rs rule: rev_induct)
      case (snoc q rs)
      then show ?case unfolding sc_last_snoc by auto
    qed simp
    then show ?thesis using analyze_last[of rs] by (metis option.map_disc_iff)
  qed
  then show ?thesis by (simp add: covers_def)
qed

section \<open>Recovery of the pages\<close>

text \<open>The records of each page fit together: each one starts from the image that the one before it left.\<close>

fun lineage :: "wal_record list \<Rightarrow> bool" where
  "lineage (r # s # rs) \<longleftrightarrow> after_image r = before_image s \<and> lineage (s # rs)"
| "lineage _ \<longleftrightarrow> True"

lemma lineage_nth:
  "lineage H \<Longrightarrow> j < length H \<Longrightarrow> before_image (H ! j) = versions (before_image (hd H)) H ! j"
proof (induction H arbitrary: j rule: lineage.induct)
  case (1 r s rs)
  show ?case
  proof (cases j)
    case (Suc k)
    then show ?thesis using 1(1)[of k] 1(2,3) by (cases k) (simp_all add: versions_def)
  qed (simp add: versions_def)
qed (auto simp: versions_def)

text \<open>The pages a crash may leave: each page with records shows one of its versions.\<close>

fun crash_version :: "wal_record list \<Rightarrow> byte list option \<Rightarrow> bool" where
  "crash_version [] v \<longleftrightarrow> True"
| "crash_version (r # rs) None \<longleftrightarrow> all_zero_bytes (before_image r)"
| "crash_version (r # rs) (Some b) \<longleftrightarrow> b \<in> set (before_image r # map after_image (r # rs))"

definition crash_pages :: "transactions \<Rightarrow> wal_record list \<Rightarrow> page_manager \<Rightarrow> bool" where
  "crash_pages ts records m \<longleftrightarrow> wf_pages m \<and> atomic_io m \<and> (\<forall>i. crash_version (change_history ts records i) (page_img m i))"

definition base_image :: "wal_record list \<Rightarrow> byte list" where
  "base_image H = before_image (hd H)"

lemma crash_version_at:
  assumes "H \<noteq> []"
  shows "crash_version H v \<longleftrightarrow> (\<exists>k. at_version (base_image H) H k v)"
proof -
  obtain r rs where H: "H = r # rs" using assms by (cases H) auto
  have "b \<in> set (before_image r # map after_image H) \<longleftrightarrow> (\<exists>k \<le> length H. b = versions (before_image r) H ! k)" for b
  proof -
    have "b \<in> set (before_image r # map after_image H) \<longleftrightarrow> (\<exists>k < length (versions (before_image r) H). b = versions (before_image r) H ! k)"
      unfolding versions_def in_set_conv_nth by metis
    then show ?thesis by (simp add: versions_def less_Suc_eq_le)
  qed
  then show ?thesis using H by (cases v) (auto simp: at_version_def base_image_def)
qed

text \<open>The records a log may hold for a page: validated images in the order of the log.\<close>

lemma accepted_records:
  assumes "log_accepted C h records" "r \<in> set records"
  shows "wf_kind (rec_kind r)" "validate_page_images C (rec_lsn r) (rec_kind r) = Inr ()"
proof -
  obtain pre post where "records = pre @ r # post" using split_list[OF assms(2)] by blast
  then have "accepted C (scanned pre) r" "wf_kind (rec_kind r)"
    using assms(1) by (auto simp: log_accepted_def accepts_append)
  then show "wf_kind (rec_kind r)" "validate_page_images C (rec_lsn r) (rec_kind r) = Inr ()" by (simp_all add: accepted_def)
qed

lemma page_log_history:
  assumes "log_accepted C h records" "\<And>r. r \<in> set records \<Longrightarrow> \<not> is_transition (rec_kind r)" "lineage (change_history ts records i)"
  shows "page_log C i (base_image (change_history ts records i)) (change_history ts records i)"
proof -
  let ?H = "change_history ts records i"
  have "sorted_wrt (<) (map rec_lsn records)" using accepted_chained[OF assms(1)] by (simp add: chained_def)
  then have "sorted_wrt (<) (map rec_lsn ?H)" unfolding change_history_def sorted_wrt_map by (rule sorted_wrt_filter)
  moreover have "(\<exists>before after. rec_kind r = PageUpdate i before after)" if "r \<in> set ?H" for r
    using that assms(2)[of r] by (cases "rec_kind r") (auto simp: change_history_def)
  moreover have "set ?H \<subseteq> set records" by (auto simp: change_history_def)
  ultimately show ?thesis
    using accepted_records[OF assms(1)] lineage_nth[OF assms(3)] by (auto simp: page_log_def base_image_def)
qed


text \<open>
  The image of a page that the committed transactions leave: the one after their last record of the
  page, or the one before the first record of any transaction.
\<close>

definition committed_page :: "(TxnId \<Rightarrow> bool) \<Rightarrow> wal_record list \<Rightarrow> byte list option \<Rightarrow> byte list option" where
  "committed_page won H v =
     (case filter (\<lambda>r. won (rec_txn_id r)) H of
        [] \<Rightarrow> (case H of [] \<Rightarrow> v | r # _ \<Rightarrow> if all_zero_bytes (before_image r) then None else Some (before_image r))
      | w # ws \<Rightarrow> Some (after_image (last (w # ws))))"

lemma winners_prefix:
  assumes "losers_last ts records"
  shows "filter (\<lambda>r. rec_txn_id r \<notin> loser_set ts) (change_history ts records i) =
    take (length (filter (\<lambda>r. rec_txn_id r \<notin> loser_set ts) (change_history ts records i))) (change_history ts records i)"
  using assms
proof (induction records)
  case (Cons r records)
  have rest: "losers_last ts records" using Cons.prems unfolding losers_last_def by (metis append_Cons)
  show ?case
  proof (cases "\<not> rolled_back_in ts (rec_txn_id r) \<and> (\<exists>before after. page_change (rec_kind r) = Some (i, before, after))")
    case True
    then show ?thesis
    proof (cases "rec_txn_id r \<in> loser_set ts")
      case loser: True
      then have "filter (\<lambda>r. rec_txn_id r \<notin> loser_set ts) (change_history ts records i) = []"
        using Cons.prems True unfolding losers_last_def by (metis append_Nil)
      then show ?thesis using True loser by (simp add: change_history_Cons)
    qed (use Cons.IH[OF rest] in \<open>simp add: change_history_Cons\<close>)
  qed (use Cons.IH[OF rest] in \<open>auto simp: change_history_Cons\<close>)
qed (simp add: change_history_def)

lemma committed_version:
  assumes "losers_last ts records" "H = change_history ts records i" "H \<noteq> []"
  shows "version_image (base_image H) H (length (filter (\<lambda>r. rec_txn_id r \<notin> loser_set ts) H)) = committed_page (\<lambda>t. t \<notin> loser_set ts) H v"
proof -
  let ?W = "filter (\<lambda>r. rec_txn_id r \<notin> loser_set ts) H"
  have W: "?W = take (length ?W) H" using winners_prefix[OF assms(1), of i] assms(2) by simp
  obtain r rs where H: "H = r # rs" using assms(3) by (cases H) auto
  show ?thesis
  proof (cases ?W rule: rev_cases)
    case Nil
    then show ?thesis using H by (simp add: version_image_def committed_page_def versions_def base_image_def)
  next
    case (snoc ws w)
    have len: "length ws < length H" using snoc length_filter_le[of "\<lambda>r. rec_txn_id r \<notin> loser_set ts" H] by simp
    have "ws @ [w] = take (length ws) H @ [H ! length ws]"
      using W snoc take_Suc_conv_app_nth[OF len] by simp
    then have w: "w = H ! length ws" by simp
    have "committed_page (\<lambda>t. t \<notin> loser_set ts) H v = Some (after_image w)"
      using snoc by (cases ws) (simp_all add: committed_page_def)
    then show ?thesis using w snoc len by (simp add: version_image_def versions_def)
  qed
qed

lemma sync_pages:
  assumes "wf_pages m" "atomic_io m"
  obtains r m' where "pm_sync m = (r, m')" "wf_pages m'" "atomic_io m'" "page_img m' = page_img m"
    "r = Inr () \<or> r = Inl SeIo" "pm_io m = [] \<Longrightarrow> r = Inr () \<and> pm_io m' = []"
proof -
  obtain x m' where "next_io m = (x, m')" "wf_pages m' = wf_pages m" "page_img m' = page_img m"
    "atomic_io m \<Longrightarrow> atomic_io m' \<and> x \<in> {PageIoDone, PageIoFailed 0}" "pm_io m = [] \<Longrightarrow> x = PageIoDone \<and> pm_io m' = []"
    by (rule next_io_cases[of m]) blast
  then show thesis
    using that[of "case x of PageIoDone \<Rightarrow> Inr () | PageIoFailed _ \<Rightarrow> Inl SeIo" m'] assms by (auto simp: pm_sync_def)
qed

lemma no_transition_starts:
  assumes "\<And>r. r \<in> set records \<Longrightarrow> \<not> is_transition (rec_kind r)"
  shows "transition_redo_starts C m records ts = Inr Map.empty"
proof -
  have "transitioned_pages ts records = []" using assms by (simp add: transitioned_pages_def List.map_filter_def)
  then show ?thesis by (simp add: transition_redo_starts_def)
qed

lemma versions_crash_pages:
  assumes "shows_versions (\<lambda>i. base_image (change_history ts records i)) (change_history ts records) f (\<lambda>_. 0) m"
  shows "crash_pages ts records m"
proof -
  let ?H = "change_history ts records"
  have "crash_version (?H i) (page_img m i)" for i
  proof (cases "?H i = []")
    case False
    then have "\<exists>k. at_version (base_image (?H i)) (?H i) k (page_img m i)" using assms by (auto simp: shows_versions_def)
    then show ?thesis using crash_version_at[OF False] by simp
  qed simp
  then show ?thesis using assms by (simp add: crash_pages_def shows_versions_def)
qed

lemma crash_pages_versions:
  assumes "crash_pages ts records m"
  shows "shows_versions (\<lambda>i. base_image (change_history ts records i)) (change_history ts records) (page_img m) (\<lambda>i. length (change_history ts [] i)) m"
proof -
  have "\<exists>k. at_version (base_image (change_history ts records i)) (change_history ts records i) k (page_img m i)" if "change_history ts records i \<noteq> []" for i
    using assms crash_version_at[OF that, of "page_img m i"] by (simp add: crash_pages_def)
  then show ?thesis using assms by (simp add: shows_versions_def crash_pages_def change_history_def[of ts "[]"])
qed

lemma undone_is_committed:
  assumes last: "losers_last ts records"
    and ex: "shows_exactly (\<lambda>i. base_image (change_history ts records i)) (change_history ts records) f (undo_level ts [] records) m"
  shows "page_img m i = committed_page (\<lambda>t. t \<notin> loser_set ts) (change_history ts records i) (f i)"
proof (cases "change_history ts records i = []")
  case True
  then show ?thesis using ex by (simp add: shows_exactly_def committed_page_def)
next
  case False
  have "page_img m i = version_image (base_image (change_history ts records i)) (change_history ts records i) (undo_level ts [] records i)"
    using ex False by (simp add: shows_exactly_def)
  then show ?thesis using committed_version[OF last refl False, of "f i"] by (simp add: undo_level_def change_history_def[of ts "[]"])
qed

text \<open>What the checks before redo leave for the two phases.\<close>

lemma validated_phases:
  assumes "chained records" "analyzed records ts" "\<And>r. r \<in> set records \<Longrightarrow> \<not> is_transition (rec_kind r)" "validate_recovery C records ts m = Some (Inr starts)"
  obtains c c' where "no_winner_after ts Map.empty records = Inr ()" "redo_topology ts records (pm_count m) = Inr c"
    "undo_list undo_count (rev (filter (\<lambda>r. rec_txn_id r \<in> loser_set ts) records)) c = (Inr (), c')" "starts = Map.empty"
proof -
  let ?losers = "rev (filter (\<lambda>r. rec_txn_id r \<in> loser_set ts) records)"
  obtain c where c: "no_winner_after ts Map.empty records = Inr ()" "redo_topology ts records (pm_count m) = Inr c"
    "fst (undo_list undo_count ?losers c) = Inr ()" "starts = Map.empty"
    using assms(4) undo_walk_losers[OF assms(1,2), of undo_count] no_transition_starts[OF assms(3)]
    by (auto simp: validate_recovery_def validate_page_topology_def validate_no_winner_depends_on_loser_def split: sum.splits)
  then show thesis using that by (cases "undo_list undo_count ?losers c") simp
qed

lemma repair_pages_correct:
  assumes log: "log_accepted C h records" and plain: "\<And>r. r \<in> set records \<Longrightarrow> \<not> is_transition (rec_kind r)"
    and lin: "\<And>i. lineage (change_history ts records i)" and fits: "\<And>i. change_history ts records i \<noteq> [] \<Longrightarrow> page_fits i"
    and ts: "analyzed records ts" "covers ts records" and disk: "crash_pages ts records m"
    and valid: "validate_recovery C records ts m = Some (Inr starts)"
  obtains r m' where "repair_pages C records ts starts m = Some (r, m')" "crash_pages ts records m'" "phase_ok m r m'"
    "\<And>i. change_history ts records i = [] \<Longrightarrow> page_img m' i = page_img m i"
    "\<And>i. is_ok r \<Longrightarrow> page_img m' i = committed_page (\<lambda>t. t \<notin> loser_set ts) (change_history ts records i) (page_img m i)"
proof -
  note result = that
  let ?H = "change_history ts records" and ?losers = "rev (filter (\<lambda>r. rec_txn_id r \<in> loser_set ts) records)"
  let ?base = "\<lambda>i. base_image (?H i)"
  have chained: "chained records" by (rule accepted_chained[OF log])
  note walk = undo_walk_losers[OF chained ts(1)]
  have pl: "page_log C i (?base i) (?H i)" for i by (rule page_log_history[OF log plain lin])
  obtain c c' where v: "no_winner_after ts Map.empty records = Inr ()" "redo_topology ts records (pm_count m) = Inr c"
    "undo_list undo_count ?losers c = (Inr (), c')" "starts = Map.empty" by (rule validated_phases[OF chained ts(1) plain valid])
  have last: "losers_last ts records" by (rule no_winner_losers_last[OF v(1) ts(2)])
  obtain r1 m1 where red: "redo_records C ts Map.empty records 0 m = (r1, m1)" "phase_ok m r1 m1" "shows_versions ?base ?H (page_img m) (\<lambda>_. 0) m1"
    "is_ok r1 \<longrightarrow> pm_count m1 = c \<and> shows_versions ?base ?H (page_img m) (\<lambda>i. length (?H i)) m1"
    using redo_records_versions[where pre = "[]", OF pl _ fits crash_pages_versions[OF disk] v(2), of 0] unfolding append_Nil by blast
  have others: "page_img m' i = page_img m i" if "shows_versions ?base ?H (page_img m) (\<lambda>_. 0) m'" "?H i = []" for m' i
    using that by (simp add: shows_versions_def)
  show thesis
  proof (cases r1)
    case (Inl e)
    then show thesis
      using result[of "Inl e" m1] red v(4) versions_crash_pages[OF red(3)] others[OF red(3)] by (auto simp: repair_pages_def phase_ok_def is_ok_def)
  next
    case (Inr redone)
    then have m1: "pm_count m1 = c" "shows_versions ?base ?H (page_img m) (\<lambda>i. length (?H i)) m1" using red(4) by (auto simp: is_ok_def)
    have "undo_level ts records [] = (\<lambda>i. length (?H i))" by (simp add: undo_level_def fun_eq_iff change_history_def)
    then have at: "shows_exactly ?base ?H (page_img m) (undo_level ts records []) m1" using shows_last[OF m1(2)] by simp
    obtain r2 n m2 where und: "undo_list (undo_counted C) ?losers (0, m1) = (r2, n, m2)" "phase_ok m1 r2 m2"
      "shows_versions ?base ?H (page_img m) (\<lambda>_. 0) m2"
      "is_ok r2 \<longrightarrow> shows_exactly ?base ?H (page_img m) (undo_level ts [] records) m2"
      using undo_list_versions[where post = "[]", OF pl topology_nonzero[OF v(2)] _ _ at, of c' 0] last v(3) m1(1)
      unfolding append_Nil2 by blast
    have wf: "wf_pages m2" "atomic_io m2" using und(3) by (auto simp: shows_versions_def)
    show thesis
    proof (cases r2)
      case (Inl e)
      then have "repair_pages C records ts starts m = Some (Inl e, m2)" using red(1) Inr v(4) und(1) Inl by (simp add: repair_pages_def walk)
      then show thesis
        using result[of "Inl e" m2] versions_crash_pages[OF und(3)] others[OF und(3)] red(2) und(2) Inl by (auto simp: phase_ok_def is_ok_def)
    next
      case ok: (Inr u)
      obtain r3 m3 where syn: "pm_sync m2 = (r3, m3)" "wf_pages m3" "atomic_io m3" "page_img m3 = page_img m2"
        "r3 = Inr () \<or> r3 = Inl SeIo" "pm_io m2 = [] \<Longrightarrow> r3 = Inr () \<and> pm_io m3 = []"
        by (rule sync_pages[OF wf]) blast
      let ?r = "case r3 of Inl e \<Rightarrow> Inl (RcStorage e) | Inr _ \<Rightarrow> Inr (redone, n)"
      have rep: "repair_pages C records ts starts m = Some (?r, m3)"
        using red(1) Inr v(4) und(1) ok syn(1,5) by (auto simp: repair_pages_def walk)
      have "page_img m3 i = committed_page (\<lambda>t. t \<notin> loser_set ts) (?H i) (page_img m i)" for i
        using undone_is_committed[OF last] und(4) ok syn(4) by (simp add: is_ok_def)
      moreover have "shows_versions ?base ?H (page_img m) (\<lambda>_. 0) m3" using und(3) syn(2-4) by (simp add: shows_versions_def)
      moreover have "phase_ok m ?r m3" using red(2) und(2) syn(5,6) Inr ok by (auto simp: phase_ok_def is_ok_def)
      ultimately show thesis using result[OF rep] versions_crash_pages others by blast
    qed
  qed
qed


section \<open>Prepared transactions\<close>

text \<open>The transactions whose changes recovery keeps: committed in the log, or prepared and decided so.\<close>

definition decided_commit :: "transactions \<Rightarrow> prepared_txn_resolution list option \<Rightarrow> TxnId \<Rightarrow> bool" where
  "decided_commit ts resolutions t \<longleftrightarrow>
     (case map_of ts t of
        None \<Rightarrow> False
      | Some a \<Rightarrow> ta_committed a \<or> \<not> ta_rolled_back a \<and> ta_prepared a \<noteq> None \<and>
          list_ex (\<lambda>x. res_physical_txn_id x = t \<and> res_decision x = DecideCommit) (case resolutions of Some xs \<Rightarrow> xs | None \<Rightarrow> []))"

definition same_but_commits :: "TxnId set \<Rightarrow> transactions \<Rightarrow> transactions \<Rightarrow> bool" where
  "same_but_commits T ts ts' \<longleftrightarrow>
     (\<forall>t. case map_of ts t of
        None \<Rightarrow> map_of ts' t = None
      | Some a \<Rightarrow> (\<exists>a'. map_of ts' t = Some a' \<and> (ta_committed a' \<longleftrightarrow> ta_committed a \<or> t \<in> T) \<and> (ta_rolled_back a' \<longleftrightarrow> ta_rolled_back a)))"

lemma append_commits_same:
  assumes "append_commits C cs ts d l = (Inr (ts', d'), l')"
  shows "same_but_commits (snd ` set cs) ts ts'"
  using assms
proof (induction cs arbitrary: ts d l)
  case (Cons c cs)
  obtain previous t where c: "c = (previous, t)" by (cases c)
  obtain lsn l1 where step: "log_append C t (Some previous) Commit l = (Inr lsn, l1)"
    "append_commits C cs (AList.map_entry t (\<lambda>a. a\<lparr>ta_last_lsn := lsn, ta_committed := True\<rparr>) ts) (Some lsn) l1 = (Inr (ts', d'), l')"
    using Cons.prems c by (auto split: prod.splits sum.splits)
  note rest = Cons.IH[OF step(2)]
  show ?case
    unfolding same_but_commits_def
  proof
    fix u
    show "case map_of ts u of None \<Rightarrow> map_of ts' u = None
      | Some a \<Rightarrow> (\<exists>a'. map_of ts' u = Some a' \<and> (ta_committed a' \<longleftrightarrow> ta_committed a \<or> u \<in> snd ` set (c # cs)) \<and> (ta_rolled_back a' \<longleftrightarrow> ta_rolled_back a))"
      using rest[unfolded same_but_commits_def, THEN spec[of _ u]] c
      by (auto simp: map_of_map_entry simp del: map_of_eq_Some_iff split: option.splits if_splits)
  qed
qed (auto simp: same_but_commits_def split: option.splits)

lemma index_resolutions_lookup:
  assumes "index_resolutions xs acc = Inr by_physical" "\<And>t x. map_of acc t = Some x \<Longrightarrow> res_physical_txn_id x = t"
  shows "map_of by_physical t = Some x \<longleftrightarrow> map_of acc t = Some x \<or> x \<in> set xs \<and> res_physical_txn_id x = t"
    "distinct (map fst acc) \<Longrightarrow> distinct (map fst by_physical)"
proof -
  have "(map_of by_physical t = Some x \<longleftrightarrow> map_of acc t = Some x \<or> x \<in> set xs \<and> res_physical_txn_id x = t) \<and>
      (distinct (map fst acc) \<longrightarrow> distinct (map fst by_physical))"
    using assms
  proof (induction xs arbitrary: acc)
    case (Cons y ys)
    have new: "map_of acc (res_physical_txn_id y) = None" using Cons.prems(1) by auto
    let ?acc = "acc @ [(res_physical_txn_id y, y)]"
    have step: "index_resolutions ys ?acc = Inr by_physical" using Cons.prems(1) new by simp
    have look: "map_of ?acc = (map_of acc)(res_physical_txn_id y \<mapsto> y)"
      using new by (auto simp: fun_eq_iff map_add_def split: option.splits)
    have keys: "res_physical_txn_id x = t" if "map_of ?acc t = Some x" for t x
      using that Cons.prems(2) unfolding look by (simp split: if_splits)
    have "res_physical_txn_id y \<notin> fst ` set acc" using new by (simp add: map_of_eq_None_iff)
    then have "distinct (map fst acc) \<longrightarrow> distinct (map fst ?acc)" by simp
    then show ?case
      using Cons.IH[OF step keys] new unfolding look by (cases "t = res_physical_txn_id y") auto
  qed auto
  then show "map_of by_physical t = Some x \<longleftrightarrow> map_of acc t = Some x \<or> x \<in> set xs \<and> res_physical_txn_id x = t"
    "distinct (map fst acc) \<Longrightarrow> distinct (map fst by_physical)" by blast+
qed

text \<open>The prepared transactions in doubt that a resolution commits.\<close>

definition to_commit :: "(TxnId \<rightharpoonup> prepared_txn_resolution) \<Rightarrow> TxnId \<times> transaction_analysis \<Rightarrow> bool" where
  "to_commit by_physical = (\<lambda>(t, a). ta_prepared a \<noteq> None \<and> \<not> ta_committed a \<and> \<not> ta_rolled_back a \<and>
     (case by_physical t of Some x \<Rightarrow> res_decision x = DecideCommit | None \<Rightarrow> False))"

lemma resolve_one_Inr:
  assumes "resolve_one t a by_physical = Inr (by', new)"
  shows "u \<noteq> t \<Longrightarrow> map_of by' u = map_of by_physical u"
    "new = (if to_commit (map_of by_physical) (t, a) then [(ta_last_lsn a, t)] else [])" "new \<noteq> [] \<Longrightarrow> \<not> ta_aborting a"
  using assms
  by (auto simp: resolve_one_def to_commit_def Let_def delete_conv' split: option.splits if_splits)

lemma resolve_all_commits:
  assumes "resolve_all ts by_physical cs = Inr commits" "distinct (map fst ts)"
  shows "commits = cs @ map (\<lambda>(t, a). (ta_last_lsn a, t)) (filter (to_commit (map_of by_physical)) ts)"
    "\<And>t a. (t, a) \<in> set ts \<Longrightarrow> to_commit (map_of by_physical) (t, a) \<Longrightarrow> \<not> ta_aborting a"
proof -
  have "commits = cs @ map (\<lambda>(t, a). (ta_last_lsn a, t)) (filter (to_commit (map_of by_physical)) ts) \<and>
      (\<forall>(t, a) \<in> set ts. to_commit (map_of by_physical) (t, a) \<longrightarrow> \<not> ta_aborting a)"
    using assms
  proof (induction ts arbitrary: by_physical cs)
    case Nil
    then show ?case by (simp split: list.splits prod.splits)
  next
    case (Cons e ts)
    obtain t a where e: "e = (t, a)" by (cases e)
    obtain by' new where one: "resolve_one t a by_physical = Inr (by', new)" "resolve_all ts by' (cs @ new) = Inr commits"
      using Cons.prems(1) e by auto
    have same: "to_commit (map_of by') (u, a') = to_commit (map_of by_physical) (u, a')" if "(u, a') \<in> set ts" for u a'
    proof -
      have "u \<noteq> t" using that Cons.prems(2) e by force
      then show ?thesis using resolve_one_Inr(1)[OF one(1)] by (simp add: to_commit_def)
    qed
    then have "filter (to_commit (map_of by')) ts = filter (to_commit (map_of by_physical)) ts" by (auto intro: filter_cong)
    moreover have "to_commit (map_of by_physical) (t, a) \<Longrightarrow> \<not> ta_aborting a" using resolve_one_Inr(2,3)[OF one(1)] by simp
    ultimately show ?case using Cons.IH[OF one(2)] Cons.prems(2) e same resolve_one_Inr(2)[OF one(1)] by auto
  qed
  then show "commits = cs @ map (\<lambda>(t, a). (ta_last_lsn a, t)) (filter (to_commit (map_of by_physical)) ts)"
    "\<And>t a. (t, a) \<in> set ts \<Longrightarrow> to_commit (map_of by_physical) (t, a) \<Longrightarrow> \<not> ta_aborting a" by auto
qed

lemma resolutions_split:
  assumes "apply_prepared_resolutions C ts resolutions l = (Inr ts', l')" "distinct (map fst ts)"
  obtains by_physical d l1 where
    "append_commits C (sort (map (\<lambda>(t, a). (ta_last_lsn a, t)) (filter (to_commit (map_of by_physical)) ts))) ts None l = (Inr (ts', d), l1)"
    "flush_last d l1 = (Inr (), l')"
    "\<And>t x. map_of by_physical t = Some x \<longleftrightarrow> x \<in> set (case resolutions of Some xs \<Rightarrow> xs | None \<Rightarrow> []) \<and> res_physical_txn_id x = t"
    "\<And>t a. (t, a) \<in> set ts \<Longrightarrow> to_commit (map_of by_physical) (t, a) \<Longrightarrow> \<not> ta_aborting a"
proof -
  obtain by_physical commits d l1 where b: "index_resolutions (case resolutions of Some xs \<Rightarrow> xs | None \<Rightarrow> []) [] = Inr by_physical"
    "resolve_all ts by_physical [] = Inr commits" "append_commits C (sort commits) ts None l = (Inr (ts', d), l1)" "flush_last d l1 = (Inr (), l')"
    using assms(1) by (auto simp: apply_prepared_resolutions_def split: sum.splits prod.splits)
  show thesis
    using that[OF _ b(4)] b(3) resolve_all_commits[OF b(2) assms(2)] index_resolutions_lookup(1)[OF b(1)] by simp
qed

lemma resolutions_decide:
  assumes "apply_prepared_resolutions C ts resolutions l = (Inr ts', l')" "distinct (map fst ts)"
  shows "rolled_back_in ts' t = rolled_back_in ts t" "covers ts records \<Longrightarrow> covers ts' records"
    "map_of ts t \<noteq> None \<Longrightarrow> \<not> rolled_back_in ts t \<Longrightarrow> t \<notin> loser_set ts' \<longleftrightarrow> decided_commit ts resolutions t"
proof -
  obtain by_physical d l1 where r:
    "append_commits C (sort (map (\<lambda>(t, a). (ta_last_lsn a, t)) (filter (to_commit (map_of by_physical)) ts))) ts None l = (Inr (ts', d), l1)"
    "\<And>t x. map_of by_physical t = Some x \<longleftrightarrow> x \<in> set (case resolutions of Some xs \<Rightarrow> xs | None \<Rightarrow> []) \<and> res_physical_txn_id x = t"
    by (rule resolutions_split[OF assms]) blast
  have T: "u \<in> snd ` set (sort (map (\<lambda>(t, a). (ta_last_lsn a, t)) (filter (to_commit (map_of by_physical)) ts))) \<longleftrightarrow>
      (\<exists>a. map_of ts u = Some a \<and> to_commit (map_of by_physical) (u, a))" for u
    using map_of_eq_Some_iff[OF assms(2)] by force
  have same: "case map_of ts u of None \<Rightarrow> map_of ts' u = None
      | Some a \<Rightarrow> (\<exists>a'. map_of ts' u = Some a' \<and> (ta_committed a' \<longleftrightarrow> ta_committed a \<or> to_commit (map_of by_physical) (u, a)) \<and>
          (ta_rolled_back a' \<longleftrightarrow> ta_rolled_back a))" for u
    using append_commits_same[OF r(1), unfolded same_but_commits_def, THEN spec[of _ u]] unfolding T by (auto split: option.splits)
  have dec: "to_commit (map_of by_physical) (u, a) \<longleftrightarrow> ta_prepared a \<noteq> None \<and> \<not> ta_committed a \<and> \<not> ta_rolled_back a \<and>
      list_ex (\<lambda>x. res_physical_txn_id x = u \<and> res_decision x = DecideCommit) (case resolutions of Some xs \<Rightarrow> xs | None \<Rightarrow> [])" for u a
  proof -
    have "list_ex (\<lambda>x. res_physical_txn_id x = u \<and> res_decision x = DecideCommit) (case resolutions of Some xs \<Rightarrow> xs | None \<Rightarrow> []) \<longleftrightarrow>
        (\<exists>x. map_of by_physical u = Some x \<and> res_decision x = DecideCommit)"
      unfolding r(2) list_ex_iff by blast
    then show ?thesis by (cases "map_of by_physical u") (simp_all add: to_commit_def)
  qed
  show "rolled_back_in ts' t = rolled_back_in ts t"
    using same[of t] by (auto simp: rolled_back_in_def simp del: map_of_eq_Some_iff split: option.splits)
  show "covers ts' records" if "covers ts records"
    unfolding covers_def
  proof
    fix r assume "r \<in> set records"
    then have "map_of ts (rec_txn_id r) \<noteq> None" using that by (simp add: covers_def)
    then show "map_of ts' (rec_txn_id r) \<noteq> None" using same[of "rec_txn_id r"] by (auto split: option.splits)
  qed
  show "t \<notin> loser_set ts' \<longleftrightarrow> decided_commit ts resolutions t" if known: "map_of ts t \<noteq> None" "\<not> rolled_back_in ts t"
  proof -
    obtain a where a: "map_of ts t = Some a" "\<not> ta_rolled_back a" using known by (auto simp: rolled_back_in_def)
    obtain a' where a': "map_of ts' t = Some a'" "ta_committed a' \<longleftrightarrow> ta_committed a \<or> to_commit (map_of by_physical) (t, a)" "\<not> ta_rolled_back a'"
      using same[of t] a by auto
    have "t \<notin> loser_set ts' \<longleftrightarrow> ta_committed a'" using a' by (simp add: loser_set_def)
    then show ?thesis using a a'(2) dec[of t a] by (auto simp: decided_commit_def)
  qed
qed


section \<open>Recovery as a whole\<close>

text \<open>The log a scan accepts and the pages a crash may leave, in the absence of allocation transitions.\<close>

definition recoverable :: "crc \<Rightarrow> wal_header \<Rightarrow> wal_record list \<Rightarrow> page_manager \<Rightarrow> bool" where
  "recoverable C h records m \<longleftrightarrow> log_accepted C h records \<and> (\<forall>r \<in> set records. \<not> is_transition (rec_kind r)) \<and>
     (\<forall>i. lineage (change_history (analyze records) records i) \<and> (change_history (analyze records) records i \<noteq> [] \<longrightarrow> page_fits i)) \<and>
     crash_pages (analyze records) records m"

lemma history_cong: "(\<And>t. rolled_back_in ts' t = rolled_back_in ts t) \<Longrightarrow> change_history ts' records = change_history ts records"
  by (simp add: change_history_def fun_eq_iff)

lemma validate_recovery_total:
  assumes "chained records" "analyzed records ts"
  shows "\<exists>v. validate_recovery C records ts m = Some v"
  by (simp add: validate_recovery_def validate_page_topology_def undo_walk_losers[OF assms] split: sum.splits)

lemma repair_pages_total:
  assumes "chained records" "analyzed records ts"
  shows "\<exists>r m'. repair_pages C records ts starts m = Some (r, m')"
  by (simp add: repair_pages_def undo_walk_losers[OF assms] split: sum.splits prod.splits)

lemma recover_cases:
  assumes "recover_inner C m l records truncated resolutions = Some (r, m', l')"
  obtains (untouched) e where "r = Inl e" "m' = m"
  | (touched) ts l1 starts r0 where "apply_prepared_resolutions C (analyze records) resolutions l = (Inr ts, l1)"
      "validate_recovery C records ts m = Some (Inr starts)" "repair_pages C records ts starts m = Some (r0, m')" "is_ok r \<Longrightarrow> is_ok r0"
proof (cases "apply_prepared_resolutions C (analyze records) resolutions l")
  case ap: (Pair x l1)
  show thesis
  proof (cases x)
    case (Inl e)
    then show thesis using untouched[of e] assms ap by (simp add: recover_inner_def)
  next
    case ts: (Inr ts)
    obtain v where v: "validate_recovery C records ts m = Some v"
      using assms ap ts by (auto simp: recover_inner_def bind_eq_Some_conv)
    show thesis
    proof (cases v)
      case (Inl e)
      then show thesis using untouched[of e] assms ap ts v by (simp add: recover_inner_def)
    next
      case st: (Inr starts)
      obtain y l2 where fl: "flush_last (last_lsn records) l1 = (y, l2)" by fastforce
      show thesis
      proof (cases y)
        case (Inl e)
        then show thesis using untouched[of e] assms ap ts v st fl by (simp add: recover_inner_def)
      next
        case (Inr u)
        then obtain r0 m0 where rp: "repair_pages C records ts starts m = Some (r0, m0)"
          using assms ap ts v st fl by (auto simp: recover_inner_def bind_eq_Some_conv)
        then have "m' = m0 \<and> (is_ok r \<longrightarrow> is_ok r0)"
          using assms ap ts v st fl Inr by (auto simp: recover_inner_def is_ok_def split: sum.splits prod.splits)
        then show thesis using touched ap ts v st rp by simp
      qed
    qed
  qed
qed

lemma recovery_pages:
  assumes rec: "recoverable C h records m" and "recover_inner C m l records truncated resolutions = Some (r, m', l')"
  shows "recoverable C h records m'" "change_history (analyze records) records i = [] \<Longrightarrow> page_img m' i = page_img m i"
    "is_ok r \<Longrightarrow> page_img m' i =
       committed_page (decided_commit (analyze records) resolutions) (change_history (analyze records) records i) (page_img m i)"
proof -
  let ?ts = "analyze records" and ?H = "change_history (analyze records) records"
  have log: "log_accepted C h records" "\<And>r. r \<in> set records \<Longrightarrow> \<not> is_transition (rec_kind r)"
    and lin: "\<And>i. lineage (?H i)" "\<And>i. ?H i \<noteq> [] \<Longrightarrow> page_fits i" and disk: "crash_pages ?ts records m"
    using rec by (auto simp: recoverable_def)
  have "recoverable C h records m' \<and> (?H i = [] \<longrightarrow> page_img m' i = page_img m i) \<and>
      (is_ok r \<longrightarrow> page_img m' i = committed_page (decided_commit ?ts resolutions) (?H i) (page_img m i))"
    using assms(2)
  proof (cases rule: recover_cases)
    case (untouched e)
    then show ?thesis using rec by (simp add: is_ok_def)
  next
    case (touched ts l1 starts r0)
    have d: "distinct (map fst ?ts)" using analyze_last by blast
    note dec = resolutions_decide[OF touched(1) d]
    have H: "change_history ts records = ?H" by (rule history_cong[OF dec(1)])
    have crash: "crash_pages ts records x = crash_pages ?ts records x" for x by (simp add: crash_pages_def H)
    have an: "analyzed records ts" by (rule resolutions_analyzed[OF touched(1) analyzed_analyze])
    have cov: "covers ts records" by (rule dec(2)[OF covers_analyze])
    obtain r1 m1 where rep: "repair_pages C records ts starts m = Some (r1, m1)" "crash_pages ts records m1"
      "\<And>i. ?H i = [] \<Longrightarrow> page_img m1 i = page_img m i"
      "\<And>i. is_ok r1 \<Longrightarrow> page_img m1 i = committed_page (\<lambda>t. t \<notin> loser_set ts) (?H i) (page_img m i)"
      by (rule repair_pages_correct[of C h records ts m starts, unfolded H, OF log lin an cov disk[folded crash] touched(2)])
        blast+
    have m1: "m' = m1" "is_ok r \<Longrightarrow> is_ok r1" using touched(3,4) rep(1) by auto
    have "filter (\<lambda>r. rec_txn_id r \<notin> loser_set ts) (?H i) = filter (\<lambda>r. decided_commit ?ts resolutions (rec_txn_id r)) (?H i)"
    proof (rule filter_cong[OF refl])
      fix q assume "q \<in> set (?H i)"
      then have "q \<in> set records" "\<not> rolled_back_in ?ts (rec_txn_id q)" by (auto simp: change_history_def)
      then show "(rec_txn_id q \<notin> loser_set ts) = decided_commit ?ts resolutions (rec_txn_id q)"
        using dec(3)[of "rec_txn_id q"] covers_analyze[of records] by (simp add: covers_def)
    qed
    then have "committed_page (\<lambda>t. t \<notin> loser_set ts) (?H i) v = committed_page (decided_commit ?ts resolutions) (?H i) v" for v
      by (simp add: committed_page_def)
    then show ?thesis using rep m1 rec crash by (simp add: recoverable_def)
  qed
  then show "recoverable C h records m'" "?H i = [] \<Longrightarrow> page_img m' i = page_img m i"
    "is_ok r \<Longrightarrow> page_img m' i = committed_page (decided_commit ?ts resolutions) (?H i) (page_img m i)" by blast+
qed


section \<open>The log after recovery\<close>

text \<open>The records that end a transaction, and the room in the log for a number of them.\<close>

definition ending :: "wal_record_kind \<Rightarrow> bool" where
  "ending kind \<longleftrightarrow> kind = Commit \<or> kind = Abort \<or> kind = RollbackComplete"

definition log_room :: "nat \<Rightarrow> wal_manager \<Rightarrow> bool" where
  "log_room n w \<longleftrightarrow> unat (wm_next_lsn w) + 40 * n < 2 ^ 64 \<and> wm_next_offset w + 40 * n \<le> USIZE_MAX"

lemma log_append_tracks:
  assumes "log_append C t prev kind l = (Inr lsn, l')" "tracks C h rs (rl_wal l)" "ending kind"
  obtains r where "tracks C h (rs @ [r]) (rl_wal l')" "rec_lsn r = lsn" "rec_txn_id r = t" "rec_kind r = kind"
    "rl_appends l' = tl (rl_appends l)" "rl_flushes l' = rl_flushes l"
proof -
  let ?io = "case rl_appends l of [] \<Rightarrow> WalAppendDone | io # _ \<Rightarrow> io"
  obtain w where w: "wal_append C ?io t prev kind (rl_wal l) = (Inr lsn, w)" "l' = l\<lparr>rl_wal := w, rl_appends := tl (rl_appends l)\<rparr>"
    using assms(1) by (auto simp: log_append_def Let_def split: prod.splits)
  obtain r bytes b next_lsn next_offset where p: "prepare_append C t prev kind (rl_wal l) = Inr (r, bytes, b, next_lsn, next_offset)"
    "w = install_record r bytes b next_lsn next_offset (rl_wal l)" "lsn = rec_lsn r"
    using w(1) by (auto simp: wal_append_def split: sum.splits wal_append_io.splits if_splits)
  have "wf_kind kind" using assms(3) by (auto simp: ending_def)
  note q = prepare_append_Inr[OF assms(2) this p(1)]
  show thesis using that[of r] q(1,6) p(2,3) w(2) by simp
qed

lemma log_append_ok:
  assumes tr: "tracks C h rs (rl_wal l)" and io: "rl_appends l = []" and kind: "ending kind" and prev: "sc_last (scanned rs) t = prev"
    and seq: "\<And>lsn. validate_transaction_sequence lsn t (sc_states (scanned rs) t) kind = Inr ()" and room: "log_room (Suc n) (rl_wal l)"
  obtains r l' where "log_append C t prev kind l = (Inr (rec_lsn r), l')" "tracks C h (rs @ [r]) (rl_wal l')" "rec_txn_id r = t"
    "rec_kind r = kind" "rl_appends l' = []" "rl_flushes l' = rl_flushes l" "log_room n (rl_wal l')"
proof -
  let ?w = "rl_wal l"
  define r where "r = \<lparr>rec_lsn = wm_next_lsn ?w, rec_txn_id = t, rec_prev_lsn = prev, rec_kind = kind\<rparr>"
  note f = tracks_fields[OF tr]
  have len: "length (wal_bytes C r) = 40" "wf_kind (rec_kind r)"
    using length_wal_bytes[of r C] kind by (auto simp: r_def ending_def record_len_def wal_consts)
  have add: "checked_add_u64 (wm_next_lsn ?w) 40 = Some (wm_next_lsn ?w + 40)" "checked_add (wm_next_offset ?w) 40 = Some (wm_next_offset ?w + 40)"
    using room by (auto simp: log_room_def checked_add_u64_def checked_add_def)
  have images: "validate_page_images C lsn kind = Inr ()" "validate_transition_reservation C lsn t kind s = Inr None" "begin_next_txn_id t kind = Inr None" for lsn s
    using kind by (auto simp: ending_def validate_page_images_def validate_transition_reservation_def begin_next_txn_id_def)
  have prep: "prepare_append C t prev kind ?w = Inr (r, wal_bytes C r, None, wm_next_lsn ?w + 40, wm_next_offset ?w + 40)"
    using prev seq images add f(8,9) encode_wal_record_exact[OF len(2), of C] len(1)
    by (simp add: prepare_append_def Let_def r_def)
  let ?w' = "install_record r (wal_bytes C r) None (wm_next_lsn ?w + 40) (wm_next_offset ?w + 40) ?w"
  have app: "log_append C t prev kind l = (Inr (rec_lsn r), l\<lparr>rl_wal := ?w', rl_appends := []\<rparr>)"
    using io prep f(1) by (simp add: log_append_def wal_append_def ensure_healthy_def)
  have "wf_kind kind" using len(2) by (simp add: r_def)
  note q = prepare_append_Inr[OF tr this prep]
  have "unat (wm_next_lsn ?w + 40) = unat (wm_next_lsn ?w) + 40" using checked_add_u64_Some[OF add(1)] by simp
  then have "log_room n ?w'" using room by (auto simp: log_room_def install_record_def)
  then show thesis using that[of r "l\<lparr>rl_wal := ?w', rl_appends := []\<rparr>"] app q(6) by (simp add: r_def)
qed

text \<open>Records of other transactions change neither the state nor the end of the chain of a transaction.\<close>

lemma scanned_others:
  "t \<notin> rec_txn_id ` set ext \<Longrightarrow>
     sc_states (scanned (rs @ ext)) t = sc_states (scanned rs) t \<and> sc_last (scanned (rs @ ext)) t = sc_last (scanned rs) t"
proof (induction ext rule: rev_induct)
  case (snoc r ext)
  then have "scanned (rs @ ext @ [r]) = push_record r (scanned (rs @ ext))" by simp
  then show ?case using snoc by (simp add: push_record_def)
qed simp

lemma scanned_snoc: "sc_states (scanned (rs @ [r])) (rec_txn_id r) = Some (wal_state_after (rec_kind r))"
  "sc_last (scanned (rs @ [r])) (rec_txn_id r) = Some (rec_lsn r)"
  by (simp_all add: push_record_def)


lemma analysis_state:
  assumes "accepts C base 48 empty_scan rs"
  shows "case map_of (analyze rs) t of
      None \<Rightarrow> sc_states (scanned rs) t = None
    | Some a \<Rightarrow> (\<exists>s. sc_states (scanned rs) t = Some s \<and> (s = WalComplete \<longleftrightarrow> ta_committed a \<or> ta_rolled_back a))"
  using assms
proof (induction rs arbitrary: t rule: rev_induct)
  case Nil
  then show ?case by (simp add: analyze_def empty_scan_def)
next
  case (snoc r rs)
  have acc: "accepts C base 48 empty_scan rs" "accepted C (scanned rs) r" using snoc.prems by (simp_all add: accepts_append)
  have an: "analyze (rs @ [r]) = analyze_record r (analyze rs)" by (simp add: analyze_def)
  show ?case
  proof (cases "t = rec_txn_id r")
    case False
    have "map_of (analyze (rs @ [r])) t = map_of (analyze rs) t" using False by (simp add: an analyze_record_def Let_def update_conv')
    then show ?thesis using snoc.IH[OF acc(1), of t] scanned_others[of t "[r]" rs] False by (cases "map_of (analyze rs) t") simp_all
  next
    case True
    have "sc_states (scanned rs) t \<noteq> Some WalComplete"
      using acc(2) True by (auto simp: accepted_def validate_transaction_sequence_def validate_transaction_tag_sequence_def)
    then have open_before: "\<not> ta_committed a \<and> \<not> ta_rolled_back a" if "map_of (analyze rs) t = Some a" for a
      using snoc.IH[OF acc(1), of t] that by auto
    then show ?thesis
      using True scanned_snoc(1)[of rs r]
      by (auto simp: an analyze_record_def Let_def update_conv' split: option.splits wal_record_kind.splits)
  qed
qed

text \<open>The loser's last record becomes its abort record, unless it already is one.\<close>

lemma abort_loser_ok:
  assumes w: "tracks C h rs (rl_wal l)" "rl_appends l = []" "log_room (Suc (Suc n)) (rl_wal l)"
    and q: "sc_last (scanned rs) t = Some f" "sc_states (scanned rs) t = Some s" "s \<noteq> WalComplete" "rec_kind q = Abort \<longleftrightarrow> s = WalAborting"
  obtains a l1 pre where "(if rec_kind q = Abort then (Inr f, l) else log_append C t (Some f) Abort l) = (Inr a, l1)"
    "tracks C h (rs @ pre) (rl_wal l1)" "rl_appends l1 = []" "rl_flushes l1 = rl_flushes l" "log_room (Suc n) (rl_wal l1)"
    "rec_txn_id ` set pre \<subseteq> {t}" "sc_last (scanned (rs @ pre)) t = Some a" "sc_states (scanned (rs @ pre)) t = Some WalAborting"
proof (cases "rec_kind q = Abort")
  case True
  have "log_room (Suc n) (rl_wal l)" using w(3) by (simp add: log_room_def)
  then show thesis using that[of f l "[]"] True w(1,2) q by simp
next
  case False
  have seq: "validate_transaction_sequence lsn t (sc_states (scanned rs) t) Abort = Inr ()" for lsn
    using False q(2-4) by (cases s) (simp_all add: validate_transaction_sequence_def validate_transaction_tag_sequence_def)
  from log_append_ok[OF w(1,2) _ q(1) seq w(3)] obtain r l1 where
    "log_append C t (Some f) Abort l = (Inr (rec_lsn r), l1)" "tracks C h (rs @ [r]) (rl_wal l1)" "rec_txn_id r = t" "rec_kind r = Abort"
    "rl_appends l1 = []" "rl_flushes l1 = rl_flushes l" "log_room (Suc n) (rl_wal l1)"
    by (auto simp: ending_def)
  then show thesis using that[of "rec_lsn r" l1 "[r]"] False scanned_snoc[of rs r] by simp
qed

lemma complete_losers_ok:
  assumes "tracks C h rs (rl_wal l)" "rl_appends l = []" "distinct (map fst losers)" "log_room (2 * length losers) (rl_wal l)"
    and "\<And>t f. (t, f) \<in> set losers \<Longrightarrow> sc_last (scanned rs) t = Some f \<and>
      (\<exists>r s. record_by_lsn records f = Some r \<and> sc_states (scanned rs) t = Some s \<and> s \<noteq> WalComplete \<and> (rec_kind r = Abort \<longleftrightarrow> s = WalAborting))"
  shows "\<exists>c' l' ext. complete_losers C records losers c l = (Inr c', l') \<and> tracks C h (rs @ ext) (rl_wal l') \<and>
    rl_flushes l' = rl_flushes l \<and> rec_txn_id ` set ext \<subseteq> fst ` set losers \<and>
    (\<forall>t \<in> fst ` set losers. sc_states (scanned (rs @ ext)) t = Some WalComplete) \<and> c' = (if losers = [] then c else last_lsn (rs @ ext))"
  using assms
proof (induction losers arbitrary: rs l c)
  case Nil
  then show ?case by (intro exI[of _ c] exI[of _ l] exI[of _ "[]"]) simp
next
  case (Cons e losers)
  obtain t f where e: "e = (t, f)" by (cases e)
  obtain q s where q: "record_by_lsn records f = Some q" "sc_last (scanned rs) t = Some f" "sc_states (scanned rs) t = Some s"
    "s \<noteq> WalComplete" "rec_kind q = Abort \<longleftrightarrow> s = WalAborting"
    using Cons.prems(5)[of t f] e by auto
  have room: "log_room (Suc (Suc (2 * length losers))) (rl_wal l)" using Cons.prems(4) by simp
  obtain a l1 pre where ab: "(if rec_kind q = Abort then (Inr f, l) else log_append C t (Some f) Abort l) = (Inr a, l1)"
    "tracks C h (rs @ pre) (rl_wal l1)" "rl_appends l1 = []" "rl_flushes l1 = rl_flushes l" "log_room (Suc (2 * length losers)) (rl_wal l1)"
    "rec_txn_id ` set pre \<subseteq> {t}" "sc_last (scanned (rs @ pre)) t = Some a" "sc_states (scanned (rs @ pre)) t = Some WalAborting"
    by (rule abort_loser_ok[OF Cons.prems(1,2) room q(2-5)])
  have seq: "validate_transaction_sequence lsn t (sc_states (scanned (rs @ pre)) t) RollbackComplete = Inr ()" for lsn
    using ab(8) by (simp add: validate_transaction_sequence_def validate_transaction_tag_sequence_def)
  obtain r l2 where rb: "log_append C t (Some a) RollbackComplete l1 = (Inr (rec_lsn r), l2)" "tracks C h ((rs @ pre) @ [r]) (rl_wal l2)"
    "rec_txn_id r = t" "rec_kind r = RollbackComplete" "rl_appends l2 = []" "rl_flushes l2 = rl_flushes l1" "log_room (2 * length losers) (rl_wal l2)"
    by (rule log_append_ok[OF ab(2,3) _ ab(7) seq ab(5)]) (simp_all add: ending_def)
  let ?rs = "rs @ pre @ [r]"
  have others: "sc_states (scanned ?rs) u = sc_states (scanned rs) u \<and> sc_last (scanned ?rs) u = sc_last (scanned rs) u" if "u \<noteq> t" for u
    using scanned_others[of u "pre @ [r]" rs] ab(6) rb(3) that by auto
  have "sc_last (scanned ?rs) u = Some g \<and>
      (\<exists>r s. record_by_lsn records g = Some r \<and> sc_states (scanned ?rs) u = Some s \<and> s \<noteq> WalComplete \<and> (rec_kind r = Abort \<longleftrightarrow> s = WalAborting))"
    if "(u, g) \<in> set losers" for u g
  proof -
    have "u \<noteq> t" using that Cons.prems(3) e by force
    then show ?thesis using Cons.prems(5)[of u g] that others by simp
  qed
  then obtain c' l' ext where rest: "complete_losers C records losers (Some (rec_lsn r)) l2 = (Inr c', l')" "tracks C h (?rs @ ext) (rl_wal l')"
    "rl_flushes l' = rl_flushes l2" "rec_txn_id ` set ext \<subseteq> fst ` set losers"
    "\<forall>u \<in> fst ` set losers. sc_states (scanned (?rs @ ext)) u = Some WalComplete"
    "c' = (if losers = [] then Some (rec_lsn r) else last_lsn (?rs @ ext))"
    using Cons.IH[of ?rs l2 "Some (rec_lsn r)"] Cons.prems(3) rb(2,5,7) by auto
  have "sc_states (scanned (?rs @ ext)) t = Some WalComplete"
    using scanned_others[of t ext ?rs] rest(4) Cons.prems(3) e scanned_snoc(1)[of "rs @ pre" r] rb(3,4) by auto
  moreover have "c' = last_lsn (?rs @ ext)" using rest(4,6) by (auto simp: last_lsn_def)
  moreover have "complete_losers C records (e # losers) c l = (Inr c', l')" using e q(1) ab(1) rb(1) rest(1) by auto
  ultimately show ?case using rest e ab(4,6) rb(3,6) by (intro exI[of _ c'] exI[of _ l'] exI[of _ "pre @ [r] @ ext"]) auto
qed


lemma append_commits_tracks:
  assumes "append_commits C cs ts d l = (Inr (ts', d'), l')" "tracks C h rs (rl_wal l)" "rl_appends l = []"
  shows "\<exists>ext. tracks C h (rs @ ext) (rl_wal l') \<and> rec_txn_id ` set ext = snd ` set cs \<and> (\<forall>r \<in> set ext. rec_kind r = Commit) \<and>
    rl_flushes l' = rl_flushes l \<and> rl_appends l' = [] \<and> (d' = d \<or> (\<exists>r \<in> set ext. d' = Some (rec_lsn r)))"
  using assms
proof (induction cs arbitrary: ts d l rs)
  case Nil
  then show ?case by (intro exI[of _ "[]"]) simp
next
  case (Cons c cs)
  obtain previous t where c: "c = (previous, t)" by (cases c)
  obtain lsn l1 where step: "log_append C t (Some previous) Commit l = (Inr lsn, l1)"
    "append_commits C cs (AList.map_entry t (\<lambda>a. a\<lparr>ta_last_lsn := lsn, ta_committed := True\<rparr>) ts) (Some lsn) l1 = (Inr (ts', d'), l')"
    using Cons.prems(1) c by (auto split: prod.splits sum.splits)
  obtain r where r: "tracks C h (rs @ [r]) (rl_wal l1)" "rec_lsn r = lsn" "rec_txn_id r = t" "rec_kind r = Commit"
    "rl_appends l1 = []" "rl_flushes l1 = rl_flushes l"
    using log_append_tracks[OF step(1) Cons.prems(2)] Cons.prems(3) by (auto simp: ending_def)
  obtain ext where "tracks C h ((rs @ [r]) @ ext) (rl_wal l')" "rec_txn_id ` set ext = snd ` set cs" "\<forall>r \<in> set ext. rec_kind r = Commit"
    "rl_flushes l' = rl_flushes l1" "rl_appends l' = []" "d' = Some lsn \<or> (\<exists>r \<in> set ext. d' = Some (rec_lsn r))"
    using Cons.IH[OF step(2) r(1,5)] by blast
  then show ?case using r c by (intro exI[of _ "r # ext"]) auto
qed

lemma flush_last_ok:
  assumes "tracks C h rs (rl_wal l)" "rl_flushes l = []" "\<And>f. lsn = Some f \<Longrightarrow> \<exists>r \<in> set rs. rec_lsn r = f"
  obtains l' where "flush_last lsn l = (Inr (), l')" "tracks C h rs (rl_wal l')" "rl_flushes l' = []" "rl_appends l' = rl_appends l"
    "\<And>n. log_room n (rl_wal l') = log_room n (rl_wal l)" "\<And>f. lsn = Some f \<Longrightarrow> \<exists>d \<ge> f. wm_durable_lsn (rl_wal l') = Some d"
proof (cases lsn)
  case None
  then show thesis using that[of l] assms by (simp add: flush_last_def)
next
  case (Some f)
  let ?w = "rl_wal l"
  obtain r where r: "r \<in> set rs" "rec_lsn r = f" using assms(3) Some by blast
  have "chained rs" using assms(1) accepted_chained by (auto simp: tracks_def)
  then have sorted: "sorted_wrt (<) (map rec_lsn rs)" by (simp add: chained_def)
  obtain rs' q where rs: "rs = rs' @ [q]" using r(1) by (cases rs rule: rev_cases) auto
  have le: "f \<le> rec_lsn q" using sorted r rs by (auto simp: sorted_wrt_append less_imp_le)
  have wr: "wm_written_lsn ?w = Some (rec_lsn q)" using tracks_fields(7)[OF assms(1)] rs by (simp add: last_lsn_def)
  obtain w where w: "flush_through True True f ?w = (Inr (), w)" "\<exists>d \<ge> f. wm_durable_lsn w = Some d" "\<exists>d. w = ?w\<lparr>wm_durable_lsn := d\<rparr>"
  proof (cases "case wm_durable_lsn ?w of None \<Rightarrow> False | Some d \<Rightarrow> f \<le> d")
    case True
    then have "flush_through True True f ?w = (Inr (), ?w)" "\<exists>d \<ge> f. wm_durable_lsn ?w = Some d"
      using tracks_fields(1)[OF assms(1)] by (auto simp: flush_through_def ensure_healthy_def split: option.splits)
    then show thesis using that[of ?w] durable_self[of ?w] by blast
  next
    case False
    then have "flush_through True True f ?w = (Inr (), ?w\<lparr>wm_durable_lsn := Some (rec_lsn q)\<rparr>)"
      using tracks_fields(1)[OF assms(1)] wr le by (simp add: flush_through_def ensure_healthy_def)
    moreover have "\<exists>d \<ge> f. wm_durable_lsn (?w\<lparr>wm_durable_lsn := Some (rec_lsn q)\<rparr>) = Some d" using le by simp
    ultimately show thesis using that by blast
  qed
  obtain d where d: "w = ?w\<lparr>wm_durable_lsn := d\<rparr>" using w(3) by blast
  have "flush_last lsn l = (Inr (), l\<lparr>rl_wal := w, rl_flushes := []\<rparr>)"
    using w(1) assms(2) Some by (simp add: flush_last_def log_flush_def)
  moreover have "log_room n w = log_room n ?w" "tracks C h rs w" for n
    using tracks_durable[OF assms(1), of d] by (simp_all add: d log_room_def)
  ultimately show thesis using that[of "l\<lparr>rl_wal := w, rl_flushes := []\<rparr>"] w(2) Some by simp
qed

lemma last_record_state:
  assumes "sc_last (scanned rs) t = Some f"
  shows "\<exists>r \<in> set rs. rec_lsn r = f \<and> rec_txn_id r = t \<and> sc_states (scanned rs) t = Some (wal_state_after (rec_kind r))"
  using assms
proof (induction rs rule: rev_induct)
  case Nil
  then show ?case by (simp add: empty_scan_def)
next
  case (snoc q rs)
  show ?case
  proof (cases "t = rec_txn_id q")
    case True
    then show ?thesis using snoc.prems scanned_snoc[of rs q] by auto
  next
    case False
    then show ?thesis using snoc scanned_others[of t "[q]" rs] by auto
  qed
qed

lemma commits_complete:
  "(\<And>r. r \<in> set ext \<Longrightarrow> rec_kind r = Commit) \<Longrightarrow> t \<in> rec_txn_id ` set ext \<Longrightarrow> sc_states (scanned (rs @ ext)) t = Some WalComplete"
proof (induction ext rule: rev_induct)
  case (snoc q ext)
  show ?case
  proof (cases "t = rec_txn_id q")
    case True
    then show ?thesis using scanned_snoc(1)[of "rs @ ext" q] snoc.prems(1)[of q] by simp
  next
    case False
    then have "sc_states (scanned (rs @ ext)) t = Some WalComplete" using snoc by auto
    then show ?thesis using scanned_others[of t "[q]" "rs @ ext"] False by simp
  qed
qed simp

lemma no_losers:
  assumes "log_accepted C h rs" "\<And>t. sc_states (scanned rs) t \<noteq> None \<Longrightarrow> sc_states (scanned rs) t = Some WalComplete"
  shows "losers_of (analyze rs) = []"
proof -
  have "accepts C (wh_base_lsn h) 48 empty_scan rs" using assms(1) by (simp add: log_accepted_def)
  note st = analysis_state[OF this]
  have "loser_set (analyze rs) = {}" using st assms(2) by (force simp: loser_set_def split: option.splits)
  moreover have "distinct (map fst (analyze rs))" using analyze_last by blast
  ultimately show ?thesis using set_losers_of[of "analyze rs"] by auto
qed


lemma loser_facts:
  assumes "log_accepted C h records" "analyzed records ts" "(t, f) \<in> set (losers_of ts)" "t \<notin> rec_txn_id ` set ext"
    and known: "\<And>a. map_of ts t = Some a \<Longrightarrow> \<exists>b. map_of (analyze records) t = Some b \<and> (ta_committed b \<longrightarrow> ta_committed a) \<and> (ta_rolled_back b \<longleftrightarrow> ta_rolled_back a)"
  shows "sc_last (scanned (records @ ext)) t = Some f \<and>
    (\<exists>r s. record_by_lsn records f = Some r \<and> sc_states (scanned (records @ ext)) t = Some s \<and> s \<noteq> WalComplete \<and> (rec_kind r = Abort \<longleftrightarrow> s = WalAborting))"
proof -
  have d: "distinct (map fst ts)" using assms(2) by (simp add: analyzed_def)
  obtain a where a: "map_of ts t = Some a" "ta_last_lsn a = f" "\<not> ta_committed a" "\<not> ta_rolled_back a"
    using assms(3) unfolding set_losers_of[OF d] by (auto simp: loser_set_def simp del: map_of_eq_Some_iff)
  then have last: "sc_last (scanned records) t = Some f" using assms(2) unfolding analyzed_def by blast
  obtain r where r: "r \<in> set records" "rec_lsn r = f" "rec_txn_id r = t" "sc_states (scanned records) t = Some (wal_state_after (rec_kind r))"
    using last_record_state[OF last] by blast
  obtain pre post where "records = pre @ r # post" using split_list[OF r(1)] by blast
  then have find: "record_by_lsn records f = Some r" using record_by_lsn_split[of pre r post] accepted_chained[OF assms(1)] r(2) by simp
  have "accepts C (wh_base_lsn h) 48 empty_scan records" using assms(1) by (simp add: log_accepted_def)
  from analysis_state[OF this, of t] known[OF a(1)] a(3,4) r(4) have "wal_state_after (rec_kind r) \<noteq> WalComplete" by auto
  moreover have "rec_kind r = Abort \<longleftrightarrow> wal_state_after (rec_kind r) = WalAborting" by (cases "rec_kind r") simp_all
  ultimately show ?thesis using find last r(4) scanned_others[OF assms(4), of records] by simp
qed

lemma finish_recovery_ok:
  assumes log: "log_accepted C h records" and ts: "analyzed records ts" "same_but_commits (rec_txn_id ` set ext) (analyze records) ts"
    and tr: "tracks C h (records @ ext) (rl_wal l)" "\<forall>r \<in> set ext. rec_kind r = Commit"
    and io: "rl_appends l = []" "rl_flushes l = []" and room: "log_room (2 * length (losers_of ts)) (rl_wal l)"
  obtains l' new where "finish_recovery C records ts l = (Inr (), l')" "tracks C h (records @ new) (rl_wal l')" "losers_of (analyze (records @ new)) = []"
proof -
  have rel: "\<exists>b. map_of (analyze records) t = Some b \<and> (ta_committed a \<longleftrightarrow> ta_committed b \<or> t \<in> rec_txn_id ` set ext) \<and> (ta_rolled_back a \<longleftrightarrow> ta_rolled_back b)"
    if "map_of ts t = Some a" for t a
    using ts(2)[unfolded same_but_commits_def, THEN spec[of _ t]] that by (auto split: option.splits)
  have d: "distinct (map fst ts)" using ts(1) by (simp add: analyzed_def)
  have loser: "t \<in> loser_set ts \<longleftrightarrow> t \<in> fst ` set (losers_of ts)" for t
    unfolding set_losers_of[OF d] by (force simp: loser_set_def)
  then have losers: "fst ` set (losers_of ts) = loser_set ts" by blast
  have not_ext: "t \<notin> rec_txn_id ` set ext" if "t \<in> loser_set ts" for t
    using that rel by (auto simp: loser_set_def simp del: map_of_eq_Some_iff)
  have facts: "sc_last (scanned (records @ ext)) t = Some f \<and> (\<exists>r s. record_by_lsn records f = Some r \<and>
      sc_states (scanned (records @ ext)) t = Some s \<and> s \<noteq> WalComplete \<and> (rec_kind r = Abort \<longleftrightarrow> s = WalAborting))"
    if "(t, f) \<in> set (losers_of ts)" for t f
  proof (rule loser_facts[OF log ts(1) that])
    show "t \<notin> rec_txn_id ` set ext" using not_ext loser[of t] that by force
  qed (use rel in blast)
  obtain c l1 ext' where cl: "complete_losers C records (losers_of ts) None l = (Inr c, l1)" "tracks C h ((records @ ext) @ ext') (rl_wal l1)"
    "rl_flushes l1 = []" "rec_txn_id ` set ext' \<subseteq> loser_set ts" "\<forall>t \<in> loser_set ts. sc_states (scanned ((records @ ext) @ ext')) t = Some WalComplete"
    "c = (if losers_of ts = [] then None else last_lsn ((records @ ext) @ ext'))"
    using complete_losers_ok[OF tr(1) io(1) distinct_losers_of[OF d] room facts, of None] unfolding losers io(2) by blast
  have "\<exists>r \<in> set ((records @ ext) @ ext'). rec_lsn r = f" if "c = Some f" for f
    using that cl(6) last_in_set[of "(records @ ext) @ ext'"] by (metis last_lsn_def option.distinct(1) option.inject)
  then obtain l' where fl: "flush_last c l1 = (Inr (), l')" "tracks C h ((records @ ext) @ ext') (rl_wal l')"
    using flush_last_ok[OF cl(2,3)] by blast
  have complete: "sc_states (scanned ((records @ ext) @ ext')) t = Some WalComplete" if some: "sc_states (scanned ((records @ ext) @ ext')) t \<noteq> None" for t
  proof (cases "t \<in> loser_set ts")
    case False
    then have same: "sc_states (scanned ((records @ ext) @ ext')) t = sc_states (scanned (records @ ext)) t"
      using cl(4) scanned_others[of t ext' "records @ ext"] by blast
    show ?thesis
    proof (cases "t \<in> rec_txn_id ` set ext")
      case True
      then show ?thesis using same commits_complete[of ext t records] tr(2) by simp
    next
      case out: False
      have "accepts C (wh_base_lsn h) 48 empty_scan records" using log by (simp add: log_accepted_def)
      note st = analysis_state[OF this, of t]
      have old: "sc_states (scanned ((records @ ext) @ ext')) t = sc_states (scanned records) t"
        using same scanned_others[OF out, of records] by simp
      obtain b where b: "map_of (analyze records) t = Some b" using st some unfolding old by (cases "map_of (analyze records) t") auto
      then obtain a where "map_of ts t = Some a" using ts(2)[unfolded same_but_commits_def, THEN spec[of _ t]] by auto
      then have "ta_committed b \<or> ta_rolled_back b" using rel[of t a] b False out by (auto simp: loser_set_def simp del: map_of_eq_Some_iff)
      then show ?thesis using st b unfolding old by auto
    qed
  qed (use cl(5) in blast)
  have "log_accepted C h ((records @ ext) @ ext')" using fl(2) by (simp add: tracks_def)
  from no_losers[OF this complete] show thesis using that[of l' "ext @ ext'"] cl(1) fl by (simp add: finish_recovery_def)
qed

lemma recovery_succeeds:
  assumes rec: "recoverable C h records m" and tr: "tracks C h records (rl_wal l)"
    and io: "pm_io m = []" "rl_appends l = []" "rl_flushes l = []"
    and ap: "apply_prepared_resolutions C (analyze records) resolutions l = (Inr ts, l1)" and room: "log_room (2 * length (losers_of ts)) (rl_wal l1)"
    and valid: "validate_recovery C records ts m = Some (Inr starts)"
  shows "\<exists>report m' l' new. recover_inner C m l records truncated resolutions = Some (Inr report, m', l') \<and>
    tracks C h (records @ new) (rl_wal l') \<and> losers_of (analyze (records @ new)) = []"
proof -
  have log: "log_accepted C h records" "\<And>r. r \<in> set records \<Longrightarrow> \<not> is_transition (rec_kind r)"
    and lin: "\<And>i. lineage (change_history (analyze records) records i)" "\<And>i. change_history (analyze records) records i \<noteq> [] \<Longrightarrow> page_fits i"
    and disk: "crash_pages (analyze records) records m"
    using rec by (auto simp: recoverable_def)
  have d: "distinct (map fst (analyze records))" using analyze_last by blast
  note dec = resolutions_decide[OF ap d]
  have H: "change_history ts records = change_history (analyze records) records" by (rule history_cong[OF dec(1)])
  have an: "analyzed records ts" by (rule resolutions_analyzed[OF ap analyzed_analyze])
  obtain r1 m1 where rep: "repair_pages C records ts starts m = Some (r1, m1)" "phase_ok m r1 m1"
    by (rule repair_pages_correct[of C h records ts m starts, unfolded H, OF log lin an dec(2)[OF covers_analyze] _ valid])
      (use disk in \<open>auto simp: crash_pages_def H\<close>)
  obtain n1 n2 where ok: "r1 = Inr (n1, n2)" using rep(2) io(1) by (cases r1) (auto simp: phase_ok_def is_ok_def)
  obtain by_physical dd l0 where sp:
    "append_commits C (sort (map (\<lambda>(t, a). (ta_last_lsn a, t)) (filter (to_commit (map_of by_physical)) (analyze records)))) (analyze records) None l = (Inr (ts, dd), l0)"
    "flush_last dd l0 = (Inr (), l1)"
    by (rule resolutions_split[OF ap d]) blast
  obtain ext where ext: "tracks C h (records @ ext) (rl_wal l0)"
    "rec_txn_id ` set ext = snd ` set (sort (map (\<lambda>(t, a). (ta_last_lsn a, t)) (filter (to_commit (map_of by_physical)) (analyze records))))"
    "\<forall>r \<in> set ext. rec_kind r = Commit" "rl_flushes l0 = []" "rl_appends l0 = []" "dd = None \<or> (\<exists>r \<in> set ext. dd = Some (rec_lsn r))"
    using append_commits_tracks[OF sp(1) tr io(2)] unfolding io(3) by blast
  have same: "same_but_commits (rec_txn_id ` set ext) (analyze records) ts" using append_commits_same[OF sp(1)] by (simp only: ext(2))
  have "\<exists>r \<in> set (records @ ext). rec_lsn r = f" if "dd = Some f" for f using ext(6) that by auto
  then have l1: "tracks C h (records @ ext) (rl_wal l1)" "rl_flushes l1 = []" "rl_appends l1 = []"
    using flush_last_ok[OF ext(1,4), of dd] sp(2) ext(5) by (metis prod.inject)+
  have "\<exists>r \<in> set (records @ ext). rec_lsn r = f" if "last_lsn records = Some f" for f
    using that last_in_set[of records] by (force simp: last_lsn_def split: if_splits)
  then obtain l2 where l2: "flush_last (last_lsn records) l1 = (Inr (), l2)" "tracks C h (records @ ext) (rl_wal l2)" "rl_flushes l2 = []"
    "rl_appends l2 = []" "log_room (2 * length (losers_of ts)) (rl_wal l2)"
    using flush_last_ok[OF l1(1,2), of "last_lsn records"] l1(3) room by metis
  obtain l' new where fin: "finish_recovery C records ts l2 = (Inr (), l')" "tracks C h (records @ new) (rl_wal l')" "losers_of (analyze (records @ new)) = []"
    by (rule finish_recovery_ok[OF log(1) an same l2(2) ext(3) l2(4,3,5)])
  have "\<exists>report. recover_inner C m l records truncated resolutions = Some (Inr report, m1, l')"
    using ap valid l2(1) rep(1) ok fin(1) by (simp add: recover_inner_def)
  then show ?thesis using fin(2,3) by blast
qed


section \<open>A sample crash\<close>

text \<open>
  Transaction 1 has created page 1 and committed, transaction 2 has changed the page and not committed,
  and the changed page has reached the file.
\<close>

definition sample_log :: "byte list \<Rightarrow> byte list \<Rightarrow> wal_record list" where
  "sample_log a b =
     [\<lparr>rec_lsn = 1, rec_txn_id = 1, rec_prev_lsn = None, rec_kind = Begin\<rparr>,
      \<lparr>rec_lsn = 41, rec_txn_id = 1, rec_prev_lsn = Some 1, rec_kind = PageUpdate 1 (replicate 4096 0) a\<rparr>,
      \<lparr>rec_lsn = 8281, rec_txn_id = 1, rec_prev_lsn = Some 41, rec_kind = Commit\<rparr>,
      \<lparr>rec_lsn = 8321, rec_txn_id = 2, rec_prev_lsn = None, rec_kind = Begin\<rparr>,
      \<lparr>rec_lsn = 8361, rec_txn_id = 2, rec_prev_lsn = Some 8321, rec_kind = PageUpdate 1 a b\<rparr>]"

definition sample_header :: wal_header where
  "sample_header = \<lparr>wh_generation = 1, wh_base_lsn = 1, wh_checkpoint_lsn = None, wh_next_txn_id = 1\<rparr>"

definition sample_pages :: "byte list \<Rightarrow> page_manager" where
  "sample_pages b = \<lparr>pm_file = replicate 4096 0 @ b, pm_count = 2, pm_io = []\<rparr>"

text \<open>An image of a page with a given page LSN.\<close>

definition sample_image :: "crc \<Rightarrow> PageId \<Rightarrow> Lsn \<Rightarrow> byte list \<Rightarrow> bool" where
  "sample_image C i lsn bs \<longleftrightarrow> length bs = 4096 \<and>
     (\<exists>h. header C (page_at i bs) = Inr h \<and> hdr_page_type h = IndexCatalogPage \<and> hdr_page_lsn h = Some lsn)"

lemma sample_image_exists:
  assumes "lsn \<noteq> 0"
  shows "\<exists>bs. sample_image C i lsn bs"
proof -
  obtain q h where q: "page_id q = i" "header C q = Inr h" "hdr_page_type h = IndexCatalogPage" "hdr_page_lsn h = Some lsn" "wf_page q"
    by (rule payload_page[of IndexCatalogPage "Some lsn" "[]" i C]) (use assms in auto)
  have "page_at i (page_bytes q) = q" using q(1) by (simp add: page_at_def)
  then have "sample_image C i lsn (page_bytes q)" using q by (simp add: sample_image_def wf_page_def)
  then show ?thesis by blast
qed

lemma sample_image_facts:
  assumes "sample_image C i lsn bs"
  shows "length bs = 4096" "page_lsn C (page_at i bs) = Inr (Some lsn)" "allocation_generation C (page_at i bs) = Inr None"
    "\<not> all_zero_bytes bs" "list_ex (\<lambda>b. b \<noteq> 0) bs"
proof -
  obtain h where h: "length bs = 4096" "header C (page_at i bs) = Inr h" "hdr_page_type h = IndexCatalogPage" "hdr_page_lsn h = Some lsn"
    using assms by (auto simp: sample_image_def)
  have nz: "\<not> list_all (\<lambda>b. b = 0) bs" using valid_page_nonzero[OF h(2)] by (simp add: page_at_def)
  then show "length bs = 4096" "page_lsn C (page_at i bs) = Inr (Some lsn)" "allocation_generation C (page_at i bs) = Inr None"
    "\<not> all_zero_bytes bs" "list_ex (\<lambda>b. b \<noteq> 0) bs"
    using h by (auto simp: page_lsn_def allocation_generation_def all_zero_bytes_def page_at_def list_ex_iff list_all_iff)
qed

lemma sample_updates:
  assumes "sample_image C i lsn b"
  shows "validate_page_images C lsn (PageUpdate i (replicate 4096 0) b) = Inr ()"
    "sample_image C i lsn' a \<Longrightarrow> lsn' < lsn \<Longrightarrow> validate_page_images C lsn (PageUpdate i a b) = Inr ()"
proof -
  note fb = sample_image_facts[OF assms, unfolded page_at_def]
  show "validate_page_images C lsn (PageUpdate i (replicate 4096 0) b) = Inr ()"
    using fb by (simp add: validate_page_images_def validate_update_images_def image_err_def list_ex_iff)
  assume a: "sample_image C i lsn' a" and lt: "lsn' < lsn"
  note fa = sample_image_facts[OF a, unfolded page_at_def]
  obtain h h' where "header C \<lparr>page_id = i, page_bytes = a\<rparr> = Inr h" "header C \<lparr>page_id = i, page_bytes = b\<rparr> = Inr h'"
    "hdr_page_type h = IndexCatalogPage" "hdr_page_type h' = IndexCatalogPage"
    using assms a by (auto simp: sample_image_def page_at_def)
  then show "validate_page_images C lsn (PageUpdate i a b) = Inr ()"
    using fa fb lt
    by (simp add: validate_page_images_def validate_update_images_def image_err_def validate_allocation_def validate_btree_generation_def not_le)
qed

lemma plain_images: "page_change kind = None \<Longrightarrow> validate_page_images C lsn kind = Inr ()"
  by (cases kind) (simp_all add: validate_page_images_def)

text \<open>The rules that evaluate the checks of a scan on the records of a sample.\<close>

lemmas accept_simps = accepted_def push_record_def empty_scan_def logical_lsn_def WAL_HEADER_SIZE_def checked_sub_def
  checked_add_u64_def record_len_def wal_consts validate_transaction_sequence_def validate_transaction_tag_sequence_def
  validate_transition_reservation_def is_ok_def plain_images

lemma sample_accepted:
  assumes "accepts C 1 48 empty_scan rs" "length rs < 1000"
  shows "log_accepted C sample_header rs"
proof -
  have wf: "wf_kind (rec_kind r)" if "r \<in> set rs" for r using accepts_wf[OF assms(1) that] .
  have "record_len r \<le> 8240" for r using record_len_cases[of r] by auto
  then have "sum_list (map record_len rs) \<le> length rs * 8240" by (induction rs) (simp_all add: add_mono)
  then have "length (log_content C sample_header rs) \<le> USIZE_MAX"
    using length_log_content[of rs C sample_header] wf assms(2) by (simp add: USIZE_MAX_def)
  then show ?thesis using assms(1) by (simp add: log_accepted_def sample_header_def wal_header_ok_def validate_wal_header_def)
qed

lemma sample_log_accepted:
  assumes "sample_image C 1 41 a" "sample_image C 1 8361 b"
  shows "log_accepted C sample_header (sample_log a b)"
proof (rule sample_accepted)
  show "accepts C 1 48 empty_scan (sample_log a b)"
    using sample_updates(1)[OF assms(1)] sample_updates(2)[OF assms(2,1)] assms[THEN sample_image_facts(1)]
    by (simp add: sample_log_def accept_simps)
qed (simp add: sample_log_def)

lemma sample_analysis:
  "analyze (sample_log a b) =
     [(1, \<lparr>ta_last_lsn = 8281, ta_committed = True, ta_aborting = False, ta_rolled_back = False, ta_prepared = None\<rparr>),
      (2, \<lparr>ta_last_lsn = 8361, ta_committed = False, ta_aborting = False, ta_rolled_back = False, ta_prepared = None\<rparr>)]"
  by (simp add: sample_log_def analyze_def analyze_record_def)

lemma sample_history:
  "change_history (analyze (sample_log a b)) (sample_log a b) i =
     (if i = 1 then [\<lparr>rec_lsn = 41, rec_txn_id = 1, rec_prev_lsn = Some 1, rec_kind = PageUpdate 1 (replicate 4096 0) a\<rparr>,
        \<lparr>rec_lsn = 8361, rec_txn_id = 2, rec_prev_lsn = Some 8321, rec_kind = PageUpdate 1 a b\<rparr>] else [])"
  unfolding sample_analysis by (simp add: change_history_def sample_log_def rolled_back_in_def)

lemma sample_page_1: "length b = 4096 \<Longrightarrow> page_img (sample_pages b) 1 = Some b"
  by (simp add: page_img_def sample_pages_def slice_def)

lemma sample_recoverable:
  assumes "sample_image C 1 41 a" "sample_image C 1 8361 b"
  shows "recoverable C sample_header (sample_log a b) (sample_pages b)"
proof -
  note fb = sample_image_facts[OF assms(2)]
  have "crash_pages (analyze (sample_log a b)) (sample_log a b) (sample_pages b)"
    using sample_page_1[OF fb(1)] fb(1)
    by (auto simp: crash_pages_def sample_history wf_pages_def atomic_io_def sample_pages_def after_image_def USIZE_MAX_def)
  moreover have "\<forall>r \<in> set (sample_log a b). \<not> is_transition (rec_kind r)" by (simp add: sample_log_def)
  ultimately show ?thesis
    using sample_log_accepted[OF assms]
    by (simp add: recoverable_def sample_history page_fits_def USIZE_MAX_def before_image_def after_image_def)
qed

lemma sample_valid:
  assumes "sample_image C 1 41 a" "sample_image C 1 8361 b"
  shows "validate_recovery C (sample_log a b) (analyze (sample_log a b)) (sample_pages b) = Some (Inr Map.empty)"
proof -
  let ?rs = "sample_log a b" and ?ts = "analyze (sample_log a b)"
  have ch: "chained ?rs" by (rule accepted_chained[OF sample_log_accepted[OF assms]])
  have ls: "loser_set ?ts = {2}" by (auto simp: loser_set_def sample_analysis)
  have "undo_walk undo_count ?rs (undo_heap_of (losers_of ?ts)) 2 = Some (Inr (), 2)"
    unfolding undo_walk_losers[OF ch analyzed_analyze] ls
    using sample_image_facts(4)[OF assms(1)] by (simp add: sample_log_def undo_count_def)
  moreover have "redo_topology ?ts ?rs 2 = Inr 2" "rolled_back_topology ?ts 2 Map.empty ?rs = Inr ()" "no_winner_after ?ts Map.empty ?rs = Inr ()"
    unfolding sample_analysis by (simp_all add: sample_log_def rolled_back_in_def reject_metadata_page_def)
  moreover have "transition_redo_starts C (sample_pages b) ?rs ?ts = Inr Map.empty"
    by (rule no_transition_starts) (auto simp: sample_log_def)
  ultimately show ?thesis
    by (simp add: validate_recovery_def validate_no_winner_depends_on_loser_def validate_page_topology_def sample_pages_def)
qed

lemma sample_resolutions: "apply_prepared_resolutions C (analyze (sample_log a b)) None l = (Inr (analyze (sample_log a b)), l)"
  unfolding sample_analysis by (simp add: apply_prepared_resolutions_def resolve_one_def flush_last_def)

lemma sample_tracks:
  assumes "sample_image C 1 41 a" "sample_image C 1 8361 b"
  shows "\<exists>w. tracks C sample_header (sample_log a b) w \<and> log_room 2 w"
proof -
  let ?rs = "sample_log a b" and ?content = "log_content C sample_header (sample_log a b)"
  have len: "length ?content = 16648"
    using log_accepted_len[OF sample_log_accepted[OF assms]] by (simp add: sample_log_def record_len_def wal_consts)
  have "logical_lsn (wh_base_lsn sample_header) 16648 = Inr 16601"
    by (simp add: sample_header_def logical_lsn_def WAL_HEADER_SIZE_def checked_sub_def checked_add_u64_def)
  moreover have "scan_next_txn (wh_next_txn_id sample_header) ?rs = Inr 3"
    by (simp add: scan_next_txn_def max_txn_id_def sample_log_def checked_add_u64_def)
  ultimately have "\<exists>w. from_scan ?content sample_header ?rs (length ?content) = Inr w \<and> wm_file w = ?content \<and> wm_durable_lsn w = None \<and>
      wm_next_lsn w = 16601 \<and> wm_next_offset w = 16648"
    by (simp add: from_scan_exact len)
  then obtain w where w: "from_scan ?content sample_header ?rs (length ?content) = Inr w" "wm_file w = ?content" "wm_durable_lsn w = None"
    "wm_next_lsn w = 16601" "wm_next_offset w = 16648" by blast
  have "w\<lparr>wm_durable_lsn := None\<rparr> = w" using w(3) by (metis wal_manager.update_convs(9) wal_manager.surjective)
  then have "tracks C sample_header ?rs w" using w sample_log_accepted[OF assms] by (simp add: tracks_def)
  then show ?thesis using w(4,5) by (auto simp: log_room_def USIZE_MAX_def)
qed


lemma recovery_total:
  assumes "log_accepted C h records"
  shows "\<exists>outcome. recover_inner C m l records truncated resolutions = Some outcome"
proof -
  note ch = accepted_chained[OF assms]
  obtain x l1 where ap: "apply_prepared_resolutions C (analyze records) resolutions l = (x, l1)" by fastforce
  show ?thesis
  proof (cases x)
    case (Inr ts)
    have an: "analyzed records ts" using resolutions_analyzed[OF _ analyzed_analyze] ap Inr by blast
    obtain v where v: "validate_recovery C records ts m = Some v" using validate_recovery_total[OF ch an] by blast
    obtain y l2 where fl: "flush_last (last_lsn records) l1 = (y, l2)" by fastforce
    show ?thesis
    proof (cases v)
      case st: (Inr starts)
      obtain r m' where "repair_pages C records ts starts m = Some (r, m')" using repair_pages_total[OF ch an] by blast
      then show ?thesis using ap Inr v fl st by (cases y; cases r) (simp_all add: recover_inner_def split: sum.splits prod.splits)
    qed (use ap Inr v in \<open>simp add: recover_inner_def\<close>)
  qed (use ap in \<open>simp add: recover_inner_def\<close>)
qed

section \<open>Correctness\<close>

text \<open>
  C2. Recovery restores exactly the committed state of the pages. Given a log that a scan accepts (without
  allocation transitions, each record of a page starting from the image its predecessor left) and a page
  file in which a crash has left every page at any one of its versions, a recovery that succeeds leaves
  each page at the image after its last record of a committed transaction - committed in the log, or
  prepared and decided so by a resolution - and, when there is none, at the image before its first record:
  pages that only losers created are gone again. Pages without records are not touched.
\<close>

theorem recovery_restores_committed:
  assumes "recoverable C h records m" "recover_inner C m l records truncated resolutions = Some (Inr report, m', l')"
  shows "page_img m' i =
    committed_page (decided_commit (analyze records) resolutions) (change_history (analyze records) records i) (page_img m i)"
  by (rule recovery_pages(3)[OF assms]) (simp add: is_ok_def)

theorem recovery_restores_committed_witness:
  "\<exists>a b l report m' l'. a \<noteq> b \<and> recover_inner sample_crc (sample_pages b) l (sample_log a b) False None = Some (Inr report, m', l') \<and>
     page_img (sample_pages b) 1 = Some b \<and> page_img m' 1 = Some a"
proof -
  obtain a b where ab: "sample_image sample_crc 1 41 a" "sample_image sample_crc 1 8361 b" using sample_image_exists by force
  obtain w where w: "tracks sample_crc sample_header (sample_log a b) w" "log_room 2 w" using sample_tracks[OF ab] by blast
  let ?l = "\<lparr>rl_wal = w, rl_appends = [], rl_flushes = []\<rparr>"
  have losers: "length (losers_of (analyze (sample_log a b))) = 1" by (simp add: losers_of_def sample_analysis)
  have "\<exists>report m' l' new. recover_inner sample_crc (sample_pages b) ?l (sample_log a b) False None = Some (Inr report, m', l') \<and>
      tracks sample_crc sample_header (sample_log a b @ new) (rl_wal l') \<and> losers_of (analyze (sample_log a b @ new)) = []"
    by (rule recovery_succeeds[OF sample_recoverable[OF ab] _ _ _ _ sample_resolutions _ sample_valid[OF ab]])
      (use w losers in \<open>simp_all add: sample_pages_def\<close>)
  then obtain report m' l' where r: "recover_inner sample_crc (sample_pages b) ?l (sample_log a b) False None = Some (Inr report, m', l')" by blast
  have "decided_commit (analyze (sample_log a b)) None 1" "\<not> decided_commit (analyze (sample_log a b)) None 2"
    by (simp_all add: decided_commit_def sample_analysis)
  then have "page_img m' 1 = Some a"
    using recovery_restores_committed[OF sample_recoverable[OF ab] r, of 1] by (simp add: committed_page_def sample_history after_image_def)
  moreover have "a \<noteq> b" using sample_image_facts(2)[OF ab(1)] sample_image_facts(2)[OF ab(2)] by auto
  ultimately show ?thesis using r sample_page_1 sample_image_facts(1)[OF ab(2)] by blast
qed

text \<open>
  C3. Recovery can be interrupted and run again. Whatever it returns, also when the page file or the log
  fails under it after some of the pages have been rewritten, added or removed, the pages it leaves are
  again pages that a crash may leave under the same log, and a recovery from them leads to the same
  committed images as a recovery from the pages it started with.
\<close>

theorem recovery_restartable:
  assumes "recoverable C h records m" "recover_inner C m l records truncated resolutions = Some (r, m', l')"
  shows "recoverable C h records m' \<and>
    committed_page won (change_history (analyze records) records i) (page_img m' i) =
    committed_page won (change_history (analyze records) records i) (page_img m i)"
  using recovery_pages(1,2)[OF assms] by (auto simp: committed_page_def split: list.splits)

theorem recovery_restartable_witness:
  "\<exists>a b l r m' l'. recover_inner sample_crc (sample_pages b\<lparr>pm_io := [PageIoFailed 0]\<rparr>) l (sample_log a b) False None = Some (r, m', l') \<and>
     recoverable sample_crc sample_header (sample_log a b) m'"
proof -
  obtain a b where ab: "sample_image sample_crc 1 41 a" "sample_image sample_crc 1 8361 b" using sample_image_exists by force
  let ?m = "sample_pages b\<lparr>pm_io := [PageIoFailed 0]\<rparr>" and ?rs = "sample_log a b"
  have m: "recoverable sample_crc sample_header ?rs ?m"
  proof -
    have "page_img ?m = page_img (sample_pages b)" "wf_pages ?m = wf_pages (sample_pages b)" by (simp_all add: page_img_def fun_eq_iff wf_pages_def)
    then show ?thesis using sample_recoverable[OF ab] by (simp add: recoverable_def crash_pages_def atomic_io_def)
  qed
  obtain w where "tracks sample_crc sample_header ?rs w" using sample_tracks[OF ab] by blast
  obtain r m' l' where "recover_inner sample_crc ?m \<lparr>rl_wal = w, rl_appends = [], rl_flushes = []\<rparr> ?rs False None = Some (r, m', l')"
    using recovery_total[OF sample_log_accepted[OF ab]] by (metis prod_cases3)
  then show ?thesis using recovery_restartable[OF m] by blast
qed

text \<open>
  C11. Recovery ends. For every log that a scan accepts, whatever the page file holds, whatever resolutions
  are given and however the page file and the log fail, the two walks along the backward chains of the
  unfinished transactions come to an end, and recovery returns a report or an error.
\<close>

theorem recovery_terminates:
  assumes "log_accepted C h records"
  shows "\<exists>outcome. recover_inner C m l records truncated resolutions = Some outcome"
  by (rule recovery_total[OF assms])

theorem recovery_terminates_witness:
  "\<exists>a b. log_accepted sample_crc sample_header (sample_log a b) \<and>
     (\<forall>l. \<exists>outcome. recover_inner sample_crc (sample_pages b) l (sample_log a b) True None = Some outcome)"
proof -
  obtain a b where "sample_image sample_crc 1 41 a" "sample_image sample_crc 1 8361 b" using sample_image_exists by force
  then have "log_accepted sample_crc sample_header (sample_log a b)" by (rule sample_log_accepted)
  with recovery_terminates[OF this] show ?thesis by blast
qed

text \<open>
  C10. Recovery succeeds and finishes the losers. When the log matches its file and neither file fails, when
  the resolutions of the prepared transactions are accepted, the checks before redo pass and the log has
  room for two records per unfinished transaction, recovery returns a report; the log then holds the old
  records and new ones after which no transaction is unfinished.
\<close>

theorem recovery_completes:
  assumes "recoverable C h records m" "tracks C h records (rl_wal l)" "pm_io m = []" "rl_appends l = []" "rl_flushes l = []"
    and "apply_prepared_resolutions C (analyze records) resolutions l = (Inr ts, l1)" "log_room (2 * length (losers_of ts)) (rl_wal l1)"
    and "validate_recovery C records ts m = Some (Inr starts)"
  shows "\<exists>report m' l' new. recover_inner C m l records truncated resolutions = Some (Inr report, m', l') \<and>
    tracks C h (records @ new) (rl_wal l') \<and> losers_of (analyze (records @ new)) = []"
  by (rule recovery_succeeds[OF assms])

theorem recovery_completes_witness:
  "\<exists>a b w m' l' report new. length (losers_of (analyze (sample_log a b))) = 1 \<and>
     recover_inner sample_crc (sample_pages b) \<lparr>rl_wal = w, rl_appends = [], rl_flushes = []\<rparr> (sample_log a b) False None = Some (Inr report, m', l') \<and>
     tracks sample_crc sample_header (sample_log a b @ new) (rl_wal l') \<and> losers_of (analyze (sample_log a b @ new)) = []"
proof -
  obtain a b where ab: "sample_image sample_crc 1 41 a" "sample_image sample_crc 1 8361 b" using sample_image_exists by force
  obtain w where w: "tracks sample_crc sample_header (sample_log a b) w" "log_room 2 w" using sample_tracks[OF ab] by blast
  have losers: "length (losers_of (analyze (sample_log a b))) = 1" by (simp add: losers_of_def sample_analysis)
  have "\<exists>report m' l' new. recover_inner sample_crc (sample_pages b) \<lparr>rl_wal = w, rl_appends = [], rl_flushes = []\<rparr> (sample_log a b) False None =
        Some (Inr report, m', l') \<and>
      tracks sample_crc sample_header (sample_log a b @ new) (rl_wal l') \<and> losers_of (analyze (sample_log a b @ new)) = []"
    by (rule recovery_completes[OF sample_recoverable[OF ab] _ _ _ _ sample_resolutions _ sample_valid[OF ab]])
      (use w losers in \<open>simp_all add: sample_pages_def\<close>)
  then show ?thesis using losers by blast
qed

lemma all_zero_replicate: "all_zero_bytes (replicate n 0)"
  by (simp add: all_zero_bytes_def list_all_iff)

section \<open>Two logs that recovery refuses\<close>

text \<open>
  Two transactions have each added a page and prepared, and both have been rolled back, the younger one
  first, as the runtime demands; the file is back at five pages.
\<close>

definition two_rollbacks :: "byte list \<Rightarrow> byte list \<Rightarrow> wal_record list" where
  "two_rollbacks a b =
     [\<lparr>rec_lsn = 1, rec_txn_id = 1, rec_prev_lsn = None, rec_kind = Begin\<rparr>,
      \<lparr>rec_lsn = 41, rec_txn_id = 1, rec_prev_lsn = Some 1, rec_kind = PageUpdate 5 (replicate 4096 0) a\<rparr>,
      \<lparr>rec_lsn = 8281, rec_txn_id = 1, rec_prev_lsn = Some 41, rec_kind = Prepare 7\<rparr>,
      \<lparr>rec_lsn = 8329, rec_txn_id = 2, rec_prev_lsn = None, rec_kind = Begin\<rparr>,
      \<lparr>rec_lsn = 8369, rec_txn_id = 2, rec_prev_lsn = Some 8329, rec_kind = PageUpdate 6 (replicate 4096 0) b\<rparr>,
      \<lparr>rec_lsn = 16609, rec_txn_id = 2, rec_prev_lsn = Some 8369, rec_kind = Prepare 8\<rparr>,
      \<lparr>rec_lsn = 16657, rec_txn_id = 2, rec_prev_lsn = Some 16609, rec_kind = Abort\<rparr>,
      \<lparr>rec_lsn = 16697, rec_txn_id = 2, rec_prev_lsn = Some 16657, rec_kind = RollbackComplete\<rparr>,
      \<lparr>rec_lsn = 16737, rec_txn_id = 1, rec_prev_lsn = Some 8281, rec_kind = Abort\<rparr>,
      \<lparr>rec_lsn = 16777, rec_txn_id = 1, rec_prev_lsn = Some 16737, rec_kind = RollbackComplete\<rparr>]"

text \<open>
  C39. A heap whose last two parked transactions were rolled back cannot be opened again. There are page
  images with which the log of two prepared transactions that each added a page, both rolled back in
  order, is a log that a scan accepts, and recovery of the five pages that remain refuses it, whatever
  they hold, with the page gap of the second transaction: the check of rolled-back page additions compares
  the first page of every transaction with the present number of pages, not with the number at the time.
\<close>

theorem rolled_back_pages_refused:
  "\<exists>a b. log_accepted sample_crc sample_header (two_rollbacks a b) \<and>
     (\<forall>m l truncated. recover_inner sample_crc (m\<lparr>pm_count := 5\<rparr>) l (two_rollbacks a b) truncated None =
        Some (Inl (PageGap 6 5), m\<lparr>pm_count := 5\<rparr>, l))"
proof -
  obtain a b where ab: "sample_image sample_crc 5 41 a" "sample_image sample_crc 6 8369 b" using sample_image_exists by force
  have "accepts sample_crc 1 48 empty_scan (two_rollbacks a b)"
    using sample_updates(1)[OF ab(1)] sample_updates(1)[OF ab(2)] ab[THEN sample_image_facts(1)]
    by (simp add: two_rollbacks_def accept_simps)
  then have log: "log_accepted sample_crc sample_header (two_rollbacks a b)" by (rule sample_accepted) (simp add: two_rollbacks_def)
  have an: "analyze (two_rollbacks a b) =
      [(1, \<lparr>ta_last_lsn = 16777, ta_committed = False, ta_aborting = False, ta_rolled_back = True, ta_prepared = Some 7\<rparr>),
       (2, \<lparr>ta_last_lsn = 16697, ta_committed = False, ta_aborting = False, ta_rolled_back = True, ta_prepared = Some 8\<rparr>)]"
    by (simp add: two_rollbacks_def analyze_def analyze_record_def)
  have "apply_prepared_resolutions sample_crc (analyze (two_rollbacks a b)) None l = (Inr (analyze (two_rollbacks a b)), l)" for l
    unfolding an by (simp add: apply_prepared_resolutions_def resolve_one_def flush_last_def)
  moreover have "validate_recovery sample_crc (two_rollbacks a b) (analyze (two_rollbacks a b)) (m\<lparr>pm_count := 5\<rparr>) = Some (Inl (PageGap 6 5))" for m :: page_manager
    unfolding an
    by (simp add: validate_recovery_def validate_no_winner_depends_on_loser_def validate_page_topology_def two_rollbacks_def
        rolled_back_in_def reject_metadata_page_def all_zero_replicate checked_add_u64_def Let_def)
  ultimately show ?thesis using log by (intro exI[of _ a] exI[of _ b]) (simp add: recover_inner_def)
qed

text \<open>
  A prepared transaction has added two pages, and an unprepared one has changed the second of them; with
  \<open>completed\<close>, a recovery that undid both has been cut off after it completed the first.
\<close>

definition cut_off_recovery :: "bool \<Rightarrow> byte list \<Rightarrow> byte list \<Rightarrow> byte list \<Rightarrow> wal_record list" where
  "cut_off_recovery completed a b c =
     [\<lparr>rec_lsn = 1, rec_txn_id = 1, rec_prev_lsn = None, rec_kind = Begin\<rparr>,
      \<lparr>rec_lsn = 41, rec_txn_id = 1, rec_prev_lsn = Some 1, rec_kind = PageUpdate 5 (replicate 4096 0) a\<rparr>,
      \<lparr>rec_lsn = 8281, rec_txn_id = 1, rec_prev_lsn = Some 41, rec_kind = PageUpdate 6 (replicate 4096 0) b\<rparr>,
      \<lparr>rec_lsn = 16521, rec_txn_id = 1, rec_prev_lsn = Some 8281, rec_kind = Prepare 7\<rparr>,
      \<lparr>rec_lsn = 16569, rec_txn_id = 2, rec_prev_lsn = None, rec_kind = Begin\<rparr>,
      \<lparr>rec_lsn = 16609, rec_txn_id = 2, rec_prev_lsn = Some 16569, rec_kind = PageUpdate 6 b c\<rparr>] @
     (if completed then
        [\<lparr>rec_lsn = 24849, rec_txn_id = 1, rec_prev_lsn = Some 16521, rec_kind = Abort\<rparr>,
         \<lparr>rec_lsn = 24889, rec_txn_id = 1, rec_prev_lsn = Some 24849, rec_kind = RollbackComplete\<rparr>]
      else [])"


end
