(* ===== verification/Buffer_Effects.thy ===== *)
theory Buffer_Effects
  imports Buffer Recovery_Correct
begin

text \<open>
  What each operation of the buffer pool does to the two things that matter of its state: the pages as a
  client sees them and the pins. The frames are read as a map from page numbers; flushing and evicting are
  quiet, rollback and transitions touch one unpinned page, and the file never gets ahead of the log.
\<close>


section \<open>The frames as a map\<close>

definition frame_at :: "buffer_state \<Rightarrow> PageId \<rightharpoonup> buffer_frame" where
  "frame_at s = map_of (map (\<lambda>f. (bf_page_id f, f)) (bs_frames s))"

definition frame_ids :: "buffer_state \<Rightarrow> PageId list" where
  "frame_ids s = map bf_page_id (bs_frames s)"

lemma frame_at_nth:
  assumes "distinct (frame_ids s)" "k < length (bs_frames s)"
  shows "frame_at s (bf_page_id (bs_frames s ! k)) = Some (bs_frames s ! k)"
proof -
  have "distinct (map fst (map (\<lambda>f. (bf_page_id f, f)) (bs_frames s)))" using assms(1) by (simp add: frame_ids_def comp_def)
  moreover have "(bf_page_id (bs_frames s ! k), bs_frames s ! k) \<in> set (map (\<lambda>f. (bf_page_id f, f)) (bs_frames s))" using assms(2) by simp
  ultimately show ?thesis unfolding frame_at_def by (rule map_of_is_SomeI)
qed

lemma frame_at_Some:
  assumes "frame_at s i = Some f"
  shows "f \<in> set (bs_frames s)" "bf_page_id f = i"
  using assms map_of_SomeD unfolding frame_at_def by fastforce+

lemma frame_at_None: "frame_at s i = None \<longleftrightarrow> i \<notin> set (frame_ids s)"
  by (auto simp: frame_at_def map_of_eq_None_iff frame_ids_def image_image)

lemma frame_position_Some: "frame_position i fs = Some k \<Longrightarrow> k < length fs \<and> bf_page_id (fs ! k) = i"
  by (induction fs arbitrary: k) (auto split: if_splits)

lemma frame_position_None: "frame_position i fs = None \<longleftrightarrow> i \<notin> bf_page_id ` set fs"
  by (induction fs) auto

lemma find_frame_Some:
  assumes "distinct (frame_ids s)" "find_frame i s = Some k"
  shows "k < length (bs_frames s)" "bf_page_id (bs_frames s ! k) = i" "frame_at s i = Some (bs_frames s ! k)"
  using frame_position_Some[of i "bs_frames s" k] frame_at_nth[OF assms(1), of k] assms(2) by (auto simp: find_frame_def)

lemma find_frame_None: "find_frame i s = None \<longleftrightarrow> frame_at s i = None"
  by (simp add: find_frame_def frame_position_None frame_at_None frame_ids_def)

text \<open>The pool holds the same pages, a page in addition, or a page less.\<close>

definition frame_map :: "buffer_frame list \<Rightarrow> PageId \<rightharpoonup> buffer_frame" where
  "frame_map fs = map_of (map (\<lambda>f. (bf_page_id f, f)) fs)"

lemma frame_at_map: "frame_at s = frame_map (bs_frames s)"
  by (simp add: frame_at_def frame_map_def)

lemma frame_map_split:
  assumes "bf_page_id f \<notin> bf_page_id ` set (pre @ post)"
  shows "frame_map (pre @ f # post) = (frame_map (pre @ post))(bf_page_id f \<mapsto> f)" "frame_map (pre @ post) (bf_page_id f) = None"
proof -
  show none: "frame_map (pre @ post) (bf_page_id f) = None"
    using assms by (simp add: frame_map_def map_of_eq_None_iff image_image image_Un)
  then have "frame_map pre (bf_page_id f) = None" by (simp add: frame_map_def map_add_None)
  then show "frame_map (pre @ f # post) = (frame_map (pre @ post))(bf_page_id f \<mapsto> f)"
    by (simp add: frame_map_def map_add_upd fun_eq_iff map_add_def split: option.splits)
qed

lemma frames_split:
  assumes "distinct (frame_ids s)" "k < length (bs_frames s)"
  obtains pre post where "bs_frames s = pre @ bs_frames s ! k # post" "pre = take k (bs_frames s)" "post = drop (Suc k) (bs_frames s)"
    "bf_page_id (bs_frames s ! k) \<notin> bf_page_id ` set (pre @ post)" "distinct (map bf_page_id (pre @ post))"
    "frame_map (pre @ post) = (frame_at s)(bf_page_id (bs_frames s ! k) := None)"
proof -
  let ?pre = "take k (bs_frames s)" and ?f = "bs_frames s ! k" and ?post = "drop (Suc k) (bs_frames s)"
  have split: "bs_frames s = ?pre @ ?f # ?post" using id_take_nth_drop[OF assms(2)] .
  have "distinct (map bf_page_id (?pre @ ?f # ?post))" using assms(1) split by (simp add: frame_ids_def)
  then have d: "bf_page_id ?f \<notin> bf_page_id ` set (?pre @ ?post)" "distinct (map bf_page_id (?pre @ ?post))" by auto
  have "frame_at s = (frame_map (?pre @ ?post))(bf_page_id ?f \<mapsto> ?f)" using frame_map_split(1)[OF d(1)] split by (simp add: frame_at_map)
  then have "frame_map (?pre @ ?post) = (frame_at s)(bf_page_id ?f := None)" using frame_map_split(2)[OF d(1)] by (auto simp: fun_eq_iff)
  then show thesis using that split d by blast
qed

lemma frame_at_update:
  assumes "distinct (frame_ids s)" "k < length (bs_frames s)" "bf_page_id (g (bs_frames s ! k)) = bf_page_id (bs_frames s ! k)"
  shows "frame_at (update_frame k g s) = (frame_at s)(bf_page_id (bs_frames s ! k) \<mapsto> g (bs_frames s ! k))" "frame_ids (update_frame k g s) = frame_ids s"
proof -
  let ?f = "bs_frames s ! k"
  obtain pre post where p: "bs_frames s = pre @ ?f # post" "pre = take k (bs_frames s)" "post = drop (Suc k) (bs_frames s)"
    "bf_page_id ?f \<notin> bf_page_id ` set (pre @ post)" "frame_map (pre @ post) = (frame_at s)(bf_page_id ?f := None)"
    by (rule frames_split[OF assms(1,2)])
  have upd: "bs_frames (update_frame k g s) = pre @ g ?f # post" using assms(2) p(2,3) by (simp add: update_frame_def upd_conv_take_nth_drop)
  then show "frame_at (update_frame k g s) = (frame_at s)(bf_page_id ?f \<mapsto> g ?f)"
    using frame_map_split(1)[of "g ?f" pre post] p(4,5) assms(3) by (simp add: frame_at_map)
  have "frame_ids s = map bf_page_id (pre @ ?f # post)" using p(1) unfolding frame_ids_def by (rule arg_cong)
  then show "frame_ids (update_frame k g s) = frame_ids s" using assms(3) upd by (simp add: frame_ids_def)
qed

lemma frame_at_append:
  assumes "bf_page_id f \<notin> set (frame_ids s)"
  shows "frame_at (s\<lparr>bs_frames := bs_frames s @ [f]\<rparr>) = (frame_at s)(bf_page_id f \<mapsto> f)"
  using frame_map_split(1)[of f "bs_frames s" "[]"] assms by (simp add: frame_at_map frame_ids_def)

lemma frame_at_remove:
  assumes "distinct (frame_ids s)" "k < length (bs_frames s)"
  shows "frame_at (remove_frame k s) = (frame_at s)(bf_page_id (bs_frames s ! k) := None)" "distinct (frame_ids (remove_frame k s))"
    "length (bs_frames (remove_frame k s)) = length (bs_frames s) - 1"
proof -
  obtain pre post where p: "pre = take k (bs_frames s)" "post = drop (Suc k) (bs_frames s)" "distinct (map bf_page_id (pre @ post))"
    "frame_map (pre @ post) = (frame_at s)(bf_page_id (bs_frames s ! k) := None)"
    by (rule frames_split[OF assms])
  have r: "bs_frames (remove_frame k s) = pre @ post" using p(1,2) by (simp add: remove_frame_def Let_def)
  then show "frame_at (remove_frame k s) = (frame_at s)(bf_page_id (bs_frames s ! k) := None)" "distinct (frame_ids (remove_frame k s))"
    using p(3,4) by (simp_all add: frame_at_map frame_ids_def)
  show "length (bs_frames (remove_frame k s)) = length (bs_frames s) - 1" using assms(2) by (simp add: remove_frame_def Let_def)
qed

lemma frame_at_replace:
  assumes "distinct (frame_ids s)" "k < length (bs_frames s)" "bf_page_id f \<notin> set (frame_ids s)"
  shows "frame_at (s\<lparr>bs_frames := (bs_frames s)[k := f]\<rparr>) = (frame_at s)(bf_page_id (bs_frames s ! k) := None, bf_page_id f \<mapsto> f)"
    "distinct (frame_ids (s\<lparr>bs_frames := (bs_frames s)[k := f]\<rparr>))"
proof -
  let ?g = "bs_frames s ! k"
  obtain pre post where p: "bs_frames s = pre @ ?g # post" "pre = take k (bs_frames s)" "post = drop (Suc k) (bs_frames s)"
    "distinct (map bf_page_id (pre @ post))" "frame_map (pre @ post) = (frame_at s)(bf_page_id ?g := None)"
    by (rule frames_split[OF assms(1,2)])
  have upd: "(bs_frames s)[k := f] = pre @ f # post" using assms(2) p(2,3) by (simp add: upd_conv_take_nth_drop)
  have "frame_ids s = map bf_page_id (pre @ ?g # post)" using p(1) unfolding frame_ids_def by (rule arg_cong)
  then have new: "bf_page_id f \<notin> bf_page_id ` set (pre @ post)" using assms(3) by auto
  show "frame_at (s\<lparr>bs_frames := (bs_frames s)[k := f]\<rparr>) = (frame_at s)(bf_page_id ?g := None, bf_page_id f \<mapsto> f)"
    using frame_map_split(1)[OF new] p(5) by (simp add: frame_at_map upd)
  show "distinct (frame_ids (s\<lparr>bs_frames := (bs_frames s)[k := f]\<rparr>))" using new p(4) by (auto simp: frame_ids_def upd)
qed


section \<open>What the pool promises\<close>

text \<open>A frame shows a page of the file; a clean one shows it as it is on disk, and a writer has it pinned.\<close>

definition frame_ok :: "page_manager \<Rightarrow> PageId \<Rightarrow> buffer_frame \<Rightarrow> bool" where
  "frame_ok m i f \<longleftrightarrow> page_id (bf_page f) = i \<and> wf_page (bf_page f) \<and> i < pm_count m \<and>
     (\<not> bf_dirty f \<longrightarrow> page_img m i = Some (page_bytes (bf_page f))) \<and> (bf_writer f \<longrightarrow> bf_pin_count f = 1)"

definition buffer_ok :: "buffer_state \<Rightarrow> bool" where
  "buffer_ok s \<longleftrightarrow> wf_pages (bs_disk s) \<and> atomic_io (bs_disk s) \<and> 0 < bs_capacity s \<and> length (bs_frames s) \<le> bs_capacity s \<and>
     distinct (frame_ids s) \<and> (\<forall>i f. frame_at s i = Some f \<longrightarrow> frame_ok (bs_disk s) i f)"

text \<open>The pages as a client of the pool sees them, and how often each is pinned.\<close>

definition view :: "buffer_state \<Rightarrow> PageId \<rightharpoonup> byte list" where
  "view s i = (case frame_at s i of Some f \<Rightarrow> Some (page_bytes (bf_page f)) | None \<Rightarrow> page_img (bs_disk s) i)"

definition pin_state :: "buffer_state \<Rightarrow> PageId \<Rightarrow> nat \<times> bool" where
  "pin_state s i = (case frame_at s i of Some f \<Rightarrow> (unat (bf_pin_count f), bf_writer f) | None \<Rightarrow> (0, False))"

definition same_pages :: "buffer_state \<Rightarrow> buffer_state \<Rightarrow> bool" where
  "same_pages s s' \<longleftrightarrow> view s' = view s \<and> pin_state s' = pin_state s \<and> pm_count (bs_disk s') = pm_count (bs_disk s) \<and> bs_capacity s' = bs_capacity s"

lemma same_pages_trans: "same_pages s s' \<Longrightarrow> same_pages s' s'' \<Longrightarrow> same_pages s s''"
  by (simp add: same_pages_def)

text \<open>
  The images that are on disk or in view afterwards were on disk or in view before, or are among the ones
  that the operation brings in.
\<close>

definition known :: "(PageId \<times> byte list) set \<Rightarrow> buffer_state \<Rightarrow> buffer_state \<Rightarrow> bool" where
  "known X s s' \<longleftrightarrow> (\<forall>i bs. page_img (bs_disk s') i = Some bs \<or> view s' i = Some bs \<longrightarrow>
     page_img (bs_disk s) i = Some bs \<or> view s i = Some bs \<or> (i, bs) \<in> X)"

lemma known_trans: "known X s s' \<Longrightarrow> known X s' s'' \<Longrightarrow> known X s s''"
  unfolding known_def by blast

lemma known_mono: "known X s s' \<Longrightarrow> X \<subseteq> Y \<Longrightarrow> known Y s s'"
  unfolding known_def by blast

lemma known_same: "bs_disk s' = bs_disk s \<Longrightarrow> view s' = view s \<Longrightarrow> known X s s'"
  by (simp add: known_def)

lemma known_update: "bs_disk s' = bs_disk s \<Longrightarrow> view s' = (view s)(i \<mapsto> bs) \<Longrightarrow> (i, bs) \<in> X \<Longrightarrow> known X s s'"
  by (auto simp: known_def split: if_splits)

section \<open>The write-ahead rule\<close>

text \<open>What the pool relies on of the log: a flush that succeeds makes its LSN durable, and none is lost.\<close>

locale durable_log =
  fixes durable :: "'w \<Rightarrow> Lsn \<Rightarrow> bool"
    and flush :: "Lsn \<Rightarrow> 'w \<Rightarrow> (storage_error, unit) res \<times> 'w"
  assumes flush_makes_durable: "flush lsn w = (Inr (), w') \<Longrightarrow> durable w' lsn"
    and flush_keeps_durable: "flush lsn w = (r, w') \<Longrightarrow> durable w l \<Longrightarrow> durable w' l"
begin

lemma flush_extends: "flush lsn w = (Inr (), w') \<Longrightarrow> \<forall>l \<in> X. durable w l \<Longrightarrow> \<forall>l \<in> insert lsn X. durable w' l"
  using flush_makes_durable flush_keeps_durable by blast

lemma flush_retains: "\<forall>l \<in> X. durable w l \<Longrightarrow> \<forall>l \<in> X. durable (snd (flush lsn w)) l"
  using flush_keeps_durable by (metis prod.collapse)

end

definition durable_upto :: "recovery_log \<Rightarrow> Lsn \<Rightarrow> bool" where
  "durable_upto l lsn = (case wm_durable_lsn (rl_wal l) of Some d \<Rightarrow> lsn \<le> d | None \<Rightarrow> False)"

interpretation log: durable_log durable_upto wal_flush
  by unfold_locales
    (auto simp: durable_upto_def wal_flush_def flush_through_def Let_def not_le dest: order.trans split: prod.splits sum.splits option.splits if_splits)

definition logged :: "crc \<Rightarrow> recovery_log option \<Rightarrow> PageId \<Rightarrow> byte list \<Rightarrow> bool" where
  "logged C w i bs \<longleftrightarrow> i = 0 \<or> (\<forall>lsn. page_lsn C (page_at i bs) = Inr (Some lsn) \<longrightarrow> (\<exists>l. w = Some l \<and> durable_upto l lsn))"

definition wal_rule :: "crc \<Rightarrow> buffer_state \<Rightarrow> bool" where
  "wal_rule C s \<longleftrightarrow> (\<forall>i bs. page_img (bs_disk s) i = Some bs \<longrightarrow> logged C (bs_wal s) i bs)"


section \<open>Flushing and eviction\<close>

lemma buffer_okD:
  assumes "buffer_ok s"
  shows "wf_pages (bs_disk s)" "atomic_io (bs_disk s)" "distinct (frame_ids s)" "0 < bs_capacity s" "length (bs_frames s) \<le> bs_capacity s"
    "\<And>i f. frame_at s i = Some f \<Longrightarrow> frame_ok (bs_disk s) i f"
  using assms by (auto simp: buffer_ok_def)

lemma frame_ok_image:
  assumes "frame_ok m i f"
  shows "page_img m (page_id (bf_page f)) \<noteq> None" "length (page_bytes (bf_page f)) = 4096" "i < pm_count m"
  using assms by (auto simp: frame_ok_def page_img_def wf_page_def)

lemma frame_ok_other:
  "frame_ok m i f \<Longrightarrow> page_img m' i = page_img m i \<Longrightarrow> pm_count m' = pm_count m \<Longrightarrow> frame_ok m' i f"
  by (simp add: frame_ok_def)

text \<open>Replacing the content of a frame, keeping its page number.\<close>

lemma update_frame_ok:
  assumes ok: "buffer_ok s" and k: "k < length (bs_frames s)" "bf_page_id (bs_frames s ! k) = i"
    and g: "bf_page_id (g (bs_frames s ! k)) = i" "frame_ok (bs_disk s) i (g (bs_frames s ! k))"
  shows "buffer_ok (update_frame k g s)" "frame_at (update_frame k g s) = (frame_at s)(i \<mapsto> g (bs_frames s ! k))"
    "view (update_frame k g s) = (view s)(i \<mapsto> page_bytes (bf_page (g (bs_frames s ! k))))"
    "pin_state (update_frame k g s) = (pin_state s)(i := (unat (bf_pin_count (g (bs_frames s ! k))), bf_writer (g (bs_frames s ! k))))"
proof -
  have fid: "bf_page_id (g (bs_frames s ! k)) = bf_page_id (bs_frames s ! k)" using g(1) k(2) by simp
  show at: "frame_at (update_frame k g s) = (frame_at s)(i \<mapsto> g (bs_frames s ! k))"
    using frame_at_update(1)[where g = g, OF buffer_okD(3)[OF ok] k(1) fid] k(2) by simp
  have ids: "frame_ids (update_frame k g s) = frame_ids s" by (rule frame_at_update(2)[where g = g, OF buffer_okD(3)[OF ok] k(1) fid])
  show "buffer_ok (update_frame k g s)"
    using ok g(2) unfolding buffer_ok_def ids at by (auto simp: update_frame_def split: if_splits)
  show "view (update_frame k g s) = (view s)(i \<mapsto> page_bytes (bf_page (g (bs_frames s ! k))))"
    unfolding view_def at by (auto simp: fun_eq_iff update_frame_def split: option.splits)
  show "pin_state (update_frame k g s) = (pin_state s)(i := (unat (bf_pin_count (g (bs_frames s ! k))), bf_writer (g (bs_frames s ! k))))"
    unfolding pin_state_def at by (auto simp: fun_eq_iff)
qed

text \<open>What flushing and evicting may change: nothing a client can see.\<close>

definition quiet :: "crc \<Rightarrow> buffer_state \<Rightarrow> buffer_state \<Rightarrow> bool" where
  "quiet C s s' \<longleftrightarrow> buffer_ok s' \<and> same_pages s s' \<and> frame_ids s' = frame_ids s \<and> (wal_rule C s \<longrightarrow> wal_rule C s') \<and> known {} s s'"

lemma quiet_refl: "buffer_ok s \<Longrightarrow> quiet C s s"
  by (simp add: quiet_def same_pages_def known_same)

lemma quiet_trans: "quiet C s s' \<Longrightarrow> quiet C s' s'' \<Longrightarrow> quiet C s s''"
  by (auto simp: quiet_def intro: same_pages_trans known_trans)

lemma quiet_same:
  assumes "buffer_ok s" "bs_disk s' = bs_disk s" "bs_frames s' = bs_frames s" "bs_capacity s' = bs_capacity s" "bs_wal s' = bs_wal s"
  shows "quiet C s s'"
proof -
  have "frame_at s' = frame_at s" "frame_ids s' = frame_ids s" using assms(3) by (simp_all add: frame_at_def frame_ids_def)
  moreover from this have "view s' = view s" "pin_state s' = pin_state s" using assms(2) by (simp_all add: view_def pin_state_def fun_eq_iff split: option.splits)
  ultimately show ?thesis using assms by (simp add: quiet_def same_pages_def buffer_ok_def wal_rule_def known_same)
qed

lemma flush_log_effect:
  assumes "flush_log_for C f s = (r, s')" "buffer_ok s"
  shows "quiet C s s'" "bs_frames s' = bs_frames s" "bs_disk s' = bs_disk s"
    "is_ok r \<Longrightarrow> page_id (bf_page f) = bf_page_id f \<Longrightarrow> logged C (bs_wal s') (bf_page_id f) (page_bytes (bf_page f))"
proof -
  have cases: "s' = s \<or> (\<exists>w lsn. bs_wal s = Some w \<and> s' = s\<lparr>bs_wal := Some (snd (wal_flush lsn w))\<rparr>)"
    using assms(1) by (auto simp: flush_log_for_def split: if_splits sum.splits option.splits prod.splits) (metis snd_conv)
  have rule: "wal_rule C s'" if "wal_rule C s"
    using cases
  proof
    assume "\<exists>w lsn. bs_wal s = Some w \<and> s' = s\<lparr>bs_wal := Some (snd (wal_flush lsn w))\<rparr>"
    then obtain w lsn where w: "bs_wal s = Some w" "s' = s\<lparr>bs_wal := Some (snd (wal_flush lsn w))\<rparr>" by blast
    have keep: "durable_upto (snd (wal_flush lsn w)) l" if "durable_upto w l" for l
      using log.flush_retains[of "{l}" w lsn] that by simp
    then show ?thesis using that w by (auto simp: wal_rule_def logged_def)
  qed (use that in simp)
  have "frame_at s' = frame_at s" "frame_ids s' = frame_ids s" using cases by (auto simp: frame_at_def frame_ids_def)
  moreover show "bs_frames s' = bs_frames s" "bs_disk s' = bs_disk s" using cases by auto
  moreover have "bs_capacity s' = bs_capacity s" using cases by auto
  moreover from calculation have "view s' = view s" by (simp add: view_def fun_eq_iff split: option.splits)
  ultimately show "quiet C s s'"
    using rule assms(2) by (simp add: quiet_def same_pages_def buffer_ok_def pin_state_def fun_eq_iff known_same)
  show "logged C (bs_wal s') (bf_page_id f) (page_bytes (bf_page f))" if "is_ok r" "page_id (bf_page f) = bf_page_id f"
  proof -
    have "page_at (bf_page_id f) (page_bytes (bf_page f)) = bf_page f" using that(2) by (simp add: page_at_def)
    then show ?thesis
      using assms(1) that(1) log.flush_makes_durable
      by (auto simp: flush_log_for_def logged_def is_ok_def split: if_splits sum.splits option.splits prod.splits)
  qed
qed

text \<open>Writing the page of a dirty frame: the file catches up with the view.\<close>

lemma write_frame_effect:
  assumes ok: "buffer_ok s" and k: "k < length (bs_frames s)" "bf_dirty (bs_frames s ! k)"
    and lg: "logged C (bs_wal s) (bf_page_id (bs_frames s ! k)) (page_bytes (bf_page (bs_frames s ! k)))"
    and wr: "on_disk (write_page (bf_page (bs_frames s ! k)) (bs_disk s)) s = (r, s')"
  shows "quiet C s s'" "bs_frames s' = bs_frames s"
    "is_ok r \<Longrightarrow> page_img (bs_disk s') (bf_page_id (bs_frames s ! k)) = Some (page_bytes (bf_page (bs_frames s ! k)))"
proof -
  let ?f = "bs_frames s ! k" and ?i = "bf_page_id (bs_frames s ! k)"
  have at_i: "frame_at s ?i = Some ?f" by (rule frame_at_nth[OF buffer_okD(3)[OF ok] k(1)])
  note fok = buffer_okD(6)[OF ok at_i]
  have pid: "page_id (bf_page ?f) = ?i" using fok by (simp add: frame_ok_def)
  obtain r2 m where w: "write_page (bf_page ?f) (bs_disk s) = (r2, m)" "wf_pages m" "atomic_io m" "pm_count m = pm_count (bs_disk s)"
    "r2 = Inr () \<and> page_img m = (page_img (bs_disk s))(?i \<mapsto> page_bytes (bf_page ?f)) \<or> r2 = Inl SeIo \<and> page_img m = page_img (bs_disk s)"
    by (rule write_page_img[of "bs_disk s" "bf_page ?f", unfolded pid, OF buffer_okD(1,2)[OF ok]])
      (use frame_ok_image[OF fok] pid in auto)
  have s': "r = r2" "s' = s\<lparr>bs_disk := m\<rparr>" using wr w(1) by (simp_all add: on_disk_def)
  have d: "bs_disk s' = m" "bs_capacity s' = bs_capacity s" "bs_wal s' = bs_wal s" "bs_frames s' = bs_frames s" by (simp_all add: s'(2))
  then have at: "frame_at s' = frame_at s" "frame_ids s' = frame_ids s" by (simp_all add: frame_at_def frame_ids_def)
  have img: "page_img m j = page_img (bs_disk s) j" if "j \<noteq> ?i" for j using w(5) that by auto
  have "frame_ok m j f" if "frame_at s j = Some f" for j f
    using buffer_okD(6)[OF ok that] that at_i k(2) img[of j] w(4) by (cases "j = ?i") (auto simp: frame_ok_def)
  then have ok': "buffer_ok s'" using ok w(2,3) by (simp add: buffer_ok_def at d)
  have v: "view s' = view s"
  proof
    fix j
    show "view s' j = view s j" using at_i img by (cases "j = ?i") (auto simp: view_def at d split: option.splits)
  qed
  have same: "same_pages s s'" using v w(4) by (simp add: same_pages_def pin_state_def at d fun_eq_iff)
  have rule: "wal_rule C s \<Longrightarrow> wal_rule C s'" using w(5) lg by (auto simp: wal_rule_def d split: if_splits)
  have "view s ?i = Some (page_bytes (bf_page ?f))" using at_i by (simp add: view_def)
  then have "known {} s s'" using w(5) by (auto simp: known_def v d split: if_splits)
  then show "quiet C s s'" using ok' same rule at by (simp add: quiet_def)
  show "bs_frames s' = bs_frames s" by (rule d(4))
  show "is_ok r \<Longrightarrow> page_img (bs_disk s') ?i = Some (page_bytes (bf_page ?f))" using w(5) s'(1) d(1) by (auto simp: is_ok_def)
qed

text \<open>Marking a frame clean that shows its page as it is on disk.\<close>

lemma clean_frame_effect:
  assumes ok: "buffer_ok s" and k: "k < length (bs_frames s)"
    and img: "page_img (bs_disk s) (bf_page_id (bs_frames s ! k)) = Some (page_bytes (bf_page (bs_frames s ! k)))"
  shows "quiet C s (update_frame k (\<lambda>f. f\<lparr>bf_dirty := False\<rparr>) s)"
proof -
  let ?f = "bs_frames s ! k" and ?i = "bf_page_id (bs_frames s ! k)" and ?g = "\<lambda>f. f\<lparr>bf_dirty := False\<rparr>"
  let ?s = "update_frame k ?g s"
  have at_i: "frame_at s ?i = Some ?f" by (rule frame_at_nth[OF buffer_okD(3)[OF ok] k])
  have "frame_ok (bs_disk s) ?i (?g ?f)" using buffer_okD(6)[OF ok at_i] img by (simp add: frame_ok_def)
  then have u: "buffer_ok ?s" "view ?s = (view s)(?i \<mapsto> page_bytes (bf_page ?f))"
      "pin_state ?s = (pin_state s)(?i := (unat (bf_pin_count ?f), bf_writer ?f))"
    using update_frame_ok[where g = ?g, OF ok k refl] by simp_all
  have "view s ?i = Some (page_bytes (bf_page ?f))" "pin_state s ?i = (unat (bf_pin_count ?f), bf_writer ?f)"
    using at_i by (simp_all add: view_def pin_state_def)
  then have same: "same_pages s ?s" using u(2,3) by (auto simp: same_pages_def fun_eq_iff update_frame_def)
  moreover have "frame_ids ?s = frame_ids s" by (rule frame_at_update(2)[OF buffer_okD(3)[OF ok] k]) simp
  moreover have "known {} s ?s" by (rule known_same) (use same in \<open>simp_all add: same_pages_def update_frame_def\<close>)
  ultimately show ?thesis using u(1) by (auto simp: quiet_def wal_rule_def update_frame_def)
qed

lemma flush_frame_effect:
  assumes ok: "buffer_ok s" and fl: "flush_frame C k s = (r, s')"
  shows "quiet C s s'" "is_ok r \<Longrightarrow> k < length (bs_frames s') \<and> \<not> bf_dirty (bs_frames s' ! k) \<and> \<not> bf_writer (bs_frames s' ! k)"
proof -
  have "quiet C s s' \<and> (is_ok r \<longrightarrow> k < length (bs_frames s') \<and> \<not> bf_dirty (bs_frames s' ! k) \<and> \<not> bf_writer (bs_frames s' ! k))"
  proof (cases "k < length (bs_frames s) \<and> \<not> bf_writer (bs_frames s ! k) \<and> bf_dirty (bs_frames s ! k)")
    case False
    then show ?thesis using fl quiet_refl[OF ok] by (auto simp: flush_frame_def Let_def is_ok_def split: if_splits)
  next
    case True
    let ?f = "bs_frames s ! k"
    have pid: "page_id (bf_page ?f) = bf_page_id ?f"
      using buffer_okD(6)[OF ok] frame_at_nth[OF buffer_okD(3)[OF ok]] True by (auto simp: frame_ok_def)
    obtain r1 s1 where l: "flush_log_for C ?f s = (r1, s1)" by fastforce
    note e = flush_log_effect[OF l ok]
    show ?thesis
    proof (cases r1)
      case (Inl x)
      then show ?thesis using fl True l e(1) by (auto simp: flush_frame_def Let_def is_ok_def)
    next
      case (Inr u)
      have ok1: "buffer_ok s1" using e(1) by (simp add: quiet_def)
      obtain r2 s2 where w: "on_disk (write_page (bf_page ?f) (bs_disk s1)) s1 = (r2, s2)" by fastforce
      have k1: "k < length (bs_frames s1)" "bf_dirty (bs_frames s1 ! k)" "bs_frames s1 ! k = ?f" using True e(2) by simp_all
      have "logged C (bs_wal s1) (bf_page_id ?f) (page_bytes (bf_page ?f))" using e(4) Inr pid by (simp add: is_ok_def)
      note we = write_frame_effect[OF ok1 k1(1,2), unfolded k1(3), OF this w]
      note q2 = quiet_trans[OF e(1) we(1)]
      show ?thesis
      proof (cases r2)
        case (Inl x)
        then show ?thesis using fl True l \<open>r1 = Inr u\<close> w q2 by (auto simp: flush_frame_def Let_def is_ok_def)
      next
        case ok2: (Inr u')
        have ok2': "buffer_ok s2" using we(1) by (simp add: quiet_def)
        have k2: "k < length (bs_frames s2)" "bs_frames s2 ! k = ?f" using we(2) k1 by simp_all
        have "page_img (bs_disk s2) (bf_page_id (bs_frames s2 ! k)) = Some (page_bytes (bf_page (bs_frames s2 ! k)))" using we(3) ok2 k2(2) by (simp add: is_ok_def)
        note q3 = quiet_trans[OF q2 clean_frame_effect[OF ok2' k2(1) this]]
        have "r = Inr ()" "s' = update_frame k (\<lambda>f. f\<lparr>bf_dirty := False\<rparr>) s2" using fl True l Inr w ok2 by (auto simp: flush_frame_def Let_def)
        then show ?thesis using q3 k2 True by (simp add: update_frame_def)
      qed
    qed
  qed
  then show "quiet C s s'" "is_ok r \<Longrightarrow> k < length (bs_frames s') \<and> \<not> bf_dirty (bs_frames s' ! k) \<and> \<not> bf_writer (bs_frames s' ! k)" by blast+
qed


text \<open>The frame that \<open>prepare_frame\<close> hands out is new, or clean and unpinned.\<close>

definition free_slot :: "buffer_state \<Rightarrow> usize \<Rightarrow> bool" where
  "free_slot s k \<longleftrightarrow>
     k = length (bs_frames s) \<and> k < bs_capacity s \<or>
     k < length (bs_frames s) \<and> pin_state s (bf_page_id (bs_frames s ! k)) = (0, False) \<and> \<not> bf_dirty (bs_frames s ! k)"

lemma first_unpinned_Some:
  "frames \<noteq> [] \<Longrightarrow> first_unpinned frames start offsets = Some k \<Longrightarrow> k < length frames \<and> bf_pin_count (frames ! k) = 0"
  by (induction offsets) (auto simp: Let_def split: if_splits)

lemma prepare_frame_effect:
  assumes ok: "buffer_ok s" and pr: "prepare_frame C s = (r, s')"
  shows "quiet C s s'" "r = Inr k \<Longrightarrow> free_slot s' k"
proof -
  have "quiet C s s' \<and> (r = Inr k \<longrightarrow> free_slot s' k)"
  proof (cases "length (bs_frames s) < bs_capacity s")
    case True
    then show ?thesis using pr quiet_refl[OF ok] by (auto simp: prepare_frame_def free_slot_def)
  next
    case full: False
    then have ne: "bs_frames s \<noteq> []" using buffer_okD(4,5)[OF ok] by auto
    show ?thesis
    proof (cases "first_unpinned (bs_frames s) (bs_next_victim s) [0..<length (bs_frames s)]")
      case None
      then show ?thesis using pr full quiet_refl[OF ok] by (auto simp: prepare_frame_def)
    next
      case (Some j)
      have j: "j < length (bs_frames s)" "bf_pin_count (bs_frames s ! j) = 0" using first_unpinned_Some[OF ne Some] by simp_all
      obtain r1 s1 where fl: "flush_frame C j s = (r1, s1)" by fastforce
      note e = flush_frame_effect[OF ok fl]
      show ?thesis
      proof (cases r1)
        case (Inl x)
        then show ?thesis using pr full Some fl e(1) by (auto simp: prepare_frame_def)
      next
        case (Inr u)
        let ?s2 = "s1\<lparr>bs_next_victim := (j + 1) mod length (bs_frames s1)\<rparr>"
        have res: "r = Inr j" "s' = ?s2" using pr full Some fl Inr by (auto simp: prepare_frame_def)
        have q12: "quiet C s1 ?s2" using e(1) by (intro quiet_same) (simp_all add: quiet_def)
        then have q: "quiet C s ?s2" by (rule quiet_trans[OF e(1)])
        have clean: "j < length (bs_frames s1)" "\<not> bf_dirty (bs_frames s1 ! j)" "\<not> bf_writer (bs_frames s1 ! j)" using e(2) Inr by (simp_all add: is_ok_def)
        have ids: "frame_ids s1 = frame_ids s" "pin_state s1 = pin_state s" "buffer_ok s1" using e(1) by (simp_all add: quiet_def same_pages_def)
        have same: "bf_page_id (bs_frames s1 ! j) = bf_page_id (bs_frames s ! j)"
          using arg_cong[OF ids(1), of "\<lambda>xs. xs ! j"] j(1) clean(1) by (simp add: frame_ids_def)
        have "pin_state s (bf_page_id (bs_frames s ! j)) = (0, bf_writer (bs_frames s ! j))"
          using frame_at_nth[OF buffer_okD(3)[OF ok] j(1)] j(2) by (simp add: pin_state_def)
        moreover have "pin_state s1 (bf_page_id (bs_frames s1 ! j)) = (unat (bf_pin_count (bs_frames s1 ! j)), False)"
          using frame_at_nth[OF buffer_okD(3)[OF ids(3)] clean(1)] clean(3) by (simp add: pin_state_def)
        ultimately have "pin_state s1 (bf_page_id (bs_frames s1 ! j)) = (0, False)" using ids(2) same by auto
        moreover have "pin_state ?s2 = pin_state s1" using q12 by (simp add: quiet_def same_pages_def)
        ultimately have "free_slot ?s2 j" using clean by (simp add: free_slot_def)
        then show ?thesis using q res by auto
      qed
    qed
  qed
  then show "quiet C s s'" "r = Inr k \<Longrightarrow> free_slot s' k" by blast+
qed

text \<open>Putting a frame into such a slot.\<close>

definition place_frame :: "usize \<Rightarrow> buffer_frame \<Rightarrow> buffer_state \<Rightarrow> buffer_state" where
  "place_frame k f s = s\<lparr>bs_frames := (if k = length (bs_frames s) then bs_frames s @ [f] else (bs_frames s)[k := f])\<rparr>"

lemma install_is_place:
  "install_frame k p w s = place_frame k \<lparr>bf_page_id = page_id p, bf_page = p, bf_pin_count = 1, bf_writer = w, bf_dirty = False\<rparr> s"
  by (simp add: install_frame_def place_frame_def Let_def)

lemma place_frame_nth:
  assumes "k \<le> length (bs_frames s)"
  shows "k < length (bs_frames (place_frame k f s))" "bs_frames (place_frame k f s) ! k = f" "update_frame k g (place_frame k f s) = place_frame k (g f) s"
  using assms by (auto simp: place_frame_def update_frame_def)

lemma place_frame_at:
  assumes ok: "buffer_ok s" and slot: "free_slot s k" and new: "bf_page_id f \<notin> set (frame_ids s)"
  obtains (append) "frame_at (place_frame k f s) = (frame_at s)(bf_page_id f \<mapsto> f)" "distinct (frame_ids (place_frame k f s))"
      "length (bs_frames (place_frame k f s)) \<le> bs_capacity s"
  | (replace) "frame_at (place_frame k f s) = (frame_at s)(bf_page_id (bs_frames s ! k) := None, bf_page_id f \<mapsto> f)"
      "distinct (frame_ids (place_frame k f s))" "length (bs_frames (place_frame k f s)) \<le> bs_capacity s"
      "k < length (bs_frames s)" "pin_state s (bf_page_id (bs_frames s ! k)) = (0, False)" "\<not> bf_dirty (bs_frames s ! k)"
proof (cases "k = length (bs_frames s)")
  case True
  have "place_frame k f s = s\<lparr>bs_frames := bs_frames s @ [f]\<rparr>" using True by (simp add: place_frame_def)
  then show thesis
    using append frame_at_append[of f s] new buffer_okD(3)[OF ok] slot True by (auto simp: free_slot_def frame_ids_def)
next
  case False
  then have k: "k < length (bs_frames s)" "pin_state s (bf_page_id (bs_frames s ! k)) = (0, False)" "\<not> bf_dirty (bs_frames s ! k)"
    using slot by (auto simp: free_slot_def)
  have "place_frame k f s = s\<lparr>bs_frames := (bs_frames s)[k := f]\<rparr>" using False by (simp add: place_frame_def)
  then show thesis using replace frame_at_replace[OF buffer_okD(3)[OF ok] k(1) new] buffer_okD(5)[OF ok] k by simp
qed

lemma place_frame_effect:
  assumes ok: "buffer_ok s" and slot: "free_slot s k" and new: "frame_at s i = None" and f: "bf_page_id f = i" "frame_ok (bs_disk s) i f"
  shows "buffer_ok (place_frame k f s)" "view (place_frame k f s) = (view s)(i \<mapsto> page_bytes (bf_page f))"
    "pin_state (place_frame k f s) = (pin_state s)(i := (unat (bf_pin_count f), bf_writer f))"
proof -
  let ?s = "place_frame k f s" and ?j = "bf_page_id (bs_frames s ! k)"
  have fields: "bs_disk ?s = bs_disk s" "bs_capacity ?s = bs_capacity s" by (simp_all add: place_frame_def)
  have notin: "bf_page_id f \<notin> set (frame_ids s)" using new frame_at_None f(1) by blast
  have "buffer_ok ?s \<and> view ?s = (view s)(i \<mapsto> page_bytes (bf_page f)) \<and> pin_state ?s = (pin_state s)(i := (unat (bf_pin_count f), bf_writer f))"
  proof (rule place_frame_at[OF ok slot notin])
    assume at: "frame_at ?s = (frame_at s)(bf_page_id f \<mapsto> f)" and d: "distinct (frame_ids ?s)" "length (bs_frames ?s) \<le> bs_capacity s"
    have "buffer_ok ?s" using ok d f unfolding buffer_ok_def at fields by (auto split: if_splits)
    moreover have "view ?s = (view s)(i \<mapsto> page_bytes (bf_page f))" using f(1) unfolding view_def at fields by (auto simp: fun_eq_iff)
    moreover have "pin_state ?s = (pin_state s)(i := (unat (bf_pin_count f), bf_writer f))" using f(1) unfolding pin_state_def at by (auto simp: fun_eq_iff)
    ultimately show ?thesis by simp
  next
    assume at: "frame_at ?s = (frame_at s)(?j := None, bf_page_id f \<mapsto> f)" and d: "distinct (frame_ids ?s)" "length (bs_frames ?s) \<le> bs_capacity s"
      and k: "k < length (bs_frames s)" "pin_state s ?j = (0, False)" "\<not> bf_dirty (bs_frames s ! k)"
    have atj: "frame_at s ?j = Some (bs_frames s ! k)" by (rule frame_at_nth[OF buffer_okD(3)[OF ok] k(1)])
    then have "page_img (bs_disk s) ?j = Some (page_bytes (bf_page (bs_frames s ! k)))" using buffer_okD(6)[OF ok atj] k(3) by (simp add: frame_ok_def)
    then have "view ?s = (view s)(i \<mapsto> page_bytes (bf_page f))" using f(1) atj unfolding view_def at fields by (auto simp: fun_eq_iff)
    moreover have "buffer_ok ?s" using ok d f unfolding buffer_ok_def at fields by (auto split: if_splits)
    moreover have "pin_state ?s = (pin_state s)(i := (unat (bf_pin_count f), bf_writer f))" using k(2) f(1) unfolding pin_state_def at by (auto simp: fun_eq_iff)
    ultimately show ?thesis by simp
  qed
  then show "buffer_ok ?s" "view ?s = (view s)(i \<mapsto> page_bytes (bf_page f))" "pin_state ?s = (pin_state s)(i := (unat (bf_pin_count f), bf_writer f))" by blast+
qed

lemma install_frame_effect:
  assumes "buffer_ok s" "free_slot s k" "frame_at s (page_id p) = None" "page_img (bs_disk s) (page_id p) = Some (page_bytes p)" "wf_page p"
  shows "buffer_ok (install_frame k p w s)" "view (install_frame k p w s) = view s" "pin_state (install_frame k p w s) = (pin_state s)(page_id p := (1, w))"
proof -
  let ?f = "\<lparr>bf_page_id = page_id p, bf_page = p, bf_pin_count = 1, bf_writer = w, bf_dirty = False\<rparr>"
  have "page_id p < pm_count (bs_disk s)" using assms(4) by (simp add: page_img_def split: if_splits)
  then have fok: "frame_ok (bs_disk s) (page_id p) ?f" using assms(4,5) by (simp add: frame_ok_def)
  have "(view s)(page_id p \<mapsto> page_bytes p) = view s" using assms(3,4) by (auto simp: view_def fun_eq_iff)
  then show "buffer_ok (install_frame k p w s)" "view (install_frame k p w s) = view s" "pin_state (install_frame k p w s) = (pin_state s)(page_id p := (1, w))"
    unfolding install_is_place using place_frame_effect[OF assms(1-3) _ fok] by simp_all
qed


section \<open>The operations of the pool\<close>

lemma quietD:
  assumes "quiet C s s'"
  shows "buffer_ok s'" "view s' = view s" "pin_state s' = pin_state s" "frame_ids s' = frame_ids s" "wal_rule C s \<Longrightarrow> wal_rule C s'"
    "pm_count (bs_disk s') = pm_count (bs_disk s)" "known X s s'"
  using assms known_mono[of "{}" s s' X] by (auto simp: quiet_def same_pages_def)

lemma quiet_frame_None: "quiet C s s' \<Longrightarrow> frame_at s' i = None \<longleftrightarrow> frame_at s i = None"
  by (simp add: quiet_def frame_at_None)

lemma wal_rule_cong: "bs_disk s' = bs_disk s \<Longrightarrow> bs_wal s' = bs_wal s \<Longrightarrow> wal_rule C s' = wal_rule C s"
  by (simp add: wal_rule_def)

lemma load_page_effect:
  assumes ok: "buffer_ok s" and new: "frame_at s i = None" and ld: "load_page C i w s = (r, s')"
  shows "buffer_ok s'" "view s' = view s" "wal_rule C s \<Longrightarrow> wal_rule C s'" "\<not> is_ok r \<Longrightarrow> pin_state s' = pin_state s"
    "r = Inr p \<Longrightarrow> pin_state s' = (pin_state s)(i := (1, w)) \<and> view s i = Some (page_bytes p) \<and> page_id p = i \<and> wf_page p"
proof -
  have "buffer_ok s' \<and> view s' = view s \<and> (wal_rule C s \<longrightarrow> wal_rule C s') \<and> (\<not> is_ok r \<longrightarrow> pin_state s' = pin_state s) \<and>
    (r = Inr p \<longrightarrow> pin_state s' = (pin_state s)(i := (1, w)) \<and> view s i = Some (page_bytes p) \<and> page_id p = i \<and> wf_page p)"
  proof (cases "page_img (bs_disk s) i")
    case None
    then have "Page_Manager.read_page (bs_disk s) i = Inl (SeInvalidFormat ''page is outside file'')"
      by (simp add: read_page_def ensure_page_exists_def page_img_def not_less split: if_splits)
    then show ?thesis using ld ok by (auto simp: load_page_def)
  next
    case (Some bs)
    let ?p = "\<lparr>page_id = i, page_bytes = bs\<rparr>"
    have rd: "Page_Manager.read_page (bs_disk s) i = Inr ?p" by (rule read_page_img[OF buffer_okD(1)[OF ok] Some])
    have len: "length bs = 4096" by (rule page_img_length[OF buffer_okD(1)[OF ok] Some])
    have vi: "view s i = Some bs" using Some new by (simp add: view_def)
    obtain r1 s1 where pr: "prepare_frame C s = (r1, s1)" by fastforce
    note e = prepare_frame_effect[OF ok pr] and q = quietD[OF prepare_frame_effect(1)[OF ok pr]]
    show ?thesis
    proof (cases r1)
      case (Inl x)
      then show ?thesis using ld rd pr q by (auto simp: load_page_def is_ok_def)
    next
      case (Inr k)
      have res: "r = Inr ?p" "s' = install_frame k ?p w s1" using ld rd pr Inr by (auto simp: load_page_def)
      have new1: "frame_at s1 i = None" using quiet_frame_None[OF e(1)] new by simp
      have "view s1 i = Some bs" using q(2) vi by simp
      then have "page_img (bs_disk s1) i = Some bs" using new1 by (simp add: view_def)
      then have ins: "buffer_ok s'" "view s' = view s1" "pin_state s' = (pin_state s1)(i := (1, w))"
        using install_frame_effect[OF q(1) e(2)[OF Inr], of ?p w] new1 len res(2) by (simp_all add: wf_page_def)
      have "bs_disk s' = bs_disk s1" "bs_wal s' = bs_wal s1" using res(2) by (simp_all add: install_frame_def Let_def)
      from wal_rule_cong[OF this] show ?thesis using ins q res(1) vi len by (auto simp: is_ok_def wf_page_def)
    qed
  qed
  then show "buffer_ok s'" "view s' = view s" "wal_rule C s \<Longrightarrow> wal_rule C s'" "\<not> is_ok r \<Longrightarrow> pin_state s' = pin_state s"
    "r = Inr p \<Longrightarrow> pin_state s' = (pin_state s)(i := (1, w)) \<and> view s i = Some (page_bytes p) \<and> page_id p = i \<and> wf_page p" by blast+
qed

lemma cached_frame:
  assumes "buffer_ok s" "find_frame i s = Some k"
  shows "k < length (bs_frames s)" "bf_page_id (bs_frames s ! k) = i" "frame_ok (bs_disk s) i (bs_frames s ! k)"
    "view s i = Some (page_bytes (bf_page (bs_frames s ! k)))" "pin_state s i = (unat (bf_pin_count (bs_frames s ! k)), bf_writer (bs_frames s ! k))"
  using find_frame_Some[OF buffer_okD(3)[OF assms(1)] assms(2)] buffer_okD(6)[OF assms(1)] by (auto simp: view_def pin_state_def)

lemma update_fields: "bs_disk (update_frame k g s) = bs_disk s" "bs_wal (update_frame k g s) = bs_wal s"
  by (simp_all add: update_frame_def)

lemma pin_read_effect:
  assumes ok: "buffer_ok s" and pr: "pin_read C i s = (r, s')"
  shows "buffer_ok s'" "view s' = view s" "wal_rule C s \<Longrightarrow> wal_rule C s'" "\<not> is_ok r \<Longrightarrow> pin_state s' = pin_state s"
    "r = Inr p \<Longrightarrow> \<exists>n. pin_state s i = (n, False) \<and> pin_state s' = (pin_state s)(i := (Suc n, False)) \<and>
       view s i = Some (page_bytes p) \<and> page_id p = i \<and> wf_page p"
proof -
  have "buffer_ok s' \<and> view s' = view s \<and> (wal_rule C s \<longrightarrow> wal_rule C s') \<and> (\<not> is_ok r \<longrightarrow> pin_state s' = pin_state s) \<and>
    (r = Inr p \<longrightarrow> (\<exists>n. pin_state s i = (n, False) \<and> pin_state s' = (pin_state s)(i := (Suc n, False)) \<and>
       view s i = Some (page_bytes p) \<and> page_id p = i \<and> wf_page p))"
  proof (cases "find_frame i s")
    case None
    then have "load_page C i False s = (r, s')" using pr by (simp add: pin_read_def)
    note l = load_page_effect[OF ok None[unfolded find_frame_None] this]
    have "pin_state s i = (0, False)" using None by (simp add: pin_state_def find_frame_None)
    then show ?thesis using l by auto
  next
    case (Some k)
    let ?f = "bs_frames s ! k" and ?g = "\<lambda>f. f\<lparr>bf_pin_count := bf_pin_count f + 1\<rparr>"
    note c = cached_frame[OF ok Some]
    show ?thesis
    proof (cases "bf_writer ?f \<or> bf_pin_count ?f = -1")
      case True
      then show ?thesis using pr Some ok by (auto simp: pin_read_def Let_def is_ok_def split: if_splits)
    next
      case False
      then have res: "r = Inr (bf_page ?f)" "s' = update_frame k ?g s" using pr Some by (auto simp: pin_read_def Let_def)
      have fok: "frame_ok (bs_disk s) i (?g ?f)" using c(3) False by (simp add: frame_ok_def)
      have u: "buffer_ok s'" "view s' = (view s)(i \<mapsto> page_bytes (bf_page ?f))" "pin_state s' = (pin_state s)(i := (unat (bf_pin_count ?f + 1), bf_writer ?f))"
        using update_frame_ok[where g = ?g, OF ok c(1,2) _ fok] c(2) res(2) by simp_all
      have "unat (bf_pin_count ?f + 1) = Suc (unat (bf_pin_count ?f))"
        using False by (metis unatSuc add.commute add.left_neutral add_eq_0_iff)
      moreover have "view s' = view s" using u(2) c(4) by (auto simp: fun_eq_iff)
      ultimately show ?thesis
        using u c False res wal_rule_cong[of s' s C] by (auto simp: update_fields is_ok_def frame_ok_def)
    qed
  qed
  then show "buffer_ok s'" "view s' = view s" "wal_rule C s \<Longrightarrow> wal_rule C s'" "\<not> is_ok r \<Longrightarrow> pin_state s' = pin_state s"
    "r = Inr p \<Longrightarrow> \<exists>n. pin_state s i = (n, False) \<and> pin_state s' = (pin_state s)(i := (Suc n, False)) \<and>
       view s i = Some (page_bytes p) \<and> page_id p = i \<and> wf_page p" by blast+
qed

lemma pin_write_effect:
  assumes ok: "buffer_ok s" and pr: "pin_write C i s = (r, s')"
  shows "buffer_ok s'" "view s' = view s" "wal_rule C s \<Longrightarrow> wal_rule C s'" "\<not> is_ok r \<Longrightarrow> pin_state s' = pin_state s"
    "r = Inr p \<Longrightarrow> pin_state s i = (0, False) \<and> pin_state s' = (pin_state s)(i := (1, True)) \<and>
       view s i = Some (page_bytes p) \<and> page_id p = i \<and> wf_page p"
proof -
  have "buffer_ok s' \<and> view s' = view s \<and> (wal_rule C s \<longrightarrow> wal_rule C s') \<and> (\<not> is_ok r \<longrightarrow> pin_state s' = pin_state s) \<and>
    (r = Inr p \<longrightarrow> pin_state s i = (0, False) \<and> pin_state s' = (pin_state s)(i := (1, True)) \<and>
       view s i = Some (page_bytes p) \<and> page_id p = i \<and> wf_page p)"
  proof (cases "find_frame i s")
    case None
    then have "load_page C i True s = (r, s')" using pr by (simp add: pin_write_def)
    note l = load_page_effect[OF ok None[unfolded find_frame_None] this]
    have "pin_state s i = (0, False)" using None by (simp add: pin_state_def find_frame_None)
    then show ?thesis using l by auto
  next
    case (Some k)
    let ?f = "bs_frames s ! k" and ?g = "\<lambda>f. f\<lparr>bf_pin_count := 1, bf_writer := True\<rparr>"
    note c = cached_frame[OF ok Some]
    show ?thesis
    proof (cases "bf_pin_count ?f = 0")
      case False
      then show ?thesis using pr Some ok by (auto simp: pin_write_def Let_def is_ok_def split: if_splits)
    next
      case True
      then have res: "r = Inr (bf_page ?f)" "s' = update_frame k ?g s" using pr Some by (auto simp: pin_write_def Let_def)
      have fok: "frame_ok (bs_disk s) i (?g ?f)" using c(3) by (simp add: frame_ok_def)
      have u: "buffer_ok s'" "view s' = (view s)(i \<mapsto> page_bytes (bf_page ?f))" "pin_state s' = (pin_state s)(i := (1, True))"
        using update_frame_ok[where g = ?g, OF ok c(1,2) _ fok] c(2) res(2) by simp_all
      have "view s' = view s" using u(2) c(4) by (auto simp: fun_eq_iff)
      moreover have "\<not> bf_writer ?f" using c(3) True by (auto simp: frame_ok_def)
      ultimately show ?thesis
        using u c True res wal_rule_cong[of s' s C] by (auto simp: update_fields is_ok_def frame_ok_def)
    qed
  qed
  then show "buffer_ok s'" "view s' = view s" "wal_rule C s \<Longrightarrow> wal_rule C s'" "\<not> is_ok r \<Longrightarrow> pin_state s' = pin_state s"
    "r = Inr p \<Longrightarrow> pin_state s i = (0, False) \<and> pin_state s' = (pin_state s)(i := (1, True)) \<and>
       view s i = Some (page_bytes p) \<and> page_id p = i \<and> wf_page p" by blast+
qed


lemma release_read_effect:
  assumes ok: "buffer_ok s" and pinned: "pin_state s i = (Suc n, False)"
  shows "buffer_ok (release_read i s)" "view (release_read i s) = view s" "pin_state (release_read i s) = (pin_state s)(i := (n, False))"
    "wal_rule C (release_read i s) = wal_rule C s"
proof -
  obtain k where k: "find_frame i s = Some k" using pinned by (cases "find_frame i s") (simp_all add: find_frame_None pin_state_def)
  let ?f = "bs_frames s ! k" and ?g = "\<lambda>f. if bf_pin_count f > 0 then f\<lparr>bf_pin_count := bf_pin_count f - 1\<rparr> else f"
  note c = cached_frame[OF ok k]
  have pos: "bf_pin_count ?f \<noteq> 0" "bf_pin_count ?f > 0" "unat (bf_pin_count ?f) = Suc n" "\<not> bf_writer ?f"
    using c(5) pinned by (auto simp: word_less_nat_alt)
  then have n: "unat (bf_pin_count ?f - 1) = n" using unat_minus_one[of "bf_pin_count ?f"] by simp
  have g: "bf_page_id (?g ?f) = i" "frame_ok (bs_disk s) i (?g ?f)" using c(2,3) pos(4) by (simp_all add: frame_ok_def)
  have s': "release_read i s = update_frame k ?g s" by (simp add: release_read_def k)
  note u = update_frame_ok[where g = ?g, OF ok c(1,2) g]
  show "buffer_ok (release_read i s)" using u(1) s' by simp
  show "view (release_read i s) = view s" using u(3) s' c(4) by (auto simp: fun_eq_iff)
  show "pin_state (release_read i s) = (pin_state s)(i := (n, False))" using u(4) s' pos n by (auto simp: fun_eq_iff)
  show "wal_rule C (release_read i s) = wal_rule C s" by (rule wal_rule_cong) (simp_all add: s' update_fields)
qed

lemma release_write_effect:
  assumes ok: "buffer_ok s" and pinned: "pin_state s i = (1, True)" and p: "wf_page p" "\<not> dirty \<Longrightarrow> view s i = Some (page_bytes p)"
  shows "buffer_ok (release_write i p dirty s)" "view (release_write i p dirty s) = (view s)(i \<mapsto> page_bytes p)"
    "pin_state (release_write i p dirty s) = (pin_state s)(i := (0, False))" "wal_rule C (release_write i p dirty s) = wal_rule C s"
proof -
  obtain k where k: "find_frame i s = Some k" using pinned by (cases "find_frame i s") (simp_all add: find_frame_None pin_state_def)
  let ?f = "bs_frames s ! k"
  let ?g = "\<lambda>f. f\<lparr>bf_page := p\<lparr>page_id := i\<rparr>, bf_dirty := bf_dirty f \<or> dirty, bf_writer := False,
    bf_pin_count := (if bf_pin_count f > 0 then bf_pin_count f - 1 else bf_pin_count f)\<rparr>"
  note c = cached_frame[OF ok k]
  have "unat (bf_pin_count ?f) = unat (1 :: u32)" using c(5) pinned by simp
  then have one: "bf_pin_count ?f = 1" by (simp only: word_unat_eq_iff)
  have g: "bf_page_id (?g ?f) = i" using c(2) by simp
  have g': "frame_ok (bs_disk s) i (?g ?f)" using c(3,4) p by (auto simp: frame_ok_def wf_page_def)
  have s': "release_write i p dirty s = update_frame k ?g s" by (simp add: release_write_def k)
  note u = update_frame_ok[where g = ?g, OF ok c(1,2) g g']
  show "buffer_ok (release_write i p dirty s)" using u(1) s' by simp
  show "view (release_write i p dirty s) = (view s)(i \<mapsto> page_bytes p)" using u(3) s' by simp
  show "pin_state (release_write i p dirty s) = (pin_state s)(i := (0, False))" using u(4) s' one by simp
  show "wal_rule C (release_write i p dirty s) = wal_rule C s" by (rule wal_rule_cong) (simp_all add: s' update_fields)
qed

text \<open>A change of the page file that leaves the pages of the frames alone.\<close>

lemma disk_change_ok:
  assumes ok: "buffer_ok s" and m: "wf_pages m" "atomic_io m"
    and keep: "\<And>i f. frame_at s i = Some f \<Longrightarrow> i < pm_count m \<and> page_img m i = page_img (bs_disk s) i"
  shows "buffer_ok (s\<lparr>bs_disk := m\<rparr>)" "view (s\<lparr>bs_disk := m\<rparr>) i = (if frame_at s i = None then page_img m i else view s i)"
    "pin_state (s\<lparr>bs_disk := m\<rparr>) = pin_state s"
proof -
  have at: "frame_at (s\<lparr>bs_disk := m\<rparr>) = frame_at s" "frame_ids (s\<lparr>bs_disk := m\<rparr>) = frame_ids s" by (simp_all add: frame_at_def frame_ids_def)
  have "frame_ok m i f" if "frame_at s i = Some f" for i f
    using buffer_okD(6)[OF ok that] keep[OF that] by (simp add: frame_ok_def)
  then show "buffer_ok (s\<lparr>bs_disk := m\<rparr>)" using ok m by (simp add: buffer_ok_def at)
  show "view (s\<lparr>bs_disk := m\<rparr>) i = (if frame_at s i = None then page_img m i else view s i)" by (auto simp: view_def at split: option.splits)
  show "pin_state (s\<lparr>bs_disk := m\<rparr>) = pin_state s" by (simp add: pin_state_def at fun_eq_iff)
qed

lemma sync_effect:
  assumes ok: "buffer_ok s" and sy: "on_disk (pm_sync (bs_disk s)) s = (r, s')"
  shows "quiet C s s'"
proof -
  obtain r1 m where m: "pm_sync (bs_disk s) = (r1, m)" "wf_pages m" "atomic_io m" "page_img m = page_img (bs_disk s)"
    by (rule sync_pages[OF buffer_okD(1,2)[OF ok]]) blast
  have cnt: "pm_count m = pm_count (bs_disk s)"
    using m(1) by (auto simp: pm_sync_def next_io_def split: list.splits page_io.splits prod.splits)
  have s': "s' = s\<lparr>bs_disk := m\<rparr>" using sy m(1) by (simp add: on_disk_def)
  have "frame_at s' = frame_at s" "frame_ids s' = frame_ids s" by (simp_all add: s' frame_at_def frame_ids_def)
  moreover have "i < pm_count m" if "frame_at s i = Some f" for i f using buffer_okD(6)[OF ok that] cnt by (simp add: frame_ok_def)
  then have "buffer_ok s'" using disk_change_ok(1)[OF ok m(2,3)] m(4) s' by simp
  moreover have "view s' = view s" by (simp add: s' view_def frame_at_def fun_eq_iff m(4) split: option.splits)
  ultimately show ?thesis
    using m(4) cnt s' by (auto simp: quiet_def same_pages_def known_def pin_state_def wal_rule_def fun_eq_iff split: option.splits)
qed

lemma zero_page_unlogged: "logged C w i (replicate 4096 0)"
proof -
  have "page_lsn C (page_at i (replicate 4096 0)) \<noteq> Inr x" for x
  proof
    assume "page_lsn C (page_at i (replicate 4096 0)) = Inr x"
    then obtain h where "header C (page_at i (replicate 4096 0)) = Inr h" by (auto simp: page_lsn_def)
    from valid_page_nonzero[OF this] show False by (simp add: page_at_def list_all_iff)
  qed
  then show ?thesis by (simp add: logged_def)
qed

text \<open>Growing the file by a page of zeros, which no frame shows yet.\<close>

lemma grow_effect:
  assumes ok: "buffer_ok s" and fits: "page_fits (pm_count (bs_disk s))" and gr: "on_disk (Page_Manager.allocate_page (bs_disk s)) s = (r, s')"
  shows "buffer_ok s'" "pin_state s' = pin_state s" "frame_at s' = frame_at s" "bs_frames s' = bs_frames s" "bs_capacity s' = bs_capacity s"
    "wal_rule C s \<Longrightarrow> wal_rule C s'"
    "\<not> is_ok r \<Longrightarrow> view s' = view s \<and> page_img (bs_disk s') = page_img (bs_disk s)"
    "r = Inr p \<Longrightarrow> p = page_zero (pm_count (bs_disk s)) \<and> frame_at s (page_id p) = None \<and> view s (page_id p) = None \<and>
       view s' = (view s)(page_id p \<mapsto> page_bytes p) \<and> page_img (bs_disk s') = (page_img (bs_disk s))(page_id p \<mapsto> page_bytes p)"
proof -
  let ?n = "pm_count (bs_disk s)"
  have fits1: "4096 * (unat ?n + 1) \<le> USIZE_MAX" using fits by (simp add: page_fits_def)
  obtain r2 m where a: "Page_Manager.allocate_page (bs_disk s) = (r2, m)" "wf_pages m" "atomic_io m"
    "r2 = Inr (page_zero ?n) \<and> page_img m = (page_img (bs_disk s))(?n \<mapsto> replicate 4096 0) \<and> unat (pm_count m) = unat ?n + 1 \<or>
     r2 = Inl SeIo \<and> page_img m = page_img (bs_disk s) \<and> pm_count m = ?n"
    by (rule allocate_page_img[OF buffer_okD(1,2)[OF ok] fits1]) auto
  have s': "r = r2" "s' = s\<lparr>bs_disk := m\<rparr>" using gr a(1) by (simp_all add: on_disk_def)
  have below: "i < ?n" if "frame_at s i = Some f" for i f using buffer_okD(6)[OF ok that] by (simp add: frame_ok_def)
  have keep: "i < pm_count m \<and> page_img m i = page_img (bs_disk s) i" if "frame_at s i = Some f" for i f
    using a(4) below[OF that] by (auto simp: word_less_nat_alt)
  have new: "frame_at s ?n = None" using below by (cases "frame_at s ?n") auto
  have v: "view s' i = (if frame_at s i = None then page_img m i else view s i)" for i
    unfolding s'(2) using disk_change_ok(2)[OF ok a(2,3)] keep by blast
  have v0: "frame_at s i = None \<Longrightarrow> view s i = page_img (bs_disk s) i" for i by (simp add: view_def)
  show "buffer_ok s'" "pin_state s' = pin_state s" unfolding s'(2) using disk_change_ok(1,3)[OF ok a(2,3)] keep by blast+
  show "frame_at s' = frame_at s" "bs_frames s' = bs_frames s" "bs_capacity s' = bs_capacity s" by (simp_all add: s'(2) frame_at_def)
  show "wal_rule C s \<Longrightarrow> wal_rule C s'" using a(4) zero_page_unlogged by (auto simp: wal_rule_def s'(2) split: if_splits)
  show "\<not> is_ok r \<Longrightarrow> view s' = view s \<and> page_img (bs_disk s') = page_img (bs_disk s)"
    using a(4) v v0 s' by (auto simp: is_ok_def fun_eq_iff)
  have z: "page_id (page_zero ?n) = ?n" "page_bytes (page_zero ?n) = replicate 4096 0" by (simp_all add: page_zero_def PAGE_SIZE_def)
  have none: "view s ?n = None" using new by (simp add: v0 page_img_def)
  show "r = Inr p \<Longrightarrow> p = page_zero ?n \<and> frame_at s (page_id p) = None \<and> view s (page_id p) = None \<and>
      view s' = (view s)(page_id p \<mapsto> page_bytes p) \<and> page_img (bs_disk s') = (page_img (bs_disk s))(page_id p \<mapsto> page_bytes p)"
    using a(4) v v0 s' new z none by (auto simp: fun_eq_iff)
qed

lemma allocate_effect:
  assumes ok: "buffer_ok s" and fits: "page_fits (pm_count (bs_disk s))" and al: "buf_allocate_page C s = (r, s')"
  shows "buffer_ok s'" "wal_rule C s \<Longrightarrow> wal_rule C s'" "\<not> is_ok r \<Longrightarrow> view s' = view s \<and> pin_state s' = pin_state s"
    "r = Inr p \<Longrightarrow> p = page_zero (pm_count (bs_disk s)) \<and> view s (page_id p) = None \<and> view s' = (view s)(page_id p \<mapsto> page_bytes p) \<and>
       pin_state s (page_id p) = (0, False) \<and> pin_state s' = (pin_state s)(page_id p := (1, True))"
    "\<not> is_ok r \<or> (pm_count (bs_disk s), replicate 4096 0) \<in> X \<Longrightarrow> known X s s'"
proof -
  obtain r1 s1 where pr: "prepare_frame C s = (r1, s1)" by fastforce
  note e = prepare_frame_effect[OF ok pr] and q = quietD[OF prepare_frame_effect(1)[OF ok pr]]
  have "buffer_ok s' \<and> (wal_rule C s \<longrightarrow> wal_rule C s') \<and> (\<not> is_ok r \<longrightarrow> view s' = view s \<and> pin_state s' = pin_state s) \<and>
    (r = Inr p \<longrightarrow> p = page_zero (pm_count (bs_disk s)) \<and> view s (page_id p) = None \<and> view s' = (view s)(page_id p \<mapsto> page_bytes p) \<and>
       pin_state s (page_id p) = (0, False) \<and> pin_state s' = (pin_state s)(page_id p := (1, True))) \<and>
    (\<not> is_ok r \<or> (pm_count (bs_disk s), replicate 4096 0) \<in> X \<longrightarrow> known X s s')"
  proof (cases r1)
    case (Inl x)
    then show ?thesis using al pr q by (auto simp: buf_allocate_page_def is_ok_def)
  next
    case (Inr k)
    obtain r2 s2 where gr: "on_disk (Page_Manager.allocate_page (bs_disk s1)) s1 = (r2, s2)" by fastforce
    have fits1: "page_fits (pm_count (bs_disk s1))" using fits q(6) by simp
    note g = grow_effect[OF q(1) fits1 gr]
    show ?thesis
    proof (cases r2)
      case (Inl x)
      have "known X s1 s2" using g(7) Inl by (simp add: known_def is_ok_def)
      then show ?thesis using al pr Inr gr Inl g(1,2,6,7) q known_trans[OF q(7)] by (auto simp: buf_allocate_page_def is_ok_def)
    next
      case ok2: (Inr u)
      have u: "u = page_zero (pm_count (bs_disk s))" "frame_at s1 (page_id u) = None" "view s1 (page_id u) = None"
        "view s2 = (view s1)(page_id u \<mapsto> page_bytes u)" "page_img (bs_disk s2) = (page_img (bs_disk s1))(page_id u \<mapsto> page_bytes u)"
        using g(8)[OF ok2, unfolded q(6)] by blast+
      have wf: "wf_page u" and z: "page_bytes u = replicate 4096 0" using u(1) by (simp_all add: page_zero_def wf_page_def PAGE_SIZE_def)
      have res: "r = Inr u" "s' = install_frame k u True s2" using al pr Inr gr ok2 by (auto simp: buf_allocate_page_def)
      have slot: "free_slot s2 k" using e(2)[OF Inr] g(2,4,5) by (simp add: free_slot_def)
      have new: "frame_at s2 (page_id u) = None" "page_img (bs_disk s2) (page_id u) = Some (page_bytes u)" using u(2,5) g(3) by simp_all
      note i = install_frame_effect[where w = True, OF g(1) slot new wf]
      have d: "bs_disk s' = bs_disk s2" "bs_wal s' = bs_wal s2" by (simp_all add: res(2) install_frame_def Let_def)
      have "known X s1 s'" if "(page_id u, page_bytes u) \<in> X"
        using u(4,5) i(2) that unfolding known_def d(1) res(2)[symmetric] by (auto split: if_splits)
      then have k: "known X s s'" if "(page_id u, page_bytes u) \<in> X" using that known_trans[OF q(7)] by blast
      have free: "pin_state s (page_id u) = (0, False)" using u(2) q(3) by (metis pin_state_def option.simps(4))
      have id: "page_id u = pm_count (bs_disk s)" using u(1) by (simp add: page_zero_def)
      show ?thesis
        using i(1,2,3) u(1,3,4) q(2,3,5) g(2,6) wal_rule_cong[OF d] free k z id res by (auto simp: is_ok_def)
    qed
  qed
  then show "buffer_ok s'" "wal_rule C s \<Longrightarrow> wal_rule C s'" "\<not> is_ok r \<Longrightarrow> view s' = view s \<and> pin_state s' = pin_state s"
    "r = Inr p \<Longrightarrow> p = page_zero (pm_count (bs_disk s)) \<and> view s (page_id p) = None \<and> view s' = (view s)(page_id p \<mapsto> page_bytes p) \<and>
       pin_state s (page_id p) = (0, False) \<and> pin_state s' = (pin_state s)(page_id p := (1, True))"
    "\<not> is_ok r \<or> (pm_count (bs_disk s), replicate 4096 0) \<in> X \<Longrightarrow> known X s s'" by blast+
qed

lemma flush_page_quiet: "buffer_ok s \<Longrightarrow> flush_page C i s = (r, s') \<Longrightarrow> quiet C s s'"
proof -
  assume ok: "buffer_ok s" and fl: "flush_page C i s = (r, s')"
  show ?thesis
  proof (cases "find_frame i s")
    case None
    then show ?thesis using fl quiet_refl[OF ok] by (simp add: flush_page_def)
  next
    case (Some k)
    obtain r1 s1 where f: "flush_frame C k s = (r1, s1)" by fastforce
    note q = flush_frame_effect(1)[OF ok f]
    show ?thesis
    proof (cases r1)
      case (Inl x)
      then show ?thesis using fl Some f q by (simp add: flush_page_def)
    next
      case (Inr u)
      then have "on_disk (pm_sync (bs_disk s1)) s1 = (r, s')" using fl Some f by (simp add: flush_page_def)
      from quiet_trans[OF q sync_effect[OF quietD(1)[OF q] this]] show ?thesis .
    qed
  qed
qed


section \<open>Rollback and page transitions\<close>

text \<open>What an operation on one page may change: that page, and only when no guard holds it.\<close>

definition touches :: "crc \<Rightarrow> PageId \<Rightarrow> (PageId \<times> byte list) set \<Rightarrow> buffer_state \<Rightarrow> buffer_state \<Rightarrow> bool" where
  "touches C i X s s' \<longleftrightarrow> buffer_ok s' \<and> pin_state s' = pin_state s \<and> (\<forall>j. j \<noteq> i \<or> pin_state s i \<noteq> (0, False) \<longrightarrow> view s' j = view s j) \<and>
     (wal_rule C s \<longrightarrow> wal_rule C s') \<and> known X s s'"

lemma touches_trans: "touches C i X s s' \<Longrightarrow> touches C i X s' s'' \<Longrightarrow> touches C i X s s''"
  by (auto simp: touches_def intro: known_trans)

lemma quiet_touches: "quiet C s s' \<Longrightarrow> touches C i X s s'"
  using quietD(7)[of C s s' X] by (simp add: quiet_def same_pages_def touches_def)

lemma touchesD: "touches C i X s s' \<Longrightarrow> buffer_ok s'" "touches C i X s s' \<Longrightarrow> pin_state s' = pin_state s"
  by (simp_all add: touches_def)

lemma drop_frame_effect:
  assumes ok: "buffer_ok s" and k: "find_frame i s = Some k" and free: "pin_state s i = (0, False)"
  shows "touches C i X s (remove_frame k s)" "frame_at (remove_frame k s) i = None" "view (remove_frame k s) = (view s)(i := page_img (bs_disk s) i)"
    "bs_disk (remove_frame k s) = bs_disk s"
proof -
  note c = cached_frame[OF ok k]
  note r = frame_at_remove[OF buffer_okD(3)[OF ok] c(1), unfolded c(2)]
  have f: "bs_disk (remove_frame k s) = bs_disk s" "bs_capacity (remove_frame k s) = bs_capacity s" "bs_wal (remove_frame k s) = bs_wal s"
    by (simp_all add: remove_frame_def Let_def)
  show "frame_at (remove_frame k s) i = None" "bs_disk (remove_frame k s) = bs_disk s" using r(1) f by simp_all
  show v: "view (remove_frame k s) = (view s)(i := page_img (bs_disk s) i)" by (auto simp: view_def r(1) f fun_eq_iff split: option.splits)
  have "buffer_ok (remove_frame k s)" using ok r f by (auto simp: buffer_ok_def split: if_splits)
  moreover have "pin_state (remove_frame k s) = pin_state s" using free unfolding pin_state_def r(1) by (auto simp: fun_eq_iff)
  moreover have "known X s (remove_frame k s)" using v f(1) by (auto simp: known_def split: if_splits)
  ultimately show "touches C i X s (remove_frame k s)" using v free wal_rule_cong[OF f(1,3)] by (simp add: touches_def)
qed

lemma restore_frame_effect:
  assumes ok: "buffer_ok s" and p: "wf_page p" "page_id p < pm_count (bs_disk s)" and rs: "restore_frame C p s = (r, s')"
    and X: "(page_id p, page_bytes p) \<in> X"
  shows "touches C (page_id p) X s s'" "is_ok r \<Longrightarrow> view s' (page_id p) = Some (page_bytes p)"
proof -
  let ?i = "page_id p"
  have "touches C ?i X s s' \<and> (is_ok r \<longrightarrow> view s' ?i = Some (page_bytes p))"
  proof (cases "find_frame ?i s")
    case None
    obtain r1 s1 where pr: "prepare_frame C s = (r1, s1)" by fastforce
    note e = prepare_frame_effect[OF ok pr] and q = quietD[OF prepare_frame_effect(1)[OF ok pr]]
    show ?thesis
    proof (cases r1)
      case (Inl x)
      then show ?thesis using rs None pr quiet_touches[OF e(1)] by (auto simp: restore_frame_def is_ok_def)
    next
      case (Inr k)
      let ?f = "\<lparr>bf_page_id = ?i, bf_page = p, bf_pin_count = 0, bf_writer = False, bf_dirty = True\<rparr>"
      have slot: "free_slot s1 k" by (rule e(2)[OF Inr])
      then have "k \<le> length (bs_frames s1)" by (auto simp: free_slot_def)
      then have res: "is_ok r" "s' = place_frame k ?f s1"
        using rs None pr Inr place_frame_nth(3)[of k s1 "\<lambda>f. f\<lparr>bf_pin_count := 0, bf_dirty := True\<rparr>"]
        by (auto simp: restore_frame_def is_ok_def install_is_place)
      have new: "frame_at s1 ?i = None" using quiet_frame_None[OF e(1)] None find_frame_None by blast
      have fok: "frame_ok (bs_disk s1) ?i ?f" using p q(6) by (simp add: frame_ok_def)
      have free: "pin_state s1 ?i = (0, False)" using new by (simp add: pin_state_def)
      note pl = place_frame_effect[OF q(1) slot new _ fok]
      have "wal_rule C s' = wal_rule C s1" by (rule wal_rule_cong) (simp_all add: res(2) place_frame_def)
      moreover have "known X s1 s'" by (rule known_update[OF _ _ X]) (use pl res(2) in \<open>simp_all add: place_frame_def\<close>)
      ultimately have "touches C ?i X s1 s'" using pl res(2) free by (auto simp: touches_def)
      from touches_trans[OF quiet_touches[OF e(1)] this] show ?thesis using pl(2) res by simp
    qed
  next
    case (Some k)
    let ?f = "bs_frames s ! k" and ?g = "\<lambda>f. f\<lparr>bf_page := p, bf_dirty := True\<rparr>"
    note c = cached_frame[OF ok Some]
    show ?thesis
    proof (cases "bf_pin_count ?f = 0")
      case False
      then show ?thesis using rs Some quiet_touches[OF quiet_refl[OF ok]] by (auto simp: restore_frame_def is_ok_def)
    next
      case True
      have nw: "\<not> bf_writer ?f" using c(3) True by (auto simp: frame_ok_def)
      have res: "is_ok r" "s' = update_frame k ?g s" using rs Some True by (auto simp: restore_frame_def is_ok_def)
      have fok: "frame_ok (bs_disk s) ?i (?g ?f)" using p nw by (simp add: frame_ok_def)
      have u: "buffer_ok s'" "view s' = (view s)(?i \<mapsto> page_bytes p)" "pin_state s' = (pin_state s)(?i := (0, False))"
        using update_frame_ok[where g = ?g, OF ok c(1,2) _ fok] c(2) res(2) True nw by simp_all
      have "wal_rule C s' = wal_rule C s" by (rule wal_rule_cong) (simp_all add: res(2) update_fields)
      moreover have "known X s s'" by (rule known_update[OF _ _ X]) (use u(2) res(2) in \<open>simp_all add: update_fields\<close>)
      ultimately show ?thesis using u c(5) True nw by (auto simp: touches_def fun_eq_iff)
    qed
  qed
  then show "touches C ?i X s s'" "is_ok r \<Longrightarrow> view s' ?i = Some (page_bytes p)" by blast+
qed

lemma flush_then_sync:
  assumes ok: "buffer_ok s" and fl: "bindS (flush_frame C k s) (\<lambda>_ s. on_disk (pm_sync (bs_disk s)) s) = (r, s')"
  shows "quiet C s s'"
proof -
  obtain r1 s1 where f: "flush_frame C k s = (r1, s1)" by fastforce
  note q = flush_frame_effect(1)[OF ok f]
  show ?thesis
  proof (cases r1)
    case (Inl x)
    then show ?thesis using fl f q by simp
  next
    case (Inr u)
    then have "on_disk (pm_sync (bs_disk s1)) s1 = (r, s')" using fl f by simp
    from quiet_trans[OF q sync_effect[OF quietD(1)[OF q] this]] show ?thesis .
  qed
qed

text \<open>Cutting the last page off the file, when no frame shows it.\<close>

lemma trim_effect:
  assumes ok: "buffer_ok s" and new: "frame_at s i = None" and i: "i \<le> pm_count (bs_disk s)"
    and tr: "bindS (on_disk (remove_trailing_page i (bs_disk s)) s) (\<lambda>_ s. on_disk (pm_sync (bs_disk s)) s) = (r, s')"
  shows "touches C i X s s'" "is_ok r \<Longrightarrow> view s' i = None"
proof -
  let ?m = "bs_disk s"
  have free: "pin_state s i = (0, False)" using new by (simp add: pin_state_def)
  have "touches C i X s s' \<and> (is_ok r \<longrightarrow> view s' i = None)"
  proof (cases "i \<noteq> 0 \<and> (i = pm_count ?m \<or> unat (pm_count ?m) = unat i + 1)")
    case False
    have "unat i + 1 \<noteq> unat (pm_count ?m) \<or> i = 0" "i \<noteq> pm_count ?m" using False buffer_okD(1)[OF ok] by (auto simp: wf_pages_def)
    moreover have "unat n = unat i + 1" if "checked_add_u64 i 1 = Some n" for n
      using that by (auto simp: checked_add_u64_def unat_word_ariths split: if_splits)
    then have "n \<noteq> pm_count ?m \<or> i = 0" if "checked_add_u64 i 1 = Some n" for n using calculation that by auto
    ultimately obtain e where "remove_trailing_page i ?m = (Inl e, ?m)"
      by (cases "checked_add_u64 i 1") (auto simp: remove_trailing_page_def ensure_def)
    then show ?thesis using tr quiet_touches[OF quiet_refl[OF ok]] by (auto simp: on_disk_def is_ok_def)
  next
    case True
    then have nz: "i \<noteq> 0" and last: "i = pm_count ?m \<or> unat (pm_count ?m) = unat i + 1" by blast+
    obtain r1 m where w: "remove_trailing_page i ?m = (r1, m)" "wf_pages m" "atomic_io m"
      "is_ok r1 \<and> page_img m = (page_img ?m)(i := None) \<and> pm_count m = i \<or> \<not> is_ok r1 \<and> page_img m = page_img ?m \<and> pm_count m = pm_count ?m"
      by (rule remove_trailing_page_img[OF buffer_okD(1,2)[OF ok] nz last]) (auto simp: is_ok_def)
    let ?s1 = "s\<lparr>bs_disk := m\<rparr>"
    have keep: "j < pm_count m \<and> page_img m j = page_img ?m j" if "frame_at s j = Some f" for j f
    proof -
      have "j \<noteq> i" "j < pm_count ?m" using that new buffer_okD(6)[OF ok that] by (auto simp: frame_ok_def)
      then show ?thesis using w(4) last by (auto simp: word_less_nat_alt word_unat_eq_iff)
    qed
    have d: "buffer_ok ?s1" "\<And>j. view ?s1 j = (if frame_at s j = None then page_img m j else view s j)" "pin_state ?s1 = pin_state s"
      using disk_change_ok[OF ok w(2,3)] keep by blast+
    have v: "view ?s1 j = view s j" if "j \<noteq> i" for j using d(2)[of j] w(4) that by (auto simp: view_def split: if_splits)
    have "page_img ?m i = view s i" using new by (simp add: view_def)
    then have "known X s ?s1" using d(2) w(4) new by (auto simp: known_def view_def split: if_splits)
    then have t: "touches C i X s ?s1" using d v free w(4) by (auto simp: touches_def wal_rule_def split: if_splits)
    show ?thesis
    proof (cases r1)
      case (Inl x)
      then show ?thesis using tr w(1) t by (auto simp: on_disk_def is_ok_def)
    next
      case (Inr u)
      then have sy: "on_disk (pm_sync (bs_disk ?s1)) ?s1 = (r, s')" using tr w(1) by (simp add: on_disk_def)
      note q = sync_effect[OF d(1) sy]
      have "view ?s1 i = None" using d(2)[of i] new w(4) Inr by (simp add: is_ok_def)
      then show ?thesis using touches_trans[OF t quiet_touches[OF q]] quietD(2)[OF q] by simp
    qed
  qed
  then show "touches C i X s s'" "is_ok r \<Longrightarrow> view s' i = None" by blast+
qed

lemma remove_new_page_effect:
  assumes ok: "buffer_ok s" and rm: "remove_new_page i s = (r, s')"
  shows "touches C i X s s'" "is_ok r \<Longrightarrow> view s' i = None"
proof -
  have absent: "frame_at s i = None" if "\<not> i < pm_count (bs_disk s)"
    using buffer_okD(6)[OF ok, of i] that by (cases "frame_at s i") (auto simp: frame_ok_def)
  consider "i > pm_count (bs_disk s)" | "i = pm_count (bs_disk s)" | "i < pm_count (bs_disk s)" by (meson linorder_cases)
  then have "touches C i X s s' \<and> (is_ok r \<longrightarrow> view s' i = None)"
  proof cases
    case 1
    then have "view s i = None" using absent by (auto simp: view_def page_img_def)
    then show ?thesis using rm 1 quiet_touches[OF quiet_refl[OF ok]] by (auto simp: remove_new_page_def)
  next
    case 2
    then have tr: "bindS (on_disk (remove_trailing_page i (bs_disk s)) s) (\<lambda>_ s. on_disk (pm_sync (bs_disk s)) s) = (r, s')"
      using rm by (simp add: remove_new_page_def)
    have le: "i \<le> pm_count (bs_disk s)" and new: "frame_at s i = None" using 2 absent by simp_all
    show ?thesis using trim_effect[OF ok new le tr] by blast
  next
    case 3
    then have b: "\<not> i > pm_count (bs_disk s)" "i \<noteq> pm_count (bs_disk s)" "i \<le> pm_count (bs_disk s)" by auto
    show ?thesis
    proof (cases "find_frame i s")
      case None
      then have tr: "bindS (on_disk (remove_trailing_page i (bs_disk s)) s) (\<lambda>_ s. on_disk (pm_sync (bs_disk s)) s) = (r, s')"
        using rm b by (simp add: remove_new_page_def)
      show ?thesis using trim_effect[OF ok None[unfolded find_frame_None] b(3) tr] by blast
    next
      case (Some k)
      note c = cached_frame[OF ok Some]
      show ?thesis
      proof (cases "bf_pin_count (bs_frames s ! k) = 0")
        case False
        then show ?thesis using rm b Some quiet_touches[OF quiet_refl[OF ok]] by (auto simp: remove_new_page_def is_ok_def)
      next
        case True
        then have free: "pin_state s i = (0, False)" using c(3,5) by (auto simp: frame_ok_def)
        note d = drop_frame_effect[OF ok Some free]
        have tr: "bindS (on_disk (remove_trailing_page i (bs_disk (remove_frame k s))) (remove_frame k s)) (\<lambda>_ s. on_disk (pm_sync (bs_disk s)) s) = (r, s')"
          using rm b Some True by (simp add: remove_new_page_def)
        have le: "i \<le> pm_count (bs_disk (remove_frame k s))" using b(3) d(4) by simp
        note t = trim_effect[OF touchesD(1)[OF d(1)] d(2) le tr]
        show ?thesis using touches_trans[OF d(1) t(1)] t(2) by blast
      qed
    qed
  qed
  then show "touches C i X s s'" "is_ok r \<Longrightarrow> view s' i = None" by blast+
qed

text \<open>The page an undo leaves behind.\<close>

definition before_page :: "byte list \<Rightarrow> byte list option" where
  "before_page bs = (if list_all (\<lambda>b. b = 0) bs then None else Some bs)"

lemma undo_page_update_effect:
  assumes ok: "buffer_ok s" and len: "length before = 4096" and un: "undo_page_update C i before expected s = (r, s')" and X: "(i, before) \<in> X"
  shows "touches C i X s s'" "is_ok r \<Longrightarrow> view s' i = before_page before"
proof -
  have "touches C i X s s' \<and> (is_ok r \<longrightarrow> view s' i = before_page before)"
  proof (cases "bindR (check_current C i expected s) (\<lambda>_. validate_before_image C i before)")
    case (Inl e)
    then show ?thesis using un quiet_touches[OF quiet_refl[OF ok]] by (auto simp: undo_page_update_def is_ok_def)
  next
    case (Inr b)
    then have vb: "validate_before_image C i before = Inr b" by auto
    show ?thesis
    proof (cases b)
      case NewPage
      then have "remove_new_page i s = (r, s')" "before_page before = None"
        using un Inr vb by (auto simp: undo_page_update_def before_page_def validate_before_image_def Let_def split: if_splits)
      then show ?thesis using remove_new_page_effect[OF ok] by simp
    next
      case (Existing p)
      have p: "p = \<lparr>page_id = i, page_bytes = before\<rparr>" "before_page before = Some before" "wf_page p"
        using vb Existing len by (auto simp: validate_before_image_def before_page_def Let_def wf_page_def split: if_splits)
      show ?thesis
      proof (cases "i < pm_count (bs_disk s)")
        case False
        then show ?thesis using un Inr Existing quiet_touches[OF quiet_refl[OF ok]] by (auto simp: undo_page_update_def is_ok_def not_less)
      next
        case True
        obtain r1 s1 where rs: "restore_frame C p s = (r1, s1)" by fastforce
        have "page_id p < pm_count (bs_disk s)" "(page_id p, page_bytes p) \<in> X" using True p(1) X by simp_all
        note t = restore_frame_effect[OF ok p(3) this(1) rs this(2), unfolded p(1) page.simps]
        show ?thesis
        proof (cases r1)
          case (Inl x)
          then have "(r, s') = (Inl x, s1)" using un[unfolded undo_page_update_def Inr Existing] True rs by (simp add: leD not_le[symmetric])
          then show ?thesis using t(1) by (simp add: is_ok_def)
        next
          case ok1: (Inr k)
          then have "bindS (flush_frame C k s1) (\<lambda>_ s. on_disk (pm_sync (bs_disk s)) s) = (r, s')"
            using un[unfolded undo_page_update_def Inr Existing] True rs by (simp add: leD not_le[symmetric])
          note q = flush_then_sync[OF touchesD(1)[OF t(1)] this]
          show ?thesis using touches_trans[OF t(1) quiet_touches[OF q]] t(2) quietD(2)[OF q] ok1 p(2) by (simp add: is_ok_def)
        qed
      qed
    qed
  qed
  then show "touches C i X s s'" "is_ok r \<Longrightarrow> view s' i = before_page before" by blast+
qed


lemma identity_page_id: "identity C p = Inr (r, owner) \<Longrightarrow> ref_page_id r = page_id p"
  by (auto simp: identity_def Let_def split: if_splits)

lemma transition_same_page: "validate_transition C before after = Inr () \<Longrightarrow> page_id after = page_id before"
  by (rule validate_transition_Inr) (auto dest!: identity_page_id)

lemma reusable_page_snapshot_Some:
  assumes ok: "buffer_ok s" and sn: "reusable_page_snapshot i s = Inr (Some p)"
  shows "pin_state s i = (0, False)" "view s i = Some (page_bytes p)" "page_img (bs_disk s) i = Some (page_bytes p)" "i < pm_count (bs_disk s)"
proof -
  have rd: "Page_Manager.read_page (bs_disk s) i = Inr p" using sn by (auto simp: reusable_page_snapshot_def split: if_splits)
  then show lt: "i < pm_count (bs_disk s)" by (auto simp: read_page_def ensure_page_exists_def)
  show img: "page_img (bs_disk s) i = Some (page_bytes p)"
    using read_page_img[OF buffer_okD(1)[OF ok], of i] rd lt by (auto simp: page_img_def)
  have "pin_state s i = (0, False) \<and> view s i = Some (page_bytes p)"
  proof (cases "find_frame i s")
    case None
    then show ?thesis using img by (simp add: find_frame_None view_def pin_state_def)
  next
    case (Some k)
    note c = cached_frame[OF ok Some]
    have "bf_pin_count (bs_frames s ! k) = 0" "\<not> bf_dirty (bs_frames s ! k)" "\<not> bf_writer (bs_frames s ! k)"
      using sn Some by (auto simp: reusable_page_snapshot_def Let_def split: if_splits)
    then show ?thesis using c img by (simp add: frame_ok_def)
  qed
  then show "pin_state s i = (0, False)" "view s i = Some (page_bytes p)" by blast+
qed

text \<open>Emptying the frame of an unpinned page, when it has one.\<close>

definition uncache :: "PageId \<Rightarrow> buffer_state \<Rightarrow> buffer_state" where
  "uncache i s = (case find_frame i s of Some index \<Rightarrow> remove_frame index s | None \<Rightarrow> s)"

lemma uncache_effect:
  assumes ok: "buffer_ok s" and free: "pin_state s i = (0, False)"
  shows "touches C i X s (uncache i s)" "frame_at (uncache i s) i = None" "bs_disk (uncache i s) = bs_disk s"
  using drop_frame_effect[OF ok _ free] quiet_touches[OF quiet_refl[OF ok]] by (auto simp: uncache_def find_frame_None split: option.splits)

lemma publish_page_transition_effect:
  assumes ok: "buffer_ok s" and wf: "wf_page after" and pb: "publish_page_transition C before after s = (r, s')" and X: "(page_id before, page_bytes after) \<in> X"
  shows "touches C (page_id before) X s s'" "is_ok r \<Longrightarrow> view s (page_id before) = Some (page_bytes before) \<and> view s' (page_id before) = Some (page_bytes after)"
    "\<not> is_ok r \<Longrightarrow> view s' = view s"
proof -
  let ?i = "page_id before"
  let ?check = "bindR (validate_transition C before after) (\<lambda>_.
            bindR (reusable_page_snapshot ?i s) (\<lambda>snapshot.
            bindR (ok_or (SeBuffer (BufPageDirty ?i)) snapshot) (\<lambda>current.
            ensure (page_bytes current = page_bytes before) (SeInvalidFormat ''transition candidate changed before publication''))))"
  have "touches C ?i X s s' \<and> (is_ok r \<longrightarrow> view s ?i = Some (page_bytes before) \<and> view s' ?i = Some (page_bytes after)) \<and> (\<not> is_ok r \<longrightarrow> view s' = view s)"
  proof (cases ?check)
    case (Inl e)
    show ?thesis using pb[unfolded publish_page_transition_def Inl] quiet_touches[OF quiet_refl[OF ok]] by (auto simp: is_ok_def)
  next
    case (Inr u)
    then obtain p where p: "validate_transition C before after = Inr ()" "reusable_page_snapshot ?i s = Inr (Some p)" "page_bytes p = page_bytes before"
      by (auto simp: ok_or_def split: option.splits)
    note sn = reusable_page_snapshot_Some[OF ok p(2)]
    have id: "page_id after = ?i" by (rule transition_same_page[OF p(1)])
    let ?s1 = "uncache ?i s"
    note un = uncache_effect[OF ok sn(1)]
    note ok1 = touchesD(1)[OF un(1)]
    have v1: "view ?s1 = view s"
    proof
      fix j
      show "view ?s1 j = view s j" using un sn(1,2,3) by (cases "j = ?i") (auto simp: touches_def view_def)
    qed
    obtain r2 s2 where pr: "prepare_frame C ?s1 = (r2, s2)" by fastforce
    note e = prepare_frame_effect[OF ok1 pr] and q = quietD[OF prepare_frame_effect(1)[OF ok1 pr]]
    have t: "touches C ?i X s s2" by (rule touches_trans[OF un(1) quiet_touches[OF e(1)]])
    show ?thesis
    proof (cases r2)
      case (Inl x)
      then have "r = Inl x" "s' = s2" using pb[unfolded publish_page_transition_def Inr] pr by (simp_all add: uncache_def)
      then show ?thesis using t v1 q(2) by (simp add: is_ok_def)
    next
      case ok2: (Inr k)
      let ?f = "\<lparr>bf_page_id = ?i, bf_page = after, bf_pin_count = 0, bf_writer = False, bf_dirty = True\<rparr>"
      have slot: "free_slot s2 k" by (rule e(2)[OF ok2])
      then have "k \<le> length (bs_frames s2)" by (auto simp: free_slot_def)
      then have res: "is_ok r" "s' = place_frame k ?f s2"
        using pb[unfolded publish_page_transition_def Inr] pr ok2 id place_frame_nth(3)[of k s2 "\<lambda>f. f\<lparr>bf_pin_count := 0, bf_dirty := True\<rparr>"]
        by (auto simp: uncache_def is_ok_def install_is_place)
      have new: "frame_at s2 ?i = None" using quiet_frame_None[OF e(1)] un(2) by blast
      have fok: "frame_ok (bs_disk s2) ?i ?f" using wf id sn(4) un(3) q(6) by (simp add: frame_ok_def)
      have free: "pin_state s2 ?i = (0, False)" using new by (simp add: pin_state_def)
      note pl = place_frame_effect[OF q(1) slot new _ fok]
      have "wal_rule C s' = wal_rule C s2" by (rule wal_rule_cong) (simp_all add: res(2) place_frame_def)
      moreover have "known X s2 s'" by (rule known_update[OF _ _ X]) (use pl res(2) in \<open>simp_all add: place_frame_def\<close>)
      ultimately have "touches C ?i X s2 s'" using pl res(2) free by (auto simp: touches_def)
      from touches_trans[OF t this] show ?thesis using pl(2) res sn(2) p(3) by simp
    qed
  qed
  then show "touches C ?i X s s'" "is_ok r \<Longrightarrow> view s ?i = Some (page_bytes before) \<and> view s' ?i = Some (page_bytes after)" "\<not> is_ok r \<Longrightarrow> view s' = view s" by blast+
qed

lemma allocation_snapshot_free:
  assumes ok: "buffer_ok s" and sn: "allocation_snapshot i s = Inr p"
  shows "pin_state s i = (0, False)" "i < pm_count (bs_disk s)" "view s i = Some (page_bytes p)"
proof -
  have "pin_state s i = (0, False) \<and> i < pm_count (bs_disk s) \<and> view s i = Some (page_bytes p)"
  proof (cases "find_frame i s")
    case None
    then have rd: "Page_Manager.read_page (bs_disk s) i = Inr p" using sn by (simp add: allocation_snapshot_def)
    then have lt: "i < pm_count (bs_disk s)" by (auto simp: read_page_def ensure_page_exists_def)
    then show ?thesis
      using None read_page_img[OF buffer_okD(1)[OF ok], of i] rd by (auto simp: pin_state_def view_def find_frame_None page_img_def)
  next
    case (Some k)
    note c = cached_frame[OF ok Some]
    have "bf_pin_count (bs_frames s ! k) = 0" "p = bf_page (bs_frames s ! k)" using sn Some by (auto simp: allocation_snapshot_def split: if_splits)
    then show ?thesis using c by (auto simp: frame_ok_def)
  qed
  then show "pin_state s i = (0, False)" "i < pm_count (bs_disk s)" "view s i = Some (page_bytes p)" by blast+
qed

text \<open>Writing a page that no frame shows straight to the file.\<close>

lemma write_through_effect:
  assumes ok: "buffer_ok s" and new: "frame_at s (page_id p) = None" and p: "wf_page p" "page_id p < pm_count (bs_disk s)"
    and lg: "logged C (bs_wal s) (page_id p) (page_bytes p)"
    and wr: "bindS (on_disk (write_page p (bs_disk s)) s) (\<lambda>_ s. on_disk (pm_sync (bs_disk s)) s) = (r, s')" and X: "(page_id p, page_bytes p) \<in> X"
  shows "touches C (page_id p) X s s'" "is_ok r \<Longrightarrow> view s' (page_id p) = Some (page_bytes p)"
proof -
  let ?i = "page_id p" and ?m = "bs_disk s"
  have free: "pin_state s ?i = (0, False)" using new by (simp add: pin_state_def)
  have img: "page_img ?m ?i \<noteq> None" using p(2) by (simp add: page_img_def)
  obtain r1 m where w: "write_page p ?m = (r1, m)" "wf_pages m" "atomic_io m" "pm_count m = pm_count ?m"
    "r1 = Inr () \<and> page_img m = (page_img ?m)(?i \<mapsto> page_bytes p) \<or> r1 = Inl SeIo \<and> page_img m = page_img ?m"
    by (rule write_page_img[OF buffer_okD(1,2)[OF ok] img p(1)[unfolded wf_page_def]])
  let ?s1 = "s\<lparr>bs_disk := m\<rparr>"
  have keep: "j < pm_count m \<and> page_img m j = page_img ?m j" if "frame_at s j = Some f" for j f
  proof -
    have "j \<noteq> ?i" using that new by auto
    then show ?thesis using buffer_okD(6)[OF ok that] w(4,5) by (auto simp: frame_ok_def)
  qed
  have d: "buffer_ok ?s1" "\<And>j. view ?s1 j = (if frame_at s j = None then page_img m j else view s j)" "pin_state ?s1 = pin_state s"
    using disk_change_ok[OF ok w(2,3)] keep by blast+
  have v: "view ?s1 j = view s j" if "j \<noteq> ?i" for j using d(2)[of j] w(5) that by (auto simp: view_def split: if_splits)
  have "known X s ?s1" using d(2) w(5) new X by (auto simp: known_def view_def split: if_splits)
  then have t: "touches C ?i X s ?s1" using d v free w(5) lg by (auto simp: touches_def wal_rule_def split: if_splits)
  have "touches C ?i X s s' \<and> (is_ok r \<longrightarrow> view s' ?i = Some (page_bytes p))"
  proof (cases r1)
    case (Inl x)
    then show ?thesis using wr w(1) t by (auto simp: on_disk_def is_ok_def)
  next
    case (Inr u)
    then have sy: "on_disk (pm_sync (bs_disk ?s1)) ?s1 = (r, s')" using wr w(1) by (simp add: on_disk_def)
    note q = sync_effect[OF d(1) sy]
    have "view ?s1 ?i = Some (page_bytes p)" using d(2)[of ?i] new w(5) Inr by simp
    then show ?thesis using touches_trans[OF t quiet_touches[OF q]] quietD(2)[OF q] by simp
  qed
  then show "touches C ?i X s s'" "is_ok r \<Longrightarrow> view s' ?i = Some (page_bytes p)" by blast+
qed

lemma undo_page_transition_effect:
  assumes ok: "buffer_ok s" and wf: "wf_page before" and lg: "logged C (bs_wal s) (page_id before) (page_bytes before)"
    and un: "undo_page_transition C before after s = (r, s')" and X: "(page_id before, page_bytes before) \<in> X"
  shows "touches C (page_id before) X s s'" "is_ok r \<Longrightarrow> view s' (page_id before) = Some (page_bytes before)"
proof -
  let ?i = "page_id before"
  have "touches C ?i X s s' \<and> (is_ok r \<longrightarrow> view s' ?i = Some (page_bytes before))"
  proof (cases "bindR (allocation_snapshot ?i s) (\<lambda>current. undo C current before after)")
    case (Inl e)
    show ?thesis using un[unfolded undo_page_transition_def Inl] quiet_touches[OF quiet_refl[OF ok]] by (auto simp: is_ok_def)
  next
    case (Inr needed)
    then obtain p where p: "allocation_snapshot ?i s = Inr p" "undo C p before after = Inr needed" by auto
    note sn = allocation_snapshot_free[OF ok p(1)]
    show ?thesis
    proof (cases needed)
      case False
      have "page_bytes p = page_bytes before" using p(2) False by (auto simp: undo_def split: if_splits)
      then show ?thesis using un[unfolded undo_page_transition_def Inr] False sn(3) quiet_touches[OF quiet_refl[OF ok]] by auto
    next
      case True
      note u = uncache_effect[OF ok sn(1)]
      have w: "bindS (on_disk (write_page before (bs_disk (uncache ?i s))) (uncache ?i s)) (\<lambda>_ s. on_disk (pm_sync (bs_disk s)) s) = (r, s')"
        using un[unfolded undo_page_transition_def Inr] True by (simp add: uncache_def Let_def)
      have "bs_wal (uncache ?i s) = bs_wal s" by (simp add: uncache_def remove_frame_def Let_def split: option.splits)
      then have "logged C (bs_wal (uncache ?i s)) ?i (page_bytes before)" using lg by simp
      moreover have "?i < pm_count (bs_disk (uncache ?i s))" using sn(2) u(3) by simp
      ultimately have "touches C ?i X (uncache ?i s) s'" "is_ok r \<Longrightarrow> view s' ?i = Some (page_bytes before)"
        using write_through_effect[OF touchesD(1)[OF u(1)] u(2) wf _ _ w X] by blast+
      then show ?thesis using touches_trans[OF u(1)] by blast
    qed
  qed
  then show "touches C ?i X s s'" "is_ok r \<Longrightarrow> view s' ?i = Some (page_bytes before)" by blast+
qed


section \<open>Checkpointing the pool\<close>

definition clean_at :: "buffer_state \<Rightarrow> usize \<Rightarrow> bool" where
  "clean_at s k \<longleftrightarrow> k < length (bs_frames s) \<and> \<not> bf_dirty (bs_frames s ! k)"

lemma flush_log_frames: "flush_log_for C f s = (r, s') \<Longrightarrow> bs_frames s' = bs_frames s"
  by (auto simp: flush_log_for_def split: if_splits sum.splits option.splits prod.splits)

lemma flush_frame_clean:
  assumes fl: "flush_frame C k s = (r, s')"
  shows "clean_at s j \<Longrightarrow> clean_at s' j" "length (bs_frames s') = length (bs_frames s)" "is_ok r \<Longrightarrow> clean_at s' k"
proof -
  have "bs_frames s' = bs_frames s \<and> (is_ok r \<longrightarrow> clean_at s' k) \<or>
    bs_frames s' = (bs_frames s)[k := (bs_frames s ! k)\<lparr>bf_dirty := False\<rparr>] \<and> k < length (bs_frames s)"
  proof (cases "k < length (bs_frames s) \<and> \<not> bf_writer (bs_frames s ! k) \<and> bf_dirty (bs_frames s ! k)")
    case False
    then show ?thesis using fl by (auto simp: flush_frame_def Let_def is_ok_def clean_at_def split: if_splits)
  next
    case True
    obtain r1 s1 where l: "flush_log_for C (bs_frames s ! k) s = (r1, s1)" by fastforce
    obtain r2 m where w: "write_page (bf_page (bs_frames s ! k)) (bs_disk s1) = (r2, m)" by fastforce
    show ?thesis
      using fl True l w flush_log_frames[OF l]
      by (cases r1; cases r2) (auto simp: flush_frame_def Let_def on_disk_def update_frame_def is_ok_def)
  qed
  then show "clean_at s j \<Longrightarrow> clean_at s' j" "length (bs_frames s') = length (bs_frames s)" "is_ok r \<Longrightarrow> clean_at s' k"
    by (auto simp: clean_at_def nth_list_update split: if_splits)
qed

lemma flush_frames_effect:
  assumes "buffer_ok s" "flush_frames C ks s = (r, s')"
  shows "quiet C s s'" "clean_at s j \<Longrightarrow> clean_at s' j" "length (bs_frames s') = length (bs_frames s)" "is_ok r \<Longrightarrow> \<forall>k \<in> set ks. clean_at s' k"
proof -
  have "quiet C s s' \<and> (\<forall>j. clean_at s j \<longrightarrow> clean_at s' j) \<and> length (bs_frames s') = length (bs_frames s) \<and> (is_ok r \<longrightarrow> (\<forall>k \<in> set ks. clean_at s' k))"
    using assms
  proof (induction ks arbitrary: s)
    case Nil
    then show ?case using quiet_refl by auto
  next
    case (Cons k ks)
    obtain r1 s1 where f: "flush_frame C k s = (r1, s1)" by fastforce
    note q = flush_frame_effect(1)[OF Cons.prems(1) f] and c = flush_frame_clean[OF f]
    show ?case
    proof (cases r1)
      case (Inl x)
      then show ?thesis using Cons.prems(2) f q c by (auto simp: is_ok_def)
    next
      case (Inr u)
      then have "flush_frames C ks s1 = (r, s')" using Cons.prems(2) f by simp
      note ih = Cons.IH[OF quietD(1)[OF q] this]
      show ?thesis using ih c quiet_trans[OF q] Inr by (auto simp: is_ok_def)
    qed
  qed
  then show "quiet C s s'" "clean_at s j \<Longrightarrow> clean_at s' j" "length (bs_frames s') = length (bs_frames s)" "is_ok r \<Longrightarrow> \<forall>k \<in> set ks. clean_at s' k"
    by blast+
qed

lemma all_clean_view:
  assumes ok: "buffer_ok s" and clean: "\<forall>k < length (bs_frames s). clean_at s k"
  shows "page_img (bs_disk s) = view s"
proof
  fix i
  show "page_img (bs_disk s) i = view s i"
  proof (cases "find_frame i s")
    case None
    then show ?thesis by (simp add: view_def find_frame_None)
  next
    case (Some k)
    note c = cached_frame[OF ok Some]
    have "\<not> bf_dirty (bs_frames s ! k)" using clean c(1) by (simp add: clean_at_def)
    then show ?thesis using c(3,4) by (simp add: frame_ok_def)
  qed
qed

lemma flush_all_effect:
  assumes ok: "buffer_ok s" and fl: "flush_all C s = (r, s')"
  shows "quiet C s s'" "is_ok r \<Longrightarrow> page_img (bs_disk s') = view s"
proof -
  have "quiet C s s' \<and> (is_ok r \<longrightarrow> page_img (bs_disk s') = view s)"
  proof (cases "List.find bf_writer (bs_frames s)")
    case (Some f)
    then show ?thesis using fl quiet_refl[OF ok] by (auto simp: flush_all_def is_ok_def)
  next
    case None
    obtain r1 s1 where f: "flush_frames C [0..<length (bs_frames s)] s = (r1, s1)" by fastforce
    note e = flush_frames_effect[OF ok f]
    note q = quietD[OF e(1)]
    show ?thesis
    proof (cases r1)
      case (Inl x)
      then show ?thesis using fl None f e(1) by (auto simp: flush_all_def is_ok_def)
    next
      case (Inr u)
      then have sy: "on_disk (pm_sync (bs_disk s1)) s1 = (r, s')" using fl None f by (simp add: flush_all_def)
      obtain r2 m where m: "pm_sync (bs_disk s1) = (r2, m)" "wf_pages m" "atomic_io m" "page_img m = page_img (bs_disk s1)"
        by (rule sync_pages[OF buffer_okD(1,2)[OF q(1)]]) blast
      have "page_img (bs_disk s1) = view s1" using all_clean_view[OF q(1)] e(3,4) Inr by (simp add: is_ok_def)
      then have "page_img (bs_disk s') = view s" using sy m(1,4) q(2) by (auto simp: on_disk_def)
      then show ?thesis using quiet_trans[OF e(1) sync_effect[OF q(1) sy]] by blast
    qed
  qed
  then show "quiet C s s'" "is_ok r \<Longrightarrow> page_img (bs_disk s') = view s" by blast+
qed

section \<open>Guards\<close>

lemma buf_read_page_effect:
  assumes ok: "buffer_ok s" and rd: "buf_read_page C i s = (r, s')"
  shows "buffer_ok s'" "view s' = view s" "wal_rule C s \<Longrightarrow> wal_rule C s'" "\<not> is_ok r \<Longrightarrow> pin_state s' = pin_state s"
    "r = Inr g \<Longrightarrow> \<exists>n. rg_page_id g = i \<and> pin_state s i = (n, False) \<and> pin_state s' = (pin_state s)(i := (Suc n, False)) \<and> view s i = Some (page_bytes (rg_page g))"
proof -
  obtain r1 s1 where p: "pin_read C i s = (r1, s1)" by fastforce
  have s': "s' = s1" "r = (case r1 of Inl e \<Rightarrow> Inl e | Inr page \<Rightarrow> Inr \<lparr>rg_page_id = i, rg_page = page\<rparr>)"
    using rd p by (cases r1; simp add: buf_read_page_def)+
  note e = pin_read_effect[OF ok p]
  show "buffer_ok s'" "view s' = view s" "wal_rule C s \<Longrightarrow> wal_rule C s'" using e(1,2,3) s' by simp_all
  show "\<not> is_ok r \<Longrightarrow> pin_state s' = pin_state s" using e(4) s' by (auto simp: is_ok_def split: sum.splits)
  show "r = Inr g \<Longrightarrow> \<exists>n. rg_page_id g = i \<and> pin_state s i = (n, False) \<and> pin_state s' = (pin_state s)(i := (Suc n, False)) \<and> view s i = Some (page_bytes (rg_page g))"
    using e(5) s' by (auto split: sum.splits)
qed

lemma buf_write_page_effect:
  assumes ok: "buffer_ok s" and rd: "buf_write_page C i s = (r, s')"
  shows "buffer_ok s'" "view s' = view s" "wal_rule C s \<Longrightarrow> wal_rule C s'" "\<not> is_ok r \<Longrightarrow> pin_state s' = pin_state s"
    "r = Inr g \<Longrightarrow> wg_page_id g = i \<and> \<not> wg_dirty g \<and> pin_state s i = (0, False) \<and> pin_state s' = (pin_state s)(i := (1, True)) \<and>
       view s i = Some (page_bytes (wg_page g)) \<and> wf_page (wg_page g)"
proof -
  obtain r1 s1 where p: "pin_write C i s = (r1, s1)" by fastforce
  have s': "s' = s1" "r = (case r1 of Inl e \<Rightarrow> Inl e | Inr page \<Rightarrow> Inr \<lparr>wg_page_id = i, wg_page = page, wg_dirty = False\<rparr>)"
    using rd p by (cases r1; simp add: buf_write_page_def)+
  note e = pin_write_effect[OF ok p]
  show "buffer_ok s'" "view s' = view s" "wal_rule C s \<Longrightarrow> wal_rule C s'" using e(1,2,3) s' by simp_all
  show "\<not> is_ok r \<Longrightarrow> pin_state s' = pin_state s" using e(4) s' by (auto simp: is_ok_def split: sum.splits)
  show "r = Inr g \<Longrightarrow> wg_page_id g = i \<and> \<not> wg_dirty g \<and> pin_state s i = (0, False) \<and> pin_state s' = (pin_state s)(i := (1, True)) \<and>
      view s i = Some (page_bytes (wg_page g)) \<and> wf_page (wg_page g)"
    using e(5) s' by (auto split: sum.splits)
qed

lemma read_btree_page_effect:
  assumes ok: "buffer_ok s" and rd: "read_btree_page C reference s = (r, s')"
  shows "buffer_ok s'" "view s' = view s" "wal_rule C s \<Longrightarrow> wal_rule C s'" "\<not> is_ok r \<Longrightarrow> pin_state s' = pin_state s"
    "r = Inr g \<Longrightarrow> \<exists>n. rg_page_id g = ref_id reference \<and> pin_state s (ref_id reference) = (n, False) \<and>
       pin_state s' = (pin_state s)(ref_id reference := (Suc n, False)) \<and> view s (ref_id reference) = Some (page_bytes (rg_page g)) \<and>
       validate_allocation C (rg_page g) (ref_gen reference) = Inr ()"
proof -
  let ?i = "ref_id reference"
  have "buffer_ok s' \<and> view s' = view s \<and> (wal_rule C s \<longrightarrow> wal_rule C s') \<and> (\<not> is_ok r \<longrightarrow> pin_state s' = pin_state s) \<and>
    (r = Inr g \<longrightarrow> (\<exists>n. rg_page_id g = ?i \<and> pin_state s ?i = (n, False) \<and> pin_state s' = (pin_state s)(?i := (Suc n, False)) \<and>
       view s ?i = Some (page_bytes (rg_page g)) \<and> validate_allocation C (rg_page g) (ref_gen reference) = Inr ()))"
  proof (cases "validate_btree_frame C reference s")
    case (Inl e)
    then show ?thesis using rd ok by (auto simp: read_btree_page_def is_ok_def)
  next
    case (Inr u)
    obtain r1 s1 where p: "buf_read_page C ?i s = (r1, s1)" by fastforce
    note e = buf_read_page_effect[OF ok p]
    show ?thesis
    proof (cases r1)
      case (Inl x)
      then show ?thesis using rd Inr p e by (auto simp: read_btree_page_def is_ok_def)
    next
      case g1: (Inr g1)
      obtain n where n: "rg_page_id g1 = ?i" "pin_state s ?i = (n, False)" "pin_state s1 = (pin_state s)(?i := (Suc n, False))"
        "view s ?i = Some (page_bytes (rg_page g1))" using e(5)[OF g1] by blast
      show ?thesis
      proof (cases "validate_allocation C (rg_page g1) (ref_gen reference)")
        case (Inl x)
        then have res: "r = Inl x" "s' = release_read ?i s1" using rd Inr p g1 n(1) by (simp_all add: read_btree_page_def drop_read_def)
        have "pin_state s1 ?i = (Suc n, False)" using n(3) by simp
        note rl = release_read_effect[OF e(1) this]
        have "pin_state s' = pin_state s" using rl(3) res(2) n(2,3) by (auto simp: fun_eq_iff)
        then show ?thesis using rl e res by (simp add: is_ok_def)
      next
        case ok2: (Inr v)
        then have "r = Inr g1" "s' = s1" using rd Inr p g1 by (simp_all add: read_btree_page_def)
        then show ?thesis using e n ok2 by (auto simp: is_ok_def)
      qed
    qed
  qed
  then show "buffer_ok s'" "view s' = view s" "wal_rule C s \<Longrightarrow> wal_rule C s'" "\<not> is_ok r \<Longrightarrow> pin_state s' = pin_state s"
    "r = Inr g \<Longrightarrow> \<exists>n. rg_page_id g = ?i \<and> pin_state s ?i = (n, False) \<and> pin_state s' = (pin_state s)(?i := (Suc n, False)) \<and>
       view s ?i = Some (page_bytes (rg_page g)) \<and> validate_allocation C (rg_page g) (ref_gen reference) = Inr ()" by blast+
qed

lemma write_btree_page_effect:
  assumes ok: "buffer_ok s" and rd: "write_btree_page C reference s = (r, s')"
  shows "buffer_ok s'" "view s' = view s" "wal_rule C s \<Longrightarrow> wal_rule C s'" "\<not> is_ok r \<Longrightarrow> pin_state s' = pin_state s"
    "r = Inr g \<Longrightarrow> wg_page_id g = ref_id reference \<and> \<not> wg_dirty g \<and> pin_state s (ref_id reference) = (0, False) \<and>
       pin_state s' = (pin_state s)(ref_id reference := (1, True)) \<and> view s (ref_id reference) = Some (page_bytes (wg_page g)) \<and> wf_page (wg_page g) \<and>
       validate_allocation C (wg_page g) (ref_gen reference) = Inr ()"
proof -
  let ?i = "ref_id reference"
  have "buffer_ok s' \<and> view s' = view s \<and> (wal_rule C s \<longrightarrow> wal_rule C s') \<and> (\<not> is_ok r \<longrightarrow> pin_state s' = pin_state s) \<and>
    (r = Inr g \<longrightarrow> wg_page_id g = ?i \<and> \<not> wg_dirty g \<and> pin_state s ?i = (0, False) \<and> pin_state s' = (pin_state s)(?i := (1, True)) \<and>
       view s ?i = Some (page_bytes (wg_page g)) \<and> wf_page (wg_page g) \<and> validate_allocation C (wg_page g) (ref_gen reference) = Inr ())"
  proof (cases "validate_btree_frame C reference s")
    case (Inl e)
    then show ?thesis using rd ok by (auto simp: write_btree_page_def is_ok_def)
  next
    case (Inr u)
    obtain r1 s1 where p: "buf_write_page C ?i s = (r1, s1)" by fastforce
    note e = buf_write_page_effect[OF ok p]
    show ?thesis
    proof (cases r1)
      case (Inl x)
      then show ?thesis using rd Inr p e by (auto simp: write_btree_page_def is_ok_def)
    next
      case g1: (Inr g1)
      note n = e(5)[OF g1]
      show ?thesis
      proof (cases "validate_allocation C (wg_page g1) (ref_gen reference)")
        case (Inl x)
        then have res: "r = Inl x" "s' = release_write ?i (wg_page g1) (wg_dirty g1) s1"
          using rd Inr p g1 n by (simp_all add: write_btree_page_def drop_write_def)
        have pin: "pin_state s1 ?i = (1, True)" using n by simp
        have v: "view s1 ?i = Some (page_bytes (wg_page g1))" "wf_page (wg_page g1)" using n e(2) by simp_all
        note rl = release_write_effect[OF e(1) pin v(2), of "wg_dirty g1"]
        have "view s' = view s" "pin_state s' = pin_state s" using rl(2,3) res(2) n v(1) e(2) by (auto simp: fun_eq_iff)
        then show ?thesis using rl(1,4) e(3) res v(1) by (simp add: is_ok_def)
      next
        case ok2: (Inr w)
        then have "r = Inr g1" "s' = s1" using rd Inr p g1 by (simp_all add: write_btree_page_def)
        then show ?thesis using e n ok2 by (auto simp: is_ok_def)
      qed
    qed
  qed
  then show "buffer_ok s'" "view s' = view s" "wal_rule C s \<Longrightarrow> wal_rule C s'" "\<not> is_ok r \<Longrightarrow> pin_state s' = pin_state s"
    "r = Inr g \<Longrightarrow> wg_page_id g = ?i \<and> \<not> wg_dirty g \<and> pin_state s ?i = (0, False) \<and> pin_state s' = (pin_state s)(?i := (1, True)) \<and>
       view s ?i = Some (page_bytes (wg_page g)) \<and> wf_page (wg_page g) \<and> validate_allocation C (wg_page g) (ref_gen reference) = Inr ()" by blast+
qed


section \<open>Tail maintenance\<close>

lemma clean_suffix_Inr: "clean_suffix start fs = Inr () \<Longrightarrow> f \<in> set fs \<Longrightarrow> start \<le> bf_page_id f \<Longrightarrow> bf_pin_count f = 0 \<and> \<not> bf_writer f \<and> \<not> bf_dirty f"
  by (induction fs) (auto split: if_splits)

lemma remove_clean_frame:
  assumes ok: "buffer_ok s" and k: "k < length (bs_frames s)" and f: "bf_pin_count (bs_frames s ! k) = 0" "\<not> bf_dirty (bs_frames s ! k)"
  shows "buffer_ok (remove_frame k s)" "view (remove_frame k s) = view s" "pin_state (remove_frame k s) = pin_state s" "wal_rule C (remove_frame k s) = wal_rule C s"
    "bs_disk (remove_frame k s) = bs_disk s"
proof -
  let ?i = "bf_page_id (bs_frames s ! k)"
  note at = frame_at_nth[OF buffer_okD(3)[OF ok] k]
  note fok = buffer_okD(6)[OF ok at]
  have free: "pin_state s ?i = (0, False)" using at fok f(1) by (auto simp: pin_state_def frame_ok_def)
  obtain j where j: "find_frame ?i s = Some j" using at find_frame_None[of ?i s] by (cases "find_frame ?i s") auto
  note c = find_frame_Some[OF buffer_okD(3)[OF ok] j]
  have "j = k" using c(1,2) k buffer_okD(3)[OF ok] by (auto simp: frame_ids_def distinct_conv_nth)
  then have "find_frame ?i s = Some k" using j by simp
  note d = drop_frame_effect[OF ok this free]
  have "page_img (bs_disk s) ?i = view s ?i" using fok f(2) at by (simp add: frame_ok_def view_def)
  then show "view (remove_frame k s) = view s" using d(3) by (simp add: fun_upd_idem)
  show "buffer_ok (remove_frame k s)" "pin_state (remove_frame k s) = pin_state s" "bs_disk (remove_frame k s) = bs_disk s" using d(1,4) by (simp_all add: touches_def)
  show "wal_rule C (remove_frame k s) = wal_rule C s" by (rule wal_rule_cong) (simp_all add: remove_frame_def Let_def)
qed

abbreviation drop_from :: "u64 \<Rightarrow> usize \<Rightarrow> buffer_state \<Rightarrow> buffer_state" where
  "drop_from start index s \<equiv> (if bf_page_id (bs_frames s ! index) \<ge> start then remove_frame index s else s)"

lemma drop_suffix_frames:
  assumes "buffer_ok s" "k \<le> length (bs_frames s)"
    "\<forall>f \<in> set (bs_frames s). start \<le> bf_page_id f \<longrightarrow> bf_pin_count f = 0 \<and> \<not> bf_dirty f" "s' = fold (drop_from start) (rev [0..<k]) s"
  shows "buffer_ok s' \<and> view s' = view s \<and> pin_state s' = pin_state s \<and> wal_rule C s' = wal_rule C s"
  using assms
proof (induction k arbitrary: s)
  case 0
  then show ?case by simp
next
  case (Suc k)
  let ?s = "drop_from start k s"
  have k: "k < length (bs_frames s)" using Suc.prems(2) by simp
  have mem: "bs_frames s ! k \<in> set (bs_frames s)" using k by simp
  have step: "buffer_ok ?s \<and> view ?s = view s \<and> pin_state ?s = pin_state s \<and> wal_rule C ?s = wal_rule C s"
  proof (cases "start \<le> bf_page_id (bs_frames s ! k)")
    case True
    have f: "bf_pin_count (bs_frames s ! k) = 0" "\<not> bf_dirty (bs_frames s ! k)" using Suc.prems(3) mem True by blast+
    show ?thesis using remove_clean_frame[OF Suc.prems(1) k f] True by simp
  qed (use Suc.prems(1) in simp)
  have len: "k \<le> length (bs_frames ?s)" using k by (auto simp: remove_frame_def Let_def)
  have "set (bs_frames (remove_frame k s)) \<subseteq> set (bs_frames s)" by (auto simp: remove_frame_def Let_def dest: in_set_takeD in_set_dropD)
  then have sub: "set (bs_frames ?s) \<subseteq> set (bs_frames s)" by simp
  have rest: "\<forall>f \<in> set (bs_frames ?s). start \<le> bf_page_id f \<longrightarrow> bf_pin_count f = 0 \<and> \<not> bf_dirty f" using Suc.prems(3) sub by blast
  have "s' = fold (drop_from start) (rev [0..<k]) ?s" using Suc.prems(4) by simp
  from Suc.IH[OF conjunct1[OF step] len rest this] show ?case using step by simp
qed

lemma invalidate_suffix_effect:
  assumes ok: "buffer_ok s" and iv: "invalidate_suffix start s = (r, s')"
  shows "buffer_ok s'" "view s' = view s" "pin_state s' = pin_state s" "wal_rule C s' = wal_rule C s"
proof -
  have "buffer_ok s' \<and> view s' = view s \<and> pin_state s' = pin_state s \<and> wal_rule C s' = wal_rule C s"
  proof (cases "ensure_clean_suffix start s")
    case (Inl e)
    then show ?thesis using iv ok by (simp add: invalidate_suffix_def)
  next
    case (Inr u)
    then have "\<forall>f \<in> set (bs_frames s). start \<le> bf_page_id f \<longrightarrow> bf_pin_count f = 0 \<and> \<not> bf_dirty f"
      using clean_suffix_Inr[of start "bs_frames s"] by (auto simp: ensure_clean_suffix_def)
    moreover have "s' = fold (drop_from start) (rev [0..<length (bs_frames s)]) s" using iv Inr by (simp add: invalidate_suffix_def)
    ultimately show ?thesis using drop_suffix_frames[OF ok order_refl] by blast
  qed
  then show "buffer_ok s'" "view s' = view s" "pin_state s' = pin_state s" "wal_rule C s' = wal_rule C s" by blast+
qed

text \<open>Cutting the file to a smaller number of pages.\<close>

definition cut_pages :: "u64 \<Rightarrow> (PageId \<rightharpoonup> byte list) \<Rightarrow> PageId \<rightharpoonup> byte list" where
  "cut_pages n pages i = (if i < n then pages i else None)"

lemma truncate_img:
  assumes wf: "wf_pages m" and io: "atomic_io m"
  obtains r m' where "Page_Manager.truncate_to_page_count old new m = (r, m')" "wf_pages m'" "atomic_io m'"
    "page_img m' = cut_pages new (page_img m) \<and> pm_count m' = new \<and> new \<le> pm_count m \<or> \<not> is_ok r \<and> page_img m' = page_img m \<and> pm_count m' = pm_count m"
proof (cases "bindR (validated_page_count m) (\<lambda>count.
           bindR (ensure (\<not> (count \<noteq> old \<or> new < 3 \<or> new \<ge> old))
                    (SeInvalidFormat ''invalid expected tail truncation geometry'')) (\<lambda>_. page_offset new))")
  case (Inl e)
  have "Page_Manager.truncate_to_page_count old new m = (Inl e, m)" unfolding truncate_to_page_count_def Inl by simp
  then show thesis using that wf io by (simp add: is_ok_def)
next
  case (Inr offset)
  then have g: "pm_count m = old" "\<not> new < 3" "\<not> old \<le> new" by (auto simp: validated_page_count_def)
  then have le: "new \<le> pm_count m" "new \<noteq> 0" by auto
  have len: "length (pm_file m) = 4096 * unat (pm_count m)" using wf by (simp add: wf_pages_def)
  have "offset = 4096 * unat new" using Inr page_offset_ok[OF wf le(1)] by auto
  then have cut: "set_len offset (pm_file m) = take (4096 * unat new) (pm_file m)" using le(1) len by (simp add: set_len_def word_le_nat_alt)
  obtain x m0 where m0: "next_io m = (x, m0)" "pm_file m0 = pm_file m" "pm_count m0 = pm_count m" "wf_pages m0 = wf_pages m"
    "page_img m0 = page_img m" "atomic_io m \<Longrightarrow> atomic_io m0 \<and> x \<in> {PageIoDone, PageIoFailed 0}"
    by (rule next_io_cases[of m]) blast
  show thesis
  proof (cases x)
    case (PageIoFailed n)
    have "Page_Manager.truncate_to_page_count old new m = (Inl SeIo, m0)"
      unfolding truncate_to_page_count_def Inr using m0(1) PageIoFailed by simp
    then show thesis using that wf io m0 by (simp add: is_ok_def)
  next
    case PageIoDone
    define m1 where "m1 = m0\<lparr>pm_file := take (4096 * unat new) (pm_file m), pm_count := new\<rparr>"
    have m1: "wf_pages m1" "atomic_io m1" using wf io m0 le len by (auto simp: m1_def wf_pages_def atomic_io_def word_le_nat_alt)
    have img: "page_img m1 = cut_pages new (page_img m)"
    proof
      fix j
      have "slice (take (4096 * unat new) (pm_file m)) (4096 * unat j) (4096 * unat j + 4096) =
          slice (pm_file m) (4096 * unat j) (4096 * unat j + 4096)" if "j < new"
        using that by (simp add: slice_def word_less_nat_alt drop_take min_def)
      then show "page_img m1 j = cut_pages new (page_img m) j" using le(1) by (auto simp: page_img_def m1_def cut_pages_def)
    qed
    obtain r m2 where sy: "pm_sync m1 = (r, m2)" "wf_pages m2" "atomic_io m2" "page_img m2 = page_img m1"
      by (rule sync_pages[OF m1]) blast
    have cnt: "pm_count m2 = new"
      using sy(1) by (auto simp: pm_sync_def next_io_def m1_def split: list.splits page_io.splits prod.splits)
    show thesis
    proof (rule that)
      show "Page_Manager.truncate_to_page_count old new m = (r, m2)"
        unfolding truncate_to_page_count_def Inr using m0(1,2) PageIoDone cut sy(1) by (simp add: m1_def)
      show "page_img m2 = cut_pages new (page_img m) \<and> pm_count m2 = new \<and> new \<le> pm_count m \<or> \<not> is_ok r \<and> page_img m2 = page_img m \<and> pm_count m2 = pm_count m"
        using sy(4) img cnt le(1) by simp
    qed (use sy in auto)
  qed
qed

lemma truncate_effect:
  assumes ok: "buffer_ok s" and tr: "buf_truncate_to_page_count old new s = (r, s')"
  shows "buffer_ok s'" "pin_state s' = pin_state s" "wal_rule C s \<Longrightarrow> wal_rule C s'" "is_ok r \<Longrightarrow> view s' = cut_pages new (view s)"
    "view s' = cut_pages new (view s) \<and> (\<forall>i. new \<le> i \<longrightarrow> pin_state s i = (0, False)) \<or> \<not> is_ok r \<and> view s' = view s"
proof -
  have "buffer_ok s' \<and> pin_state s' = pin_state s \<and> (wal_rule C s \<longrightarrow> wal_rule C s') \<and>
    (view s' = cut_pages new (view s) \<and> (\<forall>i. new \<le> i \<longrightarrow> pin_state s i = (0, False)) \<or> \<not> is_ok r \<and> view s' = view s)"
  proof (cases "list_ex (\<lambda>f. bf_page_id f \<ge> new) (bs_frames s)")
    case True
    then show ?thesis using tr ok by (auto simp: buf_truncate_to_page_count_def is_ok_def)
  next
    case False
    have below: "i < new" if "frame_at s i = Some f" for i f
      using frame_at_Some[OF that] False by (auto simp: list_ex_iff not_le)
    obtain m where w: "Page_Manager.truncate_to_page_count old new (bs_disk s) = (r, m)" "wf_pages m" "atomic_io m" "s' = s\<lparr>bs_disk := m\<rparr>"
      "page_img m = cut_pages new (page_img (bs_disk s)) \<and> pm_count m = new \<and> new \<le> pm_count (bs_disk s) \<or>
       \<not> is_ok r \<and> page_img m = page_img (bs_disk s) \<and> pm_count m = pm_count (bs_disk s)"
      by (rule truncate_img[OF buffer_okD(1,2)[OF ok], of old new]) (use tr False in \<open>auto simp: buf_truncate_to_page_count_def on_disk_def\<close>)
    have keep: "i < pm_count m \<and> page_img m i = page_img (bs_disk s) i" if "frame_at s i = Some f" for i f
      using below[OF that] buffer_okD(6)[OF ok that] w(5) by (auto simp: frame_ok_def cut_pages_def)
    have d: "buffer_ok s'" "\<And>i. view s' i = (if frame_at s i = None then page_img m i else view s i)" "pin_state s' = pin_state s"
      using disk_change_ok[OF ok w(2,3)] keep w(4) by blast+
    have "pin_state s i = (0, False)" if "new \<le> i" for i
      using below[of i] that by (cases "frame_at s i") (auto simp: pin_state_def)
    moreover have "wal_rule C s \<longrightarrow> wal_rule C s'" using w(4,5) by (auto simp: wal_rule_def cut_pages_def split: if_splits)
    moreover have "view s' = cut_pages new (view s)" if img: "page_img m = cut_pages new (page_img (bs_disk s))"
    proof
      fix i
      show "view s' i = cut_pages new (view s) i"
        using d(2)[of i] img below[of i] by (cases "frame_at s i") (auto simp: cut_pages_def view_def)
    qed
    moreover have "view s' = view s" if img: "page_img m = page_img (bs_disk s)"
      using d(2) img by (auto simp: view_def fun_eq_iff)
    ultimately show ?thesis using d w(5) by blast
  qed
  then show "buffer_ok s'" "pin_state s' = pin_state s" "wal_rule C s \<Longrightarrow> wal_rule C s'" "is_ok r \<Longrightarrow> view s' = cut_pages new (view s)"
    "view s' = cut_pages new (view s) \<and> (\<forall>i. new \<le> i \<longrightarrow> pin_state s i = (0, False)) \<or> \<not> is_ok r \<and> view s' = view s" by blast+
qed


section \<open>Where images come from\<close>

lemma load_page_known:
  assumes ok: "buffer_ok s" and new: "frame_at s i = None" and ld: "load_page C i w s = (r, s')"
  shows "known X s s'"
proof (cases "Page_Manager.read_page (bs_disk s) i")
  case (Inl e)
  then show ?thesis using ld by (auto simp: load_page_def known_same)
next
  case (Inr p)
  obtain r1 s1 where pr: "prepare_frame C s = (r1, s1)" by fastforce
  note q = quietD[OF prepare_frame_effect(1)[OF ok pr]]
  have "bs_disk s' = bs_disk s1" using ld Inr pr by (cases r1) (auto simp: load_page_def install_frame_def Let_def)
  then have "known X s1 s'" by (rule known_same) (use load_page_effect(2)[OF ok new ld] q(2) in simp)
  with q(7) show ?thesis by (rule known_trans)
qed

lemma pin_read_known:
  assumes ok: "buffer_ok s" and pr: "pin_read C i s = (r, s')"
  shows "known X s s'"
proof (cases "find_frame i s")
  case None
  then have "load_page C i False s = (r, s')" using pr by (simp add: pin_read_def)
  then show ?thesis using load_page_known[OF ok] None find_frame_None by blast
next
  case (Some k)
  then have "bs_disk s' = bs_disk s" using pr by (auto simp: pin_read_def Let_def update_fields split: if_splits)
  then show ?thesis by (rule known_same) (rule pin_read_effect(2)[OF ok pr])
qed

lemma pin_write_known:
  assumes ok: "buffer_ok s" and pr: "pin_write C i s = (r, s')"
  shows "known X s s'"
proof (cases "find_frame i s")
  case None
  then have "load_page C i True s = (r, s')" using pr by (simp add: pin_write_def)
  then show ?thesis using load_page_known[OF ok] None find_frame_None by blast
next
  case (Some k)
  then have "bs_disk s' = bs_disk s" using pr by (auto simp: pin_write_def Let_def update_fields split: if_splits)
  then show ?thesis by (rule known_same) (rule pin_write_effect(2)[OF ok pr])
qed

lemma release_fields: "bs_disk (release_read i s) = bs_disk s" "bs_disk (release_write i p dirty s) = bs_disk s"
  by (simp_all add: release_read_def release_write_def update_fields split: option.splits)

lemma allocate_known:
  assumes "buffer_ok s" "page_fits (pm_count (bs_disk s))" "buf_allocate_page C s = (r, s')"
    and "is_ok r \<Longrightarrow> (pm_count (bs_disk s), replicate 4096 0) \<in> X"
  shows "known X s s'"
  using allocate_effect(5)[OF assms(1-3)] assms(4) by blast

lemma read_guard_known:
  assumes "buffer_ok s" "buf_read_page C i s = (r, s')"
  shows "known X s s'"
proof -
  obtain r1 s1 where p: "pin_read C i s = (r1, s1)" by fastforce
  then have "s' = s1" using assms(2) by (cases r1) (simp_all add: buf_read_page_def)
  then show ?thesis using pin_read_known[OF assms(1) p] by simp
qed

lemma write_guard_known:
  assumes "buffer_ok s" "buf_write_page C i s = (r, s')"
  shows "known X s s'"
proof -
  obtain r1 s1 where p: "pin_write C i s = (r1, s1)" by fastforce
  then have "s' = s1" using assms(2) by (cases r1) (simp_all add: buf_write_page_def)
  then show ?thesis using pin_write_known[OF assms(1) p] by simp
qed

lemma read_btree_page_known:
  assumes ok: "buffer_ok s" and rd: "read_btree_page C reference s = (r, s')"
  shows "known X s s'"
proof (cases "validate_btree_frame C reference s")
  case (Inl e)
  then show ?thesis using rd by (simp add: read_btree_page_def known_same)
next
  case (Inr u)
  obtain r1 s1 where p: "buf_read_page C (ref_id reference) s = (r1, s1)" by fastforce
  have "bs_disk s' = bs_disk s1" using rd Inr p by (cases r1) (auto simp: read_btree_page_def drop_read_def release_fields split: sum.splits)
  then have "known X s1 s'" by (rule known_same) (use read_btree_page_effect(2)[OF ok rd] buf_read_page_effect(2)[OF ok p] in simp)
  with read_guard_known[OF ok p] show ?thesis by (rule known_trans)
qed

lemma write_btree_page_known:
  assumes ok: "buffer_ok s" and rd: "write_btree_page C reference s = (r, s')"
  shows "known X s s'"
proof (cases "validate_btree_frame C reference s")
  case (Inl e)
  then show ?thesis using rd by (simp add: write_btree_page_def known_same)
next
  case (Inr u)
  obtain r1 s1 where p: "buf_write_page C (ref_id reference) s = (r1, s1)" by fastforce
  have "bs_disk s' = bs_disk s1" using rd Inr p by (cases r1) (auto simp: write_btree_page_def drop_write_def release_fields split: sum.splits)
  then have "known X s1 s'" by (rule known_same) (use write_btree_page_effect(2)[OF ok rd] buf_write_page_effect(2)[OF ok p] in simp)
  with write_guard_known[OF ok p] show ?thesis by (rule known_trans)
qed

lemma invalidate_suffix_known:
  assumes ok: "buffer_ok s" and iv: "invalidate_suffix start s = (r, s')"
  shows "known X s s'"
proof -
  have "bs_disk (fold (drop_from start) ks t) = bs_disk t" for ks t
    by (induction ks arbitrary: t) (simp_all add: remove_frame_def Let_def)
  then have "bs_disk s' = bs_disk s" using iv by (auto simp: invalidate_suffix_def split: sum.splits)
  then show ?thesis by (rule known_same) (rule invalidate_suffix_effect(2)[OF ok iv])
qed

lemma truncate_known:
  assumes ok: "buffer_ok s" and tr: "buf_truncate_to_page_count old new s = (r, s')"
  shows "known X s s'"
proof -
  obtain r1 m where m: "Page_Manager.truncate_to_page_count old new (bs_disk s) = (r1, m)"
    "page_img m = cut_pages new (page_img (bs_disk s)) \<or> page_img m = page_img (bs_disk s)"
    by (rule truncate_img[OF buffer_okD(1,2)[OF ok], of old new]) blast
  then have "page_img (bs_disk s') = cut_pages new (page_img (bs_disk s)) \<or> page_img (bs_disk s') = page_img (bs_disk s)"
    using tr by (auto simp: buf_truncate_to_page_count_def on_disk_def split: if_splits)
  then show ?thesis using truncate_effect(5)[OF ok tr] by (auto simp: known_def cut_pages_def split: if_splits)
qed

end
