(* ===== verification/Buffer_Correct.thy ===== *)
theory Buffer_Correct
  imports Buffer_Effects
begin

text \<open>
  The buffer pool is correct: whatever it caches, flushes and evicts, a client sees one page store with
  shared readers and exclusive writers, a page reaches the data file only after its log record is durable,
  and a checkpoint of the pool leaves the whole view on disk.
\<close>


section \<open>The pool and its clients\<close>

text \<open>A running pool: its state and the guards its clients hold.\<close>

record pool =
  pl_state :: buffer_state
  pl_readers :: "read_guard list"
  pl_writers :: "write_guard list"

datatype pool_request =
  FetchPage PageId
| FetchForWrite PageId
| FetchNode btree_page_ref
| FetchNodeForWrite btree_page_ref
| AllocateNew
| FlushPage PageId
| FlushAll
| UndoUpdate PageId "byte list" "PageGeneration option"
| PublishTransition page page
| UndoTransition page page
| InvalidateSuffix u64
| TruncateTo u64 u64

datatype pool_answer = Reading read_guard | Writing write_guard | Done

fun answer :: "('a \<Rightarrow> pool_answer) \<Rightarrow> (storage_error, 'a) res \<times> buffer_state \<Rightarrow> (storage_error, pool_answer) res \<times> buffer_state" where
  "answer f (Inl e, s) = (Inl e, s)"
| "answer f (Inr x, s) = (Inr (f x), s)"

fun serve :: "crc \<Rightarrow> pool_request \<Rightarrow> buffer_state \<Rightarrow> (storage_error, pool_answer) res \<times> buffer_state" where
  "serve C (FetchPage i) s = answer Reading (buf_read_page C i s)"
| "serve C (FetchForWrite i) s = answer Writing (buf_write_page C i s)"
| "serve C (FetchNode reference) s = answer Reading (read_btree_page C reference s)"
| "serve C (FetchNodeForWrite reference) s = answer Writing (write_btree_page C reference s)"
| "serve C AllocateNew s = answer Writing (new_page C s)"
| "serve C (FlushPage i) s = answer (\<lambda>_. Done) (flush_page C i s)"
| "serve C FlushAll s = answer (\<lambda>_. Done) (flush_all C s)"
| "serve C (UndoUpdate i before expected) s = answer (\<lambda>_. Done) (undo_page_update C i before expected s)"
| "serve C (PublishTransition before after) s = answer (\<lambda>_. Done) (publish_page_transition C before after s)"
| "serve C (UndoTransition before after) s = answer (\<lambda>_. Done) (undo_page_transition C before after s)"
| "serve C (InvalidateSuffix start) s = answer (\<lambda>_. Done) (invalidate_suffix start s)"
| "serve C (TruncateTo old new) s = answer (\<lambda>_. Done) (buf_truncate_to_page_count old new s)"

text \<open>
  What a request carries: page images of the page size, and, for the undo of a transition, an image that
  was on disk before and whose log record is therefore durable. The data file stays below \<open>2\<^sup>6\<^sup>4\<close> bytes.
\<close>

fun admissible :: "crc \<Rightarrow> buffer_state \<Rightarrow> pool_request \<Rightarrow> bool" where
  "admissible C s AllocateNew \<longleftrightarrow> page_fits (pm_count (bs_disk s))"
| "admissible C s (UndoUpdate i before expected) \<longleftrightarrow> length before = 4096"
| "admissible C s (PublishTransition before after) \<longleftrightarrow> wf_page after"
| "admissible C s (UndoTransition before after) \<longleftrightarrow> wf_page before \<and> logged C (bs_wal s) (page_id before) (page_bytes before)"
| "admissible C s _ \<longleftrightarrow> True"

datatype pool_event =
  Answered pool_request pool_answer
| Refused pool_request
| Modified write_guard page
| DroppedRead read_guard
| DroppedWrite write_guard

fun hold :: "pool_answer \<Rightarrow> pool \<Rightarrow> pool" where
  "hold (Reading g) p = p\<lparr>pl_readers := g # pl_readers p\<rparr>"
| "hold (Writing g) p = p\<lparr>pl_writers := g # pl_writers p\<rparr>"
| "hold Done p = p"

inductive pool_step :: "crc \<Rightarrow> pool \<Rightarrow> pool_event \<Rightarrow> pool \<Rightarrow> bool" for C where
  answered: "admissible C (pl_state p) req \<Longrightarrow> serve C req (pl_state p) = (Inr a, s) \<Longrightarrow>
    pool_step C p (Answered req a) (hold a (p\<lparr>pl_state := s\<rparr>))"
| refused: "admissible C (pl_state p) req \<Longrightarrow> serve C req (pl_state p) = (Inl e, s) \<Longrightarrow>
    pool_step C p (Refused req) (p\<lparr>pl_state := s\<rparr>)"
| modified: "pl_writers p = ws @ g # ws' \<Longrightarrow> wf_page page \<Longrightarrow>
    pool_step C p (Modified g page) (p\<lparr>pl_writers := ws @ page_mut page g # ws'\<rparr>)"
| dropped_read: "pl_readers p = gs @ g # gs' \<Longrightarrow>
    pool_step C p (DroppedRead g) (p\<lparr>pl_state := drop_read g (pl_state p), pl_readers := gs @ gs'\<rparr>)"
| dropped_write: "pl_writers p = ws @ g # ws' \<Longrightarrow>
    pool_step C p (DroppedWrite g) (p\<lparr>pl_state := drop_write g (pl_state p), pl_writers := ws @ ws'\<rparr>)"

inductive pool_run :: "crc \<Rightarrow> pool \<Rightarrow> pool_event list \<Rightarrow> pool \<Rightarrow> bool" for C where
  pool_run_nil: "pool_run C p [] p"
| pool_run_snoc: "pool_run C p es q \<Longrightarrow> pool_step C q e q' \<Longrightarrow> pool_run C p (es @ [e]) q'"

definition start_pool :: "buffer_state \<Rightarrow> pool" where
  "start_pool s = \<lparr>pl_state = s, pl_readers = [], pl_writers = []\<rparr>"

text \<open>The page images that a request or a step brings into the pool.\<close>

fun request_images :: "pool_request \<Rightarrow> (PageId \<times> byte list) set" where
  "request_images (UndoUpdate i before expected) = {(i, before)}"
| "request_images (PublishTransition before after) = {(page_id before, page_bytes after)}"
| "request_images (UndoTransition before after) = {(page_id before, page_bytes before)}"
| "request_images _ = {}"

definition created_images :: "pool_request \<Rightarrow> pool_answer \<Rightarrow> (PageId \<times> byte list) set" where
  "created_images req a = (case a of Writing g \<Rightarrow> if req = AllocateNew then {(wg_page_id g, page_bytes (wg_page g))} else {} | _ \<Rightarrow> {})"

fun event_images :: "pool_event \<Rightarrow> (PageId \<times> byte list) set" where
  "event_images (Answered req a) = request_images req \<union> created_images req a"
| "event_images (Refused req) = request_images req"
| "event_images (DroppedWrite g) = (if wg_dirty g then {(wg_page_id g, page_bytes (wg_page g))} else {})"
| "event_images _ = {}"

section \<open>What a client may rely on\<close>

text \<open>A store of pages with reader and writer guards: no frames, no disk, no eviction.\<close>

record page_store =
  ps_pages :: "PageId \<rightharpoonup> byte list"
  ps_readers :: "read_guard list"
  ps_writers :: "write_guard list"

definition read_locked :: "page_store \<Rightarrow> PageId \<Rightarrow> bool" where
  "read_locked S i \<longleftrightarrow> (\<exists>g \<in> set (ps_readers S). rg_page_id g = i)"

definition write_locked :: "page_store \<Rightarrow> PageId \<Rightarrow> bool" where
  "write_locked S i \<longleftrightarrow> (\<exists>g \<in> set (ps_writers S). wg_page_id g = i)"

abbreviation unlocked :: "page_store \<Rightarrow> PageId \<Rightarrow> bool" where
  "unlocked S i \<equiv> \<not> read_locked S i \<and> \<not> write_locked S i"

definition set_page :: "PageId \<Rightarrow> byte list option \<Rightarrow> page_store \<Rightarrow> page_store" where
  "set_page i x S = S\<lparr>ps_pages := (ps_pages S)(i := x)\<rparr>"

definition store_reads :: "PageId \<Rightarrow> pool_answer \<Rightarrow> page_store \<Rightarrow> page_store \<Rightarrow> bool" where
  "store_reads i a S S' \<longleftrightarrow> (\<exists>g. a = Reading g \<and> rg_page_id g = i \<and> \<not> write_locked S i \<and>
     ps_pages S i = Some (page_bytes (rg_page g)) \<and> S' = S\<lparr>ps_readers := g # ps_readers S\<rparr>)"

definition store_writes :: "PageId \<Rightarrow> pool_answer \<Rightarrow> page_store \<Rightarrow> page_store \<Rightarrow> bool" where
  "store_writes i a S S' \<longleftrightarrow> (\<exists>g. a = Writing g \<and> wg_page_id g = i \<and> \<not> wg_dirty g \<and> unlocked S i \<and>
     ps_pages S i = Some (page_bytes (wg_page g)) \<and> S' = S\<lparr>ps_writers := g # ps_writers S\<rparr>)"

fun store_answers :: "crc \<Rightarrow> pool_request \<Rightarrow> pool_answer \<Rightarrow> page_store \<Rightarrow> page_store \<Rightarrow> bool" where
  "store_answers C (FetchPage i) a S S' \<longleftrightarrow> store_reads i a S S'"
| "store_answers C (FetchForWrite i) a S S' \<longleftrightarrow> store_writes i a S S'"
| "store_answers C (FetchNode reference) a S S' \<longleftrightarrow> store_reads (ref_id reference) a S S' \<and>
     (\<forall>g. a = Reading g \<longrightarrow> validate_allocation C (rg_page g) (ref_gen reference) = Inr ())"
| "store_answers C (FetchNodeForWrite reference) a S S' \<longleftrightarrow> store_writes (ref_id reference) a S S' \<and>
     (\<forall>g. a = Writing g \<longrightarrow> validate_allocation C (wg_page g) (ref_gen reference) = Inr ())"
| "store_answers C AllocateNew a S S' \<longleftrightarrow> (\<exists>g. a = Writing g \<and> wg_page g = page_zero (wg_page_id g) \<and> \<not> wg_dirty g \<and>
     unlocked S (wg_page_id g) \<and> ps_pages S (wg_page_id g) = None \<and>
     S' = (set_page (wg_page_id g) (Some (page_bytes (wg_page g))) S)\<lparr>ps_writers := g # ps_writers S\<rparr>)"
| "store_answers C (UndoUpdate i before expected) a S S' \<longleftrightarrow> a = Done \<and> unlocked S i \<and> S' = set_page i (before_page before) S"
| "store_answers C (PublishTransition before after) a S S' \<longleftrightarrow> a = Done \<and> unlocked S (page_id before) \<and>
     ps_pages S (page_id before) = Some (page_bytes before) \<and> S' = set_page (page_id before) (Some (page_bytes after)) S"
| "store_answers C (UndoTransition before after) a S S' \<longleftrightarrow> a = Done \<and> unlocked S (page_id before) \<and>
     S' = set_page (page_id before) (Some (page_bytes before)) S"
| "store_answers C (TruncateTo old new) a S S' \<longleftrightarrow> a = Done \<and> (\<forall>i \<ge> new. unlocked S i) \<and> S' = S\<lparr>ps_pages := cut_pages new (ps_pages S)\<rparr>"
| "store_answers C _ a S S' \<longleftrightarrow> a = Done \<and> S' = S"

text \<open>A request that fails leaves the store alone; one that writes to disk may have got half way, on its own unlocked page.\<close>

definition store_partial :: "PageId \<Rightarrow> page_store \<Rightarrow> page_store \<Rightarrow> bool" where
  "store_partial i S S' \<longleftrightarrow> S' = S \<or> unlocked S i \<and> (\<exists>x. S' = set_page i x S)"

fun store_refuses :: "pool_request \<Rightarrow> page_store \<Rightarrow> page_store \<Rightarrow> bool" where
  "store_refuses (UndoUpdate i before expected) S S' \<longleftrightarrow> store_partial i S S'"
| "store_refuses (UndoTransition before after) S S' \<longleftrightarrow> store_partial (page_id before) S S'"
| "store_refuses (TruncateTo old new) S S' \<longleftrightarrow> S' = S \<or> (\<forall>i \<ge> new. unlocked S i) \<and> S' = S\<lparr>ps_pages := cut_pages new (ps_pages S)\<rparr>"
| "store_refuses _ S S' \<longleftrightarrow> S' = S"

fun store_step :: "crc \<Rightarrow> page_store \<Rightarrow> pool_event \<Rightarrow> page_store \<Rightarrow> bool" where
  "store_step C S (Answered req a) S' \<longleftrightarrow> store_answers C req a S S'"
| "store_step C S (Refused req) S' \<longleftrightarrow> store_refuses req S S'"
| "store_step C S (Modified g page) S' \<longleftrightarrow> (\<exists>ws ws'. ps_writers S = ws @ g # ws' \<and> S' = S\<lparr>ps_writers := ws @ page_mut page g # ws'\<rparr>)"
| "store_step C S (DroppedRead g) S' \<longleftrightarrow> (\<exists>gs gs'. ps_readers S = gs @ g # gs' \<and> S' = S\<lparr>ps_readers := gs @ gs'\<rparr>)"
| "store_step C S (DroppedWrite g) S' \<longleftrightarrow>
     (\<exists>ws ws'. ps_writers S = ws @ g # ws' \<and> S' = (set_page (wg_page_id g) (Some (page_bytes (wg_page g))) S)\<lparr>ps_writers := ws @ ws'\<rparr>)"

inductive store_run :: "crc \<Rightarrow> page_store \<Rightarrow> pool_event list \<Rightarrow> page_store \<Rightarrow> bool" for C where
  store_run_nil: "store_run C S [] S"
| store_run_snoc: "store_run C S es T \<Longrightarrow> store_step C T e T' \<Longrightarrow> store_run C S (es @ [e]) T'"

definition pool_view :: "pool \<Rightarrow> page_store" where
  "pool_view p = \<lparr>ps_pages = view (pl_state p), ps_readers = pl_readers p, ps_writers = pl_writers p\<rparr>"

section \<open>The invariant\<close>

definition readers_of :: "pool \<Rightarrow> PageId \<Rightarrow> nat" where
  "readers_of p i = length (filter (\<lambda>g. rg_page_id g = i) (pl_readers p))"

definition writers_of :: "pool \<Rightarrow> PageId \<Rightarrow> nat" where
  "writers_of p i = length (filter (\<lambda>g. wg_page_id g = i) (pl_writers p))"

definition pins_match :: "pool \<Rightarrow> bool" where
  "pins_match p \<longleftrightarrow> pin_state (pl_state p) = (\<lambda>i. (readers_of p i + writers_of p i, 0 < writers_of p i))"

definition guards_current :: "pool \<Rightarrow> bool" where
  "guards_current p \<longleftrightarrow>
     (\<forall>g \<in> set (pl_readers p). view (pl_state p) (rg_page_id g) = Some (page_bytes (rg_page g))) \<and>
     (\<forall>g \<in> set (pl_writers p). wf_page (wg_page g) \<and> (\<not> wg_dirty g \<longrightarrow> view (pl_state p) (wg_page_id g) = Some (page_bytes (wg_page g))))"

definition pool_ok :: "pool \<Rightarrow> bool" where
  "pool_ok p \<longleftrightarrow> buffer_ok (pl_state p) \<and> pins_match p \<and> guards_current p"


section \<open>Simulation\<close>

lemma writer_alone: "buffer_ok s \<Longrightarrow> pin_state s i = (n, True) \<Longrightarrow> n = 1"
  using buffer_okD(6)[of s i] by (auto simp: pin_state_def frame_ok_def split: option.splits)

lemma locks:
  "read_locked (pool_view p) i \<longleftrightarrow> readers_of p i \<noteq> 0" "write_locked (pool_view p) i \<longleftrightarrow> writers_of p i \<noteq> 0"
  by (auto simp: read_locked_def write_locked_def pool_view_def readers_of_def writers_of_def filter_empty_conv)

lemma pin_locks:
  assumes "pins_match p"
  shows "pin_state (pl_state p) i = (0, False) \<longleftrightarrow> unlocked (pool_view p) i" "snd (pin_state (pl_state p) i) \<longleftrightarrow> write_locked (pool_view p) i"
  using assms by (auto simp: pins_match_def locks)

lemma pool_okD: "pool_ok p \<Longrightarrow> buffer_ok (pl_state p)" "pool_ok p \<Longrightarrow> pins_match p" "pool_ok p \<Longrightarrow> guards_current p"
  by (simp_all add: pool_ok_def)

lemma guarded_pages_locked:
  assumes "unlocked (pool_view p) i"
  shows "g \<in> set (pl_readers p) \<Longrightarrow> rg_page_id g \<noteq> i" "h \<in> set (pl_writers p) \<Longrightarrow> wg_page_id h \<noteq> i"
  using assms by (auto simp: pool_view_def read_locked_def write_locked_def)

lemma keep_state:
  assumes p: "pool_ok p" and s: "buffer_ok s" "view s = view (pl_state p)" "pin_state s = pin_state (pl_state p)"
  shows "pool_ok (p\<lparr>pl_state := s\<rparr>)" "pool_view (p\<lparr>pl_state := s\<rparr>) = pool_view p"
  using assms by (simp_all add: pool_ok_def pins_match_def guards_current_def pool_view_def readers_of_def writers_of_def)

lemma touch_state:
  assumes p: "pool_ok p" and t: "touches C i X (pl_state p) s"
  shows "pool_ok (p\<lparr>pl_state := s\<rparr>)" "store_partial i (pool_view p) (pool_view (p\<lparr>pl_state := s\<rparr>))"
    "unlocked (pool_view p) i \<Longrightarrow> pool_view (p\<lparr>pl_state := s\<rparr>) = set_page i (view s i) (pool_view p)"
proof -
  have one: "pool_ok (p\<lparr>pl_state := s\<rparr>) \<and> pool_view (p\<lparr>pl_state := s\<rparr>) = set_page i (view s i) (pool_view p)" if free: "unlocked (pool_view p) i"
  proof -
    have v: "view s = (view (pl_state p))(i := view s i)" using t by (auto simp: touches_def fun_eq_iff)
    have "view s j = view (pl_state p) j" if "j \<noteq> i" for j using t that by (simp add: touches_def)
    then have "guards_current (p\<lparr>pl_state := s\<rparr>)" using pool_okD(3)[OF p] guarded_pages_locked[OF free] by (simp add: guards_current_def)
    then show ?thesis using p t v by (simp add: pool_ok_def touches_def pins_match_def readers_of_def writers_of_def pool_view_def set_page_def)
  qed
  have all: "pool_ok (p\<lparr>pl_state := s\<rparr>) \<and> pool_view (p\<lparr>pl_state := s\<rparr>) = pool_view p" if "\<not> unlocked (pool_view p) i"
  proof -
    have "pin_state (pl_state p) i \<noteq> (0, False)" using pin_locks(1)[OF pool_okD(2)[OF p]] that by blast
    then have "view s = view (pl_state p)" "pin_state s = pin_state (pl_state p)" "buffer_ok s" using t by (auto simp: touches_def fun_eq_iff)
    then show ?thesis using keep_state[OF p] by blast
  qed
  show "pool_ok (p\<lparr>pl_state := s\<rparr>)" "store_partial i (pool_view p) (pool_view (p\<lparr>pl_state := s\<rparr>))"
    using one all unfolding store_partial_def by blast+
  show "unlocked (pool_view p) i \<Longrightarrow> pool_view (p\<lparr>pl_state := s\<rparr>) = set_page i (view s i) (pool_view p)" using one by blast
qed

lemma hold_reader:
  assumes p: "pool_ok p" and s: "buffer_ok s" "view s = view (pl_state p)"
    and pin: "pin_state (pl_state p) i = (n, False)" "pin_state s = (pin_state (pl_state p))(i := (Suc n, False))"
    and g: "rg_page_id g = i" "view (pl_state p) i = Some (page_bytes (rg_page g))"
  shows "pool_ok (hold (Reading g) (p\<lparr>pl_state := s\<rparr>))" "store_reads i (Reading g) (pool_view p) (pool_view (hold (Reading g) (p\<lparr>pl_state := s\<rparr>)))"
proof -
  have free: "\<not> write_locked (pool_view p) i" "writers_of p i = 0" "readers_of p i = n"
    using pin(1) pin_locks(2)[OF pool_okD(2)[OF p], of i] pool_okD(2)[OF p] by (auto simp: pins_match_def)
  show "store_reads i (Reading g) (pool_view p) (pool_view (hold (Reading g) (p\<lparr>pl_state := s\<rparr>)))"
    using free(1) g s(2) by (simp add: store_reads_def pool_view_def write_locked_def)
  have "pins_match (hold (Reading g) (p\<lparr>pl_state := s\<rparr>))"
    using pool_okD(2)[OF p] pin free(2,3) g(1) by (auto simp: pins_match_def readers_of_def writers_of_def fun_eq_iff)
  moreover have "guards_current (hold (Reading g) (p\<lparr>pl_state := s\<rparr>))" using pool_okD(3)[OF p] s(2) g by (simp add: guards_current_def)
  ultimately show "pool_ok (hold (Reading g) (p\<lparr>pl_state := s\<rparr>))" using s(1) by (simp add: pool_ok_def)
qed

text \<open>A writer guard on an unlocked page, whose content may just have been created.\<close>

lemma hold_writer:
  assumes p: "pool_ok p" and s: "buffer_ok s" "view s = (view (pl_state p))(i \<mapsto> page_bytes (wg_page g))"
    and pin: "pin_state (pl_state p) i = (0, False)" "pin_state s = (pin_state (pl_state p))(i := (1, True))"
    and g: "wg_page_id g = i" "wf_page (wg_page g)" "\<not> wg_dirty g"
  shows "pool_ok (hold (Writing g) (p\<lparr>pl_state := s\<rparr>))" "unlocked (pool_view p) i"
    "pool_view (hold (Writing g) (p\<lparr>pl_state := s\<rparr>)) = (set_page i (Some (page_bytes (wg_page g))) (pool_view p))\<lparr>ps_writers := g # pl_writers p\<rparr>"
proof -
  show free: "unlocked (pool_view p) i" using pin(1) pin_locks(1)[OF pool_okD(2)[OF p]] by blast
  then have "readers_of p i = 0" "writers_of p i = 0" by (simp_all add: locks)
  then have "pins_match (hold (Writing g) (p\<lparr>pl_state := s\<rparr>))"
    using pool_okD(2)[OF p] pin g(1) by (auto simp: pins_match_def readers_of_def writers_of_def fun_eq_iff)
  moreover have "guards_current (hold (Writing g) (p\<lparr>pl_state := s\<rparr>))"
    using pool_okD(3)[OF p] s(2) g guarded_pages_locked[OF free] by (simp add: guards_current_def)
  ultimately show "pool_ok (hold (Writing g) (p\<lparr>pl_state := s\<rparr>))" using s(1) by (simp add: pool_ok_def)
  show "pool_view (hold (Writing g) (p\<lparr>pl_state := s\<rparr>)) = (set_page i (Some (page_bytes (wg_page g))) (pool_view p))\<lparr>ps_writers := g # pl_writers p\<rparr>"
    using s(2) by (simp add: pool_view_def set_page_def)
qed

lemma hold_existing_writer:
  assumes p: "pool_ok p" and s: "buffer_ok s" "view s = view (pl_state p)"
    and g: "wg_page_id g = i" "\<not> wg_dirty g" "pin_state (pl_state p) i = (0, False)" "pin_state s = (pin_state (pl_state p))(i := (1, True))"
      "view (pl_state p) i = Some (page_bytes (wg_page g))" "wf_page (wg_page g)"
  shows "pool_ok (hold (Writing g) (p\<lparr>pl_state := s\<rparr>))" "store_writes i (Writing g) (pool_view p) (pool_view (hold (Writing g) (p\<lparr>pl_state := s\<rparr>)))"
proof -
  have v: "view s = (view (pl_state p))(i \<mapsto> page_bytes (wg_page g))" using s(2) g(5) by auto
  note h = hold_writer[OF p s(1) v g(3,4,1,6,2)]
  show "pool_ok (hold (Writing g) (p\<lparr>pl_state := s\<rparr>))" by (rule h(1))
  show "store_writes i (Writing g) (pool_view p) (pool_view (hold (Writing g) (p\<lparr>pl_state := s\<rparr>)))"
    using h(2) g s(2) by (simp add: store_writes_def) (simp add: pool_view_def)
qed

text \<open>What serving a request does: the invariants stay, and the store answers or refuses alike.\<close>

definition serves :: "crc \<Rightarrow> pool_request \<Rightarrow> pool \<Rightarrow> (storage_error, pool_answer) res \<Rightarrow> buffer_state \<Rightarrow> bool" where
  "serves C req p r s \<longleftrightarrow> (wal_rule C (pl_state p) \<longrightarrow> wal_rule C s) \<and>
     known (event_images (case r of Inr a \<Rightarrow> Answered req a | Inl _ \<Rightarrow> Refused req)) (pl_state p) s \<and>
     (case r of
        Inr a \<Rightarrow> pool_ok (hold a (p\<lparr>pl_state := s\<rparr>)) \<and> store_answers C req a (pool_view p) (pool_view (hold a (p\<lparr>pl_state := s\<rparr>)))
      | Inl _ \<Rightarrow> pool_ok (p\<lparr>pl_state := s\<rparr>) \<and> store_refuses req (pool_view p) (pool_view (p\<lparr>pl_state := s\<rparr>)))"

lemma request_known: "known (request_images req) s t \<Longrightarrow> known (event_images (case r of Inr a \<Rightarrow> Answered req a | Inl _ \<Rightarrow> Refused req)) s t"
  by (erule known_mono) (simp split: sum.splits)

lemma answer_eq: "answer f x = (r, s) \<Longrightarrow> \<exists>y. x = (y, s) \<and> r = (case y of Inl e \<Rightarrow> Inl e | Inr z \<Rightarrow> Inr (f z))"
  by (cases x; cases "fst x") auto

lemma serves_quiet:
  assumes p: "pool_ok p" and q: "buffer_ok s" "view s = view (pl_state p)" "pin_state s = pin_state (pl_state p)" "wal_rule C (pl_state p) \<longrightarrow> wal_rule C s"
    and k: "known (request_images req) (pl_state p) s" and req: "\<And>S. store_answers C req Done S S" "\<And>S. store_refuses req S S" and a: "answer (\<lambda>_. Done) (y, s) = (r, s)"
  shows "serves C req p r s"
  using keep_state[OF p q(1,2,3)] q(4) request_known[OF k, of r] req a by (cases y) (auto simp: serves_def)

lemma serves_read:
  assumes p: "pool_ok p"
    and e: "buffer_ok s" "view s = view (pl_state p)" "wal_rule C (pl_state p) \<Longrightarrow> wal_rule C s" "\<not> is_ok y \<Longrightarrow> pin_state s = pin_state (pl_state p)"
      "\<And>g. y = Inr g \<Longrightarrow> \<exists>n. rg_page_id g = i \<and> pin_state (pl_state p) i = (n, False) \<and> pin_state s = (pin_state (pl_state p))(i := (Suc n, False)) \<and>
         view (pl_state p) i = Some (page_bytes (rg_page g)) \<and> Q g"
    and req: "\<And>g S S'. store_reads i (Reading g) S S' \<Longrightarrow> Q g \<Longrightarrow> store_answers C req (Reading g) S S'" "\<And>S. store_refuses req S S"
    and a: "answer Reading (y, s) = (r, s)" and k: "known (request_images req) (pl_state p) s"
  shows "serves C req p r s"
proof (cases y)
  case (Inl x)
  then show ?thesis using keep_state[OF p e(1,2)] e(3,4) a req(2) request_known[OF k, of r] by (auto simp: serves_def is_ok_def)
next
  case (Inr g)
  obtain n where n: "rg_page_id g = i" "pin_state (pl_state p) i = (n, False)" "pin_state s = (pin_state (pl_state p))(i := (Suc n, False))"
    "view (pl_state p) i = Some (page_bytes (rg_page g))" "Q g" using e(5)[OF Inr] by blast
  show ?thesis using hold_reader[OF p e(1,2) n(2,3,1,4)] req(1) n(5) e(3) a request_known[OF k, of r] Inr by (auto simp: serves_def)
qed

lemma serves_write:
  assumes p: "pool_ok p"
    and e: "buffer_ok s" "view s = view (pl_state p)" "wal_rule C (pl_state p) \<Longrightarrow> wal_rule C s" "\<not> is_ok y \<Longrightarrow> pin_state s = pin_state (pl_state p)"
      "\<And>g. y = Inr g \<Longrightarrow> wg_page_id g = i \<and> \<not> wg_dirty g \<and> pin_state (pl_state p) i = (0, False) \<and> pin_state s = (pin_state (pl_state p))(i := (1, True)) \<and>
         view (pl_state p) i = Some (page_bytes (wg_page g)) \<and> wf_page (wg_page g) \<and> Q g"
    and req: "\<And>g S S'. store_writes i (Writing g) S S' \<Longrightarrow> Q g \<Longrightarrow> store_answers C req (Writing g) S S'" "\<And>S. store_refuses req S S"
    and a: "answer Writing (y, s) = (r, s)" and k: "known (request_images req) (pl_state p) s"
  shows "serves C req p r s"
proof (cases y)
  case (Inl x)
  then show ?thesis using keep_state[OF p e(1,2)] e(3,4) a req(2) request_known[OF k, of r] by (auto simp: serves_def is_ok_def)
next
  case (Inr g)
  have g: "wg_page_id g = i" "\<not> wg_dirty g" "pin_state (pl_state p) i = (0, False)" "pin_state s = (pin_state (pl_state p))(i := (1, True))"
    "view (pl_state p) i = Some (page_bytes (wg_page g))" "wf_page (wg_page g)" "Q g" using e(5)[OF Inr] by blast+
  show ?thesis using hold_existing_writer[OF p e(1,2) g(1-6)] req(1) g(7) e(3) a request_known[OF k, of r] Inr by (auto simp: serves_def)
qed

lemma serves_touch:
  assumes p: "pool_ok p" and t: "touches C i (request_images req) (pl_state p) s"
    and ok: "is_ok y \<Longrightarrow> unlocked (pool_view p) i \<Longrightarrow> store_answers C req Done (pool_view p) (set_page i (view s i) (pool_view p))"
    and free: "is_ok y \<Longrightarrow> unlocked (pool_view p) i"
    and bad: "\<not> is_ok y \<Longrightarrow> store_partial i (pool_view p) (pool_view (p\<lparr>pl_state := s\<rparr>)) \<Longrightarrow> store_refuses req (pool_view p) (pool_view (p\<lparr>pl_state := s\<rparr>))"
    and a: "answer (\<lambda>_. Done) (y, s) = (r, s)"
  shows "serves C req p r s"
proof -
  have "wal_rule C (pl_state p) \<longrightarrow> wal_rule C s" and k: "known (request_images req) (pl_state p) s" using t by (simp_all add: touches_def)
  then show ?thesis using request_known[OF k, of r] touch_state[OF p t] ok free bad a by (cases y) (auto simp: serves_def is_ok_def)
qed


lemma check_current_free:
  assumes ok: "buffer_ok s" and ch: "check_current C i expected s = Inr ()"
  shows "pin_state s i = (0, False)"
proof (cases "find_frame i s")
  case None
  then show ?thesis by (simp add: find_frame_None pin_state_def)
next
  case (Some k)
  note c = cached_frame[OF ok Some]
  have "i < pm_count (bs_disk s)" using c(3) by (simp add: frame_ok_def)
  then have "bf_pin_count (bs_frames s ! k) = 0" using ch Some by (auto simp: check_current_def Let_def)
  then show ?thesis using c(3,5) by (auto simp: frame_ok_def)
qed

lemma undo_page_update_free:
  assumes "buffer_ok s" "undo_page_update C i before expected s = (r, s')" "is_ok r"
  shows "pin_state s i = (0, False)"
  using assms check_current_free[OF assms(1), of C i expected] by (cases "check_current C i expected s") (auto simp: undo_page_update_def is_ok_def split: sum.splits)

lemma publish_free:
  assumes "buffer_ok s" "publish_page_transition C before after s = (r, s')" "is_ok r"
  shows "pin_state s (page_id before) = (0, False)"
proof (cases "reusable_page_snapshot (page_id before) s = Inr None \<or> (\<exists>e. reusable_page_snapshot (page_id before) s = Inl e)")
  case True
  then have "\<not> is_ok r" using assms(2) by (cases "validate_transition C before after") (auto simp: publish_page_transition_def is_ok_def split: sum.splits)
  then show ?thesis using assms(3) by simp
next
  case False
  then obtain q where "reusable_page_snapshot (page_id before) s = Inr (Some q)" by (metis not_None_eq old.sum.exhaust)
  from reusable_page_snapshot_Some(1)[OF assms(1) this] show ?thesis .
qed

lemma undo_transition_free:
  assumes "buffer_ok s" "undo_page_transition C before after s = (r, s')" "is_ok r"
  shows "pin_state s (page_id before) = (0, False)"
  using assms allocation_snapshot_free(1)[OF assms(1)]
  by (cases "allocation_snapshot (page_id before) s") (auto simp: undo_page_transition_def is_ok_def split: sum.splits)

lemma serves_new:
  assumes p: "pool_ok p" and fits: "page_fits (pm_count (bs_disk (pl_state p)))" and n: "new_page C (pl_state p) = (y, s)"
    and a: "answer Writing (y, s) = (r, s)"
  shows "serves C AllocateNew p r s"
proof -
  obtain r1 s1 where al: "buf_allocate_page C (pl_state p) = (r1, s1)" by fastforce
  note e = allocate_effect[OF pool_okD(1)[OF p] fits al]
  have "s = s1" using n al by (cases r1) (simp_all add: new_page_def)
  then have k: "known X (pl_state p) s" if "is_ok r1 \<Longrightarrow> (pm_count (bs_disk (pl_state p)), replicate 4096 0) \<in> X" for X
    using allocate_known[OF pool_okD(1)[OF p] fits al that] by blast
  show ?thesis
  proof (cases r1)
    case (Inl x)
    then have "y = Inl x" "s = s1" using n al by (simp_all add: new_page_def)
    then show ?thesis using e(1,2,3) k[of "{}"] Inl keep_state[OF p] a by (auto simp: serves_def is_ok_def)
  next
    case (Inr q)
    let ?g = "\<lparr>wg_page_id = page_id q, wg_page = q, wg_dirty = False\<rparr>"
    have y: "y = Inr ?g" "s = s1" using n al Inr by (auto simp: new_page_def)
    note f = e(4)[OF Inr]
    have q: "q = page_zero (page_id q)" "wf_page q" using f by (simp_all add: page_zero_def wf_page_def PAGE_SIZE_def)
    have g: "view s = (view (pl_state p))(page_id q \<mapsto> page_bytes (wg_page ?g))" "wf_page (wg_page ?g)" "wg_page_id ?g = page_id q" "\<not> wg_dirty ?g"
      using f y(2) q(2) by simp_all
    have ok: "buffer_ok s" and pins: "pin_state (pl_state p) (page_id q) = (0, False)" "pin_state s = (pin_state (pl_state p))(page_id q := (1, True))"
      using e(1) f y(2) by blast+
    note h = hold_writer[OF p ok g(1) pins g(3,2,4)]
    have "view (pl_state p) (page_id q) = None" using f by blast
    then have none: "ps_pages (pool_view p) (page_id q) = None" by (simp add: pool_view_def)
    have "store_answers C AllocateNew (Writing ?g) (pool_view p) (pool_view (hold (Writing ?g) (p\<lparr>pl_state := s\<rparr>)))"
      unfolding store_answers.simps h(3) using h(2) none q(1) by (intro exI[of _ ?g]) (simp add: pool_view_def)
    moreover have "q = page_zero (pm_count (bs_disk (pl_state p)))" using f by blast
    then have "known (event_images (Answered AllocateNew (Writing ?g))) (pl_state p) s" by (intro k) (simp add: created_images_def page_zero_def PAGE_SIZE_def)
    ultimately show ?thesis using h(1) e(2) y a by (auto simp: serves_def simp del: event_images.simps)
  qed
qed

lemma serves_truncate:
  assumes p: "pool_ok p" and t: "buf_truncate_to_page_count old new (pl_state p) = (y, s)" and a: "answer (\<lambda>_. Done) (y, s) = (r, s)"
  shows "serves C (TruncateTo old new) p r s"
proof -
  let ?p = "p\<lparr>pl_state := s\<rparr>" and ?S = "pool_view p"
  note e = truncate_effect[OF pool_okD(1)[OF p] t]
  have cut: "pool_ok ?p \<and> (\<forall>i \<ge> new. unlocked ?S i) \<and> pool_view ?p = ?S\<lparr>ps_pages := cut_pages new (ps_pages ?S)\<rparr>"
    if c: "view s = cut_pages new (view (pl_state p))" "\<forall>i. new \<le> i \<longrightarrow> pin_state (pl_state p) i = (0, False)"
  proof -
    have free: "\<forall>i \<ge> new. unlocked ?S i" using c(2) pin_locks(1)[OF pool_okD(2)[OF p]] by blast
    then have "rg_page_id g < new" if "g \<in> set (pl_readers p)" for g using guarded_pages_locked(1)[of p "rg_page_id g" g] that by (meson not_le)
    moreover have "wg_page_id g < new" if "g \<in> set (pl_writers p)" for g using guarded_pages_locked(2)[of p "wg_page_id g" g] free that by (meson not_le)
    ultimately have "guards_current ?p" using pool_okD(3)[OF p] c(1) by (simp add: guards_current_def cut_pages_def)
    then show ?thesis
      using p e(1,2) free c(1) by (simp add: pool_ok_def pins_match_def readers_of_def writers_of_def) (simp add: pool_view_def)
  qed
  have same: "pool_ok ?p \<and> pool_view ?p = ?S" if "view s = view (pl_state p)" using keep_state[OF p e(1) that e(2)] by simp
  have "known (request_images (TruncateTo old new)) (pl_state p) s" using truncate_known[OF pool_okD(1)[OF p] t] by blast
  then show ?thesis using e(3,5) request_known[of "TruncateTo old new" _ _ r] cut same a by (cases y) (auto simp: serves_def is_ok_def)
qed

lemma serves_undo_update:
  assumes p: "pool_ok p" and len: "length before = 4096" and y: "undo_page_update C i before expected (pl_state p) = (y, s)" "answer (\<lambda>_. Done) (y, s) = (r, s)"
  shows "serves C (UndoUpdate i before expected) p r s"
proof -
  note e = undo_page_update_effect[where X = "request_images (UndoUpdate i before expected)", OF pool_okD(1)[OF p] len y(1)]
  have free: "unlocked (pool_view p) i" if "is_ok y"
    using undo_page_update_free[OF pool_okD(1)[OF p] y(1) that] pin_locks(1)[OF pool_okD(2)[OF p]] by blast
  show ?thesis by (rule serves_touch[OF p e(1) _ free _ y(2)]) (use e(2) in auto)
qed

lemma serves_publish:
  assumes p: "pool_ok p" and wf: "wf_page after" and y: "publish_page_transition C before after (pl_state p) = (y, s)" "answer (\<lambda>_. Done) (y, s) = (r, s)"
  shows "serves C (PublishTransition before after) p r s"
proof -
  note e = publish_page_transition_effect[where X = "request_images (PublishTransition before after)", OF pool_okD(1)[OF p] wf y(1)]
  have free: "unlocked (pool_view p) (page_id before)" if "is_ok y"
    using publish_free[OF pool_okD(1)[OF p] y(1) that] pin_locks(1)[OF pool_okD(2)[OF p]] by blast
  show ?thesis by (rule serves_touch[OF p e(1) _ free _ y(2)]) (use e(2,3) in \<open>auto simp: pool_view_def\<close>)
qed

lemma serves_undo_transition:
  assumes p: "pool_ok p" and b: "wf_page before" "logged C (bs_wal (pl_state p)) (page_id before) (page_bytes before)"
    and y: "undo_page_transition C before after (pl_state p) = (y, s)" "answer (\<lambda>_. Done) (y, s) = (r, s)"
  shows "serves C (UndoTransition before after) p r s"
proof -
  note e = undo_page_transition_effect[where X = "request_images (UndoTransition before after)", OF pool_okD(1)[OF p] b y(1)]
  have free: "unlocked (pool_view p) (page_id before)" if "is_ok y"
    using undo_transition_free[OF pool_okD(1)[OF p] y(1) that] pin_locks(1)[OF pool_okD(2)[OF p]] by blast
  show ?thesis by (rule serves_touch[OF p e(1) _ free _ y(2)]) (use e(2) in auto)
qed

lemma serve_serves:
  assumes p: "pool_ok p" and adm: "admissible C (pl_state p) req" and sv: "serve C req (pl_state p) = (r, s)"
  shows "serves C req p r s"
proof (cases req)
  case (FetchPage i)
  then obtain y where y: "buf_read_page C i (pl_state p) = (y, s)" "answer Reading (y, s) = (r, s)" using sv answer_eq by fastforce
  show ?thesis by (rule serves_read[where Q = "\<lambda>_. True", OF p _ _ _ _ _ _ _ y(2)]) (use buf_read_page_effect[OF pool_okD(1)[OF p] y(1)] read_guard_known[OF pool_okD(1)[OF p] y(1)] FetchPage in auto)
next
  case (FetchForWrite i)
  then obtain y where y: "buf_write_page C i (pl_state p) = (y, s)" "answer Writing (y, s) = (r, s)" using sv answer_eq by fastforce
  show ?thesis by (rule serves_write[where Q = "\<lambda>_. True", OF p _ _ _ _ _ _ _ y(2)]) (use buf_write_page_effect[OF pool_okD(1)[OF p] y(1)] write_guard_known[OF pool_okD(1)[OF p] y(1)] FetchForWrite in auto)
next
  case (FetchNode reference)
  then obtain y where y: "read_btree_page C reference (pl_state p) = (y, s)" "answer Reading (y, s) = (r, s)" using sv answer_eq by fastforce
  show ?thesis
    by (rule serves_read[where Q = "\<lambda>g. validate_allocation C (rg_page g) (ref_gen reference) = Inr ()", OF p _ _ _ _ _ _ _ y(2)])
      (use read_btree_page_effect[OF pool_okD(1)[OF p] y(1)] read_btree_page_known[OF pool_okD(1)[OF p] y(1)] FetchNode in auto)
next
  case (FetchNodeForWrite reference)
  then obtain y where y: "write_btree_page C reference (pl_state p) = (y, s)" "answer Writing (y, s) = (r, s)" using sv answer_eq by fastforce
  show ?thesis
    by (rule serves_write[where Q = "\<lambda>g. validate_allocation C (wg_page g) (ref_gen reference) = Inr ()", OF p _ _ _ _ _ _ _ y(2)])
      (use write_btree_page_effect[OF pool_okD(1)[OF p] y(1)] write_btree_page_known[OF pool_okD(1)[OF p] y(1)] FetchNodeForWrite in auto)
next
  case AllocateNew
  then obtain y where y: "new_page C (pl_state p) = (y, s)" "answer Writing (y, s) = (r, s)" using sv answer_eq by fastforce
  show ?thesis using serves_new[OF p _ y] adm AllocateNew by simp
next
  case (FlushPage i)
  then obtain y where y: "flush_page C i (pl_state p) = (y, s)" "answer (\<lambda>_. Done) (y, s) = (r, s)" using sv answer_eq by fastforce
  show ?thesis by (rule serves_quiet[OF p _ _ _ _ _ _ _ y(2)]) (use quietD[OF flush_page_quiet[OF pool_okD(1)[OF p] y(1)]] FlushPage in auto)
next
  case FlushAll
  then obtain y where y: "flush_all C (pl_state p) = (y, s)" "answer (\<lambda>_. Done) (y, s) = (r, s)" using sv answer_eq by fastforce
  show ?thesis by (rule serves_quiet[OF p _ _ _ _ _ _ _ y(2)]) (use quietD[OF flush_all_effect(1)[OF pool_okD(1)[OF p] y(1)]] FlushAll in auto)
next
  case (UndoUpdate i before expected)
  then obtain y where y: "undo_page_update C i before expected (pl_state p) = (y, s)" "answer (\<lambda>_. Done) (y, s) = (r, s)" using sv answer_eq by fastforce
  show ?thesis using serves_undo_update[OF p _ y] adm UndoUpdate by simp
next
  case (PublishTransition before after)
  then obtain y where y: "publish_page_transition C before after (pl_state p) = (y, s)" "answer (\<lambda>_. Done) (y, s) = (r, s)" using sv answer_eq by fastforce
  show ?thesis using serves_publish[OF p _ y] adm PublishTransition by simp
next
  case (UndoTransition before after)
  then obtain y where y: "undo_page_transition C before after (pl_state p) = (y, s)" "answer (\<lambda>_. Done) (y, s) = (r, s)" using sv answer_eq by fastforce
  show ?thesis using serves_undo_transition[OF p _ _ y] adm UndoTransition by simp
next
  case (InvalidateSuffix start)
  then obtain y where y: "invalidate_suffix start (pl_state p) = (y, s)" "answer (\<lambda>_. Done) (y, s) = (r, s)" using sv answer_eq by fastforce
  show ?thesis by (rule serves_quiet[OF p _ _ _ _ _ _ _ y(2)]) (use invalidate_suffix_effect[OF pool_okD(1)[OF p] y(1)] invalidate_suffix_known[OF pool_okD(1)[OF p] y(1)] InvalidateSuffix in auto)
next
  case (TruncateTo old new)
  then obtain y where y: "buf_truncate_to_page_count old new (pl_state p) = (y, s)" "answer (\<lambda>_. Done) (y, s) = (r, s)" using sv answer_eq by fastforce
  show ?thesis using serves_truncate[OF p y] TruncateTo by simp
qed


lemma reader_pin:
  assumes p: "pool_ok p" and g: "pl_readers p = gs @ g # gs'"
  shows "writers_of p (rg_page_id g) = 0" "\<exists>n. pin_state (pl_state p) (rg_page_id g) = (Suc n, False)"
proof -
  let ?i = "rg_page_id g"
  have pin: "pin_state (pl_state p) ?i = (readers_of p ?i + writers_of p ?i, 0 < writers_of p ?i)" using pool_okD(2)[OF p] by (simp add: pins_match_def)
  have r: "0 < readers_of p ?i" using g by (simp add: readers_of_def)
  show w: "writers_of p ?i = 0"
  proof (rule ccontr)
    assume "writers_of p ?i \<noteq> 0"
    then show False using writer_alone[OF pool_okD(1)[OF p], of ?i "readers_of p ?i + writers_of p ?i"] pin r by simp
  qed
  show "\<exists>n. pin_state (pl_state p) ?i = (Suc n, False)" using pin r w by (cases "readers_of p ?i") auto
qed

lemma writer_pin:
  assumes p: "pool_ok p" and g: "pl_writers p = ws @ g # ws'"
  shows "pin_state (pl_state p) (wg_page_id g) = (1, True)" "readers_of p (wg_page_id g) = 0" "\<forall>h \<in> set (ws @ ws'). wg_page_id h \<noteq> wg_page_id g"
proof -
  let ?i = "wg_page_id g"
  have pin: "pin_state (pl_state p) ?i = (readers_of p ?i + writers_of p ?i, 0 < writers_of p ?i)" using pool_okD(2)[OF p] by (simp add: pins_match_def)
  have w: "writers_of p ?i = Suc (length (filter (\<lambda>h. wg_page_id h = ?i) (ws @ ws')))" using g by (simp add: writers_of_def)
  have one: "readers_of p ?i + writers_of p ?i = 1"
    using writer_alone[OF pool_okD(1)[OF p], of ?i "readers_of p ?i + writers_of p ?i"] pin w by simp
  then show "pin_state (pl_state p) ?i = (1, True)" "readers_of p ?i = 0" using pin w by simp_all
  show "\<forall>h \<in> set (ws @ ws'). wg_page_id h \<noteq> ?i" using one w by (auto simp: filter_empty_conv)
qed

lemma drop_read_simulates:
  assumes p: "pool_ok p" and g: "pl_readers p = gs @ g # gs'" and q: "q = p\<lparr>pl_state := drop_read g (pl_state p), pl_readers := gs @ gs'\<rparr>"
  shows "pool_ok q" "store_step C (pool_view p) (DroppedRead g) (pool_view q)" "wal_rule C (pl_state q) = wal_rule C (pl_state p)"
    "known X (pl_state p) (pl_state q)"
proof -
  let ?i = "rg_page_id g"
  obtain n where n: "pin_state (pl_state p) ?i = (Suc n, False)" using reader_pin(2)[OF p g] by blast
  note e = release_read_effect[OF pool_okD(1)[OF p] n]
  have s: "pl_state q = release_read ?i (pl_state p)" by (simp add: q drop_read_def)
  have "pins_match q"
    using pool_okD(2)[OF p] e(3) n g unfolding pins_match_def s by (auto simp: fun_eq_iff q readers_of_def writers_of_def)
  moreover have "guards_current q" using pool_okD(3)[OF p] g unfolding guards_current_def s e(2) by (simp add: q)
  ultimately show "pool_ok q" using e(1) s by (simp add: pool_ok_def)
  show "store_step C (pool_view p) (DroppedRead g) (pool_view q)" using g e(2) by (auto simp: pool_view_def q drop_read_def)
  show "wal_rule C (pl_state q) = wal_rule C (pl_state p)" using e(4) s by simp
  show "known X (pl_state p) (pl_state q)" using e(2) s by (intro known_same) (simp_all add: release_fields)
qed

lemma drop_write_simulates:
  assumes p: "pool_ok p" and g: "pl_writers p = ws @ g # ws'" and q: "q = p\<lparr>pl_state := drop_write g (pl_state p), pl_writers := ws @ ws'\<rparr>"
  shows "pool_ok q" "store_step C (pool_view p) (DroppedWrite g) (pool_view q)" "wal_rule C (pl_state q) = wal_rule C (pl_state p)"
    "known (event_images (DroppedWrite g)) (pl_state p) (pl_state q)"
proof -
  let ?i = "wg_page_id g"
  note w = writer_pin[OF p g]
  have page: "wf_page (wg_page g)" "\<not> wg_dirty g \<Longrightarrow> view (pl_state p) ?i = Some (page_bytes (wg_page g))"
    using pool_okD(3)[OF p] g by (simp_all add: guards_current_def)
  have s: "pl_state q = release_write ?i (wg_page g) (wg_dirty g) (pl_state p)" by (simp add: q drop_write_def)
  have e: "buffer_ok (pl_state q)" "view (pl_state q) = (view (pl_state p))(?i \<mapsto> page_bytes (wg_page g))"
    "pin_state (pl_state q) = (pin_state (pl_state p))(?i := (0, False))" "wal_rule C (pl_state q) = wal_rule C (pl_state p)"
    using release_write_effect[OF pool_okD(1)[OF p] w(1) page] s by simp_all
  have "pins_match q"
    using pool_okD(2)[OF p] e(3) w g unfolding pins_match_def by (auto simp: fun_eq_iff q readers_of_def writers_of_def filter_empty_conv)
  moreover have "rg_page_id h \<noteq> ?i" if "h \<in> set (pl_readers p)" for h using w(2) that by (auto simp: readers_of_def filter_empty_conv)
  then have "guards_current q" using pool_okD(3)[OF p] g w(3) unfolding guards_current_def e(2) by (auto simp: q)
  ultimately show "pool_ok q" using e(1) by (simp add: pool_ok_def)
  show "store_step C (pool_view p) (DroppedWrite g) (pool_view q)"
    using g e(2) unfolding store_step.simps by (intro exI[of _ ws] exI[of _ ws']) (simp add: pool_view_def set_page_def q)
  show "wal_rule C (pl_state q) = wal_rule C (pl_state p)" by (rule e(4))
  show "known (event_images (DroppedWrite g)) (pl_state p) (pl_state q)"
  proof (cases "wg_dirty g")
    case True
    show ?thesis by (rule known_update[OF _ e(2)]) (simp_all add: s release_fields True)
  next
    case False
    have "view (pl_state q) = view (pl_state p)" using e(2) page(2)[OF False] by auto
    then show ?thesis by (intro known_same) (simp_all add: s release_fields)
  qed
qed

lemma modify_simulates:
  assumes p: "pool_ok p" and g: "pl_writers p = ws @ g # ws'" "wf_page page" and q: "q = p\<lparr>pl_writers := ws @ page_mut page g # ws'\<rparr>"
  shows "pool_ok q" "store_step C (pool_view p) (Modified g page) (pool_view q)"
proof -
  have id: "wg_page_id (page_mut page g) = wg_page_id g" "wg_page (page_mut page g) = page" "wg_dirty (page_mut page g)" by (simp_all add: page_mut_def)
  have "readers_of q = readers_of p" "writers_of q = writers_of p" using g(1) id(1) by (simp_all add: q fun_eq_iff readers_of_def writers_of_def)
  then have "pins_match q" using pool_okD(2)[OF p] by (simp add: pins_match_def q)
  moreover have "guards_current q" using pool_okD(3)[OF p] g id by (simp add: guards_current_def q)
  ultimately show "pool_ok q" using pool_okD(1)[OF p] by (simp add: pool_ok_def q)
  show "store_step C (pool_view p) (Modified g page) (pool_view q)" using g by (auto simp: pool_view_def q)
qed

lemma pool_step_simulates:
  assumes p: "pool_ok p" and st: "pool_step C p e q"
  shows "pool_ok q \<and> store_step C (pool_view p) e (pool_view q) \<and> (wal_rule C (pl_state p) \<longrightarrow> wal_rule C (pl_state q)) \<and>
    known (event_images e) (pl_state p) (pl_state q)"
  using st
proof cases
  case (answered req a s)
  have "pl_state (hold a (p\<lparr>pl_state := s\<rparr>)) = s" by (cases a) simp_all
  then show ?thesis using serve_serves[OF p answered(3,4)] answered(1,2) by (simp add: serves_def del: event_images.simps)
next
  case (refused req e s)
  then show ?thesis using serve_serves[OF p refused(3,4)] by (simp add: serves_def)
next
  case (modified ws g ws' page)
  then show ?thesis using modify_simulates[OF p modified(3,4)] by (simp add: known_same)
next
  case (dropped_read gs g gs')
  show ?thesis using drop_read_simulates[OF p dropped_read(3,2)] dropped_read(1) by (simp del: store_step.simps)
next
  case (dropped_write ws g ws')
  show ?thesis using drop_write_simulates[OF p dropped_write(3,2)] dropped_write(1) by (simp del: store_step.simps event_images.simps)
qed

lemma pool_run_simulates:
  assumes "pool_run C p es q" "pool_ok p"
  shows "pool_ok q \<and> store_run C (pool_view p) es (pool_view q) \<and> (wal_rule C (pl_state p) \<longrightarrow> wal_rule C (pl_state q))"
  using assms
proof (induction rule: pool_run.induct)
  case (pool_run_nil p)
  then show ?case by (simp add: store_run_nil)
next
  case (pool_run_snoc p es q e q')
  then show ?case using pool_step_simulates[OF _ pool_run_snoc.hyps(2)] store_run_snoc by blast
qed

lemma pool_run_known:
  assumes "pool_run C p es q" "pool_ok p"
  shows "known (\<Union>e \<in> set es. event_images e) (pl_state p) (pl_state q)"
  using assms
proof (induction rule: pool_run.induct)
  case (pool_run_nil p)
  then show ?case by (simp add: known_same)
next
  case (pool_run_snoc p es q e q')
  let ?X = "\<Union>e \<in> set (es @ [e]). event_images e"
  have "known (event_images e) (pl_state q) (pl_state q')"
    using pool_step_simulates[OF _ pool_run_snoc.hyps(2)] pool_run_simulates[OF pool_run_snoc.hyps(1) pool_run_snoc.prems] by blast
  then have "known ?X (pl_state q) (pl_state q')" by (rule known_mono) auto
  moreover have "known ?X (pl_state p) (pl_state q)" by (rule known_mono[OF pool_run_snoc.IH[OF pool_run_snoc.prems]]) auto
  ultimately show ?case using known_trans by blast
qed

lemma start_pool_ok:
  assumes "wf_pages m" "atomic_io m" "pool_new m capacity wal = Inr s"
  shows "pool_ok (start_pool s)" "view s = page_img m" "bs_disk s = m" "bs_wal s = wal"
proof -
  have s: "s = \<lparr>bs_disk = m, bs_frames = [], bs_capacity = capacity, bs_next_victim = 0, bs_reuse_inventory_invalid = True, bs_wal = wal\<rparr>" "0 < capacity"
    using assms(3) by (auto simp: pool_new_def validate_capacity_def)
  have at: "frame_at s = Map.empty" using s by (simp add: frame_at_def)
  then have "buffer_ok s" using assms(1,2) s by (simp add: buffer_ok_def frame_ids_def)
  moreover have "pin_state s = (\<lambda>i. (0, False))" using at by (simp add: pin_state_def fun_eq_iff)
  ultimately show "pool_ok (start_pool s)" by (simp add: pool_ok_def start_pool_def pins_match_def guards_current_def readers_of_def writers_of_def)
  show "view s = page_img m" "bs_disk s = m" "bs_wal s = wal" using at s by (simp_all add: view_def fun_eq_iff)
qed


section \<open>A pool of one frame over a growing file\<close>

text \<open>
  A client creates page 1, writes an image with a page LSN into it and drops the guard; reading page 0 then
  evicts page 1, which flushes the log first.
\<close>

definition sample_wal :: "Lsn \<Rightarrow> Lsn option \<Rightarrow> recovery_log" where
  "sample_wal lsn durable = \<lparr>rl_wal = \<lparr>wm_file = [], wm_generation = 1, wm_base_lsn = 1, wm_checkpoint_lsn = None, wm_next_txn_id = 2,
     wm_next_offset = 8281, wm_next_lsn = 8281, wm_written_lsn = Some lsn, wm_durable_lsn = durable,
     wm_last_by_txn = Map.empty, wm_txn_states = Map.empty, wm_reservations = Map.empty, wm_poisoned = False\<rparr>, rl_appends = [], rl_flushes = []\<rparr>"

definition sample_disk :: page_manager where
  "sample_disk = \<lparr>pm_file = replicate 4096 0, pm_count = 1, pm_io = []\<rparr>"

definition sample_state :: "Lsn \<Rightarrow> page_manager \<Rightarrow> buffer_frame list \<Rightarrow> Lsn option \<Rightarrow> buffer_state" where
  "sample_state lsn m fs durable =
     \<lparr>bs_disk = m, bs_frames = fs, bs_capacity = 1, bs_next_victim = 0, bs_reuse_inventory_invalid = True, bs_wal = Some (sample_wal lsn durable)\<rparr>"

abbreviation sample_guard :: "page \<Rightarrow> bool \<Rightarrow> write_guard" where
  "sample_guard page dirty \<equiv> \<lparr>wg_page_id = 1, wg_page = page, wg_dirty = dirty\<rparr>"

abbreviation sample_frame :: "page \<Rightarrow> u32 \<Rightarrow> bool \<Rightarrow> bool \<Rightarrow> buffer_frame" where
  "sample_frame page pins writer dirty \<equiv> \<lparr>bf_page_id = page_id page, bf_page = page, bf_pin_count = pins, bf_writer = writer, bf_dirty = dirty\<rparr>"

definition sample_events :: "byte list \<Rightarrow> pool_event list" where
  "sample_events a =
     [Answered AllocateNew (Writing (sample_guard (page_zero 1) False)), Modified (sample_guard (page_zero 1) False) (page_at 1 a),
      DroppedWrite (sample_guard (page_at 1 a) True)]"

lemma sample_disk_ok: "wf_pages sample_disk" "atomic_io sample_disk" "page_img sample_disk = [0 \<mapsto> replicate 4096 0]"
  by (auto simp: sample_disk_def wf_pages_def atomic_io_def USIZE_MAX_def page_img_def slice_def fun_eq_iff word_less_nat_alt unat_eq_0)

lemma sample_new: "pool_new sample_disk 1 (Some (sample_wal lsn None)) = Inr (sample_state lsn sample_disk [] None)"
  by (simp add: pool_new_def validate_capacity_def sample_state_def)

definition grown_disk :: page_manager where
  "grown_disk = \<lparr>pm_file = replicate 4096 0 @ replicate 4096 0, pm_count = 2, pm_io = []\<rparr>"

lemma grown_disk_ok: "wf_pages grown_disk" "atomic_io grown_disk" "page_img grown_disk 0 = Some (replicate 4096 0)" "page_img grown_disk 1 \<noteq> None"
  by (auto simp: grown_disk_def wf_pages_def atomic_io_def USIZE_MAX_def page_img_def slice_def)

lemma sample_allocate:
  "serve C AllocateNew (sample_state lsn sample_disk [] None) =
    (Inr (Writing (sample_guard (page_zero 1) False)), sample_state lsn grown_disk [sample_frame (page_zero 1) 1 True False] None)"
  by (simp add: sample_state_def sample_disk_def grown_disk_def new_page_def buf_allocate_page_def prepare_frame_def on_disk_def
      Page_Manager.allocate_page_def next_io_def install_frame_def checked_add_u64_def page_zero_def PAGE_SIZE_def)

lemma sample_drop:
  "drop_write (sample_guard (page_at 1 a) True) (sample_state lsn m [sample_frame (page_zero 1) 1 True False] d) =
    sample_state lsn m [sample_frame (page_at 1 a) 0 False True] d"
  by (simp add: sample_state_def drop_write_def release_write_def find_frame_def update_frame_def page_zero_def page_at_def)

lemma sample_run:
  assumes "length a = 4096"
  shows "pool_run C (start_pool (sample_state lsn sample_disk [] None)) (sample_events a)
    (start_pool (sample_state lsn grown_disk [sample_frame (page_at 1 a) 0 False True] None))"
proof -
  let ?g = "sample_guard (page_zero 1) False" and ?h = "sample_guard (page_at 1 a) True"
  let ?p0 = "start_pool (sample_state lsn sample_disk [] None)"
  let ?s1 = "sample_state lsn grown_disk [sample_frame (page_zero 1) 1 True False] None"
  have "pool_step C ?p0 (Answered AllocateNew (Writing ?g)) (hold (Writing ?g) (?p0\<lparr>pl_state := ?s1\<rparr>))"
  proof (rule pool_step.answered)
    show "admissible C (pl_state ?p0) AllocateNew" by (simp add: start_pool_def sample_state_def sample_disk_def page_fits_def USIZE_MAX_def)
    show "serve C AllocateNew (pl_state ?p0) = (Inr (Writing ?g), ?s1)" unfolding start_pool_def pool.simps by (rule sample_allocate)
  qed
  moreover have "pool_step C \<lparr>pl_state = ?s1, pl_readers = [], pl_writers = [?g]\<rparr> (Modified ?g (page_at 1 a)) \<lparr>pl_state = ?s1, pl_readers = [], pl_writers = [?h]\<rparr>"
    using pool_step.modified[of "\<lparr>pl_state = ?s1, pl_readers = [], pl_writers = [?g]\<rparr>" "[]" ?g "[]" "page_at 1 a" C] assms
    by (simp add: page_mut_def wf_page_def page_at_def)
  moreover have "pool_step C \<lparr>pl_state = ?s1, pl_readers = [], pl_writers = [?h]\<rparr> (DroppedWrite ?h)
      (start_pool (sample_state lsn grown_disk [sample_frame (page_at 1 a) 0 False True] None))"
    using pool_step.dropped_write[of "\<lparr>pl_state = ?s1, pl_readers = [], pl_writers = [?h]\<rparr>" "[]" ?h "[]" C]
    by (simp add: sample_drop start_pool_def)
  ultimately show ?thesis
    using pool_run_snoc[OF pool_run_snoc[OF pool_run_snoc[OF pool_run_nil]]] by (simp add: sample_events_def start_pool_def)
qed

lemma sample_write: "length a = 4096 \<Longrightarrow> write_page (page_at 1 a) grown_disk = (Inr (), sample_pages a)"
  by (simp add: write_page_def grown_disk_def sample_pages_def page_at_def ensure_page_exists_def page_offset_def checked_mul_def
      PAGE_SIZE_def USIZE_MAX_def next_io_def copy_at_def word_le_nat_alt)

lemma sample_flush:
  assumes a: "sample_image C 1 lsn a"
  shows "flush_frame C 0 (sample_state lsn grown_disk [sample_frame (page_at 1 a) 0 False True] None) =
    (Inr (), sample_state lsn (sample_pages a) [sample_frame (page_at 1 a) 0 False False] (Some lsn))"
proof -
  note f = sample_image_facts[OF a]
  have p: "page_id (page_at 1 a) = 1" by (simp add: page_at_def)
  have wal: "wal_flush lsn (sample_wal lsn None) = (Inr (), sample_wal lsn (Some lsn))"
    by (simp add: wal_flush_def sample_wal_def flush_through_def ensure_healthy_def)
  show ?thesis
    using f(2) sample_write[OF f(1)] wal p by (simp add: flush_frame_def sample_state_def flush_log_for_def on_disk_def update_frame_def)
qed

definition evict_event :: pool_event where
  "evict_event = Answered (FetchPage 0) (Reading \<lparr>rg_page_id = 0, rg_page = page_at 0 (replicate 4096 0)\<rparr>)"

lemma sample_evict:
  assumes a: "sample_image C 1 lsn a"
  obtains q where "pool_run C (start_pool (sample_state lsn sample_disk [] None)) (sample_events a @ [evict_event]) q"
    "bs_disk (pl_state q) = sample_pages a" "pl_readers q = [\<lparr>rg_page_id = 0, rg_page = page_at 0 (replicate 4096 0)\<rparr>]"
    "bs_wal (pl_state q) = Some (sample_wal lsn (Some lsn))"
proof -
  let ?s = "sample_state lsn grown_disk [sample_frame (page_at 1 a) 0 False True] None" and ?z = "page_at 0 (replicate 4096 0)"
  let ?g = "\<lparr>rg_page_id = 0, rg_page = ?z\<rparr>" and ?t = "sample_state lsn (sample_pages a) [sample_frame (page_at 0 (replicate 4096 0)) 1 False False] (Some lsn)"
  have rd: "Page_Manager.read_page (bs_disk ?s) 0 = Inr ?z"
    using read_page_img[OF grown_disk_ok(1,3)] by (simp add: sample_state_def page_at_def)
  have pr: "prepare_frame C ?s = (Inr 0, sample_state lsn (sample_pages a) [sample_frame (page_at 1 a) 0 False False] (Some lsn))"
    using sample_flush[OF a] by (simp add: prepare_frame_def sample_state_def)
  have "find_frame 0 ?s = None" by (simp add: find_frame_def sample_state_def page_at_def)
  then have "serve C (FetchPage 0) ?s = (Inr (Reading ?g), ?t)"
    using rd pr by (simp add: buf_read_page_def pin_read_def load_page_def) (simp add: install_frame_def sample_state_def)
  then have "pool_step C (start_pool ?s) evict_event (hold (Reading ?g) ((start_pool ?s)\<lparr>pl_state := ?t\<rparr>))"
    unfolding evict_event_def by (intro pool_step.answered) (simp_all add: start_pool_def del: serve.simps)
  from pool_run_snoc[OF sample_run[OF sample_image_facts(1)[OF a]] this] show thesis
    by (rule that) (simp_all add: start_pool_def sample_state_def)
qed

lemma distinct_counts: "(\<And>i. length (filter (\<lambda>x. f x = i) xs) \<le> 1) \<Longrightarrow> distinct (map f xs)"
proof (induction xs)
  case (Cons x xs)
  have "length (filter (\<lambda>y. f y = i) xs) \<le> 1" for i using Cons.prems[of i] by (simp split: if_splits)
  moreover have "filter (\<lambda>y. f y = f x) xs = []" using Cons.prems[of "f x"] by simp
  ultimately show ?case using Cons.IH by (auto simp: filter_empty_conv)
qed simp

text \<open>What the match of pins and guards says of the guards.\<close>

lemma pool_ok_guards:
  assumes p: "pool_ok p"
  shows "distinct (map wg_page_id (pl_writers p))" "rg_page_id ` set (pl_readers p) \<inter> wg_page_id ` set (pl_writers p) = {}"
    "rg_page_id ` set (pl_readers p) \<union> wg_page_id ` set (pl_writers p) \<subseteq> set (frame_ids (pl_state p))"
proof -
  have pin: "pin_state (pl_state p) i = (readers_of p i + writers_of p i, 0 < writers_of p i)" for i using pool_okD(2)[OF p] by (simp add: pins_match_def)
  have one: "writers_of p i \<noteq> 0 \<Longrightarrow> readers_of p i + writers_of p i = 1" for i
    using writer_alone[OF pool_okD(1)[OF p], of i "readers_of p i + writers_of p i"] pin[of i] by simp
  have "writers_of p i \<le> 1" for i using one[of i] by (cases "writers_of p i = 0") auto
  then show "distinct (map wg_page_id (pl_writers p))" by (intro distinct_counts) (simp add: writers_of_def)
  have lock: "i \<in> rg_page_id ` set (pl_readers p) \<longleftrightarrow> readers_of p i \<noteq> 0" "i \<in> wg_page_id ` set (pl_writers p) \<longleftrightarrow> writers_of p i \<noteq> 0" for i
    by (auto simp: readers_of_def writers_of_def filter_empty_conv)
  show "rg_page_id ` set (pl_readers p) \<inter> wg_page_id ` set (pl_writers p) = {}"
  proof (rule equals0I)
    fix i assume "i \<in> rg_page_id ` set (pl_readers p) \<inter> wg_page_id ` set (pl_writers p)"
    then have "readers_of p i \<noteq> 0" "writers_of p i \<noteq> 0" using lock by blast+
    then show False using one[of i] by simp
  qed
  show "rg_page_id ` set (pl_readers p) \<union> wg_page_id ` set (pl_writers p) \<subseteq> set (frame_ids (pl_state p))"
  proof
    fix i assume "i \<in> rg_page_id ` set (pl_readers p) \<union> wg_page_id ` set (pl_writers p)"
    then have "readers_of p i \<noteq> 0 \<or> writers_of p i \<noteq> 0" using lock by blast
    then have "fst (pin_state (pl_state p) i) \<noteq> 0" using pin[of i] by auto
    then show "i \<in> set (frame_ids (pl_state p))" using frame_at_None[of "pl_state p" i] by (auto simp: pin_state_def)
  qed
qed

section \<open>What the pool guarantees\<close>

text \<open>
  C12. The buffer pool is a page store. Start a pool of any capacity on a well-formed page file and let clients
  read, lock, allocate, modify, release, flush, roll back, publish and truncate pages in any order, with page
  writes failing at will: every step is a step of the abstract store, in which there are no frames, no
  eviction and no disk, a page has many readers or one writer, and a released page is what was written.
\<close>

theorem pool_refines_store:
  assumes "wf_pages m" "atomic_io m" "pool_new m capacity wal = Inr s" "pool_run C (start_pool s) es p"
  shows "store_run C \<lparr>ps_pages = page_img m, ps_readers = [], ps_writers = []\<rparr> es (pool_view p)"
  using pool_run_simulates[OF assms(4) start_pool_ok(1)[OF assms(1-3)]] start_pool_ok(2)[OF assms(1-3)]
  by (simp add: pool_view_def start_pool_def)

theorem pool_refines_store_witness:
  "\<exists>a p. sample_image sample_crc 1 41 a \<and> page_img (bs_disk (pl_state p)) 1 = Some a \<and>
     store_run sample_crc \<lparr>ps_pages = [0 \<mapsto> replicate 4096 0], ps_readers = [], ps_writers = []\<rparr>
       (sample_events a @ [evict_event]) (pool_view p)"
proof -
  obtain a where a: "sample_image sample_crc 1 41 a" using sample_image_exists by force
  from sample_evict[OF a] obtain p where p: "pool_run sample_crc (start_pool (sample_state 41 sample_disk [] None))
      (sample_events a @ [evict_event]) p"
    "bs_disk (pl_state p) = sample_pages a" by blast
  have "page_img (bs_disk (pl_state p)) 1 = Some a" using p(2) sample_page_1 sample_image_facts(1)[OF a] by simp
  then show ?thesis using pool_refines_store[OF sample_disk_ok(1,2) sample_new p(1)] a sample_disk_ok(3) by auto
qed

text \<open>
  C13. Write-ahead logging. If the page file starts out with no page ahead of the log, then at every moment of
  every run of the pool, after any flush or eviction and after any failed write, each page on disk that
  carries a page LSN has its log record durable.
\<close>

theorem pool_write_ahead:
  assumes "wf_pages m" "atomic_io m" "pool_new m capacity wal = Inr s" "pool_run C (start_pool s) es p"
    and "\<And>i bs. page_img m i = Some bs \<Longrightarrow> logged C wal i bs"
    and "page_img (bs_disk (pl_state p)) i = Some bs" "page_lsn C (page_at i bs) = Inr (Some lsn)" "i \<noteq> 0"
  shows "\<exists>l. bs_wal (pl_state p) = Some l \<and> (\<exists>d. wm_durable_lsn (rl_wal l) = Some d \<and> lsn \<le> d)"
proof -
  have "wal_rule C s" using assms(5) start_pool_ok(3,4)[OF assms(1-3)] by (simp add: wal_rule_def)
  then have "wal_rule C (pl_state p)"
    using pool_run_simulates[OF assms(4) start_pool_ok(1)[OF assms(1-3)]] by (simp add: start_pool_def)
  then obtain l where "bs_wal (pl_state p) = Some l" "durable_upto l lsn" using assms(6-8) unfolding wal_rule_def logged_def by blast
  then show ?thesis by (cases "wm_durable_lsn (rl_wal l)") (simp_all add: durable_upto_def)
qed

theorem pool_write_ahead_witness:
  "\<exists>a p l. pool_run sample_crc (start_pool (sample_state 41 sample_disk [] None))
      (sample_events a @ [evict_event]) p \<and>
    wm_durable_lsn (rl_wal (sample_wal 41 None)) = None \<and> bs_wal (pl_state p) = Some l \<and> (\<exists>d. wm_durable_lsn (rl_wal l) = Some d \<and> 41 \<le> d)"
proof -
  obtain a where a: "sample_image sample_crc 1 41 a" using sample_image_exists by force
  from sample_evict[OF a] obtain p where p: "pool_run sample_crc (start_pool (sample_state 41 sample_disk [] None))
      (sample_events a @ [evict_event]) p"
    "bs_disk (pl_state p) = sample_pages a" by blast
  have img: "page_img (bs_disk (pl_state p)) 1 = Some a" using p(2) sample_page_1 sample_image_facts(1)[OF a] by simp
  have init: "logged sample_crc (Some (sample_wal 41 None)) i bs" if "page_img sample_disk i = Some bs" for i bs
    using that by (auto simp: sample_disk_ok(3) logged_def split: if_splits)
  have "\<exists>l. bs_wal (pl_state p) = Some l \<and> (\<exists>d. wm_durable_lsn (rl_wal l) = Some d \<and> 41 \<le> d)"
    by (rule pool_write_ahead[OF sample_disk_ok(1,2) sample_new p(1) init img sample_image_facts(2)[OF a]]) simp_all
  then show ?thesis using p(1) by (auto simp: sample_wal_def)
qed

text \<open>
  C14. Guards exclude each other and stay current. In every state a pool can reach, no page has two write
  guards or a write guard and a read guard, the page of every guard is cached, so that it cannot be evicted,
  a read guard still shows the page as the pool has it, and there are at most as many frames as the capacity.
\<close>

theorem pool_guards_exclusive:
  assumes "wf_pages m" "atomic_io m" "pool_new m capacity wal = Inr s" "pool_run C (start_pool s) es p"
  shows "distinct (map wg_page_id (pl_writers p)) \<and>
    rg_page_id ` set (pl_readers p) \<inter> wg_page_id ` set (pl_writers p) = {} \<and>
    rg_page_id ` set (pl_readers p) \<union> wg_page_id ` set (pl_writers p) \<subseteq> set (frame_ids (pl_state p)) \<and>
    (\<forall>g \<in> set (pl_readers p). view (pl_state p) (rg_page_id g) = Some (page_bytes (rg_page g))) \<and>
    length (bs_frames (pl_state p)) \<le> bs_capacity (pl_state p)"
proof -
  have ok: "pool_ok p" using pool_run_simulates[OF assms(4) start_pool_ok(1)[OF assms(1-3)]] by blast
  note r = pool_ok_guards[OF ok] and c = pool_okD(3)[OF ok] and b = buffer_okD(5)[OF pool_okD(1)[OF ok]]
  show ?thesis using r c b by (simp add: guards_current_def)
qed

theorem pool_guards_exclusive_witness:
  "\<exists>p :: pool. rg_page_id ` set (pl_readers p) = {0} \<and> {0} \<subseteq> set (frame_ids (pl_state p)) \<and> length (bs_frames (pl_state p)) \<le> bs_capacity (pl_state p)"
proof -
  obtain a where a: "sample_image sample_crc 1 41 a" using sample_image_exists by force
  from sample_evict[OF a] obtain p where p: "pool_run sample_crc (start_pool (sample_state 41 sample_disk [] None))
      (sample_events a @ [evict_event]) p"
    "pl_readers p = [\<lparr>rg_page_id = 0, rg_page = page_at 0 (replicate 4096 0)\<rparr>]" by blast
  show ?thesis by (rule exI[of _ p]) (use pool_guards_exclusive[OF sample_disk_ok(1,2) sample_new p(1)] p(2) in simp)
qed

text \<open>
  C15. A checkpoint loses nothing. When flushing all pages succeeds, in any state a pool can reach, the page
  file holds every page as the pool showed it before, and a pool started afresh on that file shows the same.
\<close>

theorem flush_all_persists:
  assumes "wf_pages m" "atomic_io m" "pool_new m capacity wal = Inr s" "pool_run C (start_pool s) es p"
    and "flush_all C (pl_state p) = (Inr (), s')" "pool_new (bs_disk s') capacity' wal' = Inr s''"
  shows "page_img (bs_disk s') = view (pl_state p) \<and> view s'' = view (pl_state p)"
proof -
  have ok: "buffer_ok (pl_state p)" using pool_run_simulates[OF assms(4) start_pool_ok(1)[OF assms(1-3)]] by (simp add: pool_ok_def)
  note f = flush_all_effect[OF ok assms(5)]
  have d: "page_img (bs_disk s') = view (pl_state p)" using f(2) by (simp add: is_ok_def)
  have "view s'' = page_img (bs_disk s')" using start_pool_ok(2)[OF _ _ assms(6)] buffer_okD(1,2)[OF quietD(1)[OF f(1)]] by blast
  then show ?thesis using d by simp
qed

theorem flush_all_persists_witness:
  "\<exists>a s' s''. sample_image sample_crc 1 41 a \<and>
     flush_all sample_crc (sample_state 41 grown_disk [sample_frame (page_at 1 a) 0 False True] None) = (Inr (), s') \<and>
     page_img grown_disk 1 \<noteq> Some a \<and> pool_new (bs_disk s') 1 None = Inr s'' \<and> view s'' 1 = Some a"
proof -
  obtain a where a: "sample_image sample_crc 1 41 a" using sample_image_exists by force
  let ?s = "sample_state 41 grown_disk [sample_frame (page_at 1 a) 0 False True] None"
  let ?t = "sample_state 41 (sample_pages a) [sample_frame (page_at 1 a) 0 False False] (Some 41)"
  have sync: "pm_sync (sample_pages a) = (Inr (), sample_pages a)" by (simp add: pm_sync_def next_io_def sample_pages_def)
  have fl: "flush_all sample_crc ?s = (Inr (), ?t)"
    using sample_flush[OF a] sync by (simp add: flush_all_def sample_state_def on_disk_def)
  have new: "pool_new (bs_disk ?t) 1 None = Inr
      \<lparr>bs_disk = sample_pages a, bs_frames = [], bs_capacity = 1, bs_next_victim = 0, bs_reuse_inventory_invalid = True, bs_wal = None\<rparr>"
    by (simp add: pool_new_def validate_capacity_def sample_state_def)
  have fl': "flush_all sample_crc (pl_state (start_pool ?s)) = (Inr (), ?t)"
    using fl by (simp add: start_pool_def)
  have v: "view (pl_state (start_pool ?s)) 1 = Some a" by (simp add: start_pool_def view_def frame_at_def sample_state_def page_at_def)
  have "page_img grown_disk 1 = Some (replicate 4096 0)" by (simp add: grown_disk_def page_img_def slice_def)
  moreover have "replicate 4096 0 \<noteq> a" using sample_image_facts(4)[OF a] all_zero_replicate by metis
  ultimately show ?thesis
    using flush_all_persists[OF sample_disk_ok(1,2) sample_new sample_run[OF sample_image_facts(1)[OF a]] fl' new] fl new a v by force
qed

end
