(* ===== verification/Spec2Isabelle.thy ===== *)
theory Spec2Isabelle
  imports Row_Codec Ordered_Map Index_Split Index_Catalog Mvcc Buffer_Correct
begin

text \<open>
  Verification of the storage core of NetbaDB, a strongly typed relational database written in Rust
  (\<open>src/\<close>). The development follows the data of a row from its schema down to the disk and back: scalar
  types and schemas, the row codec, the B+-tree index domain, slotted pages, multi-version tuples, the
  transaction-status store, the write-ahead log, the page file, crash recovery and the buffer pool.

  \<^bold>\<open>Parts of the program and the theories that model them.\<close> A theory names its source files in its opening
  text, and its definitions keep the names of the functions and types they translate.

  \<^item> \<^bold>\<open>Shared vocabulary\<close>. \<open>Prelude\<close>: machine integers, results \<open>('e, 'a) res\<close> with \<open>bindR\<close> for the \<open>?\<close>
    operator, checked arithmetic, slices, little-endian codecs, UTF-8, and the locale \<open>cursor_codec\<close>, the
    contract of an encoder and the decoder that reads it back from a position in a payload.
    \<open>Ordering_Search\<close>: \<open>std::cmp::Ordering\<close>, \<open>binary_search_by\<close> with the loop of the standard library, and
    the locale \<open>total_cmp\<close>. \<open>Ordered_Map\<close>: \<open>BTreeMap\<close>, with the locale \<open>map_laws\<close>.
  \<^item> \<^bold>\<open>Types, schemas, rows\<close>. \<open>Scalar_Types\<close> (\<open>crates/netbadb-types\<close>), \<open>Schema\<close> (\<open>crates/netbadb-schema\<close>),
    \<open>Row_Codec\<close> (\<open>crates/netbadb-row-codec\<close>).
  \<^item> \<^bold>\<open>Index domain\<close> (\<open>crates/netbadb-index\<close>). \<open>Index_Types\<close>, \<open>Index_Node\<close> (leaf and internal nodes),
    \<open>Index_Codec\<close> (page payloads and retired-page markers), \<open>Index_Split\<close> (sizes, splits, merges),
    \<open>Index_Catalog\<close> (the catalog page with versions 2 to 9).
  \<^item> \<^bold>\<open>Heap engine\<close> (\<open>crates/netbadb-heap/src\<close>). \<open>Heap_Types\<close> (\<open>error.rs\<close> and shared data), \<open>Page\<close> and
    \<open>Page_Manager\<close> (\<open>page.rs\<close>), \<open>Mvcc\<close> (\<open>mvcc.rs\<close> and the vacuum test of \<open>heap.rs\<close>), \<open>Txn_Status\<close>
    (\<open>txn_status.rs\<close>), \<open>Allocation_Transition\<close> (\<open>allocation_transition.rs\<close>), \<open>Wal\<close> and \<open>Wal_Log\<close> (\<open>wal.rs\<close>),
    \<open>Recovery\<close> and \<open>Recovery_Correct\<close> (\<open>recovery.rs\<close>), \<open>Buffer\<close>, \<open>Buffer_Effects\<close> and \<open>Buffer_Correct\<close>
    (\<open>buffer.rs\<close>).

  \<^bold>\<open>State and effects.\<close> A struct is a record and an enum a datatype. A method that changes its receiver takes
  the record and returns it updated beside its result, also when the result is an error, so that what a
  failed operation leaves behind is part of the model. \<open>Rc\<close> and \<open>RefCell\<close> are state passing; dropping a
  guard is the release operation that \<open>Drop\<close> runs. A file is its list of bytes. The operating system's
  answer to each write, sync or truncation is data of the model: the page manager carries the answers to
  come (\<open>pm_io\<close>), the log during recovery and under the pool carries its own (\<open>rl_appends\<close>, \<open>rl_flushes\<close>),
  and the status store and the log manager take theirs as arguments. CRC-32C and SHA-256 are third-party
  code and parameters; nothing is assumed of them.

  \<^bold>\<open>What the lemmas show.\<close>

  \<^item> Codecs: rows, keys, entries, nodes, catalog pages, tuples, log records and status records decode to what
    was encoded, what a decoder accepts is well formed, and older versions migrate. The cursor codecs share
    one contract, interpreted for scalars, keys, entries, separators and catalog parts.
  \<^item> Nodes: leaf operations implement a finite set of entries under the comparator laws of \<open>total_cmp\<close>, child
    routing is exact, and splits partition entries and separators and succeed whenever a boundary fits.
  \<^item> Pages: insertion, replacement, deletion and reading are characterised on every branch against the list of
    slots a page represents, and no slot locator is handed out twice over any history.
  \<^item> Transactions: decisions are final and survive reopening, a snapshot sees the same versions whatever
    commits later, and vacuum takes only versions no snapshot can see.
  \<^item> Log: a scan accepts only what appends produce, reopening after any history recovers its records, and a
    rotation that fails anywhere leaves one generation to select with nothing lost.
  \<^item> Recovery: it ends on every scanned log, leaves each page at the image of its last committed record, can
    be run again after failing anywhere, and finishes the losers. Two logs that the running system can
    produce are shown to be refused.
  \<^item> Buffer pool: \<open>Buffer_Effects\<close> states for each operation what it does to the pages a client sees and to
    the pins; flushing and eviction are \<open>quiet\<close>, rollback and transitions \<open>touches\<close> one unpinned page. The
    locale \<open>durable_log\<close> is what the pool needs of the log, interpreted on \<open>flush_through\<close>.
    \<open>Buffer_Correct\<close> runs the pool with its clients as a labelled step relation \<open>pool_step\<close> and shows by
    simulation that it is a page store with shared readers and one writer (\<open>store_step\<close>), that no page
    reaches the disk before its log record, that guards exclude each other, and that a checkpoint keeps
    every page.
  \<^item> Crash safety, below: the pool, the log and recovery together. The images on disk at any moment are images
    that were in view before (\<open>known\<close> in \<open>Buffer_Effects\<close>), none is ahead of the durable log, and so a crash
    leaves a file and a log from which recovery restores every committed change.

  \<^bold>\<open>Bounds, fuel and assumptions.\<close> There is no fuel: every loop is structural or has a termination proof,
  except the undo walk of recovery, a \<open>partial_function (option)\<close> that is proved to return on every log a
  scan accepts. \<open>usize\<close> is 64 bits wide; lengths are natural numbers with the checked operations of the
  source, and payloads that fit in memory are at most \<open>isize::MAX\<close> bytes (\<open>fits\<close>). Recovery and the pool
  assume that the device writes a page completely or not at all (\<open>atomic_io\<close>): torn pages are detected by
  the page checksum but not repaired by the program. The data file stays below \<open>2\<^sup>6\<^sup>4\<close> bytes.

  \<^bold>\<open>Not modelled.\<close> File locks, paths and directory entries, which are operating-system state;
  \<open>Display\<close> implementations and the numbers inside formatted messages; \<open>RefCell\<close> borrow conflicts, which a
  sequential model cannot have. Of the heap engine, the drivers that combine the modelled parts: the
  on-page B+-tree (\<open>btree.rs\<close>, \<open>btree_allocator.rs\<close>, \<open>index_ownership.rs\<close>, \<open>index_tail_reclaim.rs\<close>,
  \<open>historical_orphan.rs\<close>), transaction coordination (\<open>transaction.rs\<close>) and the table engine (\<open>heap.rs\<close>).
  The layers above and beside the heap engine: the embedded core, parser, typed intermediate
  representations, planner and executor, the LSM engine, columnar projections and change stream with their
  own formats, and the protocol, server, client, command-line and tooling crates, which are input and
  output around them.
\<close>


section \<open>Crash safety\<close>

text \<open>
  The discipline of the pool's clients: an image that a step brings into the pool is the image the page has
  in the file at the start, the zeros of a page that was not there, or the after image of a log record.
\<close>

definition run_logged :: "wal_record list \<Rightarrow> page_manager \<Rightarrow> pool_event list \<Rightarrow> bool" where
  "run_logged L m es \<longleftrightarrow> (\<forall>e \<in> set es. \<forall>(i, bs) \<in> event_images e.
     page_img m i = Some bs \<or> page_img m i = None \<and> all_zero_bytes bs \<or>
     (\<exists>r \<in> set L. \<exists>before. page_change (rec_kind r) = Some (i, before, bs)))"

text \<open>The records appended so far: plain page updates whose images passed the checks of an append.\<close>

definition appended :: "crc \<Rightarrow> wal_record list \<Rightarrow> bool" where
  "appended C L \<longleftrightarrow> (\<forall>r \<in> set L. \<not> is_transition (rec_kind r) \<and> validate_page_images C (rec_lsn r) (rec_kind r) = Inr () \<and>
     (\<forall>before after. page_change (rec_kind r) \<noteq> Some (0, before, after)))"

text \<open>
  What a crash leaves of the log: a prefix that a scan accepts and that holds at least the durable records.
  No transaction in it is rolled back completely, and the first record of each page starts from the page as
  the file had it at the start.
\<close>

definition crash_log :: "crc \<Rightarrow> wal_header \<Rightarrow> wal_record list \<Rightarrow> page_manager \<Rightarrow> recovery_log option \<Rightarrow> wal_record list \<Rightarrow> bool" where
  "crash_log C h L m w records \<longleftrightarrow>
     (\<exists>rest. L = records @ rest) \<and> log_accepted C h records \<and> (\<forall>t. \<not> rolled_back_in (analyze records) t) \<and>
     (\<forall>l. w = Some l \<longrightarrow> (\<forall>r \<in> set L. durable_upto l (rec_lsn r) \<longrightarrow> r \<in> set records)) \<and>
     (\<forall>i. lineage (change_history (analyze records) records i) \<and>
        (\<forall>r rs. change_history (analyze records) records i = r # rs \<longrightarrow> page_fits i \<and>
           (case page_img m i of Some bs \<Rightarrow> before_image r = bs | None \<Rightarrow> all_zero_bytes (before_image r))))"

lemma history_records:
  assumes "change_history ts records i = r # rs"
  shows "r \<in> set records" "\<exists>before after. page_change (rec_kind r) = Some (i, before, after)"
proof -
  have "r \<in> set (change_history ts records i)" using assms by simp
  then show "r \<in> set records" "\<exists>before after. page_change (rec_kind r) = Some (i, before, after)"
    by (auto simp: change_history_def split: option.splits)
qed

lemma before_image_length:
  assumes "log_accepted C h records" "change_history ts records i = r # rs" "\<not> is_transition (rec_kind r)"
  shows "length (before_image r) = 4096"
proof -
  have acc: "accepts C (wh_base_lsn h) 48 empty_scan records" using assms(1) by (simp add: log_accepted_def)
  have "wf_kind (rec_kind r)" using accepts_wf[OF acc history_records(1)[OF assms(2)]] .
  then show ?thesis using history_records(2)[OF assms(2)] assms(3) by (cases "rec_kind r") (auto simp: before_image_def PAGE_SIZE_def)
qed

lemma logged_image_durable:
  assumes ap: "appended C L" and cl: "crash_log C h L m w records" and r: "r \<in> set L" "page_change (rec_kind r) = Some (i, before, bs)"
    and lg: "logged C w i bs"
  shows "r \<in> set (change_history (analyze records) records i)" "after_image r = bs"
proof -
  obtain before' after' where k: "rec_kind r = PageUpdate i before' after'" "after' = bs"
    using r ap by (cases "rec_kind r") (auto simp: appended_def)
  then have "page_lsn C (page_at i bs) = Inr (Some (rec_lsn r))" using update_images(1)[of C "rec_lsn r" i before' bs] ap r(1) by (auto simp: appended_def)
  moreover have "i \<noteq> 0" using ap r by (auto simp: appended_def)
  ultimately obtain l where "w = Some l" "durable_upto l (rec_lsn r)" using lg by (auto simp: logged_def)
  then have "r \<in> set records" using cl r(1) by (simp add: crash_log_def)
  then show "r \<in> set (change_history (analyze records) records i)" using cl r(2) by (simp add: change_history_def crash_log_def)
  show "after_image r = bs" using r(2) by (simp add: after_image_def)
qed

text \<open>A page that is on disk at the crash shows one of its versions in the remaining log.\<close>

lemma crash_image_version:
  assumes ap: "appended C L" and cl: "crash_log C h L m w records" and H: "change_history (analyze records) records i = r # rs"
    and img: "page_img m i = Some bs \<or> page_img m i = None \<and> all_zero_bytes bs \<or> (\<exists>r \<in> set L. \<exists>before. page_change (rec_kind r) = Some (i, before, bs))"
    and lg: "logged C w i bs" and len: "length bs = 4096"
  shows "crash_version (r # rs) (Some bs)"
proof -
  have log: "log_accepted C h records" "set records \<subseteq> set L"
    and first: "case page_img m i of Some bs \<Rightarrow> before_image r = bs | None \<Rightarrow> all_zero_bytes (before_image r)"
    using cl H by (auto simp: crash_log_def)
  have "\<not> is_transition (rec_kind r)" using ap log(2) history_records(1)[OF H] by (auto simp: appended_def)
  note len0 = before_image_length[OF log(1) H this]
  consider "page_img m i = Some bs" | "page_img m i = None" "all_zero_bytes bs"
    | q before where "q \<in> set L" "page_change (rec_kind q) = Some (i, before, bs)" using img by metis
  then show ?thesis
  proof cases
    case 1
    then show ?thesis using first by simp
  next
    case 2
    then show ?thesis using first zero_image[OF len] zero_image[OF len0] by simp
  next
    case 3
    note q = logged_image_durable[OF ap cl 3 lg]
    then have "bs \<in> after_image ` set (r # rs)" using H by auto
    then show ?thesis by auto
  qed
qed

lemma crash_is_recoverable:
  assumes start: "wf_pages m" "atomic_io m" "pool_new m capacity wal = Inr s" "\<And>i bs. page_img m i = Some bs \<Longrightarrow> logged C wal i bs"
    and run: "pool_run C (start_pool s) es p" "run_logged L m es" "pm_count m \<le> pm_count (bs_disk (pl_state p))"
    and log: "appended C L" "crash_log C h L m (bs_wal (pl_state p)) records" and io: "set io \<subseteq> {PageIoDone, PageIoFailed 0}"
  shows "recoverable C h records ((bs_disk (pl_state p))\<lparr>pm_io := io\<rparr>)"
proof -
  let ?d = "bs_disk (pl_state p)" and ?H = "change_history (analyze records) records"
  note st = start_pool_ok[OF start(1-3)]
  note sim = pool_run_simulates[OF run(1) st(1)]
  have ok: "buffer_ok (pl_state p)" using sim by (simp add: pool_ok_def)
  have "wal_rule C s" using start(4) st(3,4) by (simp add: wal_rule_def)
  then have rule: "wal_rule C (pl_state p)" using sim by (simp add: start_pool_def)
  have kn: "known (\<Union>e \<in> set es. event_images e) s (pl_state p)" using pool_run_known[OF run(1) st(1)] by (simp add: start_pool_def)
  have ver: "crash_version (?H i) (page_img ?d i)" for i
  proof (cases "?H i")
    case (Cons r rs)
    show ?thesis
    proof (cases "page_img ?d i")
      case None
      then have "page_img m i = None" using run(3) by (auto simp: page_img_def split: if_splits)
      moreover have "case page_img m i of Some bs \<Rightarrow> before_image r = bs | None \<Rightarrow> all_zero_bytes (before_image r)"
        using log(2) Cons unfolding crash_log_def by blast
      ultimately show ?thesis using None Cons by simp
    next
      case (Some bs)
      from kn Some have "page_img (bs_disk s) i = Some bs \<or> view s i = Some bs \<or> (\<exists>e \<in> set es. (i, bs) \<in> event_images e)" by (auto simp: known_def)
      then have img: "page_img m i = Some bs \<or> page_img m i = None \<and> all_zero_bytes bs \<or> (\<exists>r \<in> set L. \<exists>before. page_change (rec_kind r) = Some (i, before, bs))"
        using st(2,3) run(2) by (auto simp: run_logged_def)
      have "logged C (bs_wal (pl_state p)) i bs" using rule Some by (simp add: wal_rule_def)
      from crash_image_version[OF log Cons img this page_img_length[OF buffer_okD(1)[OF ok] Some]] show ?thesis using Cons Some by simp
    qed
  qed simp
  have "wf_pages (?d\<lparr>pm_io := io\<rparr>)" "page_img (?d\<lparr>pm_io := io\<rparr>) = page_img ?d" "atomic_io (?d\<lparr>pm_io := io\<rparr>)"
    using buffer_okD(1)[OF ok] io by (simp_all add: wf_pages_def page_img_def fun_eq_iff atomic_io_def)
  then have "crash_pages (analyze records) records (?d\<lparr>pm_io := io\<rparr>)" using ver by (simp add: crash_pages_def)
  moreover have "lineage (?H i) \<and> (?H i \<noteq> [] \<longrightarrow> page_fits i)" for i
    using log(2) unfolding crash_log_def by (metis list.exhaust)
  moreover have "log_accepted C h records" "\<forall>r \<in> set records. \<not> is_transition (rec_kind r)"
    using log by (auto simp: crash_log_def appended_def)
  ultimately show ?thesis by (simp add: recoverable_def)
qed



end
